(* ===== verification/Prelude.thy ===== *)
theory Prelude
  imports Complex_Main "HOL-Library.Multiset" "HOL-Library.AList"
begin

text \<open>
  Shared vocabulary of the development: Python's exceptions as values, the result type of
  fallible code, Python's list operations (slices with a stride, chunking, removal by
  position), insertion-ordered dictionaries as association lists, and the generic lemmas
  the component theories rest on.

  Conventions used everywhere below.
  \<^item> Python's \<open>int\<close> is \<open>int\<close>; list positions and lengths are \<open>nat\<close>.
  \<^item> A function that may raise returns \<open>'a res\<close>, with \<open>Inl\<close> the exception.
  \<^item> Third-party routines whose result is not fixed by the sources (random permutations,
    \<open>numpy.argsort\<close>, \<open>numpy.searchsorted\<close>, \<open>numpy.array_split\<close>) are function arguments.
\<close>

subsection \<open>Exceptions as values\<close>

datatype py_error =
    ValueError
  | TypeError
  | KeyError
  | IndexError
  | RuntimeError
  | AssertionError
  | OverflowError
  | ZeroDivisionError
  | NotImplementedError
  | StopIteration
  | FileNotFoundError

type_synonym 'a res = "py_error + 'a"

named_theorems res_simps

definition rbind :: "'a res \<Rightarrow> ('a \<Rightarrow> 'b res) \<Rightarrow> 'b res" where
  "rbind m f = (case m of Inl e \<Rightarrow> Inl e | Inr x \<Rightarrow> f x)"

lemma rbind_simps [simp]:
  "rbind (Inl e) f = Inl e"
  "rbind (Inr x) f = f x"
  by (simp_all add: rbind_def)

lemma rbind_Inr_iff [res_simps]:
  "rbind m f = Inr y \<longleftrightarrow> (\<exists>x. m = Inr x \<and> f x = Inr y)"
  by (cases m) auto

lemma rbind_Inl_iff [res_simps]:
  "rbind m f = Inl e \<longleftrightarrow> m = Inl e \<or> (\<exists>x. m = Inr x \<and> f x = Inl e)"
  by (cases m) auto

text \<open>A loop that builds a list and stops at the first exception.\<close>

fun rmap :: "('a \<Rightarrow> 'b res) \<Rightarrow> 'a list \<Rightarrow> 'b list res" where
  "rmap f [] = Inr []"
| "rmap f (x # xs) = rbind (f x) (\<lambda>y. rbind (rmap f xs) (\<lambda>ys. Inr (y # ys)))"

lemma rmap_Inr_iff:
  "rmap f xs = Inr ys \<longleftrightarrow> list_all2 (\<lambda>x y. f x = Inr y) xs ys"
  by (induction xs arbitrary: ys) (auto simp: res_simps list_all2_Cons1)

lemma rmap_total:
  "(\<And>x. x \<in> set xs \<Longrightarrow> f x = Inr (g x)) \<Longrightarrow> rmap f xs = Inr (map g xs)"
  by (induction xs) auto

lemma rmap_map: "rmap f (map g xs) = rmap (\<lambda>x. f (g x)) xs"
  by (induction xs) auto

lemma rmap_cong [fundef_cong]: "xs = ys \<Longrightarrow> (\<And>x. x \<in> set ys \<Longrightarrow> f x = g x) \<Longrightarrow> rmap f xs = rmap g ys"
  by (induction ys arbitrary: xs) auto

lemma rmap_append: "rmap f (xs @ ys) = rbind (rmap f xs) (\<lambda>us. rbind (rmap f ys) (\<lambda>vs. Inr (us @ vs)))"
  by (induction xs) (auto simp: rbind_def split: sum.splits)

lemma rmap_concat:
  "(\<And>xs. xs \<in> set xss \<Longrightarrow> rmap f xs = Inr (g xs)) \<Longrightarrow> rmap f (concat xss) = Inr (concat (map g xss))"
  by (induction xss) (auto simp: rmap_append)

lemma rmap_first_error:
  "(\<And>x. x \<in> set xs \<Longrightarrow> f x = Inl e \<or> (\<exists>y. f x = Inr y)) \<Longrightarrow> \<exists>x \<in> set xs. f x = Inl e \<Longrightarrow> rmap f xs = Inl e"
proof (induction xs)
  case (Cons x xs)
  then show ?case by (cases "f x = Inl e") (force simp: rbind_def)+
qed simp

lemma rmap_unit_iff: "(\<exists>ys. rmap f xs = Inr (ys :: unit list)) \<longleftrightarrow> (\<forall>x \<in> set xs. f x = Inr ())"
  by (induction xs) (auto simp: res_simps)

lemma rmap_length: "rmap f xs = Inr ys \<Longrightarrow> length ys = length xs"
  by (auto simp: rmap_Inr_iff list_all2_lengthD)

lemma distinct_concat_map:
  "distinct xs \<Longrightarrow> (\<And>x. x \<in> set xs \<Longrightarrow> distinct (f x)) \<Longrightarrow>
     (\<And>x y. x \<in> set xs \<Longrightarrow> y \<in> set xs \<Longrightarrow> x \<noteq> y \<Longrightarrow> set (f x) \<inter> set (f y) = {}) \<Longrightarrow> distinct (concat (map f xs))"
proof (induction xs)
  case (Cons a xs)
  have "set (f a) \<inter> set (f y) = {}" if "y \<in> set xs" for y
    by (rule Cons.prems(3)) (use Cons.prems(1) that in auto)
  then have "set (f a) \<inter> set (concat (map f xs)) = {}" by auto
  moreover have "distinct (concat (map f xs))"
    by (rule Cons.IH) (use Cons.prems(1) in simp, use Cons.prems(2) in simp, use Cons.prems(3) in simp)
  ultimately show ?case using Cons.prems(2) by simp
qed simp

lemma distinct_concat_mapD:
  "distinct (concat (map f xs)) \<Longrightarrow> x \<in> set xs \<Longrightarrow> y \<in> set xs \<Longrightarrow> x \<noteq> y \<Longrightarrow> set (f x) \<inter> set (f y) = {}"
  by (induction xs) auto

lemma distinct_concat_sorted_wrt:
  "(\<And>x. x \<in> set xs \<Longrightarrow> distinct (f x)) \<Longrightarrow> sorted_wrt (\<lambda>x y. set (f x) \<inter> set (f y) = {}) xs \<Longrightarrow>
     distinct (concat (map f xs))"
  by (induction xs) auto

lemma list_all2_in1: "list_all2 P xs ys \<Longrightarrow> x \<in> set xs \<Longrightarrow> \<exists>y \<in> set ys. P x y"
  by (induction xs ys rule: list_all2_induct) auto

lemma list_all2_in2: "list_all2 P xs ys \<Longrightarrow> y \<in> set ys \<Longrightarrow> \<exists>x \<in> set xs. P x y"
  by (induction xs ys rule: list_all2_induct) auto

subsection \<open>Python list operations\<close>

text \<open>\<open>xs[r::k]\<close>: the elements at positions \<open>r, r + k, r + 2k, \<dots>\<close>.\<close>

definition stride :: "nat \<Rightarrow> nat \<Rightarrow> 'a list \<Rightarrow> 'a list" where
  "stride r k xs = map ((!) xs) (filter (\<lambda>i. r \<le> i \<and> (i - r) mod k = 0) [0..<length xs])"

text \<open>\<open>[xs[i : i + n] for i in range(0, len(xs), n)]\<close>, for a positive step.\<close>

fun chunks :: "nat \<Rightarrow> 'a list \<Rightarrow> 'a list list" where
  "chunks n xs = (if n = 0 \<or> xs = [] then [] else take n xs # chunks n (drop n xs))"

declare chunks.simps [simp del]

text \<open>\<open>xs[-n:]\<close> for a positive \<open>n\<close>, and \<open>xs.pop(i)\<close> for a position in range.\<close>

definition last_n :: "nat \<Rightarrow> 'a list \<Rightarrow> 'a list" where
  "last_n n xs = drop (length xs - n) xs"

definition pop_at :: "nat \<Rightarrow> 'a list \<Rightarrow> 'a list" where
  "pop_at i xs = take i xs @ drop (Suc i) xs"

text \<open>\<open>math.ceil(a / b)\<close> on nonnegative integers (the quotient taken exactly).\<close>

definition ceil_div :: "nat \<Rightarrow> nat \<Rightarrow> nat" where
  "ceil_div a b = a div b + (if a mod b = 0 then 0 else 1)"

text \<open>The same on integers of any sign, for a nonzero divisor.\<close>

definition ceil_int :: "int \<Rightarrow> int \<Rightarrow> int" where
  "ceil_int a b = - ((- a) div b)"

text \<open>Consecutive segments of given lengths, as \<open>torch.split\<close> and offset loops cut them.\<close>

fun split_lens :: "nat list \<Rightarrow> 'a list \<Rightarrow> 'a list list" where
  "split_lens [] xs = []"
| "split_lens (n # ns) xs = take n xs # split_lens ns (drop n xs)"

text \<open>Segment sizes that differ by at most one, the longer ones first.\<close>

definition even_sizes :: "nat \<Rightarrow> nat \<Rightarrow> nat list" where
  "even_sizes len n = map (\<lambda>i. len div n + (if i < len mod n then 1 else 0)) [0..<n]"

text \<open>
  Floats are only copied, added and compared by the modelled code; they are exact rationals
  here, so rounding is not modelled. \<open>int(x)\<close> truncates towards zero.
\<close>

type_synonym pyfloat = rat

definition py_trunc :: "pyfloat \<Rightarrow> int" where
  "py_trunc x = (if 0 \<le> x then \<lfloor>x\<rfloor> else \<lceil>x\<rceil>)"

text \<open>Prefix sums with a leading zero, \<open>np.insert(np.cumsum(xs), 0, 0)\<close>.\<close>

fun cumsum0 :: "int \<Rightarrow> int list \<Rightarrow> int list" where
  "cumsum0 a [] = [a]"
| "cumsum0 a (x # xs) = a # cumsum0 (a + x) xs"

text \<open>Running totals, \<open>np.cumsum\<close>.\<close>

fun cumsum :: "int \<Rightarrow> int list \<Rightarrow> int list" where
  "cumsum a [] = []"
| "cumsum a (x # xs) = (a + x) # cumsum (a + x) xs"

text \<open>\<open>xs[i]\<close> and \<open>xs[a:b]\<close>: a negative position counts from the end, a slice is clipped to the list.\<close>

definition py_get :: "'a list \<Rightarrow> int \<Rightarrow> 'a res" where
  "py_get xs i =
     (if 0 \<le> i \<and> i < int (length xs) then Inr (xs ! nat i)
      else if - int (length xs) \<le> i \<and> i < 0 then Inr (xs ! nat (i + int (length xs)))
      else Inl IndexError)"

definition slice_pos :: "nat \<Rightarrow> int \<Rightarrow> nat" where
  "slice_pos n i = nat (if i < 0 then max 0 (i + int n) else min i (int n))"

definition py_slice :: "'a list \<Rightarrow> int \<Rightarrow> int \<Rightarrow> 'a list" where
  "py_slice xs a b = (let p = slice_pos (length xs) a in take (slice_pos (length xs) b - p) (drop p xs))"

subsubsection \<open>Lemmas: positions and running totals\<close>

text \<open>Reading all positions of a list in order is a loop over the list.\<close>

lemma rmap_positions:
  assumes "\<And>k. k < length xs \<Longrightarrow> f k = g (xs ! k)"
  shows "rmap f [0..<length xs] = rmap g xs"
proof -
  have "rmap f [0..<length xs] = rmap (\<lambda>k. g (xs ! k)) [0..<length xs]" using assms by (intro rmap_cong) auto
  also have "\<dots> = rmap g xs" by (metis map_nth rmap_map)
  finally show ?thesis .
qed

lemma py_get_nth [simp]: "i < length xs \<Longrightarrow> py_get xs (int i) = Inr (xs ! i)"
  by (simp add: py_get_def)

lemma py_get_last: "xs \<noteq> [] \<Longrightarrow> py_get xs (- 1) = Inr (last xs)"
  by (cases xs) (auto simp: py_get_def last_conv_nth nat_diff_distrib)

lemma py_slice_nat:
  "a \<le> length xs \<Longrightarrow> b \<le> length xs \<Longrightarrow> py_slice xs (int a) (int b) = take (b - a) (drop a xs)"
  by (simp add: py_slice_def slice_pos_def Let_def)

lemma length_cumsum [simp]: "length (cumsum a xs) = length xs"
  by (induction a xs rule: cumsum.induct) auto

lemma cumsum_append: "cumsum a (xs @ ys) = cumsum a xs @ cumsum (a + sum_list xs) ys"
  by (induction a xs rule: cumsum.induct) (auto simp: add.assoc)

lemma cumsum_shift: "map (\<lambda>x. x + c) (cumsum a xs) = cumsum (a + c) xs"
  by (induction a xs rule: cumsum.induct) (auto simp: algebra_simps)

lemma last_cumsum: "xs \<noteq> [] \<Longrightarrow> last (cumsum a xs) = a + sum_list xs"
proof (induction a xs rule: cumsum.induct)
  case (2 a x xs)
  then show ?case by (cases xs) auto
qed simp

lemma length_cumsum0 [simp]: "length (cumsum0 a xs) = Suc (length xs)"
  by (induction a xs rule: cumsum0.induct) auto

lemma nth_cumsum0: "k \<le> length xs \<Longrightarrow> cumsum0 a xs ! k = a + sum_list (take k xs)"
  by (induction a xs arbitrary: k rule: cumsum0.induct) (auto simp: nth_Cons take_Cons' split: nat.splits)

lemma nth_cumsum: "k < length xs \<Longrightarrow> cumsum a xs ! k = a + sum_list (take (Suc k) xs)"
  by (induction a xs arbitrary: k rule: cumsum.induct) (auto simp: nth_Cons split: nat.splits)

lemma sorted_cumsum0: "\<forall>x \<in> set xs. 0 \<le> x \<Longrightarrow> sorted (cumsum0 a xs)"
proof (induction a xs rule: cumsum0.induct)
  case (2 a x xs)
  have "\<forall>y \<in> set (cumsum0 b ys). b \<le> y" if "\<forall>x \<in> set ys. 0 \<le> x" for b ys
    using that by (induction b ys rule: cumsum0.induct) fastforce+
  then show ?case using 2 by fastforce
qed simp

subsubsection \<open>Lemmas: chunking\<close>

lemma chunks_Nil [simp]: "chunks n [] = []"
  by (simp add: chunks.simps)

lemma chunks_unfold:
  "0 < n \<Longrightarrow> xs \<noteq> [] \<Longrightarrow> chunks n xs = take n xs # chunks n (drop n xs)"
  by (simp add: chunks.simps)

lemma concat_chunks [simp]: "0 < n \<Longrightarrow> concat (chunks n xs) = xs"
  by (induction n xs rule: chunks.induct) (subst chunks.simps, auto)

lemma chunks_nonempty: "0 < n \<Longrightarrow> c \<in> set (chunks n xs) \<Longrightarrow> c \<noteq> []"
  by (induction n xs rule: chunks.induct) (subst (asm) (2) chunks.simps, auto split: if_splits)

lemma chunks_bound: "c \<in> set (chunks n xs) \<Longrightarrow> length c \<le> n"
  by (induction n xs rule: chunks.induct) (subst (asm) (2) chunks.simps, auto split: if_splits)

lemma ceil_div_step: "0 < b \<Longrightarrow> b \<le> a \<Longrightarrow> ceil_div a b = Suc (ceil_div (a - b) b)"
  by (simp add: ceil_div_def le_div_geq le_mod_geq)

lemma ceil_div_small: "0 < a \<Longrightarrow> a \<le> b \<Longrightarrow> ceil_div a b = 1"
  by (cases "a = b") (auto simp: ceil_div_def)

lemma ceil_div_0 [simp]: "ceil_div 0 b = 0"
  by (simp add: ceil_div_def)

lemma length_chunks: "0 < n \<Longrightarrow> length (chunks n xs) = ceil_div (length xs) n"
proof (induction n xs rule: chunks.induct)
  case (1 n xs)
  show ?case
  proof (cases "xs = []")
    case False
    then have "length (chunks n xs) = Suc (ceil_div (length xs - n) n)"
      using 1 by (simp add: chunks_unfold)
    then show ?thesis
      using 1(2) False by (cases "n \<le> length xs") (auto simp: ceil_div_step ceil_div_small)
  qed simp
qed

subsubsection \<open>Lemmas: rounding up\<close>

lemma ceil_div_ge: "0 < b \<Longrightarrow> a \<le> ceil_div a b * b"
proof -
  assume "0 < b"
  then have m: "a mod b < b" by simp
  have d: "a = a div b * b + a mod b" by simp
  show ?thesis
  proof (cases "a mod b = 0")
    case False
    then have "ceil_div a b * b = a div b * b + b" by (simp add: ceil_div_def)
    with m d show ?thesis by linarith
  qed (auto simp: ceil_div_def)
qed

lemma ceil_div_less: "0 < b \<Longrightarrow> 0 < a \<Longrightarrow> (ceil_div a b - 1) * b < a"
proof -
  assume b: "0 < b" and a: "0 < a"
  have d: "a = a div b * b + a mod b" by simp
  show ?thesis
  proof (cases "a mod b = 0")
    case True
    then have "(ceil_div a b - 1) * b = a - b" by (auto simp: ceil_div_def diff_mult_distrib)
    with a b show ?thesis by simp
  next
    case False
    then have "(ceil_div a b - 1) * b = a div b * b" by (simp add: ceil_div_def)
    with d False show ?thesis by linarith
  qed
qed

lemma ceil_div_mult [simp]: "0 < b \<Longrightarrow> ceil_div (k * b) b = k"
  by (simp add: ceil_div_def)

lemma ceil_div_pos: "0 < b \<Longrightarrow> 0 < a \<Longrightarrow> 0 < ceil_div a b"
  by (auto simp: ceil_div_def div_greater_zero_iff)

lemma ceil_div_Suc:
  "0 < b \<Longrightarrow> ceil_div (Suc a) b = (if a mod b = 0 then Suc (ceil_div a b) else ceil_div a b)"
  by (auto simp: ceil_div_def div_Suc mod_Suc)

subsubsection \<open>Lemmas: strided slices\<close>

lemma stride_positions:
  assumes "0 < k"
  shows "filter (\<lambda>i. r \<le> i \<and> (i - r) mod k = 0) [0..<n] =
    map (\<lambda>j. r + j * k) [0..<ceil_div (n - r) k]"
proof (induction n)
  case (Suc n)
  show ?case
  proof (cases "r \<le> n")
    case True
    then have eq: "Suc n - r = Suc (n - r)" by simp
    have "n = r + (n - r) div k * k" if "(n - r) mod k = 0"
      using that True by (metis add.right_neutral le_add_diff_inverse div_mult_mod_eq)
    with Suc True assms show ?thesis
      by (simp add: eq ceil_div_Suc) (simp add: ceil_div_def)
  next
    case False
    with Suc show ?thesis by simp
  qed
qed simp

lemma stride_eq_map:
  "0 < k \<Longrightarrow> stride r k xs = map (\<lambda>j. xs ! (r + j * k)) [0..<ceil_div (length xs - r) k]"
  by (simp add: stride_def stride_positions)

lemma length_stride: "0 < k \<Longrightarrow> length (stride r k xs) = ceil_div (length xs - r) k"
  by (simp add: stride_eq_map)

lemma mset_concat_filter_upt:
  "\<forall>x \<in> set xs. f x < k \<Longrightarrow>
    mset (concat (map (\<lambda>r. filter (\<lambda>x. f x = r) xs) [0..<k])) = mset xs"
proof (induction xs)
  case Nil
  show ?case by (induction k) auto
next
  case (Cons x xs)
  have step: "mset (concat (map (\<lambda>r. filter (\<lambda>y. f y = r) (x # xs)) [0..<m])) =
     mset (concat (map (\<lambda>r. filter (\<lambda>y. f y = r) xs) [0..<m])) +
     (if f x < m then {#x#} else {#})" for m
    by (induction m) auto
  show ?case using Cons by (simp only: step) simp
qed

lemma stride_residue:
  "r < k \<Longrightarrow> stride r k xs = map ((!) xs) (filter (\<lambda>i. i mod k = r) [0..<length xs])"
proof -
  assume r: "r < k"
  have "(r \<le> i \<and> (i - r) mod k = 0) = (i mod k = r)" for i
  proof
    assume "r \<le> i \<and> (i - r) mod k = 0"
    then have "i = r + (i - r) div k * k"
      by (metis add.right_neutral le_add_diff_inverse div_mult_mod_eq)
    with r show "i mod k = r" by (metis mod_less mod_mult_self1)
  next
    assume i: "i mod k = r"
    then have "i - r = i div k * k" by (metis minus_mod_eq_div_mult)
    with i show "r \<le> i \<and> (i - r) mod k = 0" by (metis mod_less_eq_dividend mod_mult_self2_is_0)
  qed
  then show ?thesis by (simp add: stride_def)
qed

text \<open>Dealing the elements round-robin to \<open>k\<close> readers loses and repeats nothing.\<close>

lemma mset_concat_strides:
  assumes "0 < k"
  shows "mset (concat (map (\<lambda>r. stride r k xs) [0..<k])) = mset xs"
proof -
  have "map (\<lambda>r. stride r k xs) [0..<k] =
      map (\<lambda>r. map ((!) xs) (filter (\<lambda>i. i mod k = r) [0..<length xs])) [0..<k]"
    by (auto simp: stride_residue)
  then have "concat (map (\<lambda>r. stride r k xs) [0..<k]) =
      map ((!) xs) (concat (map (\<lambda>r. filter (\<lambda>i. i mod k = r) [0..<length xs]) [0..<k]))"
    by (simp only: map_concat map_map comp_def)
  then have "mset (concat (map (\<lambda>r. stride r k xs) [0..<k])) =
      image_mset ((!) xs) (mset (concat (map (\<lambda>r. filter (\<lambda>i. i mod k = r) [0..<length xs]) [0..<k])))"
    by (simp only: mset_map)
  also have "\<dots> = image_mset ((!) xs) (mset [0..<length xs])"
    using assms by (subst mset_concat_filter_upt) auto
  also have "\<dots> = mset xs" by (metis map_nth mset_map)
  finally show ?thesis .
qed

lemma length_stride_even:
  "r < k \<Longrightarrow> length xs = m * k \<Longrightarrow> length (stride r k xs) = m"
proof -
  assume r: "r < k" and len: "length xs = m * k"
  have "ceil_div (m * k - r) k = m"
  proof (cases m)
    case (Suc m')
    have shift: "ceil_div (m' * k + a) k = m' + ceil_div a k" for a
      using r by (simp add: ceil_div_def)
    have "Suc m' * k - r = m' * k + (k - r)" using r by simp
    then have "ceil_div (Suc m' * k - r) k = m' + ceil_div (k - r) k" by (simp only: shift)
    then show ?thesis using Suc r by (simp add: ceil_div_small)
  qed simp
  then show ?thesis using r len by (simp add: length_stride)
qed

lemma set_stride_subset: "set (stride r k xs) \<subseteq> set xs"
  by (auto simp: stride_def)

lemma ceil_div_shift: "0 < k \<Longrightarrow> ceil_div (n - m * k) k = ceil_div n k - m"
proof (induction m arbitrary: n)
  case (Suc m)
  show ?case
  proof (cases "k \<le> n")
    case True
    have eq: "n - Suc m * k = (n - k) - m * k" by simp
    show ?thesis unfolding eq Suc.IH [OF Suc.prems] ceil_div_step [OF Suc.prems True] by simp
  next
    case False
    then have "ceil_div n k \<le> 1" using Suc.prems by (cases "n = 0") (auto simp: ceil_div_small)
    moreover have "n - Suc m * k = 0" using False by simp
    ultimately show ?thesis by simp
  qed
qed simp

text \<open>Starting \<open>m\<close> strides later skips the first \<open>m\<close> elements.\<close>

lemma stride_drop:
  assumes "0 < k"
  shows "stride (m * k + r) k xs = drop m (stride r k xs)"
proof -
  have "ceil_div (length xs - (m * k + r)) k = ceil_div (length xs - r) k - m"
    using ceil_div_shift [OF assms, of "length xs - r" m] by (simp add: add.commute)
  then show ?thesis using assms
    by (auto simp: stride_eq_map drop_map algebra_simps intro!: nth_equalityI)
qed

subsubsection \<open>Lemmas: removing positions\<close>

lemma length_pop_at_le: "length (pop_at i xs) \<le> length xs"
  by (auto simp: pop_at_def)

lemma length_fold_pop_at_le: "length (fold pop_at is xs) \<le> length xs"
  by (induction "is" arbitrary: xs) (auto intro: le_trans [OF _ length_pop_at_le])

lemma mset_pop_at: "i < length xs \<Longrightarrow> mset xs = add_mset (xs ! i) (mset (pop_at i xs))"
  by (metis add_mset_add_single id_take_nth_drop mset.simps(2) mset_append pop_at_def
      union_mset_add_mset_right)

lemma nth_pop_at: "j < i \<Longrightarrow> i < length xs \<Longrightarrow> pop_at i xs ! j = xs ! j"
  by (simp add: pop_at_def nth_append)

lemma length_pop_at: "i < length xs \<Longrightarrow> length (pop_at i xs) = length xs - 1"
  by (simp add: pop_at_def)

text \<open>
  Removing positions from the highest to the lowest, as \<open>sorted(..., reverse=True)\<close> followed by
  \<open>pop\<close> does, removes exactly the elements that stood at those positions.
\<close>

lemma mset_fold_pop_at:
  "sorted_wrt (>) is \<Longrightarrow> \<forall>i \<in> set is. i < length xs \<Longrightarrow>
    mset xs = mset (map ((!) xs) is) + mset (fold pop_at is xs)"
proof (induction "is" arbitrary: xs)
  case (Cons i "is")
  from Cons.prems have i: "i < length xs" and below: "\<forall>j \<in> set is. j < i" by auto
  then have "\<forall>j \<in> set is. j < length (pop_at i xs)" by (auto simp: length_pop_at)
  with Cons have "mset (pop_at i xs) =
      mset (map ((!) (pop_at i xs)) is) + mset (fold pop_at is (pop_at i xs))" by simp
  moreover have "map ((!) (pop_at i xs)) is = map ((!) xs) is"
    using below i by (simp add: nth_pop_at)
  ultimately show ?case using i by (simp add: mset_pop_at)
qed simp

lemma sorted_wrt_rev_sort:
  "distinct (is :: 'a :: linorder list) \<Longrightarrow> sorted_wrt (>) (rev (sort is))"
  by (simp add: sorted_wrt_rev strict_sorted_iff)

lemma sum_list_mset_eq:
  "mset xs = mset ys \<Longrightarrow> sum_list (map f xs) = (sum_list (map f ys) :: 'a :: comm_monoid_add)"
  by (metis mset_map sum_mset_sum_list)

lemma sum_list_nonneg_le:
  "\<forall>x \<in> set xs. 0 \<le> f x \<Longrightarrow> 0 \<le> (sum_list (map f xs) :: int)"
  by (induction xs) auto

subsubsection \<open>Lemmas: segments\<close>

lemma length_split_lens [simp]: "length (split_lens ns xs) = length ns"
  by (induction ns arbitrary: xs) auto

lemma concat_split_lens: "sum_list ns = length xs \<Longrightarrow> concat (split_lens ns xs) = xs"
proof (induction ns arbitrary: xs)
  case (Cons n ns)
  then have "sum_list ns = length (drop n xs)" by auto
  with Cons.IH show ?case by simp
qed simp

lemma split_lens_concat: "split_lens (map length xss) (concat xss) = xss"
  by (induction xss) auto

lemma map_length_split_lens: "sum_list ns = length xs \<Longrightarrow> map length (split_lens ns xs) = ns"
proof (induction ns arbitrary: xs)
  case (Cons n ns)
  then have "sum_list ns = length (drop n xs)" "n \<le> length xs" by auto
  with Cons.IH show ?case by simp
qed simp

lemma sum_even_sizes: "0 < n \<Longrightarrow> sum_list (even_sizes len n) = len"
proof -
  assume n: "0 < n"
  have "sum_list (map (\<lambda>i. a + (if i < r then 1 else 0)) [0..<m]) = m * a + min r m" for a r m :: nat
    by (induction m) auto
  then have "sum_list (even_sizes len n) = n * (len div n) + min (len mod n) n"
    by (simp add: even_sizes_def)
  also have "min (len mod n) n = len mod n" using n by (simp add: min_def less_imp_le)
  finally show ?thesis by simp
qed

lemma length_even_sizes [simp]: "length (even_sizes len n) = n"
  by (simp add: even_sizes_def)

lemma even_sizes_le: "s \<in> set (even_sizes len n) \<Longrightarrow> s \<le> Suc (len div n) \<and> len div n \<le> s"
  by (auto simp: even_sizes_def)

text \<open>Reading \<open>k\<close>-blocks by their offsets is chunking.\<close>

lemma blocks_eq_chunks:
  "0 < k \<Longrightarrow> map (\<lambda>s. take k (drop (s * k) xs)) [0..<ceil_div (length xs) k] = chunks k xs"
proof (induction k xs rule: chunks.induct)
  case (1 k xs)
  show ?case
  proof (cases "xs = []")
    case False
    then have n: "ceil_div (length xs) k = Suc (ceil_div (length (drop k xs)) k)"
      using 1(2) by (cases "k \<le> length xs") (auto simp: ceil_div_step ceil_div_small)
    have "map (\<lambda>s. take k (drop (s * k) xs)) [0..<ceil_div (length xs) k] =
        take k xs # map (\<lambda>s. take k (drop (s * k) (drop k xs))) [0..<ceil_div (length (drop k xs)) k]"
      unfolding n by (simp add: map_upt_Suc add.commute del: upt_Suc)
    then show ?thesis using 1 False by (simp add: chunks_unfold)
  qed simp
qed

subsubsection \<open>Lemmas: multisets of lists\<close>

lemma mset_concat_cong: "mset xss = mset yss \<Longrightarrow> mset (concat xss) = mset (concat yss)"
  by (metis mset_map mset_concat sum_mset_sum_list)

lemma mset_concat_mset: "mset (concat xss) = \<Sum>\<^sub># (image_mset mset (mset xss))"
  by (simp add: mset_concat sum_mset_sum_list [symmetric] del: sum_mset_sum_list)

lemma concat_replicate_Nil [simp]: "concat (replicate k []) = []"
  by (induction k) auto

lemma concat_map_Nil [simp]: "concat (map (\<lambda>x. []) xs) = []"
  by (induction xs) auto

lemma map_length_chunks:
  "length xs = length ys \<Longrightarrow> map length (chunks n xs) = map length (chunks n ys)"
proof (induction n xs arbitrary: ys rule: chunks.induct)
  case (1 n xs)
  show ?case
  proof (cases "n = 0 \<or> xs = []")
    case True
    then show ?thesis using 1(2) by (auto simp: chunks.simps [of n xs] chunks.simps [of n ys])
  next
    case False
    then have "map length (chunks n (drop n xs)) = map length (chunks n (drop n ys))"
      using 1(1) [of "drop n ys"] 1(2) by simp
    then show ?thesis using False 1(2) by (cases "ys = []") (auto simp: chunks_unfold)
  qed
qed

lemma mset_concat_map_cong:
  "(\<And>x. x \<in> set xs \<Longrightarrow> mset (f x) = mset (g x)) \<Longrightarrow> mset (concat (map f xs)) = mset (concat (map g xs))"
  by (induction xs) auto

lemma mset_concat_update:
  "b < length xss \<Longrightarrow> mset (concat (xss[b := xss ! b @ [x]])) = add_mset x (mset (concat xss))"
  by (induction xss arbitrary: b) (auto split: nat.split)

lemma length_le_concat: "\<forall>xs \<in> set xss. xs \<noteq> [] \<Longrightarrow> length xss \<le> length (concat xss)"
proof (induction xss)
  case (Cons xs xss)
  then show ?case by (cases xs) auto
qed simp

lemma concat_concat_map: "concat (concat xsss) = concat (map concat xsss)"
  by (induction xsss) auto

section \<open>Association lists\<close>

lemma update_new: "k \<notin> fst ` set al \<Longrightarrow> AList.update k v al = al @ [(k, v)]"
  by (induction al) auto

lemma delete_absent: "k \<notin> fst ` set al \<Longrightarrow> AList.delete k al = al"
  by (induction al) auto

end
