(* ===== verification/SoftPack.thy ===== *)
theory SoftPack
  imports Prelude
begin

text \<open>
  Sample packing for supervised training, the soft strategies of
  \<^verbatim>\<open>xtuner/v1/datasets/packing.py\<close>: sequential greedy packing
  (\<open>get_pack_infos_by_soft_split\<close>) and greedy packing with a look-ahead buffer
  (\<open>get_pack_chunk_infos\<close> and its callers). A pack is a list of sample positions.

  \<open>numpy.argsort\<close> is the argument \<open>argsort\<close>; what the code relies on is \<open>argsort_perm\<close>, that the
  result is a permutation of the positions. Token counts are integers. The variable \<open>longest\<close> of
  \<open>get_pack_chunk_infos\<close> is written and never read there, and is left out.
\<close>

subsection \<open>Sequential greedy packing\<close>

record pack_info =
  dataset_id :: int
  indices :: "nat list"
  longest :: int

fun soft_split_loop ::
  "int \<Rightarrow> int list \<Rightarrow> int \<Rightarrow> nat list \<Rightarrow> nat list \<Rightarrow> int list \<Rightarrow> int \<Rightarrow> pack_info list \<Rightarrow> pack_info list"
where
  "soft_split_loop did num_tokens pack_max_length [] item_buffer length_buffer lg pack_infos =
     (if 0 < length item_buffer
      then pack_infos @ [\<lparr>dataset_id = did, indices = item_buffer, longest = lg\<rparr>]
      else pack_infos)"
| "soft_split_loop did num_tokens pack_max_length (i # inds) item_buffer length_buffer lg pack_infos =
     (if num_tokens ! i + sum_list length_buffer \<le> pack_max_length
      then soft_split_loop did num_tokens pack_max_length inds (item_buffer @ [i])
             (length_buffer @ [num_tokens ! i]) (max lg (num_tokens ! i)) pack_infos
      else soft_split_loop did num_tokens pack_max_length inds [i] [num_tokens ! i] (num_tokens ! i)
             (if 0 < length item_buffer
              then pack_infos @ [\<lparr>dataset_id = did, indices = item_buffer, longest = lg\<rparr>]
              else pack_infos))"

definition get_pack_infos_by_soft_split ::
  "nat list \<Rightarrow> int \<Rightarrow> int list \<Rightarrow> int \<Rightarrow> pack_info list res" where
  "get_pack_infos_by_soft_split inds did num_tokens pack_max_length =
     (if \<forall>i \<in> set inds. i < length num_tokens
      then Inr (soft_split_loop did num_tokens pack_max_length inds [] [] 0 [])
      else Inl IndexError)"

subsection \<open>Greedy packing with a look-ahead buffer\<close>

fun closest_loop :: "int list \<Rightarrow> int \<Rightarrow> nat list \<Rightarrow> int \<Rightarrow> nat list \<Rightarrow> nat list" where
  "closest_loop buffer v [] closest_sum closest_indices = closest_indices"
| "closest_loop buffer v (i # sorted_indices) closest_sum closest_indices =
     (let s = closest_sum + buffer ! i;
          cs = (if s \<le> v then closest_indices @ [i] else closest_indices)
      in if v \<le> s then cs else closest_loop buffer v sorted_indices s cs)"

definition closest_sum_indices ::
  "(int list \<Rightarrow> nat list) \<Rightarrow> int list \<Rightarrow> int \<Rightarrow> nat list" where
  "closest_sum_indices argsort buffer v = closest_loop buffer v (argsort buffer) 0 []"

function pack_chunk_loop ::
  "(int list \<Rightarrow> nat list) \<Rightarrow> int \<Rightarrow> int \<Rightarrow> int \<Rightarrow> int list \<Rightarrow> pyfloat list \<Rightarrow>
   nat list \<Rightarrow> nat list \<Rightarrow> int list \<Rightarrow> pyfloat \<Rightarrow> pack_info list \<Rightarrow> pack_info list"
where
  "pack_chunk_loop argsort did target extra num_tokens flops inds item_buffer length_buffer pack_flops infos =
     (if inds = []
      then (if 0 < length item_buffer
            then infos @ [\<lparr>dataset_id = did, indices = item_buffer, longest = py_trunc pack_flops\<rparr>]
            else infos)
      else
        let i = last inds; rest = butlast inds in
        if num_tokens ! i + sum_list length_buffer \<le> target
        then pack_chunk_loop argsort did target extra num_tokens flops rest (item_buffer @ [i])
               (length_buffer @ [num_tokens ! i]) (pack_flops + flops ! i) infos
        else if 0 < length item_buffer then
          if sum_list length_buffer = target \<or> \<not> 0 < extra
          then pack_chunk_loop argsort did target extra num_tokens flops rest [i] [num_tokens ! i] (flops ! i)
                 (infos @ [\<lparr>dataset_id = did, indices = item_buffer, longest = py_trunc pack_flops\<rparr>])
          else
            let buffer_index = last_n (nat extra) rest;
                closest = closest_sum_indices argsort (map ((!) num_tokens) buffer_index)
                            (target - sum_list length_buffer);
                chosen = map ((!) buffer_index) closest;
                remove = rev (sort (map (\<lambda>c. c + length rest - length buffer_index) closest))
            in pack_chunk_loop argsort did target extra num_tokens flops (fold pop_at remove rest)
                 [i] [num_tokens ! i] (flops ! i)
                 (infos @ [\<lparr>dataset_id = did, indices = item_buffer @ chosen,
                            longest = py_trunc (pack_flops + sum_list (map ((!) flops) chosen))\<rparr>])
        else pack_chunk_loop argsort did target extra num_tokens flops rest [i] [num_tokens ! i] (flops ! i) infos)"
  by pat_completeness auto
termination
  by (relation "measure (\<lambda>(argsort, did, target, extra, num_tokens, flops, inds, rest). length inds)")
     (auto intro: le_less_trans [OF length_fold_pop_at_le])

declare pack_chunk_loop.simps [simp del]

definition get_pack_chunk_infos ::
  "(int list \<Rightarrow> nat list) \<Rightarrow> nat list \<Rightarrow> int \<Rightarrow> int \<Rightarrow> int \<Rightarrow> int list \<Rightarrow> pyfloat list \<Rightarrow> pack_info list res" where
  "get_pack_chunk_infos argsort inds did target extra num_tokens flops =
     (if \<forall>i \<in> set inds. i < length num_tokens \<and> i < length flops
      then Inr (pack_chunk_loop argsort did target extra num_tokens flops inds [] [] 0 [])
      else Inl IndexError)"

text \<open>
  The chunked driver. \<open>range(0, len(inds), pack_chunk_size)\<close> raises for a zero step and is empty for
  a negative one. The worker pool returns the chunk results in chunk order and the shared-memory
  arrays are copies, so the second branch differs from the first only in building the chunk list first.
\<close>

definition py_chunks :: "int \<Rightarrow> 'a list \<Rightarrow> 'a list list res" where
  "py_chunks n xs = (if n = 0 then Inl ValueError else Inr (if n < 0 then [] else chunks (nat n) xs))"

fun expand_sequential ::
  "(nat list \<Rightarrow> pack_info list res) \<Rightarrow> nat list list \<Rightarrow> pack_info list \<Rightarrow> pack_info list res" where
  "expand_sequential run [] pack_infos = Inr pack_infos"
| "expand_sequential run (c # cs) pack_infos =
     rbind (run c) (\<lambda>infos. expand_sequential run cs (pack_infos @ infos))"

definition get_pack_infos_by_expand_soft_split ::
  "(int list \<Rightarrow> nat list) \<Rightarrow> nat list \<Rightarrow> int \<Rightarrow> int list \<Rightarrow> pyfloat list \<Rightarrow> int \<Rightarrow> int \<Rightarrow> int \<Rightarrow> int \<Rightarrow> pack_info list res"
where
  "get_pack_infos_by_expand_soft_split argsort inds did num_tokens flops
      pack_max_length pack_workers pack_chunk_size pack_extra_buffer_size =
     (if length num_tokens \<noteq> length flops then Inl AssertionError
      else
        let run = (\<lambda>c. get_pack_chunk_infos argsort c did pack_max_length pack_extra_buffer_size num_tokens flops)
        in rbind (py_chunks pack_chunk_size inds) (\<lambda>cs.
             if pack_workers \<le> 1 then expand_sequential run cs []
             else rbind (rmap run cs) (\<lambda>results. Inr (concat results))))"

text \<open>\<open>ExpandSoftPackDataset.get_pack_infos\<close>: \<open>randperm\<close> stands for \<open>torch.randperm\<close>.\<close>

definition expand_get_pack_infos ::
  "(nat \<Rightarrow> nat list) \<Rightarrow> (int list \<Rightarrow> nat list) \<Rightarrow> nat \<Rightarrow> int \<Rightarrow> int list \<Rightarrow> pyfloat list \<Rightarrow> int \<Rightarrow> int \<Rightarrow> int \<Rightarrow> int \<Rightarrow> pack_info list res"
where
  "expand_get_pack_infos randperm argsort len did num_tokens flops pack_max_length workers chunk_size extra =
     rbind (get_pack_infos_by_expand_soft_split argsort (randperm len) did num_tokens flops
              pack_max_length workers chunk_size extra)
       (\<lambda>infos.
          let total_index = concat (map indices infos) in
          if len = length total_index \<and> length total_index = card (set total_index)
          then Inr infos else Inl AssertionError)"

subsection \<open>What a packing must satisfy\<close>

text \<open>
  \<open>tokens nt ix\<close> is the token total of a pack. A pack is admissible when it is not empty and either
  fits the budget or is a single sample that is longer than the budget by itself.
\<close>

definition tokens :: "int list \<Rightarrow> nat list \<Rightarrow> int" where
  "tokens nt ix = sum_list (map ((!) nt) ix)"

definition admissible :: "int list \<Rightarrow> int \<Rightarrow> nat list \<Rightarrow> bool" where
  "admissible nt L ix \<longleftrightarrow> ix \<noteq> [] \<and> (tokens nt ix \<le> L \<or> length ix = 1)"

lemma tokens_simps [simp]:
  "tokens nt [] = 0"
  "tokens nt (i # ix) = nt ! i + tokens nt ix"
  "tokens nt (ix @ jx) = tokens nt ix + tokens nt jx"
  by (simp_all add: tokens_def)

lemma tokens_nonneg: "\<forall>i \<in> set ix. 0 \<le> nt ! i \<Longrightarrow> 0 \<le> tokens nt ix"
  by (induction ix) auto

lemma tokens_mset: "mset ix = mset jx \<Longrightarrow> tokens nt ix = tokens nt jx"
  unfolding tokens_def by (rule sum_list_mset_eq)

lemmas soft_split_loop_steps =
  soft_split_loop.simps(2) [THEN trans, OF if_P] soft_split_loop.simps(2) [THEN trans, OF if_not_P]

text \<open>
  The contract shared by the soft packers: a run started with an admissible (or empty) open pack
  keeps every index exactly once and closes admissible packs only.
\<close>

lemma soft_split_loop_indices:
  "concat (map indices (soft_split_loop did nt L inds items lens lg infos)) =
     concat (map indices infos) @ items @ inds"
  by (induction did nt L inds items lens lg infos rule: soft_split_loop.induct) auto

lemma soft_split_loop_admissible:
  assumes "\<forall>p \<in> set infos. admissible nt L (indices p)"
    and "items \<noteq> [] \<Longrightarrow> admissible nt L items" and "lens = map ((!) nt) items"
  shows "\<forall>p \<in> set (soft_split_loop did nt L inds items lens lg infos). admissible nt L (indices p)"
  using assms
proof (induction did nt L inds items lens lg infos rule: soft_split_loop.induct)
  case (2 did nt L i inds items lens lg infos)
  have tok: "tokens nt items = sum_list lens" using 2(5) by (simp add: tokens_def)
  show ?case
  proof (cases "nt ! i + sum_list lens \<le> L")
    case True
    then have "admissible nt L (items @ [i])" using tok by (simp add: admissible_def)
    then show ?thesis using True 2(1) 2(3,5) by simp
  next
    case False
    have "admissible nt L [i]" by (simp add: admissible_def)
    then show ?thesis unfolding soft_split_loop_steps(2) [OF False]
      by (intro 2(2) [OF False]) (use 2(3,4) in auto)
  qed
qed auto

lemma soft_split_loop_longest:
  assumes "\<forall>p \<in> set infos. longest p = Max (set (map ((!) nt) (indices p)))"
    and "items \<noteq> [] \<Longrightarrow> lg = Max (set (map ((!) nt) items))" and "items = [] \<Longrightarrow> lg = 0"
    and "\<forall>i \<in> set inds. 0 \<le> nt ! i"
  shows "\<forall>p \<in> set (soft_split_loop did nt L inds items lens lg infos).
    longest p = Max (set (map ((!) nt) (indices p)))"
  using assms
proof (induction did nt L inds items lens lg infos rule: soft_split_loop.induct)
  case (2 did nt L i inds items lens lg infos)
  have "max lg (nt ! i) = Max (set (map ((!) nt) (items @ [i])))"
  proof (cases "items = []")
    case False
    then have "Max (set (map ((!) nt) (items @ [i]))) = max (nt ! i) (Max (set (map ((!) nt) items)))"
      by (simp add: Max_insert)
    with 2(4) False show ?thesis by (simp add: max.commute)
  next
    case True
    then show ?thesis using 2(5,6) by simp
  qed
  then have fits: "items @ [i] \<noteq> [] \<Longrightarrow> max lg (nt ! i) = Max (set (map ((!) nt) (items @ [i])))" by simp
  show ?case
  proof (cases "nt ! i + sum_list lens \<le> L")
    case True
    show ?thesis unfolding soft_split_loop_steps(1) [OF True]
      by (intro 2(1) [OF True] fits) (use 2(3,6) in auto)
  next
    case False
    show ?thesis unfolding soft_split_loop_steps(2) [OF False]
      by (intro 2(2) [OF False]) (use 2(3,4,6) in auto)
  qed
qed auto

text \<open>Greedy maximality: a pack is closed only when the first sample of the next one does not fit.\<close>

definition next_overflows :: "int list \<Rightarrow> int \<Rightarrow> nat list \<Rightarrow> nat list \<Rightarrow> bool" where
  "next_overflows nt L p q \<longleftrightarrow> q \<noteq> [] \<and> L < tokens nt p + nt ! hd q"

lemma soft_split_loop_maximal:
  assumes "successively (next_overflows nt L) (map indices infos)"
    and "infos \<noteq> [] \<Longrightarrow> items \<noteq> [] \<and> next_overflows nt L (indices (last infos)) items"
    and "lens = map ((!) nt) items"
  shows "successively (next_overflows nt L)
    (map indices (soft_split_loop did nt L inds items lens lg infos))"
  using assms
proof (induction did nt L inds items lens lg infos rule: soft_split_loop.induct)
  case (1 did nt L items lens lg infos)
  then show ?case by (cases "infos = []") (auto simp: successively_append_iff last_map)
next
  case (2 did nt L i inds items lens lg infos)
  have tok: "tokens nt items = sum_list lens" using 2(5) by (simp add: tokens_def)
  show ?case
  proof (cases "nt ! i + sum_list lens \<le> L")
    case True
    have "infos \<noteq> [] \<Longrightarrow> next_overflows nt L (indices (last infos)) (items @ [i])"
      using 2(4) by (auto simp: next_overflows_def)
    then show ?thesis using True 2(1) 2(3,5) by simp
  next
    case False
    let ?infos = "if 0 < length items
      then infos @ [\<lparr>dataset_id = did, indices = items, longest = lg\<rparr>] else infos"
    have "successively (next_overflows nt L) (map indices ?infos)"
      using 2(3,4) by (cases "infos = []") (auto simp: successively_append_iff last_map)
    moreover have "?infos \<noteq> [] \<Longrightarrow> next_overflows nt L (indices (last ?infos)) [i]"
      using False tok 2(4) by (auto simp: next_overflows_def)
    ultimately show ?thesis using 2(2) False by simp
  qed
qed

subsection \<open>The look-ahead packer\<close>

definition argsort_perm :: "(int list \<Rightarrow> nat list) \<Rightarrow> bool" where
  "argsort_perm argsort \<longleftrightarrow> (\<forall>xs. mset (argsort xs) = mset [0..<length xs])"

lemma argsort_perm_props:
  assumes "argsort_perm argsort"
  shows "distinct (argsort xs)" and "set (argsort xs) = {0..<length xs}"
proof -
  have eq: "mset (argsort xs) = mset [0..<length xs]" using assms by (simp add: argsort_perm_def)
  show "distinct (argsort xs)" by (metis eq distinct_upt mset_eq_imp_distinct_iff)
  show "set (argsort xs) = {0..<length xs}" by (metis eq mset_eq_setD set_upt)
qed

text \<open>The gap filler takes a prefix of the sorted candidates, and only while the gap lasts.\<close>

lemma closest_loop_prefix:
  "\<exists>k. closest_loop b v is s acc = acc @ take k is \<and>
     (take k is \<noteq> [] \<longrightarrow> s + sum_list (map ((!) b) (take k is)) \<le> v)"
proof (induction b v "is" s acc rule: closest_loop.induct)
  case (2 b v i "is" s acc)
  consider "s + b ! i < v" | "s + b ! i = v" | "v < s + b ! i" by linarith
  then show ?case
  proof cases
    case 1
    then obtain k where k: "closest_loop b v (i # is) s acc = (acc @ [i]) @ take k is"
      and le: "take k is \<noteq> [] \<longrightarrow> s + b ! i + sum_list (map ((!) b) (take k is)) \<le> v"
      using 2 by (auto simp: Let_def)
    have "s + b ! i + sum_list (map ((!) b) (take k is)) \<le> v" using le 1 by (cases "take k is = []") (auto simp del: take_eq_Nil)
    with k show ?thesis by (intro exI [of _ "Suc k"]) (simp add: add.assoc)
  next
    case 2
    then show ?thesis by (intro exI [of _ 1]) simp
  next
    case 3
    then show ?thesis by (intro exI [of _ 0]) simp
  qed
qed simp

lemma closest_sum_indices_spec:
  assumes "argsort_perm argsort"
  shows "distinct (closest_sum_indices argsort b v)"
    and "\<forall>c \<in> set (closest_sum_indices argsort b v). c < length b"
    and "closest_sum_indices argsort b v \<noteq> [] \<Longrightarrow>
      sum_list (map ((!) b) (closest_sum_indices argsort b v)) \<le> v"
proof -
  obtain k where k: "closest_sum_indices argsort b v = take k (argsort b)"
    and le: "take k (argsort b) \<noteq> [] \<longrightarrow> sum_list (map ((!) b) (take k (argsort b))) \<le> v"
    using closest_loop_prefix [of b v "argsort b" 0 "[]"] by (auto simp: closest_sum_indices_def)
  note props = argsort_perm_props [OF assms, of b]
  show "distinct (closest_sum_indices argsort b v)" using props by (simp add: k)
  show "\<forall>c \<in> set (closest_sum_indices argsort b v). c < length b"
    using props by (auto simp: k dest: in_set_takeD)
  show "closest_sum_indices argsort b v \<noteq> [] \<Longrightarrow>
      sum_list (map ((!) b) (closest_sum_indices argsort b v)) \<le> v" using le by (simp add: k)
qed

text \<open>Popping the chosen look-ahead positions removes exactly the chosen samples.\<close>

lemma look_ahead_removal:
  assumes "distinct cs" and "\<forall>c \<in> set cs. c < length (last_n n rest)"
  shows "mset rest = mset (map ((!) (last_n n rest)) cs) +
    mset (fold pop_at (rev (sort (map (\<lambda>c. c + length rest - length (last_n n rest)) cs))) rest)"
proof -
  let ?d = "length rest - length (last_n n rest)"
  let ?ps = "map (\<lambda>c. c + length rest - length (last_n n rest)) cs"
  have le: "length (last_n n rest) \<le> length rest" by (simp add: last_n_def)
  then have ps: "?ps = map (\<lambda>c. ?d + c) cs" by auto
  have drop: "last_n n rest = drop ?d rest" by (simp add: last_n_def)
  have "sorted_wrt (>) (rev (sort ?ps))"
    using assms(1) unfolding ps by (intro sorted_wrt_rev_sort) (simp add: distinct_map)
  moreover have "\<forall>i \<in> set (rev (sort ?ps)). i < length rest" using assms(2) le by auto
  ultimately have "mset rest = mset (map ((!) rest) (rev (sort ?ps))) + mset (fold pop_at (rev (sort ?ps)) rest)"
    by (rule mset_fold_pop_at)
  moreover have "mset (map ((!) rest) (rev (sort ?ps))) = mset (map ((!) rest) ?ps)"
    by (metis mset_map mset_rev mset_sort)
  moreover have "map ((!) rest) ?ps = map ((!) (last_n n rest)) cs"
    unfolding ps by (subst (2) drop) (auto simp: last_n_def)
  ultimately show ?thesis by metis
qed

text \<open>The four ways one iteration of the loop continues.\<close>

lemma pack_chunk_loop_fits:
  assumes "inds \<noteq> []" and "nt ! last inds + sum_list lens \<le> L"
  shows "pack_chunk_loop argsort did L extra nt fl inds items lens pf infos =
    pack_chunk_loop argsort did L extra nt fl (butlast inds) (items @ [last inds])
      (lens @ [nt ! last inds]) (pf + fl ! last inds) infos"
  using assms by (simp add: pack_chunk_loop.simps [of _ _ _ _ _ _ inds items lens] Let_def)

lemma pack_chunk_loop_start:
  assumes "inds \<noteq> []" and "\<not> nt ! last inds + sum_list lens \<le> L" and "\<not> 0 < length items"
  shows "pack_chunk_loop argsort did L extra nt fl inds items lens pf infos =
    pack_chunk_loop argsort did L extra nt fl (butlast inds) [last inds]
      [nt ! last inds] (fl ! last inds) infos"
  using assms by (simp add: pack_chunk_loop.simps [of _ _ _ _ _ _ inds "[]" lens] Let_def)

lemma pack_chunk_loop_close:
  assumes "inds \<noteq> []" and "\<not> nt ! last inds + sum_list lens \<le> L" and "0 < length items"
    and "sum_list lens = L \<or> \<not> 0 < extra"
  shows "pack_chunk_loop argsort did L extra nt fl inds items lens pf infos =
    pack_chunk_loop argsort did L extra nt fl (butlast inds) [last inds] [nt ! last inds] (fl ! last inds)
      (infos @ [\<lparr>dataset_id = did, indices = items, longest = py_trunc pf\<rparr>])"
  using assms by (simp add: pack_chunk_loop.simps [of _ _ _ _ _ _ inds items lens] Let_def)

lemma pack_chunk_loop_fill:
  assumes "inds \<noteq> []" and "\<not> nt ! last inds + sum_list lens \<le> L" and "0 < length items"
    and "\<not> (sum_list lens = L \<or> \<not> 0 < extra)"
    and "bi = last_n (nat extra) (butlast inds)"
    and "cs = closest_sum_indices argsort (map ((!) nt) bi) (L - sum_list lens)"
  shows "pack_chunk_loop argsort did L extra nt fl inds items lens pf infos =
    pack_chunk_loop argsort did L extra nt fl
      (fold pop_at (rev (sort (map (\<lambda>c. c + length (butlast inds) - length bi) cs))) (butlast inds))
      [last inds] [nt ! last inds] (fl ! last inds)
      (infos @ [\<lparr>dataset_id = did, indices = items @ map ((!) bi) cs,
                 longest = py_trunc (pf + sum_list (map ((!) fl) (map ((!) bi) cs)))\<rparr>])"
  unfolding assms(5,6)
  using assms(1-4) by (simp only: pack_chunk_loop.simps [of _ _ _ _ _ _ inds items lens] Let_def if_False if_True)

lemma fill_admissible:
  assumes "argsort_perm argsort" and "admissible nt L items"
    and "cs = closest_sum_indices argsort (map ((!) nt) bi) (L - tokens nt items)"
  shows "admissible nt L (items @ map ((!) bi) cs)"
proof (cases "cs = []")
  case False
  note spec = closest_sum_indices_spec [OF assms(1), of "map ((!) nt) bi" "L - tokens nt items", folded assms(3)]
  have "map ((!) (map ((!) nt) bi)) cs = map ((!) nt) (map ((!) bi) cs)" using spec(2) by auto
  then have "tokens nt (map ((!) bi) cs) \<le> L - tokens nt items"
    using spec(3) [OF False] by (simp only: tokens_def)
  then show ?thesis using assms(2) by (auto simp: admissible_def)
qed (use assms(2) in simp)

lemma pack_chunk_loop_spec:
  assumes "argsort_perm argsort"
    and "items \<noteq> [] \<Longrightarrow> admissible nt L items" and "lens = map ((!) nt) items"
    and "\<forall>p \<in> set infos. admissible nt L (indices p)"
  shows "mset (concat (map indices (pack_chunk_loop argsort did L extra nt fl inds items lens pf infos))) =
      mset (concat (map indices infos)) + mset items + mset inds \<and>
    (\<forall>p \<in> set (pack_chunk_loop argsort did L extra nt fl inds items lens pf infos).
      admissible nt L (indices p))"
  using assms
proof (induction argsort did L extra nt fl inds items lens pf infos rule: pack_chunk_loop.induct)
  case (1 argsort did L extra nt fl inds items lens pf infos)
  let ?i = "last inds" and ?rest = "butlast inds"
  have tok: "sum_list lens = tokens nt items" using 1(7) by (simp add: tokens_def)
  have single: "admissible nt L [?i]" by (simp add: admissible_def)
  show ?case
  proof (cases "inds = []")
    case True
    then show ?thesis using 1(6,8) by (auto simp: pack_chunk_loop.simps)
  next
    case ne: False
    then have split: "mset inds = add_mset ?i (mset ?rest)"
      by (metis append_butlast_last_id mset_append mset.simps add_mset_add_single union_commute)
    consider (fits) "nt ! ?i + sum_list lens \<le> L"
      | (start) "\<not> nt ! ?i + sum_list lens \<le> L" "\<not> 0 < length items"
      | (close) "\<not> nt ! ?i + sum_list lens \<le> L" "0 < length items" "sum_list lens = L \<or> \<not> 0 < extra"
      | (fill) "\<not> nt ! ?i + sum_list lens \<le> L" "0 < length items" "\<not> (sum_list lens = L \<or> \<not> 0 < extra)"
      by blast
    then show ?thesis
    proof cases
      case fits
      then have "admissible nt L (items @ [?i])" using tok by (simp add: admissible_def)
      then show ?thesis using 1(1) [OF ne refl refl fits 1(5)] 1(7,8)
        unfolding pack_chunk_loop_fits [OF ne fits] by (simp add: split)
    next
      case start
      then show ?thesis using 1(4) [OF ne refl refl start 1(5)] 1(8) single
        unfolding pack_chunk_loop_start [OF ne start] by (simp add: split)
    next
      case close
      then show ?thesis using 1(2) [OF ne refl refl close 1(5)] 1(6,8) single
        unfolding pack_chunk_loop_close [OF ne close] by (simp add: split)
    next
      case fill
      define bi where "bi = last_n (nat extra) ?rest"
      define cs where "cs = closest_sum_indices argsort (map ((!) nt) bi) (L - sum_list lens)"
      note spec = closest_sum_indices_spec [OF 1(5), of "map ((!) nt) bi" "L - sum_list lens", folded cs_def]
      have adm: "admissible nt L (items @ map ((!) bi) cs)"
        using 1(5,6) fill(2) by (intro fill_admissible) (auto simp: cs_def tok)
      have rest: "mset ?rest = mset (map ((!) bi) cs) +
          mset (fold pop_at (rev (sort (map (\<lambda>c. c + length ?rest - length bi) cs))) ?rest)"
        unfolding bi_def by (rule look_ahead_removal) (use spec in \<open>auto simp: bi_def\<close>)
      show ?thesis
        using 1(3) [OF ne refl refl fill bi_def cs_def refl refl 1(5)] 1(8) single adm
        unfolding pack_chunk_loop_fill [OF ne fill bi_def cs_def] by (simp add: split rest)
    qed
  qed
qed

subsection \<open>The packer interface\<close>

text \<open>
  What the datasets and the reinforcement-learning packer rely on: a packer partitions the visited
  positions into admissible packs. The consequences are proved once, in the interface.
\<close>

locale index_packer =
  fixes packs :: "int list \<Rightarrow> int \<Rightarrow> nat list \<Rightarrow> nat list list"
  assumes packs_mset: "mset (concat (packs nt L inds)) = mset inds"
    and packs_admissible: "p \<in> set (packs nt L inds) \<Longrightarrow> admissible nt L p"
begin

lemma packs_set: "set (concat (packs nt L inds)) = set inds"
  by (metis packs_mset mset_eq_setD)

lemma packs_distinct: "distinct inds \<Longrightarrow> distinct (concat (packs nt L inds))"
  by (metis packs_mset mset_eq_imp_distinct_iff)

lemma packs_fit:
  assumes "\<forall>i \<in> set inds. nt ! i \<le> L" and p: "p \<in> set (packs nt L inds)"
  shows "tokens nt p \<le> L"
proof -
  have "set p \<subseteq> set inds" using p packs_set [of nt L inds] by auto
  with assms(1) packs_admissible [OF p] show ?thesis
    by (auto simp: admissible_def length_Suc_conv)
qed

text \<open>No packer can need fewer packs than the token total demands.\<close>

lemma packs_lower_bound:
  assumes "\<forall>i \<in> set inds. nt ! i \<le> L"
  shows "tokens nt inds \<le> L * int (length (packs nt L inds))"
proof -
  have "(\<forall>p \<in> set ps. tokens nt p \<le> L) \<Longrightarrow> tokens nt (concat ps) \<le> L * int (length ps)" for ps
    by (induction ps) (auto simp: algebra_simps)
  then have "tokens nt (concat (packs nt L inds)) \<le> L * int (length (packs nt L inds))"
    using packs_fit [OF assms] by blast
  then show ?thesis by (simp add: tokens_mset [OF packs_mset])
qed

end

definition soft_packs :: "int list \<Rightarrow> int \<Rightarrow> nat list \<Rightarrow> nat list list" where
  "soft_packs nt L inds = map indices (soft_split_loop 0 nt L inds [] [] 0 [])"

interpretation soft: index_packer soft_packs
proof
  show "mset (concat (soft_packs nt L inds)) = mset inds" for nt L inds
    by (simp add: soft_packs_def soft_split_loop_indices)
  show "admissible nt L p" if "p \<in> set (soft_packs nt L inds)" for nt L inds p
    using that soft_split_loop_admissible [of "[]" nt L "[]" "[]" 0 inds 0] by (auto simp: soft_packs_def)
qed

text \<open>The look-ahead packer meets the same contract for every \<open>argsort\<close> that permutes.\<close>

definition look_ahead_packs ::
  "(int list \<Rightarrow> nat list) \<Rightarrow> int \<Rightarrow> pyfloat list \<Rightarrow> int list \<Rightarrow> int \<Rightarrow> nat list \<Rightarrow> nat list list" where
  "look_ahead_packs argsort extra fl nt L inds =
     map indices (pack_chunk_loop argsort 0 L extra nt fl inds [] [] 0 [])"

lemma look_ahead_index_packer:
  assumes "argsort_perm argsort"
  shows "index_packer (look_ahead_packs argsort extra fl)"
proof
  fix nt L inds
  have spec: "mset (concat (look_ahead_packs argsort extra fl nt L inds)) = mset inds \<and>
      (\<forall>p \<in> set (look_ahead_packs argsort extra fl nt L inds). admissible nt L p)"
    using pack_chunk_loop_spec [OF assms, of "[]" nt L "[]" "[]" 0 extra fl inds 0]
    by (simp add: look_ahead_packs_def)
  then show "mset (concat (look_ahead_packs argsort extra fl nt L inds)) = mset inds" by blast
  show "admissible nt L p" if "p \<in> set (look_ahead_packs argsort extra fl nt L inds)" for p
    using spec that by blast
qed

lemma soft_split_indices:
  "get_pack_infos_by_soft_split inds did nt L = Inr infos \<Longrightarrow>
    map indices infos = soft_packs nt L inds"
proof -
  have "map indices (soft_split_loop did nt L inds items lens lg infos) =
      map indices (soft_split_loop did' nt L inds items lens lg' infos')"
    if "map indices infos = map indices infos'" for did did' items lens lg lg' infos infos'
    using that
    by (induction did nt L inds items lens lg infos arbitrary: lg' infos' rule: soft_split_loop.induct) auto
  then show "get_pack_infos_by_soft_split inds did nt L = Inr infos \<Longrightarrow> ?thesis"
    by (auto simp: get_pack_infos_by_soft_split_def soft_packs_def split: if_splits)
qed

lemma pack_chunk_infos_spec:
  assumes "argsort_perm argsort" and "\<forall>i \<in> set inds. i < length nt" and "length nt = length fl"
  obtains infos where "get_pack_chunk_infos argsort inds did L extra nt fl = Inr infos"
    and "mset (concat (map indices infos)) = mset inds"
    and "\<forall>p \<in> set infos. admissible nt L (indices p)"
  using pack_chunk_loop_spec [OF assms(1), of "[]" nt L "[]" "[]" did extra fl inds 0] assms(2,3) that
  by (simp add: get_pack_chunk_infos_def)

lemma expand_sequential_eq:
  "expand_sequential run cs acc = rbind (rmap run cs) (\<lambda>rs. Inr (acc @ concat rs))"
proof (induction cs arbitrary: acc)
  case (Cons c cs)
  then show ?case by (cases "run c") (auto simp: rbind_def split: sum.splits)
qed simp

lemma chunk_results:
  assumes "argsort_perm argsort" and "\<forall>i \<in> set (concat cs). i < length nt" and "length nt = length fl"
  shows "\<exists>rs. rmap (\<lambda>c. get_pack_chunk_infos argsort c did L extra nt fl) cs = Inr rs \<and>
    mset (concat (map indices (concat rs))) = mset (concat cs) \<and>
    (\<forall>p \<in> set (concat rs). admissible nt L (indices p))"
  using assms(2)
proof (induction cs)
  case (Cons c cs)
  then obtain rs where rs: "rmap (\<lambda>c. get_pack_chunk_infos argsort c did L extra nt fl) cs = Inr rs"
    "mset (concat (map indices (concat rs))) = mset (concat cs)"
    "\<forall>p \<in> set (concat rs). admissible nt L (indices p)" by auto
  from Cons.prems obtain infos where "get_pack_chunk_infos argsort c did L extra nt fl = Inr infos"
    "mset (concat (map indices infos)) = mset c" "\<forall>p \<in> set infos. admissible nt L (indices p)"
    using pack_chunk_infos_spec [OF assms(1) _ assms(3), of c did L extra] by auto
  with rs show ?case by auto
qed simp

lemma expand_soft_split_spec:
  assumes "argsort_perm argsort" and "\<forall>i \<in> set inds. i < length nt" and "length nt = length fl"
    and "0 < chunk_size"
  shows "\<exists>infos. get_pack_infos_by_expand_soft_split argsort inds did nt fl L workers chunk_size extra = Inr infos \<and>
    mset (concat (map indices infos)) = mset inds \<and>
    (\<forall>p \<in> set infos. admissible nt L (indices p))"
proof -
  have "concat (chunks (nat chunk_size) inds) = inds" using assms(4) by simp
  then obtain rs where
    "rmap (\<lambda>c. get_pack_chunk_infos argsort c did L extra nt fl) (chunks (nat chunk_size) inds) = Inr rs"
    "mset (concat (map indices (concat rs))) = mset inds" "\<forall>p \<in> set (concat rs). admissible nt L (indices p)"
    using chunk_results [OF assms(1) _ assms(3), of "chunks (nat chunk_size) inds" did L extra] assms(2) by auto
  then show ?thesis using assms(3,4)
    by (auto simp: get_pack_infos_by_expand_soft_split_def py_chunks_def expand_sequential_eq Let_def)
qed

text \<open>Neighbouring greedy packs overflow together, which bounds how many packs there are.\<close>

lemma successive_overflow_bound:
  assumes "successively (next_overflows nt L) ps" and "\<forall>p \<in> set ps. \<forall>i \<in> set p. 0 \<le> nt ! i"
  shows "(int (length ps) - 1) * (L + 1) \<le> 2 * tokens nt (concat ps) - (if ps = [] then 0 else tokens nt (hd ps)) +
    (if ps = [] then - L - 1 else 0)"
  using assms
proof (induction ps rule: induct_list012)
  case 2
  then show ?case by (simp add: tokens_nonneg)
next
  case (3 p q ps)
  have "0 \<le> tokens nt (tl q)" using 3(4) by (cases q) (auto intro!: tokens_nonneg)
  moreover have "q \<noteq> []" "L < tokens nt p + nt ! hd q" using 3(3) by (auto simp: next_overflows_def)
  ultimately have "L + 1 \<le> tokens nt p + tokens nt q" by (cases q) auto
  moreover have "(int (length (q # ps)) - 1) * (L + 1) \<le> 2 * tokens nt (concat (q # ps)) - tokens nt q"
    using 3(2) [of ] 3(3,4) by simp
  ultimately show ?case by (simp add: algebra_simps)
qed simp

lemma soft_split_dataset_id:
  "\<forall>p \<in> set infos. dataset_id p = did \<Longrightarrow>
    \<forall>p \<in> set (soft_split_loop did nt L inds items lens lg infos). dataset_id p = did"
proof (induction did nt L inds items lens lg infos rule: soft_split_loop.induct)
  case (2 did nt L i inds items lens lg infos)
  show ?case
  proof (cases "nt ! i + sum_list lens \<le> L")
    case True
    show ?thesis unfolding soft_split_loop_steps(1) [OF True] using 2(1) [OF True 2(3)] .
  next
    case False
    show ?thesis unfolding soft_split_loop_steps(2) [OF False]
      by (rule 2(2) [OF False]) (use 2(3) in auto)
  qed
qed auto

subsection \<open>Properties\<close>

text \<open>C4. Sequential soft packing succeeds on every in-range visit order: it returns the indices in
  their visit order, each exactly once, in non-empty packs that fit the budget unless they are one
  oversized sample; every pack reports its longest sample; and a pack is closed only when the next
  sample does not fit.\<close>

theorem soft_split_correct:
  assumes "\<forall>i \<in> set inds. i < length nt \<and> 0 \<le> nt ! i"
  shows "\<exists>infos. get_pack_infos_by_soft_split inds did nt L = Inr infos \<and>
    concat (map indices infos) = inds \<and>
    (\<forall>p \<in> set infos. dataset_id p = did \<and> admissible nt L (indices p) \<and>
       longest p = Max (set (map ((!) nt) (indices p)))) \<and>
    successively (next_overflows nt L) (map indices infos)"
proof -
  let ?r = "soft_split_loop did nt L inds [] [] 0 []"
  have "get_pack_infos_by_soft_split inds did nt L = Inr ?r"
    using assms by (simp add: get_pack_infos_by_soft_split_def)
  moreover have "concat (map indices ?r) = inds" by (simp add: soft_split_loop_indices)
  moreover have "\<forall>p \<in> set ?r. dataset_id p = did" by (rule soft_split_dataset_id) simp
  moreover have "\<forall>p \<in> set ?r. admissible nt L (indices p)" by (rule soft_split_loop_admissible) simp_all
  moreover have "\<forall>p \<in> set ?r. longest p = Max (set (map ((!) nt) (indices p)))"
    by (rule soft_split_loop_longest) (use assms in auto)
  moreover have "successively (next_overflows nt L) (map indices ?r)"
    by (rule soft_split_loop_maximal) simp_all
  ultimately show ?thesis by blast
qed

theorem soft_split_correct_witness:
  "\<exists>infos. get_pack_infos_by_soft_split [2, 0, 1] 7 [3, 2, 4] 5 = Inr infos \<and>
      concat (map indices infos) = [2, 0, 1] \<and>
      list_all (\<lambda>p. dataset_id p = 7 \<and> admissible [3, 2, 4] 5 (indices p) \<and>
        longest p = Max (set (map ((!) [3, 2, 4]) (indices p)))) infos \<and>
      successively (next_overflows [3, 2, 4] 5) (map indices infos)"
  unfolding list_all_iff by (rule soft_split_correct) simp

text \<open>Sequential soft packing is within a factor two of the best possible: with samples that all
  fit the budget, \<open>L\<close> times the number of packs is at least the token total, and one pack fewer
  would need less than twice the token total.\<close>

theorem soft_split_efficiency:
  assumes "get_pack_infos_by_soft_split inds did nt L = Inr infos"
    and "\<forall>i \<in> set inds. 0 \<le> nt ! i \<and> nt ! i \<le> L" and "inds \<noteq> []"
  shows "tokens nt inds \<le> L * int (length infos) \<and>
    (int (length infos) - 1) * (L + 1) \<le> 2 * tokens nt inds"
proof
  have ix: "map indices infos = soft_packs nt L inds" using assms(1) by (rule soft_split_indices)
  then have len: "length infos = length (soft_packs nt L inds)" by (metis length_map)
  show "tokens nt inds \<le> L * int (length infos)"
    using soft.packs_lower_bound [of inds nt L] assms(2) by (simp add: len)
  let ?ps = "soft_packs nt L inds"
  have "successively (next_overflows nt L) ?ps"
    unfolding soft_packs_def by (rule soft_split_loop_maximal) simp_all
  moreover have nonneg: "\<forall>p \<in> set ?ps. \<forall>i \<in> set p. 0 \<le> nt ! i"
    using assms(2) soft.packs_set [of nt L inds] by auto
  ultimately have "(int (length ?ps) - 1) * (L + 1) \<le>
      2 * tokens nt (concat ?ps) - (if ?ps = [] then 0 else tokens nt (hd ?ps)) +
      (if ?ps = [] then - L - 1 else 0)" by (rule successive_overflow_bound)
  moreover have "?ps \<noteq> []" using soft.packs_set [of nt L inds] assms(3) by auto
  moreover have "0 \<le> tokens nt (hd ?ps)"
    using nonneg \<open>?ps \<noteq> []\<close> by (intro tokens_nonneg) (metis list.set_sel(1))
  moreover have "tokens nt (concat ?ps) = tokens nt inds" by (rule tokens_mset [OF soft.packs_mset])
  ultimately show "(int (length infos) - 1) * (L + 1) \<le> 2 * tokens nt inds"
    by (simp add: len)
qed

theorem soft_split_efficiency_witness:
  "tokens [3, 2, 4] [0, 1, 2] \<le> 5 * int (length
      (soft_split_loop 0 [3, 2, 4] 5 [0, 1, 2] [] [] 0 [])) \<and>
   (int (length (soft_split_loop 0 [3, 2, 4] 5 [0, 1, 2] [] [] 0 [])) - 1) * (5 + 1) \<le> 2 * tokens [3, 2, 4] [0, 1, 2]"
  by (rule soft_split_efficiency [of "[0, 1, 2]" 0 "[3, 2, 4]" 5])
     (simp_all add: get_pack_infos_by_soft_split_def numeral_2_eq_2)

text \<open>\<open>ExpandSoftPackDataset.get_pack_infos\<close> never trips its own assertion: for every permutation
  drawn by \<open>torch.randperm\<close> and every \<open>argsort\<close> that permutes, the packs hold every sample of the
  dataset exactly once and every pack is admissible.\<close>

theorem expand_get_pack_infos_total:
  assumes "argsort_perm argsort" and "mset (randperm n) = mset [0..<n]"
    and "length nt = n" and "length fl = n" and "0 < chunk_size"
  shows "\<exists>infos. expand_get_pack_infos randperm argsort n did nt fl L workers chunk_size extra = Inr infos \<and>
    mset (concat (map indices infos)) = mset [0..<n] \<and>
    (\<forall>p \<in> set infos. admissible nt L (indices p))"
proof -
  have rng: "\<forall>i \<in> set (randperm n). i < length nt"
    using assms(2,3) by (metis atLeastLessThan_iff mset_eq_setD set_upt)
  obtain infos where infos:
    "get_pack_infos_by_expand_soft_split argsort (randperm n) did nt fl L workers chunk_size extra = Inr infos"
    "mset (concat (map indices infos)) = mset (randperm n)" "\<forall>p \<in> set infos. admissible nt L (indices p)"
    using expand_soft_split_spec [OF assms(1) rng, of fl chunk_size did L workers extra] assms(3-5) by auto
  then have perm: "mset (concat (map indices infos)) = mset [0..<n]" using assms(2) by simp
  then have len: "length (concat (map indices infos)) = n" by (metis length_upt minus_nat.diff_0 size_mset)
  have "distinct (concat (map indices infos))" by (metis perm distinct_upt mset_eq_imp_distinct_iff)
  then have "card (set (concat (map indices infos))) = n" using len by (metis distinct_card)
  with infos(1,3) perm len show ?thesis by (simp add: expand_get_pack_infos_def Let_def)
qed

theorem expand_get_pack_infos_total_witness:
  "\<exists>infos. expand_get_pack_infos (\<lambda>n. rev [0..<n]) (\<lambda>xs. sort_key ((!) xs) [0..<length xs]) 4 0
       [3, 2, 4, 1] [3, 2, 4, 1] 5 8 3 2 = Inr infos \<and>
    mset (concat (map indices infos)) = mset [0..<4] \<and>
    list_all (\<lambda>p. admissible [3, 2, 4, 1] 5 (indices p)) infos"
  unfolding list_all_iff by (rule expand_get_pack_infos_total) (simp_all add: argsort_perm_def)

text \<open>The number of pack workers does not change the packing: the process-pool path and the
  sequential path of \<open>get_pack_infos_by_expand_soft_split\<close> agree on every input, errors included.\<close>

theorem expand_workers_irrelevant:
  "get_pack_infos_by_expand_soft_split argsort inds did nt fl L workers chunk_size extra =
   get_pack_infos_by_expand_soft_split argsort inds did nt fl L workers' chunk_size extra"
  unfolding get_pack_infos_by_expand_soft_split_def expand_sequential_eq Let_def append_Nil if_cancel by (rule refl)

end
