(* ===== verification/RLPack.thy ===== *)
theory RLPack
  imports SoftPack
begin

text \<open>
  Index-only packing of reinforcement-learning batches,
  \<^verbatim>\<open>xtuner/v1/rl/trainer/pack.py\<close>: the five strategies of \<open>RLDataPacker\<close>, the checks of
  \<open>pack\<close>, with
  \<open>get_length_grouped_indices\<close> of \<^verbatim>\<open>datasets/sampler.py\<close> and \<open>partition_indices\<close> of
  \<^verbatim>\<open>rl/trainer/schedule.py\<close>.

  What the code takes from outside is the record \<open>pack_env\<close>: the flag \<open>XTUNER_DETERMINISTIC\<close>,
  the shuffles of \<open>random\<close>, \<open>torch.randperm\<close>, \<open>numpy.argsort\<close> and \<open>numpy.array_split\<close>. Sizes
  (workers, steps, bins) are \<open>nat\<close>; token lengths and the budget are \<open>int\<close>. A plan is indexed
  \<open>[dp rank][optimizer step][pack][sample]\<close>.
\<close>

type_synonym rank_plan = "nat list list list"
type_synonym packed = "rank_plan list"

record pack_env =
  deterministic :: bool
  shuffle_indices :: "nat list \<Rightarrow> nat list"
  shuffle_packs :: "nat list list \<Rightarrow> nat list list"
  shuffle_groups :: "nat \<Rightarrow> nat list list \<Rightarrow> nat list list"
  randperm :: "nat \<Rightarrow> nat list"
  np_argsort :: "int list \<Rightarrow> nat list"
  array_split :: "int list \<Rightarrow> nat \<Rightarrow> int list list"

record packer =
  pack_max_length :: int
  optimizer_steps :: nat
  dp_size :: nat
  pack_extra_buffer_size :: int
  pack_strategy :: string
  split_size :: int

definition RLDataPacker_init :: "int \<Rightarrow> nat \<Rightarrow> nat \<Rightarrow> nat \<Rightarrow> string \<Rightarrow> int \<Rightarrow> packer res" where
  "RLDataPacker_init L world_size data_replicate_size steps strategy extra =
     (if data_replicate_size = 0 then Inl ZeroDivisionError
      else if extra < 0 then Inl ValueError
      else if strategy \<notin> set [''legacy'', ''greedy'', ''balance'', ''native'', ''lpt''] then Inl ValueError
      else Inr \<lparr>pack_max_length = L, optimizer_steps = steps,
                dp_size = world_size div data_replicate_size,
                pack_extra_buffer_size = extra, pack_strategy = strategy, split_size = 1024\<rparr>)"

subsection \<open>Sequential greedy and longest-processing-time packs\<close>

definition get_greedy_pack_infos :: "'a list \<Rightarrow> int list \<Rightarrow> int \<Rightarrow> 'a list list res" where
  "get_greedy_pack_infos data_indices num_tokens target =
     (if length data_indices \<noteq> length num_tokens then Inl ValueError
      else rbind (get_pack_infos_by_soft_split [0..<length data_indices] 0 num_tokens target)
             (\<lambda>infos. Inr (map (\<lambda>info. map ((!) data_indices) (indices info)) infos)))"

text \<open>
  The heap of pairs (load, bin): \<open>heap[0]\<close> is the least pair and \<open>heapreplace\<close> replaces it.
\<close>

definition pair_le :: "int \<times> nat \<Rightarrow> int \<times> nat \<Rightarrow> bool" where
  "pair_le x y \<longleftrightarrow> fst x < fst y \<or> fst x = fst y \<and> snd x \<le> snd y"

fun heap_top :: "(int \<times> nat) list \<Rightarrow> int \<times> nat" where
  "heap_top [] = (0, 0)"
| "heap_top [x] = x"
| "heap_top (x # y # ys) = (let t = heap_top (y # ys) in if pair_le x t then x else t)"

definition heapreplace :: "(int \<times> nat) list \<Rightarrow> int \<times> nat \<Rightarrow> (int \<times> nat) list" where
  "heapreplace heap x = x # remove1 (heap_top heap) heap"

text \<open>One assignment round: \<open>Inr None\<close> is \<open>feasible = False\<close>; \<open>heap[0]\<close> of an empty heap raises.\<close>

fun lpt_assign ::
  "'a list \<Rightarrow> int list \<Rightarrow> int \<Rightarrow> nat list \<Rightarrow> (int \<times> nat) list \<Rightarrow> 'a list list \<Rightarrow> 'a list list option res" where
  "lpt_assign data_indices num_tokens L [] heap bins = Inr (Some bins)"
| "lpt_assign data_indices num_tokens L (p # order) heap bins =
     (if heap = [] then Inl IndexError
      else let (load, b) = heap_top heap; t = num_tokens ! p in
        if load + t \<le> L
        then lpt_assign data_indices num_tokens L order (heapreplace heap (load + t, b))
               (bins[b := bins ! b @ [data_indices ! p]])
        else Inr None)"

definition lpt_round :: "'a list \<Rightarrow> int list \<Rightarrow> int \<Rightarrow> nat list \<Rightarrow> nat \<Rightarrow> 'a list list option res" where
  "lpt_round data_indices num_tokens L order num_bins =
     lpt_assign data_indices num_tokens L order (map (\<lambda>b. (0, b)) [0..<num_bins]) (replicate num_bins [])"

text \<open>\<open>while True\<close>: the result is \<open>None\<close> only if the loop never ends.\<close>

partial_function (option) lpt_loop ::
  "'a list \<Rightarrow> int list \<Rightarrow> int \<Rightarrow> nat list \<Rightarrow> nat \<Rightarrow> nat \<Rightarrow> 'a list list res option" where
  "lpt_loop data_indices num_tokens L order dp num_bins =
     (case lpt_round data_indices num_tokens L order num_bins of
        Inl e \<Rightarrow> Some (Inl e)
      | Inr (Some bins) \<Rightarrow> Some (Inr bins)
      | Inr None \<Rightarrow> lpt_loop data_indices num_tokens L order dp (num_bins + dp))"

definition get_lpt_pack_infos ::
  "'a list \<Rightarrow> int list \<Rightarrow> int \<Rightarrow> nat \<Rightarrow> nat \<Rightarrow> 'a list list res option" where
  "get_lpt_pack_infos data_indices num_tokens L num_bins dp =
     (if length data_indices \<noteq> length num_tokens then Some (Inl ValueError)
      else if dp = 0 then Some (Inl ValueError)
      else if \<exists>t \<in> set num_tokens. L < t then Some (Inl ValueError)
      else lpt_loop data_indices num_tokens L
             (sort_key (\<lambda>p. - (num_tokens ! p)) [0..<length data_indices]) dp num_bins)"

definition partition_packs :: "'a list \<Rightarrow> nat \<Rightarrow> 'a list list res" where
  "partition_packs packs max_updates =
     (if packs = [] then Inr []
      else let num_updates = min (length packs) max_updates in
        if num_updates = 0 then Inl ZeroDivisionError
        else Inr (split_lens (even_sizes (length packs) num_updates) packs))"

text \<open>The same cut with an explicit check, \<open>partition_indices\<close> of the update scheduler.\<close>

definition partition_indices :: "nat list \<Rightarrow> int \<Rightarrow> nat list list res" where
  "partition_indices ix max_updates =
     (if ix = [] then Inr []
      else if max_updates \<le> 0 then Inl ValueError
      else let num_updates = min (length ix) (nat max_updates)
        in Inr (split_lens (even_sizes (length ix) num_updates) ix))"

subsection \<open>Length grouping\<close>

definition megabatch_groups :: "int list \<Rightarrow> nat \<Rightarrow> nat list \<Rightarrow> nat list list" where
  "megabatch_groups max_lengths group_size megabatch =
     chunks group_size (sort_key (\<lambda>i. - (max_lengths ! i)) megabatch)"

definition get_length_grouped_indices ::
  "(nat \<Rightarrow> nat list) \<Rightarrow> (nat \<Rightarrow> nat list list \<Rightarrow> nat list list) \<Rightarrow> int list \<Rightarrow> nat \<Rightarrow> nat \<Rightarrow> nat list res" where
  "get_length_grouped_indices perm shuf max_lengths group_batch_size group_size =
     (if group_batch_size = 0 then Inl ValueError
      else let megabatches = chunks group_batch_size (perm (length max_lengths)) in
        if megabatches \<noteq> [] \<and> group_size = 0 then Inl ValueError
        else Inr (concat (map (\<lambda>(k, m). concat (shuf k (megabatch_groups max_lengths group_size m)))
                   (zip [0..<length megabatches] megabatches))))"

subsection \<open>The strategies\<close>

text \<open>
  The common tail of \<open>_legacy_pack\<close> and \<open>_greedy_pack\<close>: pad the pack list to a multiple of the rank
  count, deal it round-robin, cut each rank's packs into optimizer steps.
\<close>

definition interleave_packs :: "packer \<Rightarrow> nat list list \<Rightarrow> packed res" where
  "interleave_packs cfg total_packs =
     (let dp = dp_size cfg; len = length total_packs in
      if dp = 0 \<or> optimizer_steps cfg = 0 then Inl ZeroDivisionError
      else
        let padded = total_packs @ replicate (ceil_div len dp * dp - len) [];
            packs_per_dp = length padded div dp;
            iters_per_step = max 1 (ceil_div packs_per_dp (optimizer_steps cfg));
            actual_steps = ceil_div packs_per_dp iters_per_step
        in Inr (map (\<lambda>r. let mine = stride r dp padded in
                      map (\<lambda>s. take iters_per_step (drop (s * iters_per_step) mine)) [0..<actual_steps])
                  [0..<dp]))"

definition visit_order :: "pack_env \<Rightarrow> nat list \<Rightarrow> nat list" where
  "visit_order env data_indices =
     (if deterministic env then data_indices else shuffle_indices env data_indices)"

definition legacy_pack :: "pack_env \<Rightarrow> packer \<Rightarrow> nat list \<Rightarrow> int list \<Rightarrow> packed res" where
  "legacy_pack env cfg data_indices data_lengths =
     (let order = visit_order env data_indices in
      rbind (get_greedy_pack_infos order (map ((!) data_lengths) order) (pack_max_length cfg))
        (interleave_packs cfg))"

definition greedy_pack :: "pack_env \<Rightarrow> packer \<Rightarrow> nat list \<Rightarrow> int list \<Rightarrow> packed res" where
  "greedy_pack env cfg data_indices data_lengths =
     (let order = visit_order env data_indices;
          lengths = map ((!) data_lengths) order
      in rbind (get_pack_chunk_infos (np_argsort env) (rev [0..<length order]) 0 (pack_max_length cfg)
                  (pack_extra_buffer_size cfg) lengths (map of_int lengths))
           (\<lambda>infos. interleave_packs cfg (map (\<lambda>info. map ((!) order) (indices info)) infos)))"

definition get_scheduled_length :: "packer \<Rightarrow> int \<Rightarrow> int list \<Rightarrow> int" where
  "get_scheduled_length cfg data_index data_lengths =
     (if 0 \<le> data_index then data_lengths ! nat data_index else min (split_size cfg) (pack_max_length cfg))"

definition pack_indices :: "packer \<Rightarrow> int list \<Rightarrow> int list \<Rightarrow> nat list list res" where
  "pack_indices cfg data_indices data_lengths =
     (let scheduled = map (\<lambda>i. get_scheduled_length cfg i data_lengths) data_indices in
      rbind (if pack_max_length cfg < sum_list scheduled
             then get_greedy_pack_infos data_indices scheduled (pack_max_length cfg)
             else Inr [data_indices])
        (\<lambda>packs. Inr (map (\<lambda>pack. map nat (filter (\<lambda>i. 0 \<le> i) pack)) packs)))"

definition align_pack_count :: "packed \<Rightarrow> nat list \<Rightarrow> packed" where
  "align_pack_count plan max_packs =
     map (map (\<lambda>(m, step). step @ replicate (m - length step) []) \<circ> zip max_packs) plan"

text \<open>Pack every rank's steps, record the largest pack count of each step, align.\<close>

definition pack_and_align :: "packer \<Rightarrow> nat \<Rightarrow> int list list list \<Rightarrow> int list \<Rightarrow> packed res" where
  "pack_and_align cfg steps partitioned data_lengths =
     rbind (rmap (rmap (\<lambda>ix. pack_indices cfg ix data_lengths)) partitioned)
       (\<lambda>plan. Inr (align_pack_count plan
          (map (\<lambda>s. fold max (map (\<lambda>rank. length (rank ! s)) plan) 0) [0..<steps])))"

definition deal_indices :: "nat \<Rightarrow> nat \<Rightarrow> nat list \<Rightarrow> int list list list" where
  "deal_indices dp steps grouped =
     map (\<lambda>d. map (\<lambda>s. map (\<lambda>i. int (grouped ! i))
                     (filter (\<lambda>i. i mod dp = d \<and> (i div dp) mod steps = s) [0..<length grouped]))
                [0..<steps]) [0..<dp]"

definition balance_pack :: "pack_env \<Rightarrow> packer \<Rightarrow> nat list \<Rightarrow> int list \<Rightarrow> packed res" where
  "balance_pack env cfg data_indices data_lengths =
     rbind (get_length_grouped_indices (randperm env) (shuffle_groups env) data_lengths
              (length data_indices) (dp_size cfg))
       (\<lambda>grouped.
          if grouped \<noteq> [] \<and> optimizer_steps cfg = 0 then Inl ZeroDivisionError
          else pack_and_align cfg (optimizer_steps cfg)
                 (deal_indices (dp_size cfg) (optimizer_steps cfg) grouped) data_lengths)"

definition native_pack :: "pack_env \<Rightarrow> packer \<Rightarrow> nat list \<Rightarrow> int list \<Rightarrow> packed res" where
  "native_pack env cfg data_indices data_lengths =
     (let dp = dp_size cfg in
      if dp = 0 then Inl ZeroDivisionError
      else
        let n = length data_indices;
            pad_num = (if n mod dp \<noteq> 0 then dp - n mod dp else 0);
            scheduled = map int data_indices @ map (\<lambda>i. - (int i + 1)) [0..<pad_num];
            batches = array_split env scheduled dp;
            actual_steps = min (length (hd batches)) (optimizer_steps cfg)
        in if actual_steps = 0 then Inl ValueError
           else pack_and_align cfg actual_steps
                  (map (\<lambda>batch. array_split env batch actual_steps) batches) data_lengths)"

definition lpt_pack :: "pack_env \<Rightarrow> packer \<Rightarrow> nat list \<Rightarrow> int list \<Rightarrow> packed res option" where
  "lpt_pack env cfg data_indices data_lengths =
     (let dp = dp_size cfg; L = pack_max_length cfg;
          num_tokens = map ((!) data_lengths) data_indices
      in if L = 0 \<or> dp = 0 then Some (Inl ZeroDivisionError)
      else
        let min_bins = optimizer_steps cfg * dp;
            cap_bins = nat (ceil_int (ceil_int (sum_list num_tokens) L) (int dp)) * dp
        in case get_lpt_pack_infos data_indices num_tokens L (max min_bins cap_bins) dp of
             None \<Rightarrow> None
           | Some r \<Rightarrow> Some (rbind r (\<lambda>packs.
               let packs' = (if deterministic env then packs else shuffle_packs env packs) in
               rmap (\<lambda>r. partition_packs (stride r dp packs') (optimizer_steps cfg)) [0..<dp])))"

subsection \<open>The checked entry points\<close>

definition pack_tokens :: "int list \<Rightarrow> nat list \<Rightarrow> int" where
  "pack_tokens data_lengths pack = sum_list (map ((!) data_lengths) pack)"

definition plan_packs :: "packed \<Rightarrow> nat list list" where
  "plan_packs plan = concat (concat plan)"

definition count_padding_tokens :: "packer \<Rightarrow> packed \<Rightarrow> int list \<Rightarrow> int res" where
  "count_padding_tokens cfg plan data_lengths =
     (let packs = plan_packs plan; L = pack_max_length cfg in
      if \<exists>pack \<in> set packs. L < pack_tokens data_lengths pack then Inl RuntimeError
      else if sort (concat packs) \<noteq> [0..<length data_lengths] then Inl RuntimeError
      else Inr (int (length packs) * L - sum_list (map (pack_tokens data_lengths) packs)))"

definition pack_impl :: "pack_env \<Rightarrow> packer \<Rightarrow> nat list \<Rightarrow> int list \<Rightarrow> packed res option" where
  "pack_impl env cfg data_indices data_lengths =
     (if pack_strategy cfg = ''legacy'' then Some (legacy_pack env cfg data_indices data_lengths)
      else if pack_strategy cfg = ''greedy'' then Some (greedy_pack env cfg data_indices data_lengths)
      else if pack_strategy cfg = ''balance'' then Some (balance_pack env cfg data_indices data_lengths)
      else if pack_strategy cfg = ''native'' then Some (native_pack env cfg data_indices data_lengths)
      else lpt_pack env cfg data_indices data_lengths)"

definition pack :: "pack_env \<Rightarrow> packer \<Rightarrow> int list \<Rightarrow> (packed \<times> int) res option" where
  "pack env cfg data_lengths =
     (if data_lengths = [] then Some (Inr ([], 0))
      else if \<exists>t \<in> set data_lengths. pack_max_length cfg < t then Some (Inl ValueError)
      else case pack_impl env cfg [0..<length data_lengths] data_lengths of
             None \<Rightarrow> None
           | Some r \<Rightarrow> Some (rbind r (\<lambda>plan. rbind (count_padding_tokens cfg plan data_lengths)
                                (\<lambda>padding. Inr (plan, padding)))))"

subsection \<open>Contracts\<close>

text \<open>
  What every strategy promises: one entry per rank; every sample in exactly one pack; no pack over
  the budget; and all ranks with the same number of steps and of packs in every step, which the
  collective operations of the workers need.
\<close>

definition good_plan :: "packer \<Rightarrow> int list \<Rightarrow> packed \<Rightarrow> bool" where
  "good_plan cfg lens plan \<longleftrightarrow>
     length plan = dp_size cfg \<and>
     mset (concat (plan_packs plan)) = mset [0..<length lens] \<and>
     (\<forall>p \<in> set (plan_packs plan). pack_tokens lens p \<le> pack_max_length cfg) \<and>
     (\<forall>rank \<in> set plan. map length rank = map length (hd plan))"

definition cfg_ok :: "packer \<Rightarrow> bool" where
  "cfg_ok cfg \<longleftrightarrow> 0 < dp_size cfg \<and> 0 < optimizer_steps cfg \<and> 0 < pack_max_length cfg \<and> 0 \<le> split_size cfg"

definition lens_ok :: "packer \<Rightarrow> int list \<Rightarrow> bool" where
  "lens_ok cfg lens \<longleftrightarrow> lens \<noteq> [] \<and> (\<forall>t \<in> set lens. 0 \<le> t \<and> t \<le> pack_max_length cfg)"

text \<open>The documented behaviour of the random and numpy routines.\<close>

definition env_ok :: "pack_env \<Rightarrow> bool" where
  "env_ok env \<longleftrightarrow>
     (\<forall>xs. mset (shuffle_indices env xs) = mset xs) \<and>
     (\<forall>xs. mset (shuffle_packs env xs) = mset xs) \<and>
     (\<forall>k xs. mset (shuffle_groups env k xs) = mset xs) \<and>
     (\<forall>n. mset (randperm env n) = mset [0..<n]) \<and>
     argsort_perm (np_argsort env) \<and>
     (\<forall>xs k. 0 < k \<longrightarrow> array_split env xs k = split_lens (even_sizes (length xs) k) xs)"

lemma pack_tokens_map:
  "pack_tokens lens (map f p) = tokens (map (\<lambda>i. lens ! f i) [0..<n]) p" if "\<forall>i \<in> set p. i < n"
  using that by (induction p) (auto simp: pack_tokens_def)

lemma pack_tokens_simps [simp]:
  "pack_tokens lens [] = 0"
  "pack_tokens lens (p @ q) = pack_tokens lens p + pack_tokens lens q"
  by (simp_all add: pack_tokens_def)

lemma sum_pack_tokens: "sum_list (map (pack_tokens lens) ps) = pack_tokens lens (concat ps)"
  by (induction ps) auto

lemma pack_tokens_all: "mset p = mset [0..<length lens] \<Longrightarrow> pack_tokens lens p = sum_list lens"
  unfolding pack_tokens_def by (metis map_nth sum_list_mset_eq)

text \<open>The checks of \<open>_count_padding_tokens\<close> pass on every good plan.\<close>

lemma count_padding_good:
  assumes "good_plan cfg lens plan"
  shows "count_padding_tokens cfg plan lens =
    Inr (int (length (plan_packs plan)) * pack_max_length cfg - sum_list lens)"
proof -
  have perm: "mset (concat (plan_packs plan)) = mset [0..<length lens]"
    using assms by (simp add: good_plan_def)
  then have "sort (concat (plan_packs plan)) = [0..<length lens]"
    by (metis mset_sort properties_for_sort sorted_upt)
  moreover have "sum_list (map (pack_tokens lens) (plan_packs plan)) = sum_list lens"
    by (simp add: sum_pack_tokens pack_tokens_all [OF perm])
  ultimately show ?thesis
    using assms by (auto simp: count_padding_tokens_def good_plan_def Let_def not_less)
qed

lemma good_plan_padding_nonneg:
  assumes "good_plan cfg lens plan"
  shows "sum_list lens \<le> int (length (plan_packs plan)) * pack_max_length cfg"
proof -
  have "(\<forall>p \<in> set ps. pack_tokens lens p \<le> L) \<Longrightarrow>
      sum_list (map (pack_tokens lens) ps) \<le> int (length ps) * L" for ps L
    by (induction ps) (auto simp: algebra_simps)
  moreover have "pack_tokens lens (concat (plan_packs plan)) = sum_list lens"
    using assms by (intro pack_tokens_all) (simp add: good_plan_def)
  ultimately show ?thesis using assms by (metis good_plan_def sum_pack_tokens)
qed

subsection \<open>Sequential greedy packs and the interleaved schedule\<close>

lemma greedy_pack_infos_eq:
  assumes "length data = length nt"
  shows "get_greedy_pack_infos data nt L = Inr (map (map ((!) data)) (soft_packs nt L [0..<length data]))"
  using assms
  by (simp add: get_greedy_pack_infos_def get_pack_infos_by_soft_split_def soft_packs_def)

text \<open>Positions packed by any \<open>index_packer\<close> and mapped back to samples are a good pack list.\<close>

lemma mapped_packs:
  assumes "index_packer packs" and "mset order = mset [0..<length lens]"
    and "\<forall>t \<in> set lens. t \<le> L" and "mset pos = mset [0..<length order]"
  defines "P \<equiv> map (map ((!) order)) (packs (map ((!) lens) order) L pos)"
  shows "mset (concat P) = mset [0..<length lens]" and "\<forall>p \<in> set P. pack_tokens lens p \<le> L"
proof -
  let ?Q = "packs (map ((!) lens) order) L pos"
  have "concat P = map ((!) order) (concat ?Q)" by (simp add: P_def map_concat)
  then have "mset (concat P) = image_mset ((!) order) (mset pos)"
    by (metis index_packer.packs_mset [OF assms(1)] mset_map)
  then show "mset (concat P) = mset [0..<length lens]"
    using assms(2,4) by (metis map_nth mset_map)
  have pos: "set pos = {0..<length order}" using mset_eq_setD [OF assms(4)] by simp
  have order: "set order = {0..<length lens}" using mset_eq_setD [OF assms(2)] by simp
  then have bound: "order ! i < length lens" if "i < length order" for i
    using that nth_mem by fastforce
  show "\<forall>p \<in> set P. pack_tokens lens p \<le> L"
  proof
    fix p assume "p \<in> set P"
    then obtain q where q: "q \<in> set ?Q" "p = map ((!) order) q" by (auto simp: P_def)
    have sub: "\<forall>i \<in> set q. i < length order"
      using q(1) index_packer.packs_set [OF assms(1), of "map ((!) lens) order" L pos] pos by auto
    then have "pack_tokens lens p = tokens (map ((!) lens) order) q"
      unfolding q(2) by (induction q) (auto simp: pack_tokens_def)
    also have "\<dots> \<le> L"
      using pos bound assms(3) by (intro index_packer.packs_fit [OF assms(1) _ q(1)]) auto
    finally show "pack_tokens lens p \<le> L" .
  qed
qed

lemma interleave_packs_good:
  assumes "cfg_ok cfg" and "mset (concat P) = mset [0..<length lens]"
    and "\<forall>p \<in> set P. pack_tokens lens p \<le> pack_max_length cfg"
  shows "\<exists>plan. interleave_packs cfg P = Inr plan \<and> good_plan cfg lens plan"
proof -
  let ?dp = "dp_size cfg"
  let ?padded = "P @ replicate (ceil_div (length P) ?dp * ?dp - length P) []"
  let ?n = "ceil_div (length P) ?dp"
  let ?k = "max 1 (ceil_div ?n (optimizer_steps cfg))"
  let ?plan = "map (\<lambda>r. chunks ?k (stride r ?dp ?padded)) [0..<?dp]"
  have dp: "0 < ?dp" and steps: "0 < optimizer_steps cfg" and L: "0 < pack_max_length cfg"
    using assms(1) by (auto simp: cfg_ok_def)
  have len: "length ?padded = ?n * ?dp" using ceil_div_ge [OF dp, of "length P"] by simp
  have lens_r: "length (stride r ?dp ?padded) = ?n" if "r < ?dp" for r
    by (rule length_stride_even [OF that len])
  have "map (\<lambda>s. take ?k (drop (s * ?k) (stride r ?dp ?padded))) [0..<ceil_div ?n ?k] =
      chunks ?k (stride r ?dp ?padded)" if "r < ?dp" for r
    using blocks_eq_chunks [of ?k "stride r ?dp ?padded"] lens_r [OF that] by simp
  then have "interleave_packs cfg P = Inr ?plan"
    using dp steps unfolding interleave_packs_def Let_def len by simp
  moreover have packs: "mset (plan_packs ?plan) = mset ?padded"
    using mset_concat_strides [OF dp, of ?padded]
    by (simp add: plan_packs_def concat_concat_map comp_def)
  moreover have "mset (concat (plan_packs ?plan)) = mset [0..<length lens]"
    using mset_concat_cong [OF packs] assms(2) by simp
  moreover have "\<forall>p \<in> set (plan_packs ?plan). pack_tokens lens p \<le> pack_max_length cfg"
    using mset_eq_setD [OF packs] assms(3) L by auto
  moreover have "map length rank = map length (hd ?plan)" if rank: "rank \<in> set ?plan" for rank
  proof -
    have "hd ?plan = chunks ?k (stride 0 ?dp ?padded)" using dp by (simp add: hd_map)
    moreover obtain r where "r < ?dp" "rank = chunks ?k (stride r ?dp ?padded)" using rank by auto
    ultimately show ?thesis using lens_r dp by (auto intro!: map_length_chunks)
  qed
  ultimately show ?thesis unfolding good_plan_def by (metis length_map length_upt minus_nat.diff_0)
qed


lemma visit_order_mset: "env_ok env \<Longrightarrow> mset (visit_order env xs) = mset xs"
  by (auto simp: visit_order_def env_ok_def)

lemma legacy_pack_good:
  assumes "env_ok env" and "cfg_ok cfg" and "lens_ok cfg lens"
  shows "\<exists>plan. legacy_pack env cfg [0..<length lens] lens = Inr plan \<and> good_plan cfg lens plan"
proof -
  let ?order = "visit_order env [0..<length lens]"
  let ?P = "map (map ((!) ?order)) (soft_packs (map ((!) lens) ?order) (pack_max_length cfg) [0..<length ?order])"
  have "legacy_pack env cfg [0..<length lens] lens = interleave_packs cfg ?P"
    by (simp add: legacy_pack_def Let_def greedy_pack_infos_eq)
  moreover have "\<exists>plan. interleave_packs cfg ?P = Inr plan \<and> good_plan cfg lens plan"
    using assms(3)
    by (intro interleave_packs_good [OF assms(2)] mapped_packs [OF soft.index_packer_axioms])
       (auto simp: visit_order_mset [OF assms(1)] lens_ok_def)
  ultimately show ?thesis by simp
qed

lemma greedy_pack_good:
  assumes "env_ok env" and "cfg_ok cfg" and "lens_ok cfg lens"
  shows "\<exists>plan. greedy_pack env cfg [0..<length lens] lens = Inr plan \<and> good_plan cfg lens plan"
proof -
  let ?order = "visit_order env [0..<length lens]"
  let ?nt = "map ((!) lens) ?order"
  let ?packs = "look_ahead_packs (np_argsort env) (pack_extra_buffer_size cfg) (map of_int ?nt)"
  let ?P = "map (map ((!) ?order)) (?packs ?nt (pack_max_length cfg) (rev [0..<length ?order]))"
  have argsort: "argsort_perm (np_argsort env)" using assms(1) by (simp add: env_ok_def)
  have "greedy_pack env cfg [0..<length lens] lens = interleave_packs cfg ?P"
    by (simp add: greedy_pack_def Let_def get_pack_chunk_infos_def look_ahead_packs_def comp_def)
  moreover have "\<exists>plan. interleave_packs cfg ?P = Inr plan \<and> good_plan cfg lens plan"
    using assms(3)
    by (intro interleave_packs_good [OF assms(2)] mapped_packs [OF look_ahead_index_packer [OF argsort]])
       (auto simp: visit_order_mset [OF assms(1)] lens_ok_def)
  ultimately show ?thesis by simp
qed

subsection \<open>Packing inside a step, and alignment across ranks\<close>

text \<open>
  Indices below zero are the scheduling-only padding slots of \<open>_native_pack\<close>. They are charged
  with a nonnegative length and dropped, so the real samples of a pack still fit.
\<close>

definition real_indices :: "int list \<Rightarrow> nat list" where
  "real_indices ix = map nat (filter (\<lambda>i. 0 \<le> i) ix)"

lemma real_indices_simps [simp]:
  "real_indices [] = []"
  "real_indices (ix @ jx) = real_indices ix @ real_indices jx"
  "real_indices (concat ixs) = concat (map real_indices ixs)"
  by (induction ixs) (simp_all add: real_indices_def)

lemma real_indices_tokens:
  assumes "0 \<le> split_size cfg" and "0 \<le> pack_max_length cfg"
  shows "pack_tokens lens (real_indices ix) \<le> sum_list (map (\<lambda>i. get_scheduled_length cfg i lens) ix)"
  using assms by (induction ix) (auto simp: real_indices_def pack_tokens_def get_scheduled_length_def)

lemma pack_indices_spec:
  assumes "cfg_ok cfg" and "\<forall>i \<in> set ix. i < int (length lens)" and "lens_ok cfg lens"
  shows "\<exists>packs. pack_indices cfg ix lens = Inr packs \<and>
    mset (concat packs) = mset (real_indices ix) \<and>
    (\<forall>p \<in> set packs. pack_tokens lens p \<le> pack_max_length cfg)"
proof -
  let ?L = "pack_max_length cfg"
  let ?sched = "map (\<lambda>i. get_scheduled_length cfg i lens) ix"
  have pos: "0 \<le> split_size cfg" "0 \<le> ?L" using assms(1) by (auto simp: cfg_ok_def)
  show ?thesis
  proof (cases "?L < sum_list ?sched")
    case False
    have "pack_indices cfg ix lens = Inr [real_indices ix]"
      using False by (simp add: pack_indices_def Let_def real_indices_def)
    moreover have "pack_tokens lens (real_indices ix) \<le> ?L"
      using real_indices_tokens [OF pos, of lens ix] False by simp
    ultimately show ?thesis by auto
  next
    case True
    let ?Q = "soft_packs ?sched ?L [0..<length ix]"
    let ?packs = "map (\<lambda>q. real_indices (map ((!) ix) q)) ?Q"
    have "pack_indices cfg ix lens = Inr ?packs"
      using True by (simp add: pack_indices_def Let_def real_indices_def greedy_pack_infos_eq comp_def)
    moreover have "mset (concat ?packs) = mset (real_indices ix)"
    proof -
      have "concat ?packs = real_indices (map ((!) ix) (concat ?Q))" by (simp add: map_concat comp_def)
      moreover have "mset (map ((!) ix) (concat ?Q)) = mset ix"
        by (metis soft.packs_mset map_nth mset_map)
      ultimately show ?thesis by (simp only: real_indices_def mset_map mset_filter)
    qed
    moreover have "pack_tokens lens (real_indices (map ((!) ix) q)) \<le> ?L" if q: "q \<in> set ?Q" for q
    proof -
      have sub: "set q \<subseteq> {0..<length ix}" using soft.packs_set [of ?sched ?L "[0..<length ix]"] q by auto
      have "get_scheduled_length cfg i lens \<le> ?L" if "i \<in> set ix" for i
        using that assms(2,3) by (auto simp: get_scheduled_length_def lens_ok_def)
      then have "tokens ?sched q \<le> ?L" by (intro soft.packs_fit [OF _ q]) auto
      moreover have "map (\<lambda>i. get_scheduled_length cfg i lens) (map ((!) ix) q) = map ((!) ?sched) q"
        using sub by auto
      ultimately show ?thesis
        using real_indices_tokens [OF pos, of lens "map ((!) ix) q"] by (metis order_trans tokens_def)
    qed
    ultimately show ?thesis by auto
  qed
qed

definition align_rank :: "nat list \<Rightarrow> rank_plan \<Rightarrow> rank_plan" where
  "align_rank ms rank = map (\<lambda>(m, step). step @ replicate (m - length step) []) (zip ms rank)"

lemma align_pack_count_eq: "align_pack_count plan ms = map (align_rank ms) plan"
  by (simp add: align_pack_count_def align_rank_def comp_def)

lemma align_rank_spec:
  assumes "list_all2 (\<lambda>m step. length step \<le> m) ms rank"
  shows "map length (align_rank ms rank) = ms \<and>
    concat (concat (align_rank ms rank)) = concat (concat rank) \<and>
    set (concat (align_rank ms rank)) \<subseteq> insert [] (set (concat rank))"
  using assms by (induction rule: list_all2_induct) (auto simp: align_rank_def)

lemma fold_max_ge: "x \<in> set xs \<or> x \<le> a \<Longrightarrow> x \<le> fold max xs (a :: nat)"
proof (induction xs arbitrary: a)
  case (Cons y xs)
  from Cons.prems have "x \<in> set xs \<or> x \<le> max y a" by (auto simp: le_max_iff_disj)
  then show ?case using Cons.IH [of "max y a"] by simp
qed simp

lemma same_shape:
  "\<forall>rank \<in> set plan. map length rank = ms \<Longrightarrow> \<forall>rank \<in> set plan. map length rank = map length (hd plan)"
  by (metis list.set_sel(1) list.set(1) empty_iff)

lemma aligned_good:
  assumes dp: "length plan0 = dp_size cfg" and rect: "\<forall>rank \<in> set plan0. length rank = steps"
    and fit: "\<forall>p \<in> set (plan_packs plan0). pack_tokens lens p \<le> pack_max_length cfg"
    and cover: "mset (concat (plan_packs plan0)) = mset [0..<length lens]" and L: "0 < pack_max_length cfg"
  defines "ms \<equiv> map (\<lambda>s. fold max (map (\<lambda>rank. length (rank ! s)) plan0) 0) [0..<steps]"
  shows "good_plan cfg lens (align_pack_count plan0 ms)"
proof -
  have "list_all2 (\<lambda>m step. length step \<le> m) ms rank" if "rank \<in> set plan0" for rank
    using that rect by (auto simp: ms_def list_all2_conv_all_nth intro!: fold_max_ge)
  note spec = align_rank_spec [OF this]
  have flat: "concat (plan_packs plan) = concat (map (\<lambda>rank. concat (concat rank)) plan)" for plan :: packed
    by (induction plan) (auto simp: plan_packs_def)
  have "concat (plan_packs (align_pack_count plan0 ms)) = concat (plan_packs plan0)"
    unfolding flat align_pack_count_eq by (simp add: comp_def spec cong: map_cong)
  moreover have "set (plan_packs (align_pack_count plan0 ms)) \<subseteq> insert [] (set (plan_packs plan0))"
    using spec by (fastforce simp: align_pack_count_eq plan_packs_def)
  moreover have "\<forall>rank \<in> set (align_pack_count plan0 ms).
      map length rank = map length (hd (align_pack_count plan0 ms))"
    by (rule same_shape [of _ ms]) (use spec in \<open>auto simp: align_pack_count_eq\<close>)
  moreover have "length (align_pack_count plan0 ms) = dp_size cfg" using dp by (simp add: align_pack_count_eq)
  moreover have "pack_tokens lens p \<le> pack_max_length cfg"
    if "set (plan_packs (align_pack_count plan0 ms)) \<subseteq> insert [] (set (plan_packs plan0))"
      "p \<in> set (plan_packs (align_pack_count plan0 ms))" for p
    using subsetD [OF that] fit L by auto
  ultimately show ?thesis unfolding good_plan_def using cover by simp
qed

lemma pack_and_align_good:
  assumes cfg: "cfg_ok cfg" and lens: "lens_ok cfg lens"
    and dp: "length parts = dp_size cfg" and rect: "\<forall>rank \<in> set parts. length rank = steps"
    and cover: "mset (real_indices (concat (concat parts))) = mset [0..<length lens]"
    and bound: "\<forall>i \<in> set (concat (concat parts)). i < int (length lens)"
  shows "\<exists>plan. pack_and_align cfg steps parts lens = Inr plan \<and> good_plan cfg lens plan"
proof -
  define f where "f ix = projr (pack_indices cfg ix lens)" for ix
  have f: "pack_indices cfg ix lens = Inr (f ix) \<and> mset (concat (f ix)) = mset (real_indices ix) \<and>
      (\<forall>p \<in> set (f ix). pack_tokens lens p \<le> pack_max_length cfg)"
    if "\<forall>i \<in> set ix. i < int (length lens)" for ix
    using pack_indices_spec [OF cfg that lens] by (auto simp: f_def)
  have fx: "pack_indices cfg ix lens = Inr (f ix) \<and> mset (concat (f ix)) = mset (real_indices ix) \<and>
      (\<forall>p \<in> set (f ix). pack_tokens lens p \<le> pack_max_length cfg)"
    if "rank \<in> set parts" "ix \<in> set rank" for rank ix
    using that bound by (intro f) auto
  let ?plan = "map (map f) parts"
  have "rmap (rmap (\<lambda>ix. pack_indices cfg ix lens)) parts = Inr ?plan"
    using fx by (intro rmap_total) auto
  then have run: "pack_and_align cfg steps parts lens = Inr (align_pack_count ?plan
      (map (\<lambda>s. fold max (map (\<lambda>rank. length (rank ! s)) ?plan) 0) [0..<steps]))"
    unfolding pack_and_align_def by simp
  have "mset (concat (plan_packs ?plan)) = mset (real_indices (concat (concat parts)))"
  proof -
    have m: "mset (concat (concat (map f ixs))) = mset (real_indices (concat ixs))"
      if "\<forall>ix \<in> set ixs. mset (concat (f ix)) = mset (real_indices ix)" for ixs
      using that by (induction ixs) auto
    have "concat (map (map f) parts) = map f (concat parts)" by (simp add: map_concat)
    then show ?thesis unfolding plan_packs_def using fx by (simp add: m del: real_indices_simps(3))
  qed
  then have "good_plan cfg lens (align_pack_count ?plan
      (map (\<lambda>s. fold max (map (\<lambda>rank. length (rank ! s)) ?plan) 0) [0..<steps]))"
    using dp rect cover cfg fx
    by (intro aligned_good) (auto simp: plan_packs_def cfg_ok_def)
  with run show ?thesis by blast
qed

lemma mset_megabatch_groups: "0 < g \<Longrightarrow> mset (concat (megabatch_groups lens g m)) = mset m"
  by (simp add: megabatch_groups_def)

lemma length_grouped_spec:
  assumes "\<forall>n. mset (perm n) = mset [0..<n]" and shuf: "\<forall>k xs. mset (shuf k xs) = mset xs"
    and "0 < batch" and g: "0 < g"
  shows "\<exists>ix. get_length_grouped_indices perm shuf lens batch g = Inr ix \<and> mset ix = mset [0..<length lens]"
proof -
  have group: "mset (concat (shuf k (megabatch_groups lens g m))) = mset m" for k m
    using mset_concat_cong [OF shuf [rule_format]] mset_megabatch_groups [OF g] by metis
  have "mset (concat (map (\<lambda>(k, m). concat (shuf k (megabatch_groups lens g m))) (zip ks ms))) =
      mset (concat ms)" if "length ks = length ms" for ks ms
    using that by (induction rule: list_induct2) (auto simp: group)
  moreover have "mset (concat (chunks batch (perm (length lens)))) = mset [0..<length lens]"
    using assms(1,3) by simp
  ultimately show ?thesis using assms(3) g by (simp add: get_length_grouped_indices_def Let_def)
qed

lemma deal_indices_mset:
  assumes "0 < dp" and "0 < steps"
  shows "mset (concat (concat (deal_indices dp steps grouped))) = mset (map int grouped)"
proof -
  let ?g = "\<lambda>i. int (grouped ! i)"
  let ?of = "\<lambda>d. filter (\<lambda>i. i mod dp = d) [0..<length grouped]"
  have inner: "mset (concat (map (\<lambda>s. map ?g (filter (\<lambda>i. i mod dp = d \<and> (i div dp) mod steps = s) [0..<length grouped]))
      [0..<steps])) = mset (map ?g (?of d))" for d
  proof -
    have "filter (\<lambda>i. i mod dp = d \<and> (i div dp) mod steps = s) xs =
        filter (\<lambda>i. (i div dp) mod steps = s) (filter (\<lambda>i. i mod dp = d) xs)" for s xs by (simp add: conj_commute)
    then have "concat (map (\<lambda>s. map ?g (filter (\<lambda>i. i mod dp = d \<and> (i div dp) mod steps = s) [0..<length grouped]))
        [0..<steps]) = map ?g (concat (map (\<lambda>s. filter (\<lambda>i. (i div dp) mod steps = s) (?of d)) [0..<steps]))"
      by (simp only: map_concat map_map comp_def)
    then show ?thesis using mset_concat_filter_upt [of "?of d" "\<lambda>i. (i div dp) mod steps" steps] assms(2)
      by (simp only: mset_map) simp
  qed
  have cover: "mset (concat (map ?of [0..<dp])) = mset [0..<length grouped]"
    by (rule mset_concat_filter_upt) (simp add: assms(1))
  have "mset (concat (concat (deal_indices dp steps grouped))) =
      mset (concat (map (\<lambda>d. map ?g (?of d)) [0..<dp]))"
    unfolding deal_indices_def concat_concat_map map_map comp_def
    by (rule mset_concat_map_cong) (rule inner)
  also have "concat (map (\<lambda>d. map ?g (?of d)) [0..<dp]) = map ?g (concat (map ?of [0..<dp]))"
    by (simp only: map_concat map_map comp_def)
  also have "mset (map ?g (concat (map ?of [0..<dp]))) = mset (map ?g [0..<length grouped])"
    unfolding mset_map cover by (rule refl)
  also have "map ?g [0..<length grouped] = map int grouped" by (rule nth_equalityI) auto
  finally show ?thesis .
qed

lemma real_indices_int [simp]: "real_indices (map int xs) = xs"
  by (induction xs) (auto simp: real_indices_def)

lemma mset_real_indices: "mset ix = mset jx \<Longrightarrow> mset (real_indices ix) = mset (real_indices jx)"
  by (simp add: real_indices_def)

lemma balance_pack_good:
  assumes "env_ok env" and cfg: "cfg_ok cfg" and lens: "lens_ok cfg lens"
  shows "\<exists>plan. balance_pack env cfg [0..<length lens] lens = Inr plan \<and> good_plan cfg lens plan"
proof -
  let ?parts = "deal_indices (dp_size cfg) (optimizer_steps cfg)"
  have pos: "0 < dp_size cfg" "0 < optimizer_steps cfg" "0 < length lens"
    using cfg lens by (auto simp: cfg_ok_def lens_ok_def)
  obtain ix where ix: "get_length_grouped_indices (randperm env) (shuffle_groups env) lens (length lens) (dp_size cfg) = Inr ix"
    "mset ix = mset [0..<length lens]"
    using length_grouped_spec [of "randperm env" "shuffle_groups env" "length lens" "dp_size cfg" lens]
      assms(1) pos by (auto simp: env_ok_def)
  have parts: "mset (concat (concat (?parts ix))) = mset (map int ix)" using pos by (intro deal_indices_mset)
  have "balance_pack env cfg [0..<length lens] lens = pack_and_align cfg (optimizer_steps cfg) (?parts ix) lens"
    using ix(1) pos by (simp add: balance_pack_def)
  moreover have "\<exists>plan. pack_and_align cfg (optimizer_steps cfg) (?parts ix) lens = Inr plan \<and> good_plan cfg lens plan"
  proof (rule pack_and_align_good [OF cfg lens])
    show "length (?parts ix) = dp_size cfg" by (simp add: deal_indices_def)
    show "\<forall>rank \<in> set (?parts ix). length rank = optimizer_steps cfg" by (auto simp: deal_indices_def)
    show "mset (real_indices (concat (concat (?parts ix)))) = mset [0..<length lens]"
      using mset_real_indices [OF parts] ix(2) by (simp del: real_indices_simps(3))
    show "\<forall>i \<in> set (concat (concat (?parts ix))). i < int (length lens)"
      using mset_eq_setD [OF parts] mset_eq_setD [OF ix(2)] by auto
  qed
  ultimately show ?thesis by simp
qed

lemma native_pack_good:
  assumes env: "env_ok env" and cfg: "cfg_ok cfg" and lens: "lens_ok cfg lens"
  shows "\<exists>plan. native_pack env cfg [0..<length lens] lens = Inr plan \<and> good_plan cfg lens plan"
proof -
  let ?dp = "dp_size cfg" and ?n = "length lens"
  define pads where "pads = map (\<lambda>i. - (int i + 1)) [0..<(if ?n mod ?dp \<noteq> 0 then ?dp - ?n mod ?dp else 0)]"
  define sched where "sched = map int [0..<?n] @ pads"
  define batches where "batches = split_lens (even_sizes (length sched) ?dp) sched"
  define steps where "steps = min (length (hd batches)) (optimizer_steps cfg)"
  have pos: "0 < ?dp" "0 < optimizer_steps cfg" "0 < length sched"
    using cfg lens by (auto simp: cfg_ok_def lens_ok_def sched_def)
  have split: "array_split env xs k = split_lens (even_sizes (length xs) k) xs" if "0 < k" for xs k
    using env that by (simp add: env_ok_def)
  have bl: "map length batches = even_sizes (length sched) ?dp"
    unfolding batches_def by (rule map_length_split_lens) (simp add: sum_even_sizes pos)
  have "hd (even_sizes (length sched) ?dp) = length (hd batches)"
    using bl pos(1) by (metis batches_def hd_map length_even_sizes length_greater_0_conv length_split_lens)
  moreover have "0 < hd (even_sizes (length sched) ?dp)"
    using pos by (auto simp: even_sizes_def hd_map div_greater_zero_iff not_less dvd_imp_le)
  ultimately have steps: "0 < steps" using pos(2) by (simp add: steps_def)
  let ?parts = "map (\<lambda>batch. split_lens (even_sizes (length batch) steps) batch) batches"
  have "native_pack env cfg [0..<?n] lens = pack_and_align cfg steps ?parts lens"
  proof -
    have nz: "(?dp = 0) = False" using pos(1) by simp
    have "native_pack env cfg [0..<?n] lens = (if steps = 0 then Inl ValueError
        else pack_and_align cfg steps (map (\<lambda>batch. array_split env batch steps) batches) lens)"
      unfolding steps_def batches_def sched_def pads_def native_pack_def Let_def nz if_False
        length_upt diff_zero split [OF pos(1)] by (rule refl)
    then show ?thesis using steps by (simp add: split)
  qed
  moreover have flat: "concat (concat ?parts) = sched"
  proof -
    have "concat (concat ?parts) = concat batches"
      using steps by (simp add: concat_concat_map comp_def concat_split_lens sum_even_sizes)
    then show ?thesis unfolding batches_def using pos by (simp add: concat_split_lens sum_even_sizes)
  qed
  moreover have "\<exists>plan. pack_and_align cfg steps ?parts lens = Inr plan \<and> good_plan cfg lens plan"
  proof (rule pack_and_align_good [OF cfg lens])
    show "length ?parts = ?dp" by (simp add: batches_def)
    have "real_indices pads = []" by (simp add: real_indices_def pads_def)
    then show "mset (real_indices (concat (concat ?parts))) = mset [0..<?n]"
      unfolding flat by (simp add: sched_def del: mset_upt)
    show "\<forall>i \<in> set (concat (concat ?parts)). i < int ?n"
      unfolding flat by (auto simp: sched_def pads_def)
  qed auto
  ultimately show ?thesis by simp
qed

subsection \<open>Longest processing time\<close>

lemma heap_top_in: "heap \<noteq> [] \<Longrightarrow> heap_top heap \<in> set heap"
  by (induction heap rule: heap_top.induct) (auto simp: Let_def)

lemma heap_top_least: "x \<in> set heap \<Longrightarrow> fst (heap_top heap) \<le> fst x"
  by (induction heap rule: heap_top.induct) (auto simp: Let_def pair_le_def)

text \<open>The heap holds every bin once, with the load of that bin.\<close>

definition heap_inv :: "('a \<Rightarrow> int) \<Rightarrow> (int \<times> nat) list \<Rightarrow> 'a list list \<Rightarrow> bool" where
  "heap_inv w heap bins \<longleftrightarrow>
     mset (map snd heap) = mset [0..<length bins] \<and>
     (\<forall>x \<in> set heap. fst x = sum_list (map w (bins ! snd x)))"

lemma heap_inv_props:
  assumes "heap_inv w heap bins"
  shows "snd ` set heap = {0..<length bins}" and "distinct (map snd heap)"
  using assms mset_eq_setD [of "map snd heap" "[0..<length bins]"]
    mset_eq_imp_distinct_iff [of "map snd heap" "[0..<length bins]"]
  by (auto simp: heap_inv_def)

lemma heap_inv_start: "heap_inv w (map (\<lambda>b. (0, b)) [0..<n]) (replicate n [])"
  by (auto simp: heap_inv_def comp_def)

lemma heap_inv_place:
  assumes inv: "heap_inv w heap bins" and ne: "heap \<noteq> []" and top: "heap_top heap = (load, b)"
  shows "heap_inv w (heapreplace heap (load + w x, b)) (bins[b := bins ! b @ [x]])" and "b < length bins"
    and "load = sum_list (map w (bins ! b))"
proof -
  have mem: "(load, b) \<in> set heap" using heap_top_in [OF ne] top by simp
  then show b: "b < length bins" using heap_inv_props(1) [OF inv] by force
  show load: "load = sum_list (map w (bins ! b))" using inv mem by (auto simp: heap_inv_def)
  have other: "snd y \<noteq> b" if "y \<in> set (remove1 (load, b) heap)" for y
  proof
    assume eq: "snd y = b"
    from heap_inv_props(2) [OF inv] have d: "distinct heap" by (simp add: distinct_map)
    then have "y \<in> set heap" "y \<noteq> (load, b)" using that by auto
    with mem eq heap_inv_props(2) [OF inv] show False by (metis distinct_map inj_onD snd_conv)
  qed
  have "mset heap = add_mset (load, b) (mset (remove1 (load, b) heap))" using mem by simp
  then have "mset (map snd heap) = add_mset b (image_mset snd (mset (remove1 (load, b) heap)))"
    by (metis image_mset_add_mset mset_map snd_conv)
  then have "mset (map snd (heapreplace heap (load + w x, b))) = mset [0..<length bins]"
    using inv top by (simp add: heapreplace_def heap_inv_def)
  moreover have "fst y = sum_list (map w (bins[b := bins ! b @ [x]] ! snd y))"
    if "y \<in> set (heapreplace heap (load + w x, b))" for y
  proof (cases "y = (load + w x, b)")
    case False
    then have y: "y \<in> set (remove1 (load, b) heap)" using that by (simp add: heapreplace_def top)
    then have "y \<in> set heap" by (rule subsetD [OF set_remove1_subset])
    then show ?thesis using other [OF y] inv by (simp add: heap_inv_def)
  qed (simp add: load b)
  ultimately show "heap_inv w (heapreplace heap (load + w x, b)) (bins[b := bins ! b @ [x]])"
    unfolding heap_inv_def by simp
qed

text \<open>
  One round either places every sample within the budget, or stops because every bin already holds
  something, so there are fewer bins than samples.
\<close>

lemma lpt_assign_spec:
  assumes "heap_inv w heap bins" and "bins \<noteq> []" and "\<forall>b \<in> set bins. sum_list (map w b) \<le> L"
    and "\<forall>p \<in> set order. w (data ! p) = nt ! p \<and> nt ! p \<le> L"
  shows "case lpt_assign data nt L order heap bins of
      Inl e \<Rightarrow> False
    | Inr None \<Rightarrow> length bins < length (concat bins) + length order
    | Inr (Some bins') \<Rightarrow> length bins' = length bins \<and>
        mset (concat bins') = mset (concat bins) + mset (map ((!) data) order) \<and>
        (\<forall>b \<in> set bins'. sum_list (map w b) \<le> L)"
  using assms
proof (induction order arbitrary: heap bins)
  case (Cons p order)
  have ne: "heap \<noteq> []" using heap_inv_props(1) [OF Cons.prems(1)] Cons.prems(2) by auto
  obtain load b where top: "heap_top heap = (load, b)" by (cases "heap_top heap")
  note place = heap_inv_place [OF Cons.prems(1) ne top]
  have p: "w (data ! p) = nt ! p" "nt ! p \<le> L" using Cons.prems(4) by auto
  show ?case
  proof (cases "load + nt ! p \<le> L")
    case True
    let ?bins = "bins[b := bins ! b @ [data ! p]]"
    have step: "lpt_assign data nt L (p # order) heap bins =
        lpt_assign data nt L order (heapreplace heap (load + w (data ! p), b)) ?bins"
      using True ne top p by simp
    have "\<forall>c \<in> set ?bins. sum_list (map w c) \<le> L"
      using Cons.prems(3) True place(3) p set_update_subset_insert [of bins b] by fastforce
    then show ?thesis unfolding step
      using Cons.IH [OF place(1) [of "data ! p"]] Cons.prems(2,4) place(2)
      by (auto simp: mset_concat_update split: sum.splits option.splits)
        (metis (no_types, lifting) mset_concat_update place(2) size_add_mset size_mset add_Suc add_Suc_right)
  next
    case False
    then have "0 < load" using p by simp
    have "c \<noteq> []" if "c \<in> set bins" for c
    proof -
      from that obtain i where i: "i < length bins" "c = bins ! i" by (metis in_set_conv_nth)
      then obtain x where "x \<in> set heap" "snd x = i" using heap_inv_props(1) [OF Cons.prems(1)] by force
      then have "load \<le> sum_list (map w c)"
        using heap_top_least [of x heap] top Cons.prems(1) i by (auto simp: heap_inv_def)
      with \<open>0 < load\<close> show ?thesis by auto
    qed
    then have "length bins \<le> length (concat bins)" by (intro length_le_concat) auto
    then show ?thesis using False ne top by simp
  qed
qed simp

lemma lpt_round_spec:
  assumes "0 < num_bins" and "\<forall>p \<in> set order. w (data ! p) = nt ! p \<and> nt ! p \<le> L" and "0 \<le> L"
  shows "case lpt_round data nt L order num_bins of
      Inl e \<Rightarrow> False
    | Inr None \<Rightarrow> num_bins < length order
    | Inr (Some bins) \<Rightarrow> length bins = num_bins \<and> mset (concat bins) = mset (map ((!) data) order) \<and>
        (\<forall>b \<in> set bins. sum_list (map w b) \<le> L)"
  using lpt_assign_spec [OF heap_inv_start, of num_bins w L order data nt] assms
  by (simp add: lpt_round_def split: sum.splits option.splits)

lemma lpt_loop_spec:
  assumes "0 < num_bins" and "\<forall>p \<in> set order. w (data ! p) = nt ! p \<and> nt ! p \<le> L" and "0 \<le> L" and "0 < dp"
  shows "\<exists>bins k. lpt_loop data nt L order dp num_bins = Some (Inr bins) \<and>
    length bins = num_bins + k * dp \<and> mset (concat bins) = mset (map ((!) data) order) \<and>
    (\<forall>b \<in> set bins. sum_list (map w b) \<le> L)"
  using assms(1)
proof (induction "length order - num_bins" arbitrary: num_bins rule: less_induct)
  case less
  note round = lpt_round_spec [OF less.prems assms(2,3)]
  consider (fits) bins where "lpt_round data nt L order num_bins = Inr (Some bins)"
    | (grow) "lpt_round data nt L order num_bins = Inr None"
    using round by (auto split: sum.splits option.splits)
  then show ?case
  proof cases
    case fits
    then have "lpt_loop data nt L order dp num_bins = Some (Inr bins)" by (subst lpt_loop.simps) simp
    then show ?thesis using round fits by (intro exI [of _ bins] exI [of _ 0]) simp
  next
    case grow
    then have "lpt_loop data nt L order dp num_bins = lpt_loop data nt L order dp (num_bins + dp)"
      by (subst lpt_loop.simps) simp
    moreover have "length order - (num_bins + dp) < length order - num_bins"
      using round grow assms(4) by simp
    then obtain bins k where "lpt_loop data nt L order dp (num_bins + dp) = Some (Inr bins)"
      "length bins = num_bins + dp + k * dp" "mset (concat bins) = mset (map ((!) data) order)"
      "\<forall>b \<in> set bins. sum_list (map w b) \<le> L"
      using less.hyps [of "num_bins + dp"] less.prems by auto
    ultimately show ?thesis by (intro exI [of _ bins] exI [of _ "Suc k"]) simp
  qed
qed

lemma lpt_pack_infos_spec:
  assumes "0 < num_bins" and "0 < dp" and "lens_ok cfg lens" and "0 \<le> pack_max_length cfg"
  shows "\<exists>bins k. get_lpt_pack_infos [0..<length lens] lens (pack_max_length cfg) num_bins dp = Some (Inr bins) \<and>
    length bins = num_bins + k * dp \<and> mset (concat bins) = mset [0..<length lens] \<and>
    (\<forall>b \<in> set bins. pack_tokens lens b \<le> pack_max_length cfg)"
proof -
  let ?order = "sort_key (\<lambda>p. - (lens ! p)) [0..<length lens]"
  have "\<exists>bins k. lpt_loop [0..<length lens] lens (pack_max_length cfg) ?order dp num_bins = Some (Inr bins) \<and>
      length bins = num_bins + k * dp \<and> mset (concat bins) = mset (map ((!) [0..<length lens]) ?order) \<and>
      (\<forall>b \<in> set bins. sum_list (map ((!) lens) b) \<le> pack_max_length cfg)"
    using assms by (intro lpt_loop_spec) (auto simp: lens_ok_def)
  moreover have "map ((!) [0..<length lens]) ?order = ?order" by (rule map_idI) auto
  moreover have "\<not> (\<exists>t \<in> set lens. pack_max_length cfg < t)" using assms(3) by (auto simp: lens_ok_def)
  ultimately show ?thesis using assms(2) unfolding get_lpt_pack_infos_def pack_tokens_def by auto
qed

lemma dealt_packs_good:
  assumes cfg: "cfg_ok cfg" and len: "length packs = m * dp_size cfg" and m: "0 < m"
    and cover: "mset (concat packs) = mset [0..<length lens]"
    and fit: "\<forall>b \<in> set packs. pack_tokens lens b \<le> pack_max_length cfg"
  shows "\<exists>plan. rmap (\<lambda>r. partition_packs (stride r (dp_size cfg) packs) (optimizer_steps cfg)) [0..<dp_size cfg] = Inr plan \<and>
    good_plan cfg lens plan"
proof -
  let ?dp = "dp_size cfg" and ?k = "min m (optimizer_steps cfg)"
  let ?plan = "map (\<lambda>r. split_lens (even_sizes m ?k) (stride r ?dp packs)) [0..<?dp]"
  have dp: "0 < ?dp" and k: "0 < ?k" using cfg m by (auto simp: cfg_ok_def)
  have st: "length (stride r ?dp packs) = m" if "r < ?dp" for r by (rule length_stride_even [OF that len])
  then have "stride r ?dp packs \<noteq> []" if "r < ?dp" for r using m that by fastforce
  then have "rmap (\<lambda>r. partition_packs (stride r ?dp packs) (optimizer_steps cfg)) [0..<?dp] = Inr ?plan"
    using k st by (intro rmap_total) (simp add: partition_packs_def Let_def)
  moreover have packs: "mset (plan_packs ?plan) = mset packs"
  proof -
    have "map concat ?plan = map (\<lambda>r. stride r ?dp packs) [0..<?dp]"
      using st k by (simp add: concat_split_lens sum_even_sizes)
    then show ?thesis unfolding plan_packs_def concat_concat_map using mset_concat_strides [OF dp, of packs] by argo
  qed
  moreover have "mset (concat (plan_packs ?plan)) = mset [0..<length lens]"
    using mset_concat_cong [OF packs] cover by simp
  moreover have "\<forall>p \<in> set (plan_packs ?plan). pack_tokens lens p \<le> pack_max_length cfg"
    using mset_eq_setD [OF packs] fit by auto
  moreover have "\<forall>rank \<in> set ?plan. map length rank = map length (hd ?plan)"
    by (rule same_shape [of _ "even_sizes m ?k"]) (use st k in \<open>auto simp: map_length_split_lens sum_even_sizes\<close>)
  ultimately show ?thesis unfolding good_plan_def by (metis length_map length_upt minus_nat.diff_0)
qed

lemma lpt_pack_good:
  assumes env: "env_ok env" and cfg: "cfg_ok cfg" and lens: "lens_ok cfg lens"
  shows "\<exists>plan. lpt_pack env cfg [0..<length lens] lens = Some (Inr plan) \<and> good_plan cfg lens plan"
proof -
  let ?dp = "dp_size cfg" and ?L = "pack_max_length cfg"
  have pos: "0 < ?dp" "0 < optimizer_steps cfg" "0 < ?L" using cfg by (auto simp: cfg_ok_def)
  have nt: "map ((!) lens) [0..<length lens] = lens" by (rule map_nth)
  define a where "a = nat (ceil_int (ceil_int (sum_list lens) ?L) (int ?dp))"
  define c where "c = max (optimizer_steps cfg) a"
  have c: "0 < c" using pos(2) by (simp add: c_def)
  have bins: "max (optimizer_steps cfg * ?dp) (a * ?dp) = c * ?dp" by (simp add: c_def max_def)
  obtain packs k where packs: "get_lpt_pack_infos [0..<length lens] lens ?L (c * ?dp) ?dp = Some (Inr packs)"
    "length packs = c * ?dp + k * ?dp" "mset (concat packs) = mset [0..<length lens]"
    "\<forall>b \<in> set packs. pack_tokens lens b \<le> ?L"
    using lpt_pack_infos_spec [OF _ pos(1) lens, of "c * ?dp"] c pos by auto
  let ?packs = "if deterministic env then packs else shuffle_packs env packs"
  have perm: "mset ?packs = mset packs" using env by (auto simp: env_ok_def)
  have "length ?packs = (c + k) * ?dp" using packs(2) perm by (metis add_mult_distrib size_mset)
  moreover have "mset (concat ?packs) = mset [0..<length lens]" using mset_concat_cong [OF perm] packs(3) by simp
  moreover have "\<forall>b \<in> set ?packs. pack_tokens lens b \<le> ?L" using mset_eq_setD [OF perm] packs(4) by simp
  moreover have "lpt_pack env cfg [0..<length lens] lens =
      Some (rmap (\<lambda>r. partition_packs (stride r ?dp ?packs) (optimizer_steps cfg)) [0..<?dp])"
    using pos packs(1) by (simp add: lpt_pack_def Let_def nt a_def [symmetric] bins)
  ultimately show ?thesis using dealt_packs_good [OF cfg, of ?packs "c + k" lens] c by simp
qed

subsection \<open>The interface of a strategy\<close>

text \<open>
  \<open>RLDataPacker\<close> calls whichever strategy was configured through one interface. Its law is that a
  well-formed call returns a good plan; what \<open>pack\<close> makes of such a strategy is proved once.
\<close>

locale rl_strategy =
  fixes impl :: "pack_env \<Rightarrow> packer \<Rightarrow> nat list \<Rightarrow> int list \<Rightarrow> packed res option"
  assumes impl_good: "env_ok env \<Longrightarrow> cfg_ok cfg \<Longrightarrow> lens_ok cfg lens \<Longrightarrow>
    \<exists>plan. impl env cfg [0..<length lens] lens = Some (Inr plan) \<and> good_plan cfg lens plan"
begin

lemma checked_impl:
  assumes "env_ok env" and "cfg_ok cfg" and "lens_ok cfg lens"
  shows "\<exists>plan. impl env cfg [0..<length lens] lens = Some (Inr plan) \<and> good_plan cfg lens plan \<and>
    count_padding_tokens cfg plan lens =
      Inr (int (length (plan_packs plan)) * pack_max_length cfg - sum_list lens)"
  using impl_good [OF assms] count_padding_good by blast

end

interpretation legacy: rl_strategy "\<lambda>env cfg ix lens. Some (legacy_pack env cfg ix lens)"
  by unfold_locales (simp add: legacy_pack_good)

interpretation greedy: rl_strategy "\<lambda>env cfg ix lens. Some (greedy_pack env cfg ix lens)"
  by unfold_locales (simp add: greedy_pack_good)

interpretation balance: rl_strategy "\<lambda>env cfg ix lens. Some (balance_pack env cfg ix lens)"
  by unfold_locales (simp add: balance_pack_good)

interpretation native: rl_strategy "\<lambda>env cfg ix lens. Some (native_pack env cfg ix lens)"
  by unfold_locales (simp add: native_pack_good)

interpretation lpt: rl_strategy lpt_pack
  by unfold_locales (rule lpt_pack_good)

interpretation configured: rl_strategy pack_impl
proof
  fix env cfg lens
  assume "env_ok env" "cfg_ok cfg" "lens_ok cfg lens"
  then show "\<exists>plan. pack_impl env cfg [0..<length lens] lens = Some (Inr plan) \<and> good_plan cfg lens plan"
    using legacy.impl_good [of env cfg lens] greedy.impl_good [of env cfg lens]
      balance.impl_good [of env cfg lens] native.impl_good [of env cfg lens] lpt.impl_good [of env cfg lens]
    unfolding pack_impl_def by presburger
qed

lemma pack_good:
  assumes "env_ok env" and "cfg_ok cfg" and "lens_ok cfg lens"
  shows "\<exists>plan. pack env cfg lens =
      Some (Inr (plan, int (length (plan_packs plan)) * pack_max_length cfg - sum_list lens)) \<and>
    good_plan cfg lens plan"
proof -
  have ok: "lens \<noteq> []" "\<not> (\<exists>t \<in> set lens. pack_max_length cfg < t)"
    using assms(3) by (auto simp: lens_ok_def)
  obtain plan where "pack_impl env cfg [0..<length lens] lens = Some (Inr plan)" "good_plan cfg lens plan"
    "count_padding_tokens cfg plan lens = Inr (int (length (plan_packs plan)) * pack_max_length cfg - sum_list lens)"
    using configured.checked_impl [OF assms] by blast
  then show ?thesis using ok unfolding pack_def by auto
qed

text \<open>Even cuts: sizes differ by at most one and the longer parts come first.\<close>

lemma even_sizes_sorted: "sorted (rev (even_sizes len n))"
proof -
  have "sorted_wrt (\<ge>) (map (\<lambda>i. a + (if i < r then 1 else 0)) [0..<m])" for a r m :: nat
    by (induction m) (auto simp: sorted_wrt_append)
  then show ?thesis by (simp add: even_sizes_def sorted_wrt_rev)
qed

text \<open>A concrete environment that satisfies the documented behaviour, for the witnesses.\<close>

definition rev_env :: pack_env where
  "rev_env = \<lparr>deterministic = False, shuffle_indices = rev, shuffle_packs = rev, shuffle_groups = (\<lambda>k. rev),
     randperm = (\<lambda>n. rev [0..<n]), np_argsort = (\<lambda>xs. sort_key ((!) xs) [0..<length xs]),
     array_split = (\<lambda>xs k. split_lens (even_sizes (length xs) k) xs)\<rparr>"

lemma rev_env_ok: "env_ok rev_env"
  by (simp add: rev_env_def env_ok_def argsort_perm_def)

subsection \<open>Properties\<close>

text \<open>C1. Every packing strategy is correct: for a positive budget, rank count and step count and samples
  that fit the budget, \<open>RLDataPacker.pack\<close> returns, with every strategy, a plan that has one entry per
  rank, holds every sample exactly once, keeps every pack within the budget and gives all ranks the
  same steps with the same pack counts; the internal checks never raise, and the reported padding is
  the packs' capacity minus the real tokens, never negative.\<close>

theorem rl_pack_total:
  assumes "env_ok env" and "cfg_ok cfg" and "lens_ok cfg lens"
  shows "\<exists>plan padding. pack env cfg lens = Some (Inr (plan, padding)) \<and> good_plan cfg lens plan \<and>
    padding = int (length (plan_packs plan)) * pack_max_length cfg - sum_list lens \<and> 0 \<le> padding"
  using pack_good [OF assms] good_plan_padding_nonneg by force

theorem rl_pack_total_witness:
  "\<exists>plan padding. pack rev_env \<lparr>pack_max_length = 5, optimizer_steps = 2, dp_size = 2,
       pack_extra_buffer_size = 4, pack_strategy = ''lpt'', split_size = 1024\<rparr> [3, 2, 4, 1, 5] =
     Some (Inr (plan, padding)) \<and>
   good_plan \<lparr>pack_max_length = 5, optimizer_steps = 2, dp_size = 2,
       pack_extra_buffer_size = 4, pack_strategy = ''lpt'', split_size = 1024\<rparr> [3, 2, 4, 1, 5] plan \<and>
   padding = int (length (plan_packs plan)) * 5 - 15 \<and> 0 \<le> padding"
  using rl_pack_total [OF rev_env_ok, of "\<lparr>pack_max_length = 5, optimizer_steps = 2, dp_size = 2,
       pack_extra_buffer_size = 4, pack_strategy = ''lpt'', split_size = 1024\<rparr>" "[3, 2, 4, 1, 5]"]
  by (simp add: cfg_ok_def lens_ok_def)

text \<open>C6. The longest-processing-time search terminates: for samples within the budget and a positive
  number of bins, \<open>get_lpt_pack_infos\<close> leaves its unbounded loop with every sample in exactly one bin,
  every bin within the budget, and a bin count that only ever grew by whole multiples of the rank count.\<close>

theorem lpt_terminates:
  assumes "0 < num_bins" and "0 < dp" and "\<forall>t \<in> set lens. 0 \<le> t \<and> t \<le> L" and "lens \<noteq> []"
  shows "\<exists>bins k. get_lpt_pack_infos [0..<length lens] lens L num_bins dp = Some (Inr bins) \<and>
    length bins = num_bins + k * dp \<and> mset (concat bins) = mset [0..<length lens] \<and>
    (\<forall>b \<in> set bins. pack_tokens lens b \<le> L)"
proof -
  let ?cfg = "\<lparr>pack_max_length = L, optimizer_steps = 1, dp_size = dp, pack_extra_buffer_size = 0,
    pack_strategy = ''lpt'', split_size = 0\<rparr>"
  have "lens_ok ?cfg lens" and "0 \<le> L" using assms(3,4) by (cases lens; auto simp: lens_ok_def)+
  then show ?thesis using lpt_pack_infos_spec [OF assms(1,2), of ?cfg lens] by simp
qed

theorem lpt_terminates_witness:
  "\<exists>bins k. get_lpt_pack_infos [0..<length [3, 2, 4, 1 :: int]] [3, 2, 4, 1] 5 1 2 = Some (Inr bins) \<and>
    length bins = 1 + k * 2 \<and> mset (concat bins) = mset [0..<length [3, 2, 4, 1 :: int]] \<and>
    list_all (\<lambda>b. pack_tokens [3, 2, 4, 1] b \<le> 5) bins"
  unfolding list_all_iff by (rule lpt_terminates) simp_all

text \<open>\<open>_partition_packs\<close> cuts a pack list into at most \<open>max_updates\<close> optimizer steps that keep the
  order, drop nothing, are never empty and differ in size by at most one, the longer ones first;
  \<open>partition_indices\<close> of the update scheduler makes the same cut.\<close>

theorem partition_packs_even:
  assumes "packs \<noteq> []" and "0 < max_updates"
  shows "\<exists>steps. partition_packs packs max_updates = Inr steps \<and> partition_indices packs (int max_updates) = Inr steps \<and>
    concat steps = packs \<and> length steps = min (length packs) max_updates \<and>
    (\<forall>s \<in> set steps. s \<noteq> [] \<and> length s \<le> Suc (length packs div length steps) \<and>
       length packs div length steps \<le> length s) \<and>
    sorted (rev (map length steps))"
proof -
  let ?n = "min (length packs) max_updates"
  let ?steps = "split_lens (even_sizes (length packs) ?n) packs"
  have n: "0 < ?n" using assms by simp
  then have sizes: "map length ?steps = even_sizes (length packs) ?n"
    by (intro map_length_split_lens sum_even_sizes)
  have "length s \<in> set (even_sizes (length packs) ?n)" if "s \<in> set ?steps" for s
    using that sizes by (metis length_map list.set_map image_eqI)
  note bounds = even_sizes_le [OF this]
  moreover have "1 \<le> length packs div ?n" using n by (simp add: div_greater_zero_iff Suc_le_eq)
  ultimately have "\<forall>s \<in> set ?steps. s \<noteq> [] \<and> length s \<le> Suc (length packs div length ?steps) \<and>
      length packs div length ?steps \<le> length s" by fastforce
  moreover have "concat ?steps = packs" using n by (intro concat_split_lens) (simp add: sum_even_sizes)
  moreover have "sorted (rev (map length ?steps))" unfolding sizes by (rule even_sizes_sorted)
  moreover have "partition_packs packs max_updates = Inr ?steps" "partition_indices packs (int max_updates) = Inr ?steps"
    using assms by (simp_all add: partition_packs_def partition_indices_def Let_def)
  ultimately show ?thesis by (metis length_even_sizes length_split_lens)
qed

theorem partition_packs_even_witness:
  "\<exists>steps. partition_packs [5, 6, 7, 8, 9] 2 = Inr steps \<and> partition_indices [5, 6, 7, 8, 9] (int 2) = Inr steps \<and>
    concat steps = [5, 6, 7, 8, 9] \<and> length steps = min (length [5, 6, 7, 8, 9 :: nat]) 2 \<and>
    list_all (\<lambda>s. s \<noteq> [] \<and> length s \<le> Suc (length [5, 6, 7, 8, 9 :: nat] div length steps) \<and>
      length [5, 6, 7, 8, 9 :: nat] div length steps \<le> length s) steps \<and>
    sorted (rev (map length steps))"
  unfolding list_all_iff by (rule partition_packs_even) simp_all

end
