(* ===== verification/RLPlan.thy ===== *)
theory RLPlan
  imports RLPack
begin

text \<open>
  The plan that \<open>RLDataPacker.plan\<close> hands to the training workers and the transport of per-token rows
  (\<^verbatim>\<open>xtuner/v1/rl/trainer/pack.py\<close>): \<open>RankPlan\<close>, \<open>PackPlan.restore_rows\<close> and
  \<open>TokenBatchProto\<close>. The wall-clock entry of the metrics is not modelled.
\<close>

subsection \<open>The per-rank plan\<close>

record RankPlan =
  global_indices :: "nat list"
  rank_steps :: rank_plan

record pack_metrics =
  real_tokens :: int
  padding_tokens :: int
  efficiency :: pyfloat
  num_packs :: nat
  num_optimizer_steps :: nat

record PackPlan =
  plan_ranks :: "RankPlan list"
  metrics :: pack_metrics

definition lookup_local :: "(nat \<Rightarrow> nat option) \<Rightarrow> nat \<Rightarrow> nat res" where
  "lookup_local global_to_local index =
     (case global_to_local index of None \<Rightarrow> Inl KeyError | Some l \<Rightarrow> Inr l)"

definition rank_plan_of :: "rank_plan \<Rightarrow> RankPlan res" where
  "rank_plan_of dp_plan =
     (let gs = sorted_list_of_set (set (concat (concat dp_plan)));
          global_to_local = map_of (rev (zip gs [0..<length gs]))
      in rbind (rmap (rmap (rmap (lookup_local global_to_local))) dp_plan)
           (\<lambda>local_steps. Inr \<lparr>global_indices = gs, rank_steps = local_steps\<rparr>))"

definition plan_metrics :: "packed \<Rightarrow> int \<Rightarrow> int list \<Rightarrow> pack_metrics" where
  "plan_metrics packed_plan padding data_lengths =
     (let real = sum_list data_lengths; total = real + padding in
      \<lparr>real_tokens = real, padding_tokens = padding,
       efficiency = (if 0 < total then of_int real / of_int total else 0),
       num_packs = sum_list (map (\<lambda>dp_plan. sum_list (map length dp_plan)) packed_plan),
       num_optimizer_steps = (if packed_plan \<noteq> [] then length (packed_plan ! 0) else 0)\<rparr>)"

definition make_plan :: "pack_env \<Rightarrow> packer \<Rightarrow> int list \<Rightarrow> PackPlan res option" where
  "make_plan env cfg data_lengths =
     (case pack env cfg data_lengths of
        None \<Rightarrow> None
      | Some r \<Rightarrow> Some (rbind r (\<lambda>(packed_plan, padding).
          rbind (rmap rank_plan_of packed_plan)
            (\<lambda>rs. Inr \<lparr>plan_ranks = rs, metrics = plan_metrics packed_plan padding data_lengths\<rparr>))))"

subsection \<open>Row transport\<close>

text \<open>
  A tensor is its shape and its values in row-major order. \<open>to_f32\<close> is the conversion to single
  precision. Row lengths are stored as \<open>int32\<close>; \<open>torch.tensor\<close> raises on a value that does not fit.
\<close>

record 'v tensor =
  shape :: "nat list"
  vals :: "'v list"

record 'f TokenBatchProto =
  batch_data :: "'f list"
  batch_lengths :: "int list"

definition token_batch_concat :: "('v \<Rightarrow> 'f) \<Rightarrow> 'v tensor list \<Rightarrow> 'f TokenBatchProto res" where
  "token_batch_concat to_f32 rows =
     (if rows = [] then Inr \<lparr>batch_data = [], batch_lengths = []\<rparr>
      else if \<exists>row \<in> set rows. length (shape row) \<noteq> 1 then Inl ValueError
      else
        let flat = map (\<lambda>row. map to_f32 (vals row)) rows in
        if \<exists>row \<in> set flat. 2 ^ 31 \<le> int (length row) then Inl RuntimeError
        else Inr \<lparr>batch_data = (if length flat = 1 then flat ! 0 else concat flat),
                  batch_lengths = map (\<lambda>row. int (length row)) flat\<rparr>)"

definition token_batch_chunk :: "'f TokenBatchProto \<Rightarrow> 'f list list res" where
  "token_batch_chunk proto =
     (if batch_lengths proto = [] then Inr []
      else if (\<exists>n \<in> set (batch_lengths proto). n < 0) \<or> sum_list (batch_lengths proto) \<noteq> int (length (batch_data proto))
      then Inl RuntimeError
      else Inr (split_lens (map nat (batch_lengths proto)) (batch_data proto)))"

fun place_rows :: "(nat \<times> 'r) list \<Rightarrow> 'r option list \<Rightarrow> 'r option list res" where
  "place_rows [] result = Inr result"
| "place_rows ((global_index, row) # rest) result =
     (if length result \<le> global_index then Inl IndexError
      else if result ! global_index \<noteq> None then Inl ValueError
      else place_rows rest (result[global_index := Some row]))"

fun restore_ranks ::
  "(RankPlan \<times> 'f TokenBatchProto) list \<Rightarrow> 'f list option list \<Rightarrow> 'f list option list res" where
  "restore_ranks [] result = Inr result"
| "restore_ranks ((rank, payload) # rest) result =
     rbind (token_batch_chunk payload) (\<lambda>rows.
       if length rows \<noteq> length (global_indices rank) then Inl ValueError
       else rbind (place_rows (zip (global_indices rank) rows) result) (restore_ranks rest))"

definition restore_rows :: "PackPlan \<Rightarrow> 'f TokenBatchProto list \<Rightarrow> 'f list list res" where
  "restore_rows p rows_by_dp =
     (if length rows_by_dp \<noteq> length (plan_ranks p) then Inl ValueError
      else
        let size = sum_list (map (\<lambda>rank. length (global_indices rank)) (plan_ranks p)) in
        rbind (restore_ranks (zip (plan_ranks p) rows_by_dp) (replicate size None)) (\<lambda>result.
          if \<exists>row \<in> set result. row = None then Inl ValueError else Inr (map the result)))"

subsection \<open>Local and global indices\<close>

lemma map_of_rev_zip_upt:
  assumes "distinct gs" and "i < length gs"
  shows "map_of (rev (zip gs [0..<length gs])) (gs ! i) = Some i"
proof -
  have "distinct (map fst (rev (zip gs [0..<length gs])))" using assms(1) by (simp add: rev_map [symmetric])
  moreover have "(gs ! i, i) \<in> set (rev (zip gs [0..<length gs]))" using assms(2) by (auto simp: set_zip)
  ultimately show ?thesis by (metis map_of_eq_Some_iff)
qed

definition plan_samples :: "rank_plan \<Rightarrow> nat list" where
  "plan_samples dp_plan = concat (concat dp_plan)"

lemma rank_plan_of_spec:
  "\<exists>r. rank_plan_of dp_plan = Inr r \<and>
    global_indices r = sorted_list_of_set (set (plan_samples dp_plan)) \<and>
    map (map (map ((!) (global_indices r)))) (rank_steps r) = dp_plan"
proof -
  define gs where "gs = sorted_list_of_set (set (plan_samples dp_plan))"
  have gs: "distinct gs" "set gs = set (plan_samples dp_plan)" by (simp_all add: gs_def)
  define m where "m = map_of (rev (zip gs [0..<length gs]))"
  have look: "lookup_local m x = Inr (the (m x)) \<and> gs ! the (m x) = x" if "x \<in> set gs" for x
    using that map_of_rev_zip_upt [OF gs(1)] by (auto simp: in_set_conv_nth lookup_local_def m_def)
  have mem: "x \<in> set gs" if "step \<in> set dp_plan" "p \<in> set step" "x \<in> set p" for step p x
    using that gs(2) by (auto simp: plan_samples_def)
  have "rmap (rmap (rmap (lookup_local m))) dp_plan = Inr (map (map (map (\<lambda>x. the (m x)))) dp_plan)"
    by (intro rmap_total) (use look mem in blast)
  moreover have "map (map (map ((!) gs))) (map (map (map (\<lambda>x. the (m x)))) dp_plan) = dp_plan"
    using look mem by (auto simp: map_idI)
  ultimately show ?thesis by (simp add: rank_plan_of_def plan_samples_def gs_def m_def Let_def)
qed

lemma good_plan_samples:
  assumes "good_plan cfg lens plan"
  shows "mset (concat (map plan_samples plan)) = mset [0..<length lens]"
proof -
  have "concat (plan_packs plan) = concat (map plan_samples plan)"
    by (induction plan) (auto simp: plan_packs_def plan_samples_def)
  then show ?thesis using assms by (simp add: good_plan_def)
qed

lemma rank_plans_spec:
  "\<exists>rs. rmap rank_plan_of plan = Inr rs \<and>
    map global_indices rs = map (\<lambda>dp. sorted_list_of_set (set (plan_samples dp))) plan \<and>
    map (\<lambda>r. map (map (map ((!) (global_indices r)))) (rank_steps r)) rs = plan"
proof (induction plan)
  case (Cons dp plan)
  then show ?case using rank_plan_of_spec [of dp] by auto
qed simp

text \<open>The ranks' global index lists cut the samples into disjoint increasing parts.\<close>

lemma rank_indices_mset:
  assumes "distinct (concat xss)"
  shows "mset (concat (map (\<lambda>xs. sorted_list_of_set (set xs)) xss)) = mset (concat xss)"
  using assms
proof (induction xss)
  case (Cons xs xss)
  then have "mset (sorted_list_of_set (set xs)) = mset xs"
    by (metis concat.simps(2) distinct_append distinct_sorted_list_of_set finite_set set_eq_iff_mset_eq_distinct
        set_sorted_list_of_set)
  with Cons show ?case by simp
qed simp

subsection \<open>Restoring rows\<close>

text \<open>The array of \<open>restore_rows\<close> once the samples in \<open>S\<close> have been written.\<close>

definition filled :: "(nat \<Rightarrow> 'r) \<Rightarrow> nat \<Rightarrow> nat set \<Rightarrow> 'r option list" where
  "filled f n S = map (\<lambda>i. if i \<in> S then Some (f i) else None) [0..<n]"

lemma filled_update: "g < n \<Longrightarrow> (filled f n S)[g := Some (f g)] = filled f n (insert g S)"
  by (rule nth_equalityI) (auto simp: filled_def nth_list_update)

lemma place_rows_filled:
  assumes "distinct gs" and "set gs \<inter> S = {}" and "set gs \<subseteq> {0..<n}"
  shows "place_rows (zip gs (map f gs)) (filled f n S) = Inr (filled f n (S \<union> set gs))"
  using assms
proof (induction gs arbitrary: S)
  case (Cons g gs)
  have "filled f n S ! g = None" "length (filled f n S) = n" "g < n"
    using Cons.prems by (auto simp: filled_def)
  then show ?case using Cons.IH [of "insert g S"] Cons.prems by (simp add: filled_update)
qed simp

lemma restore_ranks_filled:
  assumes "distinct (concat (map global_indices rs) @ done)" and "set (concat (map global_indices rs)) \<subseteq> {0..<n}"
    and "list_all2 (\<lambda>r pl. token_batch_chunk pl = Inr (map f (global_indices r))) rs pls"
  shows "restore_ranks (zip rs pls) (filled f n (set done)) =
    Inr (filled f n (set done \<union> set (concat (map global_indices rs))))"
  using assms(3,1,2)
proof (induction arbitrary: "done" rule: list_all2_induct)
  case (Cons r rs pl pls)
  have "place_rows (zip (global_indices r) (map f (global_indices r))) (filled f n (set done)) =
      Inr (filled f n (set done \<union> set (global_indices r)))"
    using Cons.prems by (intro place_rows_filled) auto
  moreover have "restore_ranks (zip rs pls) (filled f n (set (done @ global_indices r))) =
      Inr (filled f n (set (done @ global_indices r) \<union> set (concat (map global_indices rs))))"
    using Cons.prems by (intro Cons.IH) auto
  ultimately show ?case using Cons.hyps by (simp add: Un_assoc)
qed simp

lemma filled_all: "filled f n {0..<n} = map (\<lambda>i. Some (f i)) [0..<n]"
  by (simp add: filled_def)

lemma restore_rows_spec:
  assumes "mset (concat (map global_indices (plan_ranks p))) = mset [0..<n]"
    and "list_all2 (\<lambda>r pl. token_batch_chunk pl = Inr (map f (global_indices r))) (plan_ranks p) pls"
  shows "restore_rows p pls = Inr (map f [0..<n])"
proof -
  let ?gs = "concat (map global_indices (plan_ranks p))"
  have d: "distinct ?gs" by (metis assms(1) distinct_upt mset_eq_imp_distinct_iff)
  have set_gs: "set ?gs = {0..<n}" using mset_eq_setD [OF assms(1)] by simp
  have "length ?gs = n" by (metis assms(1) length_upt minus_nat.diff_0 size_mset)
  then have size: "sum_list (map (\<lambda>r. length (global_indices r)) (plan_ranks p)) = n"
    by (simp add: length_concat comp_def)
  have "restore_ranks (zip (plan_ranks p) pls) (filled f n (set [])) = Inr (filled f n (set [] \<union> set ?gs))"
    using d set_gs assms(2) by (intro restore_ranks_filled) auto
  moreover have "filled f n (set []) = replicate n None" by (simp add: filled_def map_replicate_const)
  ultimately have "restore_ranks (zip (plan_ranks p) pls) (replicate n None) = Inr (map (\<lambda>i. Some (f i)) [0..<n])"
    using set_gs by (simp add: filled_all)
  moreover have "length pls = length (plan_ranks p)" using assms(2) by (simp add: list_all2_lengthD)
  ultimately show ?thesis by (auto simp: restore_rows_def size comp_def)
qed

definition row_ok :: "'v tensor \<Rightarrow> bool" where
  "row_ok t \<longleftrightarrow> length (shape t) = 1 \<and> int (length (vals t)) < 2 ^ 31"

lemma token_batch_roundtrip:
  assumes "\<forall>t \<in> set rows. row_ok t"
  shows "\<exists>b. token_batch_concat to_f32 rows = Inr b \<and> token_batch_chunk b = Inr (map (\<lambda>t. map to_f32 (vals t)) rows)"
proof (cases "rows = []")
  case False
  let ?flat = "map (\<lambda>t. map to_f32 (vals t)) rows"
  let ?b = "\<lparr>batch_data = concat ?flat, batch_lengths = map (\<lambda>row. int (length row)) ?flat\<rparr>"
  have one: "(if length ?flat = 1 then ?flat ! 0 else concat ?flat) = concat ?flat"
    by (cases rows) auto
  have "token_batch_concat to_f32 rows = Inr ?b"
    using False assms unfolding token_batch_concat_def Let_def one by (fastforce simp: row_ok_def)
  moreover have "sum_list (map (\<lambda>row. int (length row)) ?flat) = int (length (concat ?flat))"
    by (induction rows) auto
  then have "token_batch_chunk ?b = Inr (split_lens (map length ?flat) (concat ?flat))"
    using False by (simp add: token_batch_chunk_def comp_def)
  ultimately show ?thesis by (simp only: split_lens_concat) blast
qed (simp add: token_batch_concat_def token_batch_chunk_def)

subsection \<open>Properties\<close>

definition global_plan :: "PackPlan \<Rightarrow> packed" where
  "global_plan p = map (\<lambda>r. map (map (map ((!) (global_indices r)))) (rank_steps r)) (plan_ranks p)"

lemma make_plan_spec:
  assumes "env_ok env" and "cfg_ok cfg" and "lens_ok cfg lens"
  obtains plan p where
    "pack env cfg lens = Some (Inr (plan, int (length (plan_packs plan)) * pack_max_length cfg - sum_list lens))"
    and "good_plan cfg lens plan" and "make_plan env cfg lens = Some (Inr p)" and "global_plan p = plan"
    and "map global_indices (plan_ranks p) = map (\<lambda>dp. sorted_list_of_set (set (plan_samples dp))) plan"
    and "mset (concat (map global_indices (plan_ranks p))) = mset [0..<length lens]"
    and "metrics p = plan_metrics plan (int (length (plan_packs plan)) * pack_max_length cfg - sum_list lens) lens"
proof -
  let ?pad = "\<lambda>plan. int (length (plan_packs plan)) * pack_max_length cfg - sum_list lens"
  obtain plan where plan: "pack env cfg lens = Some (Inr (plan, ?pad plan))" "good_plan cfg lens plan"
    using pack_good [OF assms] by blast
  obtain rs where rs: "rmap rank_plan_of plan = Inr rs"
    "map global_indices rs = map (\<lambda>dp. sorted_list_of_set (set (plan_samples dp))) plan"
    "map (\<lambda>r. map (map (map ((!) (global_indices r)))) (rank_steps r)) rs = plan"
    using rank_plans_spec [of plan] by blast
  have perm: "mset (concat (map plan_samples plan)) = mset [0..<length lens]" by (rule good_plan_samples [OF plan(2)])
  then have "distinct (concat (map plan_samples plan))" by (metis distinct_upt mset_eq_imp_distinct_iff)
  from rank_indices_mset [OF this] have "mset (concat (map global_indices rs)) = mset [0..<length lens]"
    unfolding rs(2) perm [symmetric] by (simp only: map_map comp_def)
  with plan rs that [of plan "\<lparr>plan_ranks = rs, metrics = plan_metrics plan (?pad plan) lens\<rparr>"]
  show thesis by (simp add: make_plan_def global_plan_def)
qed

lemma num_packs_eq: "num_packs (plan_metrics plan pad lens) = length (plan_packs plan)"
proof -
  have "sum_list (map (\<lambda>dp. sum_list (map length dp)) plan) = length (plan_packs plan)"
    by (induction plan) (auto simp: plan_packs_def length_concat)
  then show ?thesis by (simp add: plan_metrics_def Let_def)
qed

lemma efficiency_bounds:
  assumes "0 \<le> sum_list lens" and "0 \<le> pad"
  shows "0 \<le> efficiency (plan_metrics plan pad lens) \<and> efficiency (plan_metrics plan pad lens) \<le> 1"
proof -
  have "(of_int a :: rat) \<le> of_int (a + b)" if "0 \<le> b" for a b using that by simp
  then show ?thesis using assms unfolding plan_metrics_def Let_def
    by (auto simp: divide_le_eq simp del: of_int_add)
qed

text \<open>\<open>RLDataPacker.plan\<close> returns for every strategy. Each rank lists its samples once, in increasing
  order; over the ranks every sample appears exactly once; resolving the local indices of the steps
  through \<open>global_indices\<close> gives back the packed plan; and the metrics add up: real plus padding tokens
  are the packs' capacity and the efficiency lies between 0 and 1.\<close>

theorem make_plan_correct:
  assumes "env_ok env" and "cfg_ok cfg" and "lens_ok cfg lens"
  shows "\<exists>p. make_plan env cfg lens = Some (Inr p) \<and> good_plan cfg lens (global_plan p) \<and>
    mset (concat (map global_indices (plan_ranks p))) = mset [0..<length lens] \<and>
    (\<forall>r \<in> set (plan_ranks p). sorted (global_indices r) \<and> distinct (global_indices r)) \<and>
    real_tokens (metrics p) + padding_tokens (metrics p) = int (num_packs (metrics p)) * pack_max_length cfg \<and>
    0 \<le> efficiency (metrics p) \<and> efficiency (metrics p) \<le> 1"
proof -
  obtain plan p where p: "good_plan cfg lens plan" "make_plan env cfg lens = Some (Inr p)" "global_plan p = plan"
    "map global_indices (plan_ranks p) = map (\<lambda>dp. sorted_list_of_set (set (plan_samples dp))) plan"
    "mset (concat (map global_indices (plan_ranks p))) = mset [0..<length lens]"
    "metrics p = plan_metrics plan (int (length (plan_packs plan)) * pack_max_length cfg - sum_list lens) lens"
    by (rule make_plan_spec [OF assms])
  have "sorted g \<and> distinct g" if "g \<in> set (map global_indices (plan_ranks p))" for g
    using that unfolding p(4) by auto
  then have "\<forall>r \<in> set (plan_ranks p). sorted (global_indices r) \<and> distinct (global_indices r)" by simp
  moreover have "real_tokens (metrics p) + padding_tokens (metrics p) = int (num_packs (metrics p)) * pack_max_length cfg"
    unfolding p(6) num_packs_eq by (simp add: plan_metrics_def Let_def)
  moreover have "0 \<le> sum_list lens" using assms(3) by (auto simp: lens_ok_def intro!: sum_list_nonneg)
  then have "0 \<le> efficiency (metrics p) \<and> efficiency (metrics p) \<le> 1"
    unfolding p(6) by (intro efficiency_bounds) (use good_plan_padding_nonneg [OF p(1)] in simp_all)
  ultimately show ?thesis using p by auto
qed

theorem make_plan_correct_witness:
  "\<exists>p. make_plan rev_env \<lparr>pack_max_length = 5, optimizer_steps = 2, dp_size = 2,
       pack_extra_buffer_size = 4, pack_strategy = ''native'', split_size = 1024\<rparr> [3, 2, 4] = Some (Inr p) \<and>
    good_plan \<lparr>pack_max_length = 5, optimizer_steps = 2, dp_size = 2,
       pack_extra_buffer_size = 4, pack_strategy = ''native'', split_size = 1024\<rparr> [3, 2, 4] (global_plan p) \<and>
    mset (concat (map global_indices (plan_ranks p))) = mset [0..<length [3, 2, 4 :: int]] \<and>
    list_all (\<lambda>r. sorted (global_indices r) \<and> distinct (global_indices r)) (plan_ranks p) \<and>
    real_tokens (metrics p) + padding_tokens (metrics p) = int (num_packs (metrics p)) * pack_max_length
      \<lparr>pack_max_length = 5, optimizer_steps = 2, dp_size = 2,
       pack_extra_buffer_size = 4, pack_strategy = ''native'', split_size = 1024\<rparr> \<and>
    0 \<le> efficiency (metrics p) \<and> efficiency (metrics p) \<le> 1"
  unfolding list_all_iff by (rule make_plan_correct) (simp_all add: rev_env_ok cfg_ok_def lens_ok_def)

text \<open>C2. Rows survive the trip to the workers and back: when every rank returns its rows through
  \<open>TokenBatchProto.concat\<close>, in the order of its \<open>global_indices\<close>, \<open>PackPlan.restore_rows\<close> yields one row
  per sample in the global order, converted to single precision, and never reports a duplicate or a
  missing sample.\<close>

theorem restore_rows_roundtrip:
  assumes "env_ok env" and "cfg_ok cfg" and "lens_ok cfg lens"
    and "length rows = length lens" and "\<forall>t \<in> set rows. row_ok t"
  shows "\<exists>p payloads. make_plan env cfg lens = Some (Inr p) \<and>
    rmap (\<lambda>r. token_batch_concat to_f32 (map ((!) rows) (global_indices r))) (plan_ranks p) = Inr payloads \<and>
    restore_rows p payloads = Inr (map (\<lambda>t. map to_f32 (vals t)) rows)"
proof -
  obtain p where p: "make_plan env cfg lens = Some (Inr p)"
    "mset (concat (map global_indices (plan_ranks p))) = mset [0..<length lens]"
    using make_plan_spec [OF assms(1-3)] by metis
  define f where "f i = map to_f32 (vals (rows ! i))" for i
  have ok: "\<forall>t \<in> set (map ((!) rows) (global_indices r)). row_ok t" if "r \<in> set (plan_ranks p)" for r
  proof -
    have "set (global_indices r) \<subseteq> {0..<length rows}"
      using that mset_eq_setD [OF p(2)] assms(4) by auto
    then show ?thesis using assms(5) by auto
  qed
  let ?send = "\<lambda>r. token_batch_concat to_f32 (map ((!) rows) (global_indices r))"
  have good: "?send r = Inr (projr (?send r)) \<and> token_batch_chunk (projr (?send r)) = Inr (map f (global_indices r))"
    if "r \<in> set (plan_ranks p)" for r
    using token_batch_roundtrip [OF ok [OF that], of to_f32] by (auto simp: f_def comp_def)
  have "rmap ?send (plan_ranks p) = Inr (map (\<lambda>r. projr (?send r)) (plan_ranks p))"
    by (rule rmap_total) (use good in blast)
  moreover have "restore_rows p (map (\<lambda>r. projr (?send r)) (plan_ranks p)) = Inr (map f [0..<length lens])"
    by (rule restore_rows_spec [OF p(2)]) (use good in \<open>auto simp: list_all2_map2 intro: list_all2_same [THEN iffD2]\<close>)
  moreover have "map f [0..<length lens] = map (\<lambda>t. map to_f32 (vals t)) rows"
    using assms(4) by (intro nth_equalityI) (auto simp: f_def)
  ultimately show ?thesis using p(1) by auto
qed

theorem restore_rows_roundtrip_witness:
  "\<exists>p payloads. make_plan rev_env \<lparr>pack_max_length = 5, optimizer_steps = 2, dp_size = 2,
       pack_extra_buffer_size = 4, pack_strategy = ''balance'', split_size = 1024\<rparr> [3, 2] = Some (Inr p) \<and>
    rmap (\<lambda>r. token_batch_concat of_nat (map ((!) [\<lparr>shape = [2], vals = [7, 8]\<rparr>, \<lparr>shape = [1], vals = [9]\<rparr>])
      (global_indices r))) (plan_ranks p) = Inr payloads \<and>
    restore_rows p payloads = Inr (map (\<lambda>t. map of_nat (vals t))
      [\<lparr>shape = [2], vals = [7, 8]\<rparr>, \<lparr>shape = [1], vals = [9]\<rparr>] :: int list list)"
  by (rule restore_rows_roundtrip) (simp_all add: rev_env_ok cfg_ok_def lens_ok_def row_ok_def)

end
