(* ===== verification/HardPack.thy ===== *)
theory HardPack
  imports Prelude
begin

text \<open>
  Hard packing of \<^verbatim>\<open>xtuner/v1/datasets/packing.py\<close>: the shuffled token stream of a dataset is cut
  into packs of exactly \<open>pack_max_length\<close> tokens. A pack is stored as the sample positions it touches,
  an offset into the first and an end offset into the last one; all packs together are stored
  column-wise, the position lists flattened with their running lengths (\<open>indices_cu_len\<close>).

  \<open>numpy.searchsorted(..., side="right")\<close> is the argument \<open>ss\<close>, with its documented meaning on sorted
  arrays as the hypothesis \<open>searchsorted_right\<close>. The quotient \<open>int(sum / pack_max_length)\<close> is taken
  exactly. The worker pool of \<open>get_pack_infos_by_hard_split\<close> maps the same function over the same
  chunks in order, so both branches are one \<open>rmap\<close>. A chunk size below one is outside \<open>chunks\<close>
  (\<open>range\<close> raises for zero and is empty below zero); a zero budget makes \<open>int\<close> raise on the float
  quotient.
\<close>

subsection \<open>The column store\<close>

record hard_infos =
  h_dataset_id :: "int list"
  h_indices :: "nat list"
  h_indices_cu_len :: "int list"
  h_start_offset :: "int list"
  h_end_offset :: "int list"
  h_longest :: "int list"

definition hard_longest :: "int list \<Rightarrow> int \<Rightarrow> int \<Rightarrow> int \<Rightarrow> int \<Rightarrow> int res" where
  "hard_longest lengths s_idx e_idx s_off e_off =
     (if s_idx = e_idx then Inr (e_off - s_off)
      else rbind (py_get lengths s_idx) (\<lambda>len_s.
        let len_first = len_s - s_off; mid = py_slice lengths (s_idx + 1) e_idx in
        if e_idx - s_idx > 1
        then (if mid = [] then Inl ValueError else Inr (max (max len_first e_off) (Max (set mid))))
        else Inr (max (max len_first e_off) 0)))"

definition hard_pack_chunk_core ::
  "(int list \<Rightarrow> int \<Rightarrow> nat) \<Rightarrow> int \<Rightarrow> int \<Rightarrow> int list \<Rightarrow> nat list \<Rightarrow> int list \<Rightarrow> nat list \<Rightarrow> hard_infos res" where
  "hard_pack_chunk_core ss did pack_max_length cu inds_arr lengths i_chunk =
     (let begins = map (\<lambda>i. int i * pack_max_length) i_chunk;
          ends = map (\<lambda>b. b + pack_max_length) begins;
          s_idxs = map (\<lambda>b. int (ss cu b) - 1) begins;
          e_idxs = map (\<lambda>e. int (ss cu (e - 1)) - 1) ends
      in rbind (rmap (py_get cu) s_idxs) (\<lambda>cs. rbind (rmap (py_get cu) e_idxs) (\<lambda>ce.
        let s_offs = map2 (-) begins cs; e_offs = map2 (-) ends ce in
        rbind (rmap (\<lambda>((s, e), (so, eo)). hard_longest lengths s e so eo)
                 (zip (zip s_idxs e_idxs) (zip s_offs e_offs)))
          (\<lambda>longs. Inr
             \<lparr>h_dataset_id = replicate (length i_chunk) did,
              h_indices = concat (map2 (\<lambda>s e. py_slice inds_arr s (e + 1)) s_idxs e_idxs),
              h_indices_cu_len = cumsum 0 (map2 (\<lambda>s e. e - s + 1) s_idxs e_idxs),
              h_start_offset = s_offs, h_end_offset = e_offs, h_longest = longs\<rparr>))))"

fun merge_cu :: "int \<Rightarrow> int list list \<Rightarrow> int list res" where
  "merge_cu offset [] = Inr []"
| "merge_cu offset (c # cs) =
     rbind (py_get c (- 1)) (\<lambda>l. rbind (merge_cu (offset + l) cs)
       (\<lambda>rest. Inr (map (\<lambda>x. x + offset) c @ rest)))"

text \<open>\<open>np.concatenate\<close> raises on an empty list of arrays.\<close>

definition merge_pack_infos :: "hard_infos list \<Rightarrow> hard_infos res" where
  "merge_pack_infos infos =
     rbind (merge_cu 0 (map h_indices_cu_len infos)) (\<lambda>cu.
       if infos = [] then Inl ValueError
       else Inr \<lparr>h_dataset_id = concat (map h_dataset_id infos), h_indices = concat (map h_indices infos),
                 h_indices_cu_len = cu, h_start_offset = concat (map h_start_offset infos),
                 h_end_offset = concat (map h_end_offset infos), h_longest = concat (map h_longest infos)\<rparr>)"

definition get_pack_infos_by_hard_split ::
  "(int list \<Rightarrow> int \<Rightarrow> nat) \<Rightarrow> nat list \<Rightarrow> int \<Rightarrow> int list \<Rightarrow> nat \<Rightarrow> nat \<Rightarrow> hard_infos res" where
  "get_pack_infos_by_hard_split ss inds did num_tokens pack_max_length pack_chunk_size =
     (if \<exists>i \<in> set inds. length num_tokens \<le> i then Inl IndexError
      else if pack_max_length = 0
      then Inl (if sum_list (map ((!) num_tokens) inds) = 0 then ValueError else OverflowError)
      else if pack_chunk_size = 0 then Inl ValueError
      else
        let shfl_lens = map ((!) num_tokens) inds;
            num_packed = nat (sum_list shfl_lens div int pack_max_length);
            cu = cumsum0 0 shfl_lens;
            lengths = map2 (-) (tl cu) (butlast cu)
        in rbind (rmap (hard_pack_chunk_core ss did (int pack_max_length) cu inds lengths)
                   (chunks pack_chunk_size [0..<num_packed]))
             merge_pack_infos)"

subsection \<open>Reading a pack\<close>

record 'v sample =
  input_ids :: "'v list"
  labels :: "'v list option"

record 'v packed_item =
  p_input_ids :: "'v list"
  p_labels :: "'v list option"
  p_num_tokens :: int

definition hard_cut :: "'v sample list \<Rightarrow> int \<Rightarrow> int \<Rightarrow> nat \<Rightarrow> nat \<times> nat \<Rightarrow> 'v packed_item res" where
  "hard_cut ds s_off e_off n = (\<lambda>(i, idx).
     rbind (py_get ds (int idx)) (\<lambda>sample.
       let ids = input_ids sample;
           st = (if i \<noteq> 0 then 0 else s_off);
           ed = (if i \<noteq> n - 1 then int (length ids) else e_off)
       in Inr \<lparr>p_input_ids = py_slice ids st ed,
               p_labels = map_option (\<lambda>labs. py_slice labs st ed) (labels sample),
               p_num_tokens = ed - st\<rparr>))"

text \<open>\<open>HardPackDataset.__getitem__\<close>, for an item that is not negative, and \<open>__len__\<close>.\<close>

definition hard_getitem ::
  "hard_infos \<Rightarrow> 'v sample list list \<Rightarrow> nat \<Rightarrow> nat \<Rightarrow> 'v packed_item list res" where
  "hard_getitem infos datasets pack_max_length item =
     rbind (py_get (h_dataset_id infos) (int item)) (\<lambda>did.
     rbind (py_get datasets did) (\<lambda>ds.
     rbind (if item = 0 then Inr 0 else py_get (h_indices_cu_len infos) (int item - 1)) (\<lambda>indices_start.
     rbind (py_get (h_indices_cu_len infos) (int item)) (\<lambda>indices_end.
     let ix = py_slice (h_indices infos) indices_start indices_end in
     rbind (py_get (h_start_offset infos) (int item)) (\<lambda>s_off.
     rbind (py_get (h_end_offset infos) (int item)) (\<lambda>e_off.
     rbind (rmap (hard_cut ds s_off e_off (length ix)) (zip [0..<length ix] ix)) (\<lambda>packed_list.
       if sum_list (map p_num_tokens packed_list) = int pack_max_length
       then Inr packed_list else Inl AssertionError)))))))"

definition hard_len :: "hard_infos \<Rightarrow> nat" where
  "hard_len infos = length (h_dataset_id infos)"

subsection \<open>Rows\<close>

text \<open>The column store is the transposition of a list of rows, one per pack.\<close>

record hard_row =
  r_dataset_id :: int
  r_indices :: "nat list"
  r_start :: int
  r_end :: int
  r_longest :: int

definition csr :: "hard_row list \<Rightarrow> hard_infos" where
  "csr rows = \<lparr>h_dataset_id = map r_dataset_id rows, h_indices = concat (map r_indices rows),
     h_indices_cu_len = cumsum 0 (map (\<lambda>r. int (length (r_indices r))) rows),
     h_start_offset = map r_start rows, h_end_offset = map r_end rows, h_longest = map r_longest rows\<rparr>"

lemma merge_cu_csr:
  assumes "\<forall>rows \<in> set rss. rows \<noteq> []"
  shows "merge_cu a (map (\<lambda>rows. cumsum 0 (map len rows)) rss) = Inr (cumsum a (map len (concat rss)))"
  using assms
proof (induction rss arbitrary: a)
  case (Cons rows rss)
  have "cumsum 0 (map len rows) \<noteq> []" using Cons.prems by (metis length_0_conv length_cumsum length_map list.set_intros(1))
  then have "py_get (cumsum 0 (map len rows)) (- 1) = Inr (sum_list (map len rows))"
    using Cons.prems by (simp add: py_get_last last_cumsum)
  then show ?case using Cons.IH [of "a + sum_list (map len rows)"] Cons.prems
    by (simp add: cumsum_append cumsum_shift)
qed simp

text \<open>Merging column stores is appending their rows.\<close>

lemma merge_pack_infos_csr:
  assumes "rss \<noteq> []" and "\<forall>rows \<in> set rss. rows \<noteq> []"
  shows "merge_pack_infos (map csr rss) = Inr (csr (concat rss))"
  using merge_cu_csr [OF assms(2), of 0 "\<lambda>r. int (length (r_indices r))"] assms(1)
  by (simp add: merge_pack_infos_def csr_def comp_def map_concat concat_concat_map)

subsection \<open>Locating a token\<close>

definition searchsorted_right :: "(int list \<Rightarrow> int \<Rightarrow> nat) \<Rightarrow> bool" where
  "searchsorted_right ss \<longleftrightarrow> (\<forall>xs v. sorted xs \<longrightarrow> ss xs v = length (filter (\<lambda>x. x \<le> v) xs))"

lemma filter_le_sorted: "sorted xs \<Longrightarrow> filter (\<lambda>x. x \<le> v) xs = takeWhile (\<lambda>x. x \<le> (v :: int)) xs"
proof (induction xs)
  case (Cons x xs)
  show ?case
  proof (cases "x \<le> v")
    case False
    then have "\<forall>y \<in> set xs. \<not> y \<le> v" using Cons.prems by fastforce
    then show ?thesis using False by simp
  qed (use Cons in simp)
qed simp

lemma searchsorted_locates:
  assumes "searchsorted_right ss" and "sorted cu" and "cu \<noteq> []" and "cu ! 0 \<le> v" and "v < last cu"
  obtains k where "ss cu v = Suc k" and "Suc k < length cu" and "cu ! k \<le> v" and "v < cu ! Suc k"
proof -
  let ?tw = "takeWhile (\<lambda>x. x \<le> v) cu"
  have ss: "ss cu v = length ?tw" using assms(1,2) by (simp add: searchsorted_right_def filter_le_sorted)
  have pos: "?tw \<noteq> []" using assms(3,4) by (cases cu) auto
  have lt: "length ?tw < length cu"
  proof (rule ccontr)
    assume "\<not> length ?tw < length cu"
    then have "?tw = cu" by (metis length_takeWhile_le linorder_le_less_linear nat_less_le takeWhile_eq_take take_all_iff)
    then have "last cu \<le> v" using assms(3) by (metis last_in_set set_takeWhileD)
    with assms(5) show False by simp
  qed
  obtain k where k: "length ?tw = Suc k" using pos by (cases ?tw) auto
  have "cu ! k \<le> v" using k by (metis lessI nth_mem set_takeWhileD takeWhile_nth)
  moreover have "v < cu ! Suc k" using nth_length_takeWhile [OF lt] k by simp
  ultimately show thesis using that ss k lt by simp
qed

text \<open>Offset of the \<open>k\<close>-th sample in the stream.\<close>

definition off :: "'a list list \<Rightarrow> nat \<Rightarrow> nat" where
  "off xss k = length (concat (take k xss))"

definition stream_cu :: "'a list list \<Rightarrow> int list" where
  "stream_cu xss = cumsum0 0 (map (\<lambda>xs. int (length xs)) xss)"

lemma off_Suc: "k < length xss \<Longrightarrow> off xss (Suc k) = off xss k + length (xss ! k)"
  by (simp add: off_def take_Suc_conv_app_nth)

lemma off_mono: "i \<le> j \<Longrightarrow> off xss i \<le> off xss j"
proof -
  assume "i \<le> j"
  then have "take j xss = take i xss @ take (j - i) (drop i xss)" by (metis le_add_diff_inverse take_add)
  then show ?thesis by (simp add: off_def)
qed

lemma nth_stream_cu: "k \<le> length xss \<Longrightarrow> stream_cu xss ! k = int (off xss k)"
proof -
  assume "k \<le> length xss"
  moreover have "sum_list (map (\<lambda>xs. int (length xs)) yss) = int (length (concat yss))" for yss :: "'a list list"
    by (induction yss) auto
  ultimately show ?thesis by (simp add: stream_cu_def off_def nth_cumsum0 take_map)
qed

lemma length_stream_cu [simp]: "length (stream_cu xss) = Suc (length xss)"
  by (simp add: stream_cu_def)

lemma stream_locate:
  assumes "searchsorted_right ss" and "v < length (concat xss)"
  obtains k where "ss (stream_cu xss) (int v) = Suc k" and "k < length xss"
    and "off xss k \<le> v" and "v < off xss (Suc k)"
proof -
  have sorted: "sorted (stream_cu xss)" unfolding stream_cu_def by (rule sorted_cumsum0) auto
  have "last (stream_cu xss) = int (length (concat xss))"
    by (metis length_stream_cu diff_Suc_1 last_conv_nth length_0_conv nat.distinct(1) nth_stream_cu off_def order_refl take_all)
  moreover have "stream_cu xss ! 0 = 0" by (simp add: nth_stream_cu off_def)
  moreover have "stream_cu xss \<noteq> []" by (metis length_stream_cu length_0_conv nat.distinct(1))
  ultimately obtain k where k: "ss (stream_cu xss) (int v) = Suc k" "Suc k < length (stream_cu xss)"
    "stream_cu xss ! k \<le> int v" "int v < stream_cu xss ! Suc k"
    using searchsorted_locates [OF assms(1) sorted, of "int v"] assms(2) by auto
  show thesis by (rule that [of k]) (use k in \<open>auto simp: nth_stream_cu\<close>)
qed

text \<open>The tokens between two stream positions, piece by piece.\<close>

lemma stream_pieces:
  assumes "s < t" and "t < length xss" and "off xss s \<le> b" and "b \<le> off xss (Suc s)"
    and "off xss t \<le> e" and "e \<le> off xss (Suc t)"
  shows "take (e - b) (drop b (concat xss)) =
    drop (b - off xss s) (xss ! s) @ concat (take (t - Suc s) (drop (Suc s) xss)) @ take (e - off xss t) (xss ! t)"
proof -
  let ?pre = "concat (take s xss)" and ?mid = "concat (take (t - Suc s) (drop (Suc s) xss))"
  have "xss = take s xss @ xss ! s # take (t - Suc s) (drop (Suc s) xss) @ xss ! t # drop (Suc t) xss"
  proof -
    have "drop (Suc s) xss = take (t - Suc s) (drop (Suc s) xss) @ drop t xss"
      using assms(1) by (metis Suc_leI append_take_drop_id drop_drop le_add_diff_inverse2)
    then show ?thesis using assms(1,2) by (metis Cons_nth_drop_Suc id_take_nth_drop order_less_trans)
  qed
  then have split: "concat xss = ?pre @ xss ! s @ ?mid @ xss ! t @ concat (drop (Suc t) xss)"
    by (metis concat.simps(2) concat_append)
  have os: "length ?pre = off xss s" by (simp add: off_def)
  have "off xss t = off xss (Suc s) + length ?mid"
  proof -
    have "take t xss = take (Suc s) xss @ take (t - Suc s) (drop (Suc s) xss)"
      using assms(1) by (metis Suc_leI le_add_diff_inverse take_add)
    then show ?thesis by (simp add: off_def)
  qed
  then have ot: "off xss t = off xss s + length (xss ! s) + length ?mid" using assms(1,2) by (simp add: off_Suc)
  have bs: "b \<le> off xss s + length (xss ! s)" using assms(1,2,4) by (simp add: off_Suc)
  have es: "e \<le> off xss t + length (xss ! t)" using assms(2,6) by (simp add: off_Suc)
  let ?A = "drop (b - off xss s) (xss ! s) @ ?mid"
  have "drop b (concat xss) = ?A @ xss ! t @ concat (drop (Suc t) xss)"
    unfolding split using assms(3) bs os by simp
  moreover have "e - b = length ?A + (e - off xss t)"
    using assms(3,5) bs ot by simp
  moreover have "take (length ?A + k) (?A @ B @ C) = ?A @ take k B" if "k \<le> length B" for k B C
    using that by simp
  ultimately show ?thesis using es by (metis append_assoc diff_le_mono diff_add_inverse)
qed

lemma stream_piece_single:
  assumes "s < length xss" and "off xss s \<le> b" and "e \<le> off xss (Suc s)"
  shows "take (e - b) (drop b (concat xss)) = take (e - b) (drop (b - off xss s) (xss ! s))"
proof -
  have "concat xss = concat (take s xss) @ xss ! s @ concat (drop (Suc s) xss)"
    using assms(1) by (metis concat.simps(2) concat_append id_take_nth_drop)
  moreover have "length (concat (take s xss)) = off xss s" by (simp add: off_def)
  ultimately have "drop b (concat xss) = drop (b - off xss s) (xss ! s @ concat (drop (Suc s) xss))"
    using assms(2) by simp
  then show ?thesis using assms by (simp add: off_Suc)
qed

subsection \<open>One pack\<close>

text \<open>Pack \<open>i\<close> starts in sample \<open>s\<close> and ends in sample \<open>t\<close> of the stream; its pieces.\<close>

definition located :: "'a list list \<Rightarrow> nat \<Rightarrow> nat \<Rightarrow> nat \<Rightarrow> nat \<Rightarrow> bool" where
  "located xss L i s t \<longleftrightarrow> s \<le> t \<and> t < length xss \<and>
     off xss s \<le> i * L \<and> i * L < off xss (Suc s) \<and>
     off xss t \<le> Suc i * L - 1 \<and> Suc i * L - 1 < off xss (Suc t)"

definition cut_bounds :: "'a list list \<Rightarrow> nat \<Rightarrow> nat \<Rightarrow> nat \<Rightarrow> nat \<Rightarrow> nat \<Rightarrow> nat \<times> nat" where
  "cut_bounds xss L i s t j =
     (if j \<noteq> 0 then 0 else i * L - off xss s,
      if j \<noteq> t - s then length (xss ! (s + j)) else Suc i * L - off xss t)"

definition piece :: "'a list list \<Rightarrow> nat \<Rightarrow> nat \<Rightarrow> nat \<Rightarrow> nat \<Rightarrow> nat \<Rightarrow> 'a list" where
  "piece xss L i s t j = (let (st, ed) = cut_bounds xss L i s t j in take (ed - st) (drop st (xss ! (s + j))))"

definition pieces :: "'a list list \<Rightarrow> nat \<Rightarrow> nat \<Rightarrow> nat \<Rightarrow> nat \<Rightarrow> 'a list list" where
  "pieces xss L i s t = map (piece xss L i s t) [0..<Suc (t - s)]"

lemma located_by_searchsorted:
  assumes "searchsorted_right ss" and "0 < L" and "Suc i * L \<le> length (concat xss)"
  shows "\<exists>s t. located xss L i s t \<and> ss (stream_cu xss) (int i * int L) = Suc s \<and>
    ss (stream_cu xss) (int i * int L + int L - 1) = Suc t"
proof -
  have lt: "i * L < length (concat xss)" "Suc i * L - 1 < length (concat xss)" using assms(2,3) by auto
  obtain s where s: "ss (stream_cu xss) (int (i * L)) = Suc s" "s < length xss"
    "off xss s \<le> i * L" "i * L < off xss (Suc s)" by (rule stream_locate [OF assms(1) lt(1)])
  obtain t where t: "ss (stream_cu xss) (int (Suc i * L - 1)) = Suc t" "t < length xss"
    "off xss t \<le> Suc i * L - 1" "Suc i * L - 1 < off xss (Suc t)" by (rule stream_locate [OF assms(1) lt(2)])
  have "s \<le> t"
  proof (rule ccontr)
    assume "\<not> s \<le> t"
    then have "off xss (Suc t) \<le> off xss s" by (intro off_mono) simp
    with s(3) t(4) show False using assms(2) by simp
  qed
  moreover have "int (Suc i * L - 1) = int i * int L + int L - 1" using assms(2) by (simp add: of_nat_diff algebra_simps)
  ultimately show ?thesis using s t by (auto simp: located_def)
qed

lemma cut_bounds_ok:
  assumes "located xss L i s t" and "0 < L" and "j \<le> t - s" and "cut_bounds xss L i s t j = (st, ed)"
  shows "st \<le> ed" and "ed \<le> length (xss ! (s + j))"
proof -
  have loc: "s \<le> t" "t < length xss" "off xss s \<le> i * L" "i * L < off xss s + length (xss ! s)"
    "off xss t \<le> Suc i * L - 1" "Suc i * L - 1 < off xss t + length (xss ! t)"
    using assms(1) by (auto simp: located_def off_Suc)
  have "i * L \<le> Suc i * L - 1" using assms(2) by simp
  then show "st \<le> ed" "ed \<le> length (xss ! (s + j))"
    using assms(3,4) loc by (auto simp: cut_bounds_def split: if_splits)
qed

lemma concat_pieces:
  assumes "located xss L i s t" and "0 < L"
  shows "concat (pieces xss L i s t) = take L (drop (i * L) (concat xss))"
proof -
  have loc: "s \<le> t" "t < length xss" "off xss s \<le> i * L" "i * L < off xss (Suc s)"
    "off xss t \<le> Suc i * L - 1" "Suc i * L - 1 < off xss (Suc t)"
    using assms(1) by (auto simp: located_def)
  have L: "Suc i * L - i * L = L" by simp
  show ?thesis
  proof (cases "s = t")
    case True
    have "Suc i * L - off xss t - (i * L - off xss t) = L" using loc True by simp
    then show ?thesis using stream_piece_single [of t xss "i * L" "Suc i * L"] loc True L assms(2)
      by (simp add: pieces_def piece_def cut_bounds_def)
  next
    case False
    then have st: "s < t" using loc by simp
    then have rng: "[0..<Suc (t - s)] = 0 # [1..<t - s] @ [t - s]" by (simp add: upt_conv_Cons)
    have "map (piece xss L i s t) [1..<t - s] = take (t - Suc s) (drop (Suc s) xss)"
      using st loc(2) by (intro nth_equalityI) (auto simp: piece_def cut_bounds_def)
    moreover have "piece xss L i s t 0 = drop (i * L - off xss s) (xss ! s)"
      "piece xss L i s t (t - s) = take (Suc i * L - off xss t) (xss ! t)"
      using st by (auto simp: piece_def cut_bounds_def)
    ultimately have "concat (pieces xss L i s t) = drop (i * L - off xss s) (xss ! s) @
        concat (take (t - Suc s) (drop (Suc s) xss)) @ take (Suc i * L - off xss t) (xss ! t)"
      unfolding pieces_def rng by simp
    also have "\<dots> = take (Suc i * L - i * L) (drop (i * L) (concat xss))"
      by (rule stream_pieces [symmetric]) (use st loc assms(2) in auto)
    finally show ?thesis unfolding L .
  qed
qed

definition hard_row_of :: "(int list \<Rightarrow> int \<Rightarrow> nat) \<Rightarrow> int \<Rightarrow> nat \<Rightarrow> 'a list list \<Rightarrow> nat list \<Rightarrow> nat \<Rightarrow> hard_row" where
  "hard_row_of ss did L xss inds i =
     (let s = ss (stream_cu xss) (int i * int L) - 1;
          t = ss (stream_cu xss) (int i * int L + int L - 1) - 1
      in \<lparr>r_dataset_id = did, r_indices = take (Suc t - s) (drop s inds),
          r_start = int (i * L - off xss s), r_end = int (Suc i * L - off xss t),
          r_longest = int (Max (set (map length (pieces xss L i s t))))\<rparr>)"

lemma length_pieces:
  assumes "located xss L i s t" and "0 < L"
  shows "map length (pieces xss L i s t) =
    map (\<lambda>j. snd (cut_bounds xss L i s t j) - fst (cut_bounds xss L i s t j)) [0..<Suc (t - s)]"
proof -
  have "length (piece xss L i s t j) = snd (cut_bounds xss L i s t j) - fst (cut_bounds xss L i s t j)"
    if "j \<le> t - s" for j
    using cut_bounds_ok [OF assms that surjective_pairing] by (simp add: piece_def case_prod_beta)
  then show ?thesis unfolding pieces_def map_map by (intro map_cong) auto
qed

lemma hard_longest_eq:
  assumes loc: "located xss L i s t" and L: "0 < L"
  shows "hard_longest (map (\<lambda>xs. int (length xs)) xss) (int s) (int t) (int (i * L - off xss s)) (int (Suc i * L - off xss t))
    = Inr (int (Max (set (map length (pieces xss L i s t)))))"
proof (cases "s = t")
  case True
  then show ?thesis using cut_bounds_ok [OF loc L, of 0] unfolding length_pieces [OF loc L]
    by (simp add: hard_longest_def cut_bounds_def of_nat_diff)
next
  case False
  let ?b = "cut_bounds xss L i s t"
  have st: "s < t" "t < length xss" using loc False by (auto simp: located_def)
  let ?first = "length (xss ! s) - (i * L - off xss s)" and ?last = "Suc i * L - off xss t"
  let ?mid = "map length (take (t - Suc s) (drop (Suc s) xss))"
  have rng: "[0..<Suc (t - s)] = 0 # [1..<t - s] @ [t - s]" using st by (simp add: upt_conv_Cons)
  have mid: "map (\<lambda>j. snd (?b j) - fst (?b j)) [1..<t - s] = ?mid"
    using st by (intro nth_equalityI) (auto simp: cut_bounds_def)
  have set_eq: "set (map length (pieces xss L i s t)) = insert ?first (insert ?last (set ?mid))"
    unfolding length_pieces [OF loc L] rng using st mid by (auto simp: cut_bounds_def)
  have "i * L - off xss s \<le> length (xss ! s)" using cut_bounds_ok [OF loc L, of 0] st by (simp add: cut_bounds_def)
  then have first: "int (length (xss ! s)) - int (i * L - off xss s) = int ?first" by simp
  have slice: "py_slice (map (\<lambda>xs. int (length xs)) xss) (int s + 1) (int t) = map int ?mid"
    using st py_slice_nat [of "Suc s" "map (\<lambda>xs. int (length xs)) xss" t]
    by (simp add: add.commute take_map drop_map comp_def)
  have get: "py_get (map (\<lambda>xs. int (length xs)) xss) (int s) = Inr (int (length (xss ! s)))" using st by simp
  show ?thesis
  proof (cases "Suc s < t")
    case True
    then have "?mid \<noteq> []" using st by simp
    moreover have "Max (int ` set ?mid) = int (Max (set ?mid))"
      using \<open>?mid \<noteq> []\<close> by (intro mono_Max_commute [symmetric]) (auto simp: mono_def)
    ultimately show ?thesis unfolding set_eq hard_longest_def get slice
      using True by (simp add: first Max_insert max.commute max.left_commute image_image of_nat_max)
  next
    case no: False
    then have "t = Suc s" using st by simp
    then show ?thesis unfolding set_eq hard_longest_def get slice
      by (simp add: first max.commute)
  qed
qed

lemma hard_core_csr:
  assumes ss: "searchsorted_right ss" and L: "0 < L" and len: "length inds = length xss"
    and fit: "\<forall>i \<in> set is. Suc i * L \<le> length (concat xss)"
  shows "hard_pack_chunk_core ss did (int L) (stream_cu xss) inds (map (\<lambda>xs. int (length xs)) xss) is =
    Inr (csr (map (hard_row_of ss did L xss inds) is))"
proof -
  define S where "S i = ss (stream_cu xss) (int i * int L) - 1" for i
  define T where "T i = ss (stream_cu xss) (int i * int L + int L - 1) - 1" for i
  have loc: "located xss L i (S i) (T i) \<and> ss (stream_cu xss) (int i * int L) = Suc (S i) \<and>
      ss (stream_cu xss) (int i * int L + int L - 1) = Suc (T i)" if "i \<in> set is" for i
    using located_by_searchsorted [OF ss L, of i xss] fit that by (fastforce simp: S_def T_def)
  have row: "hard_row_of ss did L xss inds i = \<lparr>r_dataset_id = did, r_indices = take (Suc (T i) - S i) (drop (S i) inds),
      r_start = int (i * L - off xss (S i)), r_end = int (Suc i * L - off xss (T i)),
      r_longest = int (Max (set (map length (pieces xss L i (S i) (T i)))))\<rparr>" for i
    by (simp add: hard_row_of_def Let_def S_def T_def)
  have bnd: "S i \<le> T i" "T i < length xss" "off xss (S i) \<le> i * L" "off xss (T i) \<le> Suc i * L" if "i \<in> set is" for i
    using loc [OF that] by (auto simp: located_def)
  have cs: "rmap (py_get (stream_cu xss)) (map (\<lambda>i. int (S i)) is) = Inr (map (\<lambda>i. int (off xss (S i))) is)"
    unfolding rmap_map by (rule rmap_total) (use bnd in \<open>force simp: nth_stream_cu\<close>)
  have ce: "rmap (py_get (stream_cu xss)) (map (\<lambda>i. int (T i)) is) = Inr (map (\<lambda>i. int (off xss (T i))) is)"
    unfolding rmap_map by (rule rmap_total) (use bnd in \<open>force simp: nth_stream_cu\<close>)
  have s_idx: "map (\<lambda>b. int (ss (stream_cu xss) b) - 1) (map (\<lambda>i. int i * int L) is) = map (\<lambda>i. int (S i)) is"
    using loc by simp
  have e_idx: "map (\<lambda>e. int (ss (stream_cu xss) (e - 1)) - 1) (map (\<lambda>b. b + int L) (map (\<lambda>i. int i * int L) is)) =
      map (\<lambda>i. int (T i)) is" using loc by simp
  have s_off: "map2 (-) (map (\<lambda>i. int i * int L) is) (map (\<lambda>i. int (off xss (S i))) is) =
      map (\<lambda>i. int (i * L - off xss (S i))) is"
    using bnd by (simp add: map2_map_map of_nat_diff)
  have e_off: "map2 (-) (map (\<lambda>b. b + int L) (map (\<lambda>i. int i * int L) is)) (map (\<lambda>i. int (off xss (T i))) is) =
      map (\<lambda>i. int (Suc i * L - off xss (T i))) is"
    using bnd by (simp add: map2_map_map of_nat_diff algebra_simps)
  have longs: "rmap (\<lambda>((s, e), (so, eo)). hard_longest (map (\<lambda>xs. int (length xs)) xss) s e so eo)
      (zip (zip (map (\<lambda>i. int (S i)) is) (map (\<lambda>i. int (T i)) is))
           (zip (map (\<lambda>i. int (i * L - off xss (S i))) is) (map (\<lambda>i. int (Suc i * L - off xss (T i))) is))) =
      Inr (map (\<lambda>i. r_longest (hard_row_of ss did L xss inds i)) is)"
    unfolding zip_map_map zip_same_conv_map map_map rmap_map row
    by (rule rmap_total) (use hard_longest_eq [OF conjunct1 [OF loc] L] in simp)
  have cols: "map2 (\<lambda>s e. py_slice inds s (e + 1)) (map (\<lambda>i. int (S i)) is) (map (\<lambda>i. int (T i)) is) =
      map (\<lambda>i. r_indices (hard_row_of ss did L xss inds i)) is"
  proof -
    have "py_slice inds (int (S i)) (int (T i) + 1) = take (Suc (T i) - S i) (drop (S i) inds)" if "i \<in> set is" for i
      using bnd [OF that] len py_slice_nat [of "S i" inds "Suc (T i)"] by (simp add: add.commute)
    then show ?thesis by (simp add: map2_map_map row)
  qed
  have cu: "map2 (\<lambda>s e. e - s + 1) (map (\<lambda>i. int (S i)) is) (map (\<lambda>i. int (T i)) is) =
      map (\<lambda>i. int (length (r_indices (hard_row_of ss did L xss inds i)))) is"
  proof -
    have "int (T i) - int (S i) + 1 = int (min (length xss - S i) (Suc (T i) - S i))" if "i \<in> set is" for i
      using bnd [OF that] by (simp add: min_def of_nat_diff) arith
    then show ?thesis using len by (auto simp: map2_map_map row)
  qed
  show ?thesis
    unfolding hard_pack_chunk_core_def Let_def s_idx e_idx cs ce rbind_simps s_off e_off longs cols cu
    by (simp add: csr_def row comp_def map_replicate_const)
qed

subsection \<open>Reading rows back\<close>

lemma csr_slice:
  assumes "k < length rows"
  shows "py_slice (h_indices (csr rows)) (int (off (map r_indices rows) k)) (int (off (map r_indices rows) (Suc k))) =
    r_indices (rows ! k)"
proof -
  let ?xss = "map r_indices rows"
  have len: "off ?xss (Suc k) \<le> length (concat ?xss)" "off ?xss k \<le> length (concat ?xss)"
    using off_mono [of "Suc k" "length rows" ?xss] off_mono [of k "length rows" ?xss] assms by (simp_all add: off_def)
  have "take (off ?xss (Suc k) - off ?xss k) (drop (off ?xss k) (concat ?xss)) = r_indices (rows ! k)"
    using stream_piece_single [of k ?xss "off ?xss k" "off ?xss (Suc k)"] assms by (simp add: off_Suc)
  then show ?thesis using len by (simp add: csr_def py_slice_nat)
qed

lemma csr_cu:
  assumes "k < length rows"
  shows "py_get (h_indices_cu_len (csr rows)) (int k) = Inr (int (off (map r_indices rows) (Suc k)))"
proof -
  have "sum_list (map (\<lambda>r. int (length (r_indices r))) rs) = int (length (concat (map r_indices rs)))" for rs
    by (induction rs) auto
  then show ?thesis using assms by (simp add: csr_def nth_cumsum off_def take_map)
qed

lemma hard_getitem_csr:
  assumes k: "k < length rows" and d: "r_dataset_id (rows ! k) = int d" "d < length datasets"
  shows "hard_getitem (csr rows) datasets L k =
    (let r = rows ! k; n = length (r_indices r) in
     rbind (rmap (hard_cut (datasets ! d) (r_start r) (r_end r) n) (zip [0..<n] (r_indices r)))
       (\<lambda>packed. if sum_list (map p_num_tokens packed) = int L then Inr packed else Inl AssertionError))"
proof -
  let ?xss = "map r_indices rows"
  have start: "(if k = 0 then Inr 0 else py_get (h_indices_cu_len (csr rows)) (int k - 1)) = Inr (int (off ?xss k))"
  proof (cases k)
    case (Suc k')
    then show ?thesis using csr_cu [of k' rows] k by simp
  qed (simp add: off_def)
  have did: "py_get (h_dataset_id (csr rows)) (int k) = Inr (int d)" using k d(1) by (simp add: csr_def)
  have offs: "py_get (h_start_offset (csr rows)) (int k) = Inr (r_start (rows ! k))"
    "py_get (h_end_offset (csr rows)) (int k) = Inr (r_end (rows ! k))" using k by (simp_all add: csr_def)
  show ?thesis unfolding hard_getitem_def did rbind_simps py_get_nth [OF d(2)] start csr_cu [OF k] offs
    csr_slice [OF k] Let_def by (rule refl)
qed

text \<open>A pack read through its row is the pieces of the stream; its labels are cut at the same places.\<close>

definition item_of :: "'v sample list \<Rightarrow> nat list \<Rightarrow> nat \<Rightarrow> nat \<Rightarrow> nat \<Rightarrow> nat \<Rightarrow> nat \<Rightarrow> 'v packed_item" where
  "item_of ds inds L i s t j =
     (let xss = map (\<lambda>x. input_ids (ds ! x)) inds; (st, ed) = cut_bounds xss L i s t j in
      \<lparr>p_input_ids = piece xss L i s t j,
       p_labels = map_option (\<lambda>labs. py_slice labs (int st) (int ed)) (labels (ds ! (inds ! (s + j)))),
       p_num_tokens = int ed - int st\<rparr>)"

lemma hard_cut_item:
  assumes "located (map (\<lambda>x. input_ids (ds ! x)) inds) L i s t" and "0 < L" and "j \<le> t - s"
    and "\<forall>x \<in> set inds. x < length ds" and "xss = map (\<lambda>x. input_ids (ds ! x)) inds"
  shows "hard_cut ds (int (i * L - off xss s)) (int (Suc i * L - off xss t)) (Suc (t - s)) (j, inds ! (s + j)) =
    Inr (item_of ds inds L i s t j)"
proof -
  obtain st ed where b: "cut_bounds xss L i s t j = (st, ed)" by (cases "cut_bounds xss L i s t j")
  have sj: "s + j < length inds" using assms(1,3) by (auto simp: located_def)
  then have x: "xss ! (s + j) = input_ids (ds ! (inds ! (s + j)))" "inds ! (s + j) < length ds"
    using assms(4,5) by auto
  have ok: "st \<le> ed" "ed \<le> length (xss ! (s + j))" using cut_bounds_ok [OF _ assms(2,3) b] assms(1,5) by auto
  have "py_slice (xss ! (s + j)) (int st) (int ed) = piece xss L i s t j"
    using ok by (simp add: piece_def b py_slice_nat)
  then show ?thesis using x b assms(5)
    by (auto simp: hard_cut_def item_of_def cut_bounds_def Let_def)
qed

abbreviation ids_of :: "'v sample list \<Rightarrow> nat list \<Rightarrow> 'v list list" where
  "ids_of ds inds \<equiv> map (\<lambda>x. input_ids (ds ! x)) inds"

abbreviation labels_of :: "'v sample list \<Rightarrow> nat list \<Rightarrow> 'v list list" where
  "labels_of ds inds \<equiv> map (\<lambda>x. the (labels (ds ! x))) inds"

definition read_row :: "'v sample list \<Rightarrow> nat \<Rightarrow> hard_row \<Rightarrow> 'v packed_item list res" where
  "read_row ds L r = (let n = length (r_indices r) in
     rbind (rmap (hard_cut ds (r_start r) (r_end r) n) (zip [0..<n] (r_indices r)))
       (\<lambda>packed. if sum_list (map p_num_tokens packed) = int L then Inr packed else Inl AssertionError))"

lemma read_row_items:
  assumes ss: "searchsorted_right ss" and L: "0 < L" and fit: "Suc i * L \<le> length (concat (ids_of ds inds))"
    and rng: "\<forall>x \<in> set inds. x < length ds"
  shows "\<exists>s t. located (ids_of ds inds) L i s t \<and>
    read_row ds L (hard_row_of ss did L (ids_of ds inds) inds i) = Inr (map (item_of ds inds L i s t) [0..<Suc (t - s)])"
proof -
  let ?xss = "ids_of ds inds"
  obtain s t where st: "located ?xss L i s t" "ss (stream_cu ?xss) (int i * int L) = Suc s"
    "ss (stream_cu ?xss) (int i * int L + int L - 1) = Suc t"
    using located_by_searchsorted [OF ss L fit] by auto
  let ?r = "hard_row_of ss did L ?xss inds i"
  let ?items = "map (item_of ds inds L i s t) [0..<Suc (t - s)]"
  have le: "s \<le> t" "t < length inds" using st(1) by (auto simp: located_def)
  have r: "r_indices ?r = take (Suc t - s) (drop s inds)" "r_start ?r = int (i * L - off ?xss s)"
    "r_end ?r = int (Suc i * L - off ?xss t)" using st(2,3) by (simp_all add: hard_row_of_def)
  have n: "length (r_indices ?r) = Suc (t - s)" using le by (simp add: r Suc_diff_le)
  have "zip [0..<Suc (t - s)] (r_indices ?r) = map (\<lambda>j. (j, inds ! (s + j))) [0..<Suc (t - s)]"
    using le by (intro nth_equalityI) (auto simp: r Suc_diff_le simp del: upt_Suc)
  then have cuts: "rmap (hard_cut ds (r_start ?r) (r_end ?r) (Suc (t - s))) (zip [0..<Suc (t - s)] (r_indices ?r)) = Inr ?items"
    unfolding r(2,3) using hard_cut_item [OF st(1) L _ rng refl]
    by (simp only: rmap_map) (auto intro!: rmap_total simp del: upt_Suc)
  have "map p_num_tokens ?items = map (\<lambda>xs. int (length xs)) (pieces ?xss L i s t)"
  proof -
    have "p_num_tokens (item_of ds inds L i s t j) = int (length (piece ?xss L i s t j))" if "j \<le> t - s" for j
      using cut_bounds_ok [OF st(1) L that surjective_pairing]
      by (simp add: item_of_def piece_def case_prod_beta Let_def of_nat_diff)
    then show ?thesis by (auto simp: pieces_def simp del: upt_Suc)
  qed
  moreover have "sum_list (map (\<lambda>xs. int (length xs)) yss) = int (length (concat yss))" for yss :: "'a list list"
    by (induction yss) auto
  ultimately have "sum_list (map p_num_tokens ?items) = int (length (take L (drop (i * L) (concat ?xss))))"
    by (simp only: concat_pieces [OF st(1) L])
  also have "\<dots> = int L" using fit by simp
  finally have "read_row ds L ?r = Inr ?items" unfolding read_row_def Let_def n cuts by simp
  with st(1) show ?thesis by blast
qed

lemma off_cong: "map length xss = map length yss \<Longrightarrow> off xss k = off yss k"
proof -
  assume "map length xss = map length yss"
  then have "map length (take k xss) = map length (take k yss)" by (metis take_map)
  then show ?thesis by (simp add: off_def length_concat)
qed

lemma items_tokens:
  assumes "located (ids_of ds inds) L i s t" and "0 < L"
  shows "concat (map p_input_ids (map (item_of ds inds L i s t) [0..<Suc (t - s)])) =
    take L (drop (i * L) (concat (ids_of ds inds)))"
proof -
  have "map p_input_ids (map (item_of ds inds L i s t) [0..<Suc (t - s)]) = pieces (ids_of ds inds) L i s t"
    by (simp add: pieces_def item_of_def Let_def case_prod_beta del: upt_Suc)
  then show ?thesis using concat_pieces [OF assms] by simp
qed

lemma items_labels:
  assumes loc: "located (ids_of ds inds) L i s t" and L: "0 < L"
    and lab: "\<forall>x \<in> set inds. \<exists>ls. labels (ds ! x) = Some ls \<and> length ls = length (input_ids (ds ! x))"
  shows "concat (map (\<lambda>p. the (p_labels p)) (map (item_of ds inds L i s t) [0..<Suc (t - s)])) =
    take L (drop (i * L) (concat (labels_of ds inds)))"
proof -
  let ?xss = "ids_of ds inds" and ?yss = "labels_of ds inds"
  have lens: "map length ?yss = map length ?xss" using lab by auto
  have "off ?yss k = off ?xss k" for k by (rule off_cong [OF lens])
  then have loc': "located ?yss L i s t" using loc by (simp add: located_def)
  have bounds: "cut_bounds ?yss L i s t j = cut_bounds ?xss L i s t j" if "s + j < length inds" for j
    using off_cong [OF lens] lens that by (auto simp: cut_bounds_def map_eq_conv nth_map)
  have "the (p_labels (item_of ds inds L i s t j)) = piece ?yss L i s t j" if j: "j \<le> t - s" for j
  proof -
    have sj: "s + j < length inds" using loc j by (auto simp: located_def)
    obtain st ed where b: "cut_bounds ?yss L i s t j = (st, ed)" by (cases "cut_bounds ?yss L i s t j")
    obtain ls where ls: "labels (ds ! (inds ! (s + j))) = Some ls" using lab sj nth_mem by metis
    have "st \<le> ed" "ed \<le> length (?yss ! (s + j))" by (rule cut_bounds_ok [OF loc' L j b])+
    then show ?thesis using b ls sj bounds [OF sj] by (simp add: item_of_def piece_def py_slice_nat)
  qed
  then have "map (\<lambda>p. the (p_labels p)) (map (item_of ds inds L i s t) [0..<Suc (t - s)]) = pieces ?yss L i s t"
    by (auto simp: pieces_def simp del: upt_Suc)
  then show ?thesis using concat_pieces [OF loc' L] by simp
qed

subsection \<open>The whole dataset\<close>

definition num_packed :: "'v sample list \<Rightarrow> nat list \<Rightarrow> nat \<Rightarrow> nat" where
  "num_packed ds inds L = length (concat (ids_of ds inds)) div L"

definition counts_tokens :: "'v sample list \<Rightarrow> int list \<Rightarrow> bool" where
  "counts_tokens ds nt \<longleftrightarrow> nt = map (\<lambda>x. int (length (input_ids x))) ds"

lemma counts_stream_cu:
  assumes "counts_tokens ds nt" and "\<forall>x \<in> set inds. x < length ds"
  shows "map ((!) nt) inds = map (\<lambda>xs. int (length xs)) (ids_of ds inds)"
  using assms by (auto simp: counts_tokens_def)

lemma stream_cu_lengths:
  "map2 (-) (tl (cumsum0 a xs)) (butlast (cumsum0 a xs)) = xs"
proof (induction a xs rule: cumsum0.induct)
  case (2 a x xs)
  have ne: "cumsum0 b ys \<noteq> []" for b ys by (cases ys) auto
  have hd: "hd (cumsum0 b ys) = b" for b ys by (cases ys) auto
  have "cumsum0 (a + x) xs = (a + x) # tl (cumsum0 (a + x) xs)" by (metis ne hd list.collapse)
  moreover have "butlast (cumsum0 a (x # xs)) = a # butlast (cumsum0 (a + x) xs)" using ne by simp
  ultimately show ?case using 2 by (metis (no_types, lifting) cumsum0.simps(2) list.sel(3) zip_Cons_Cons
        list.simps(9) case_prod_conv add_diff_cancel_left')
qed simp

lemma hard_split_csr:
  assumes ss: "searchsorted_right ss" and L: "0 < L" and c: "0 < c" and nt: "counts_tokens ds nt"
    and rng: "\<forall>x \<in> set inds. x < length ds"
  shows "get_pack_infos_by_hard_split ss inds did nt L c =
    (if num_packed ds inds L = 0 then Inl ValueError
     else Inr (csr (map (hard_row_of ss did L (ids_of ds inds) inds) [0..<num_packed ds inds L])))"
proof -
  let ?xss = "ids_of ds inds" and ?n = "num_packed ds inds L"
  note lens = counts_stream_cu [OF nt rng]
  have sum: "sum_list (map (\<lambda>xs. int (length xs)) yss) = int (length (concat yss))" for yss :: "'a list list"
    by (induction yss) auto
  have n: "nat (sum_list (map ((!) nt) inds) div int L) = ?n"
    unfolding lens sum num_packed_def by (simp flip: of_nat_div)
  have cu: "cumsum0 0 (map ((!) nt) inds) = stream_cu ?xss" unfolding lens stream_cu_def by (rule refl)
  have lengths: "map2 (-) (tl (stream_cu ?xss)) (butlast (stream_cu ?xss)) = map (\<lambda>xs. int (length xs)) ?xss"
    unfolding stream_cu_def by (rule stream_cu_lengths)
  have idx: "\<not> (\<exists>i \<in> set inds. length nt \<le> i)" using nt rng by (auto simp: counts_tokens_def)
  have run: "get_pack_infos_by_hard_split ss inds did nt L c =
      rbind (rmap (hard_pack_chunk_core ss did (int L) (stream_cu ?xss) inds (map (\<lambda>xs. int (length xs)) ?xss))
        (chunks c [0..<?n])) merge_pack_infos"
    unfolding get_pack_infos_by_hard_split_def Let_def n cu lengths using idx L c by simp
  have fit: "Suc i * L \<le> length (concat ?xss)" if "i < ?n" for i
  proof -
    have "Suc i * L \<le> ?n * L" using that by (intro mult_le_mono1) simp
    also have "\<dots> \<le> length (concat ?xss)" unfolding num_packed_def by (rule div_times_less_eq_dividend)
    finally show ?thesis .
  qed
  have chunk: "hard_pack_chunk_core ss did (int L) (stream_cu ?xss) inds (map (\<lambda>xs. int (length xs)) ?xss) is =
      Inr (csr (map (hard_row_of ss did L ?xss inds) is))" if "is \<in> set (chunks c [0..<?n])" for "is"
  proof (rule hard_core_csr [OF ss L])
    have "set is \<subseteq> set (concat (chunks c [0..<?n]))" using that by auto
    then show "\<forall>i \<in> set is. Suc i * L \<le> length (concat ?xss)" using c fit by auto
  qed simp
  have rs: "rmap (hard_pack_chunk_core ss did (int L) (stream_cu ?xss) inds (map (\<lambda>xs. int (length xs)) ?xss))
      (chunks c [0..<?n]) = Inr (map csr (map (map (hard_row_of ss did L ?xss inds)) (chunks c [0..<?n])))"
    using rmap_total [OF chunk] by (simp add: comp_def)
  show ?thesis
  proof (cases "?n = 0")
    case True
    then show ?thesis unfolding run rs by (simp add: merge_pack_infos_def)
  next
    case False
    have "merge_pack_infos (map csr (map (map (hard_row_of ss did L ?xss inds)) (chunks c [0..<?n]))) =
        Inr (csr (concat (map (map (hard_row_of ss did L ?xss inds)) (chunks c [0..<?n]))))"
      by (rule merge_pack_infos_csr) (use False c chunks_nonempty in \<open>auto simp: chunks_unfold\<close>)
    then show ?thesis unfolding run rs using False c by (simp flip: map_concat)
  qed
qed

end
