(* ===== verification/PackDatasets.thy ===== *)
theory PackDatasets
  imports SoftPack HardPack
begin

text \<open>
  The packed dataset classes of \<^verbatim>\<open>xtuner/v1/datasets/packing.py\<close>: \<open>_LegacySoftPackDataset\<close> and
  \<open>ExpandSoftPackDataset\<close> (construction, indexing, state check), \<open>HardPackDataset\<close> (construction through
  the content-addressed cache, indexing) and \<open>MLLMPretrainHybridPackDataset\<close>.

  The shuffles are arguments indexed by the dataset position, since the generator advances from one
  dataset to the next. A dataset is the list of its samples; \<open>ConcatDataset\<close> is list concatenation.
  The cache directory is a map from keys to stored tables as the local rank 0 sees it: files are
  written to a temporary directory and renamed, so a directory is either absent or complete.
\<close>

subsection \<open>Soft pack datasets\<close>

definition legacy_get_pack_infos ::
  "(nat \<Rightarrow> nat list \<Rightarrow> nat list) \<Rightarrow> int \<Rightarrow> nat \<Rightarrow> nat \<Rightarrow> int list \<Rightarrow> pyfloat list \<Rightarrow> pack_info list res" where
  "legacy_get_pack_infos shuffle pack_max_length len did num_tokens flops =
     get_pack_infos_by_soft_split (shuffle did [0..<len]) (int did) num_tokens pack_max_length"

record expand_cfg =
  e_randperm :: "nat \<Rightarrow> nat \<Rightarrow> nat list"
  e_argsort :: "int list \<Rightarrow> nat list"
  e_workers :: int
  e_chunk_size :: int
  e_extra :: int

definition expand_dataset_infos ::
  "expand_cfg \<Rightarrow> int \<Rightarrow> nat \<Rightarrow> nat \<Rightarrow> int list \<Rightarrow> pyfloat list \<Rightarrow> pack_info list res" where
  "expand_dataset_infos e pack_max_length len did num_tokens flops =
     expand_get_pack_infos (e_randperm e did) (e_argsort e) len (int did) num_tokens flops
       pack_max_length (e_workers e) (e_chunk_size e) (e_extra e)"

text \<open>
  \<open>__init__\<close> of the soft classes, for a dataset list with its token counts and attention costs;
  \<open>get_pack_infos\<close> is the overridden method. With \<open>global_pack\<close> the datasets become one.
\<close>

definition soft_inputs ::
  "bool \<Rightarrow> ('s list \<times> int list \<times> pyfloat list) list \<Rightarrow> ('s list \<times> int list \<times> pyfloat list) list res" where
  "soft_inputs global_pack dsets =
     (if \<not> global_pack then Inr dsets
      else if dsets = [] then Inl ValueError
      else
        let nt = concat (map (\<lambda>(ds, nt, fl). nt) dsets); fl = concat (map (\<lambda>(ds, nt, fl). fl) dsets) in
        if length nt \<noteq> length fl then Inl AssertionError
        else Inr [(concat (map (\<lambda>(ds, nt, fl). ds) dsets), nt, fl)])"

definition soft_pack_init ::
  "(nat \<Rightarrow> nat \<Rightarrow> int list \<Rightarrow> pyfloat list \<Rightarrow> pack_info list res) \<Rightarrow> bool \<Rightarrow>
   ('s list \<times> int list \<times> pyfloat list) list \<Rightarrow> (pack_info list \<times> 's list list) res" where
  "soft_pack_init get_infos global_pack dsets =
     rbind (soft_inputs global_pack dsets) (\<lambda>ins.
     rbind (rmap (\<lambda>(i, ds, nt, fl). get_infos (length ds) i nt fl) (zip [0..<length ins] ins)) (\<lambda>infos.
       if infos = [] then Inl ValueError
       else Inr (concat infos, map (\<lambda>(ds, nt, fl). ds) ins)))"

definition soft_pack_getitem :: "pack_info list \<Rightarrow> 's list list \<Rightarrow> int \<Rightarrow> 's list res" where
  "soft_pack_getitem infos datasets item =
     rbind (py_get infos item) (\<lambda>info.
     rbind (py_get datasets (dataset_id info)) (\<lambda>ds. rmap (\<lambda>i. py_get ds (int i)) (indices info)))"

definition soft_pack_len :: "pack_info list \<Rightarrow> nat" where
  "soft_pack_len infos = length infos"

subsection \<open>State checks\<close>

datatype cfg_val = CNone | CInt int | CBool bool

type_synonym state_dict = "string \<Rightarrow> cfg_val option"

record soft_self =
  ss_seed :: cfg_val
  ss_pack_max_length :: cfg_val
  ss_global_pack :: cfg_val

fun check_keys :: "(string \<times> cfg_val) list \<Rightarrow> state_dict \<Rightarrow> unit res" where
  "check_keys [] sd = Inr ()"
| "check_keys ((k, v) # kvs) sd =
     (case sd k of None \<Rightarrow> Inl KeyError
      | Some w \<Rightarrow> if v \<noteq> w then Inl ValueError else check_keys kvs sd)"

definition soft_load_state_dict :: "soft_self \<Rightarrow> state_dict \<Rightarrow> unit res" where
  "soft_load_state_dict self sd =
     check_keys [(''seed'', ss_seed self), (''pack_max_length'', ss_pack_max_length self),
                 (''global_pack'', ss_global_pack self)] sd"

definition soft_get_state_dict :: "soft_self \<Rightarrow> state_dict" where
  "soft_get_state_dict self =
     [''pack_max_length'' \<mapsto> ss_pack_max_length self, ''seed'' \<mapsto> ss_seed self,
      ''global_pack'' \<mapsto> ss_global_pack self]"

record hybrid_self = soft_self +
  hs_extra_buffer_size :: cfg_val
  hs_chunk_size :: cfg_val

definition hybrid_get_state_dict :: "hybrid_self \<Rightarrow> state_dict" where
  "hybrid_get_state_dict self =
     [''pack_max_length'' \<mapsto> ss_pack_max_length self, ''seed'' \<mapsto> ss_seed self,
      ''global_pack'' \<mapsto> ss_global_pack self,
      ''pack_extra_buffer_size'' \<mapsto> hs_extra_buffer_size self, ''pack_chunk_size'' \<mapsto> hs_chunk_size self]"

definition hybrid_load_state_dict :: "hybrid_self \<Rightarrow> state_dict \<Rightarrow> unit res" where
  "hybrid_load_state_dict self sd =
     check_keys [(''seed'', ss_seed self), (''pack_max_length'', ss_pack_max_length self),
                 (''global_pack'', ss_global_pack self),
                 (''pack_extra_buffer_size'', hs_extra_buffer_size self),
                 (''pack_chunk_size'', hs_chunk_size self)] sd"

subsection \<open>Hard pack datasets\<close>

definition hard_inputs ::
  "bool \<Rightarrow> ('v sample list \<times> int list) list \<Rightarrow> ('v sample list \<times> int list) list res" where
  "hard_inputs global_pack dsets =
     (if \<not> global_pack then Inr dsets
      else if dsets = [] then Inl ValueError
      else Inr [(concat (map fst dsets), concat (map snd dsets))])"

definition hard_compute_pack_infos ::
  "(int list \<Rightarrow> int \<Rightarrow> nat) \<Rightarrow> (nat \<Rightarrow> nat list \<Rightarrow> nat list) \<Rightarrow> nat \<Rightarrow> nat \<Rightarrow> nat \<Rightarrow> nat \<Rightarrow> int list \<Rightarrow> hard_infos res" where
  "hard_compute_pack_infos ss shuffle pack_max_length pack_chunk_size len did num_tokens =
     get_pack_infos_by_hard_split ss (shuffle did [0..<len]) (int did) num_tokens pack_max_length pack_chunk_size"

definition hard_compute_all ::
  "(int list \<Rightarrow> int \<Rightarrow> nat) \<Rightarrow> (nat \<Rightarrow> nat list \<Rightarrow> nat list) \<Rightarrow> nat \<Rightarrow> nat \<Rightarrow> ('v sample list \<times> int list) list \<Rightarrow> hard_infos res" where
  "hard_compute_all ss shuffle L chunk ins =
     rbind (rmap (\<lambda>(i, ds, nt). hard_compute_pack_infos ss shuffle L chunk (length ds) i nt)
              (zip [0..<length ins] ins))
       merge_pack_infos"

text \<open>
  The cache key hashes the configuration text followed by the bytes of every token-count array.
  \<open>xxh\<close>, \<open>fmt\<close> and \<open>tobytes\<close> stand for the hash, the formatted prefix and the array bytes.
\<close>

definition pack_cache_key ::
  "('b list \<Rightarrow> 'k) \<Rightarrow> (int option \<Rightarrow> nat \<Rightarrow> bool \<Rightarrow> 'b list) \<Rightarrow> (int list \<Rightarrow> 'b list) \<Rightarrow>
   int option \<Rightarrow> nat \<Rightarrow> bool \<Rightarrow> int list list \<Rightarrow> 'k" where
  "pack_cache_key xxh fmt tobytes seed L global_pack nts =
     xxh (fmt seed L global_pack @ concat (map tobytes nts))"

definition hard_build_pack_infos ::
  "'k \<Rightarrow> ('k \<rightharpoonup> hard_infos) \<Rightarrow> hard_infos res \<Rightarrow> (hard_infos \<times> ('k \<rightharpoonup> hard_infos)) res" where
  "hard_build_pack_infos key cache compute =
     (case cache key of
        Some infos \<Rightarrow> Inr (infos, cache)
      | None \<Rightarrow> rbind compute (\<lambda>infos. Inr (infos, cache(key \<mapsto> infos))))"

definition hard_pack_init ::
  "(bool \<Rightarrow> int list list \<Rightarrow> 'k) \<Rightarrow> (('v sample list \<times> int list) list \<Rightarrow> hard_infos res) \<Rightarrow> bool \<Rightarrow>
   ('v sample list \<times> int list) list \<Rightarrow> ('k \<rightharpoonup> hard_infos) \<Rightarrow>
   (hard_infos \<times> 'v sample list list \<times> ('k \<rightharpoonup> hard_infos)) res" where
  "hard_pack_init keyf compute_all global_pack dsets cache =
     rbind (hard_inputs global_pack dsets) (\<lambda>ins.
     rbind (hard_build_pack_infos (keyf global_pack (map snd ins)) cache (compute_all ins))
       (\<lambda>(infos, cache'). Inr (infos, map fst ins, cache')))"

subsection \<open>The hybrid dataset\<close>

datatype dset_kind = VLMJsonl | Jsonl | OtherDataset

definition hybrid_groups :: "(dset_kind \<times> 'd) list \<Rightarrow> ('d list \<times> 'd list) res" where
  "hybrid_groups dsets =
     (let hard = map snd (filter (\<lambda>d. fst d = Jsonl) dsets);
          soft = map snd (filter (\<lambda>d. fst d = VLMJsonl) dsets)
      in if hard = [] \<and> soft = [] then Inl AssertionError else Inr (hard, soft))"

datatype 'v hybrid_item = HardItem "'v packed_item list" | SoftItem "'v sample list"

record 'v hybrid =
  hy_hard :: "(hard_infos \<times> 'v sample list list) option"
  hy_soft :: "(pack_info list \<times> 'v sample list list) option"

definition hybrid_init ::
  "('d list \<Rightarrow> (hard_infos \<times> 'v sample list list) res) \<Rightarrow> ('d list \<Rightarrow> (pack_info list \<times> 'v sample list list) res) \<Rightarrow>
   (dset_kind \<times> 'd) list \<Rightarrow> 'v hybrid res" where
  "hybrid_init hard_init soft_init dsets =
     rbind (hybrid_groups dsets) (\<lambda>(hard, soft).
     rbind (if hard = [] then Inr None else rbind (hard_init hard) (\<lambda>h. Inr (Some h))) (\<lambda>h.
     rbind (if soft = [] then Inr None else rbind (soft_init soft) (\<lambda>s. Inr (Some s))) (\<lambda>s.
       Inr \<lparr>hy_hard = h, hy_soft = s\<rparr>)))"

definition hybrid_hard_len :: "'v hybrid \<Rightarrow> nat" where
  "hybrid_hard_len h = (case hy_hard h of None \<Rightarrow> 0 | Some (infos, _) \<Rightarrow> hard_len infos)"

definition hybrid_soft_len :: "'v hybrid \<Rightarrow> nat" where
  "hybrid_soft_len h = (case hy_soft h of None \<Rightarrow> 0 | Some (infos, _) \<Rightarrow> soft_pack_len infos)"

definition hybrid_longest :: "'v hybrid \<Rightarrow> int list" where
  "hybrid_longest h = (case hy_hard h of None \<Rightarrow> [] | Some (infos, _) \<Rightarrow> h_longest infos) @
     (case hy_soft h of None \<Rightarrow> [] | Some (infos, _) \<Rightarrow> map longest infos)"

definition hybrid_getitem :: "'v hybrid \<Rightarrow> nat \<Rightarrow> nat \<Rightarrow> 'v hybrid_item res" where
  "hybrid_getitem h L item =
     (if item < hybrid_hard_len h
      then (case hy_hard h of
              None \<Rightarrow> Inl IndexError
            | Some (infos, dss) \<Rightarrow> rbind (hard_getitem infos dss L item) (\<lambda>p. Inr (HardItem p)))
      else (case hy_soft h of
              None \<Rightarrow> Inl IndexError
            | Some (infos, dss) \<Rightarrow> rbind (soft_pack_getitem infos dss (int item - int (hybrid_hard_len h)))
                (\<lambda>p. Inr (SoftItem p))))"

subsection \<open>The contract of a soft packer class\<close>

text \<open>
  \<open>get_infos\<close> is the method the base class calls per dataset, \<open>ok\<close> what it needs of its random source
  and options. Whatever meets the law makes a dataset that yields every sample once.
\<close>

definition dset_ok :: "'s list \<times> int list \<times> pyfloat list \<Rightarrow> bool" where
  "dset_ok = (\<lambda>(ds, nt, fl). length nt = length ds \<and> length fl = length ds)"

lemma soft_inputs_spec:
  assumes "dsets \<noteq> []" and "\<forall>d \<in> set dsets. dset_ok d"
  shows "\<exists>ins. soft_inputs g dsets = Inr ins \<and> ins \<noteq> [] \<and> (\<forall>d \<in> set ins. dset_ok d) \<and>
    concat (map fst ins) = concat (map fst dsets)"
proof (cases g)
  case True
  have "length (concat (map (\<lambda>(ds, nt, fl). nt) dsets)) = length (concat (map fst dsets)) \<and>
      length (concat (map (\<lambda>(ds, nt, fl). fl) dsets)) = length (concat (map fst dsets))"
    using assms(2) by (induction dsets) (auto simp: dset_ok_def)
  moreover have "(\<lambda>(ds, nt, fl). ds) = (fst :: 'a list \<times> int list \<times> pyfloat list \<Rightarrow> _)" by auto
  ultimately show ?thesis using True assms(1) by (simp add: soft_inputs_def Let_def dset_ok_def)
qed (use assms in \<open>simp add: soft_inputs_def\<close>)

locale dataset_packer =
  fixes ok :: "'e \<Rightarrow> bool"
    and get_infos :: "'e \<Rightarrow> int \<Rightarrow> nat \<Rightarrow> nat \<Rightarrow> int list \<Rightarrow> pyfloat list \<Rightarrow> pack_info list res"
  assumes get_infos_spec: "ok e \<Longrightarrow> length nt = n \<Longrightarrow> length fl = n \<Longrightarrow>
    \<exists>infos. get_infos e L n did nt fl = Inr infos \<and> mset (concat (map indices infos)) = mset [0..<n] \<and>
      (\<forall>p \<in> set infos. dataset_id p = int did \<and> admissible nt L (indices p))"
begin

definition infos_of :: "'e \<Rightarrow> int \<Rightarrow> nat \<Rightarrow> 's list \<times> int list \<times> pyfloat list \<Rightarrow> pack_info list" where
  "infos_of e L did = (\<lambda>(ds, nt, fl). projr (get_infos e L (length ds) did nt fl))"

lemma infos_of:
  assumes "ok e" and "dset_ok (ds, nt, fl)"
  shows "get_infos e L (length ds) did nt fl = Inr (infos_of e L did (ds, nt, fl))"
    and "mset (concat (map indices (infos_of e L did (ds, nt, fl)))) = mset [0..<length ds]"
    and "\<forall>p \<in> set (infos_of e L did (ds, nt, fl)). dataset_id p = int did \<and> admissible nt L (indices p)"
  using get_infos_spec [OF assms(1), of nt "length ds" fl L did] assms(2) by (auto simp: infos_of_def dset_ok_def)

lemma init_infos:
  assumes "ok e" and "dsets \<noteq> []" and "\<forall>d \<in> set dsets. dset_ok d"
  shows "\<exists>ins. soft_pack_init (get_infos e L) g dsets =
      Inr (concat (map (\<lambda>i. infos_of e L i (ins ! i)) [0..<length ins]), map fst ins) \<and>
    (\<forall>d \<in> set ins. dset_ok d) \<and> concat (map fst ins) = concat (map fst dsets)"
proof -
  obtain ins where ins: "soft_inputs g dsets = Inr ins" "ins \<noteq> []" "\<forall>d \<in> set ins. dset_ok d"
    "concat (map fst ins) = concat (map fst dsets)" using soft_inputs_spec [OF assms(2,3)] by blast
  have "rmap (\<lambda>(i, ds, nt, fl). get_infos e L (length ds) i nt fl) (zip [0..<length ins] ins) =
      Inr (map (\<lambda>(i, d). infos_of e L i d) (zip [0..<length ins] ins))"
  proof (rule rmap_total)
    fix x assume "x \<in> set (zip [0..<length ins] ins)"
    then obtain i ds nt fl where x: "x = (i, ds, nt, fl)" "(ds, nt, fl) \<in> set ins"
      by (metis prod_cases4 set_zip_rightD)
    then show "(case x of (i, ds, nt, fl) \<Rightarrow> get_infos e L (length ds) i nt fl) = Inr (case x of (i, d) \<Rightarrow> infos_of e L i d)"
      using infos_of(1) [OF assms(1), of ds nt fl L i] ins(3) by simp
  qed
  moreover have "map (\<lambda>(i, d). infos_of e L i d) (zip [0..<length ins] ins) =
      map (\<lambda>i. infos_of e L i (ins ! i)) [0..<length ins]" by (intro nth_equalityI) auto
  ultimately show ?thesis using ins by (auto simp: soft_pack_init_def case_prod_beta)
qed

text \<open>Reading every pack of the dataset yields every sample of every source dataset once.\<close>

lemma reads_every_sample:
  assumes "ok e" and "dsets \<noteq> []" and "\<forall>d \<in> set dsets. dset_ok d"
  shows "\<exists>infos dss packs. soft_pack_init (get_infos e L) g dsets = Inr (infos, dss) \<and>
    rmap (\<lambda>k. soft_pack_getitem infos dss (int k)) [0..<soft_pack_len infos] = Inr packs \<and>
    mset (concat packs) = mset (concat (map fst dsets))"
proof -
  obtain ins where ins: "soft_pack_init (get_infos e L) g dsets =
      Inr (concat (map (\<lambda>i. infos_of e L i (ins ! i)) [0..<length ins]), map fst ins)"
    "\<forall>d \<in> set ins. dset_ok d" "concat (map fst ins) = concat (map fst dsets)"
    using init_infos [OF assms] by blast
  let ?I = "\<lambda>i. infos_of e L i (ins ! i)"
  let ?infos = "concat (map ?I [0..<length ins])" and ?dss = "map fst ins"
  define get where "get p = map ((!) (?dss ! nat (dataset_id p))) (indices p)" for p :: pack_info
  have I: "mset (concat (map indices (?I i))) = mset [0..<length (fst (ins ! i))] \<and> (\<forall>p \<in> set (?I i). dataset_id p = int i)"
    if "i < length ins" for i
    using infos_of(2,3) [OF assms(1), of "fst (ins ! i)" "fst (snd (ins ! i))" "snd (snd (ins ! i))" L i]
      ins(2) nth_mem [OF that] by auto
  have "rbind (py_get ?dss (dataset_id p)) (\<lambda>ds. rmap (\<lambda>i. py_get ds (int i)) (indices p)) = Inr (get p)"
    if "p \<in> set ?infos" for p
  proof -
    from that obtain i where i: "i < length ins" "p \<in> set (?I i)" by auto
    then have d: "dataset_id p = int i" using I by blast
    have "set (indices p) \<subseteq> set (concat (map indices (?I i)))" using i(2) by auto
    then have "\<forall>j \<in> set (indices p). j < length (fst (ins ! i))" using mset_eq_setD [OF conjunct1 [OF I [OF i(1)]]] by auto
    then show ?thesis using i(1) d by (auto simp: get_def intro!: rmap_total)
  qed
  then have "rmap (\<lambda>k. soft_pack_getitem ?infos ?dss (int k)) [0..<soft_pack_len ?infos] = Inr (map get ?infos)"
    unfolding soft_pack_len_def soft_pack_getitem_def
    by (subst rmap_positions [where g = "\<lambda>p. rbind (py_get ?dss (dataset_id p)) (\<lambda>ds. rmap (\<lambda>i. py_get ds (int i)) (indices p))"])
       (auto intro: rmap_total)
  moreover have "mset (concat (map get ?infos)) = mset (concat ?dss)"
  proof -
    have "mset (concat (map get (?I i))) = mset (fst (ins ! i))" if "i < length ins" for i
    proof -
      have "map get (?I i) = map (map ((!) (fst (ins ! i)))) (map indices (?I i))" using I that by (auto simp: get_def)
      then have "mset (concat (map get (?I i))) = image_mset ((!) (fst (ins ! i))) (mset [0..<length (fst (ins ! i))])"
        using I [OF that] by (metis map_concat mset_map)
      also have "\<dots> = mset (fst (ins ! i))" by (metis map_nth mset_map)
      finally show ?thesis .
    qed
    then have "mset (concat (map (\<lambda>i. concat (map get (?I i))) [0..<length ins])) =
        mset (concat (map (\<lambda>i. fst (ins ! i)) [0..<length ins]))" by (intro mset_concat_map_cong) auto
    moreover have "concat (map get ?infos) = concat (map (\<lambda>i. concat (map get (?I i))) [0..<length ins])"
      by (simp add: map_concat concat_concat_map comp_def)
    moreover have "map (\<lambda>i. fst (ins ! i)) [0..<length ins] = ?dss" by (intro nth_equalityI) auto
    ultimately show ?thesis by simp
  qed
  ultimately show ?thesis using ins(1,3) by auto
qed

end

lemma pack_chunk_loop_dataset_id:
  "\<forall>p \<in> set infos. dataset_id p = did \<Longrightarrow>
    \<forall>p \<in> set (pack_chunk_loop argsort did L extra nt fl inds items lens pf infos). dataset_id p = did"
proof (induction "length inds" arbitrary: inds items lens pf infos rule: less_induct)
  case less
  show ?case
  proof (cases "inds = []")
    case True
    then show ?thesis using less.prems by (auto simp: pack_chunk_loop.simps)
  next
    case ne: False
    then have shorter: "length (butlast inds) < length inds" by simp
    have popped: "length (fold pop_at ps (butlast inds)) < length inds" for ps
      using length_fold_pop_at_le [of ps "butlast inds"] shorter by linarith
    consider (fits) "nt ! last inds + sum_list lens \<le> L"
      | (start) "\<not> nt ! last inds + sum_list lens \<le> L" "\<not> 0 < length items"
      | (close) "\<not> nt ! last inds + sum_list lens \<le> L" "0 < length items" "sum_list lens = L \<or> \<not> 0 < extra"
      | (fill) "\<not> nt ! last inds + sum_list lens \<le> L" "0 < length items" "\<not> (sum_list lens = L \<or> \<not> 0 < extra)"
      by blast
    then show ?thesis
    proof cases
      case fits
      show ?thesis unfolding pack_chunk_loop_fits [OF ne fits] by (rule less.hyps [OF shorter less.prems])
    next
      case start
      show ?thesis unfolding pack_chunk_loop_start [OF ne start] by (rule less.hyps [OF shorter less.prems])
    next
      case close
      show ?thesis unfolding pack_chunk_loop_close [OF ne close]
        by (rule less.hyps [OF shorter]) (use less.prems in auto)
    next
      case fill
      show ?thesis unfolding pack_chunk_loop_fill [OF ne fill refl refl]
        by (rule less.hyps [OF popped]) (use less.prems in auto)
    qed
  qed
qed

lemma expand_split_dataset_id:
  assumes "get_pack_infos_by_expand_soft_split argsort inds did nt fl L workers chunk extra = Inr infos"
  shows "\<forall>p \<in> set infos. dataset_id p = did"
proof -
  let ?run = "\<lambda>c. get_pack_chunk_infos argsort c did L extra nt fl"
  obtain cs rs where "rmap ?run cs = Inr rs" and infos: "infos = concat rs"
    using assms
    by (auto simp: get_pack_infos_by_expand_soft_split_def expand_sequential_eq Let_def res_simps split: if_splits)
  then have rs: "list_all2 (\<lambda>c r. ?run c = Inr r) cs rs" by (simp add: rmap_Inr_iff)
  have "\<forall>p \<in> set r. dataset_id p = did" if "?run c = Inr r" for c r
    using that pack_chunk_loop_dataset_id [of "[]" did] by (auto simp: get_pack_chunk_infos_def split: if_splits)
  moreover from rs have "\<forall>r \<in> set rs. \<exists>c. ?run c = Inr r" by (induction rule: list_all2_induct) auto
  ultimately show ?thesis unfolding infos by auto
qed

definition shuffle_ok :: "(nat \<Rightarrow> nat list \<Rightarrow> nat list) \<Rightarrow> bool" where
  "shuffle_ok shuffle \<longleftrightarrow> (\<forall>d xs. mset (shuffle d xs) = mset xs)"

definition expand_ok :: "expand_cfg \<Rightarrow> bool" where
  "expand_ok e \<longleftrightarrow> (\<forall>d n. mset (e_randperm e d n) = mset [0..<n]) \<and> argsort_perm (e_argsort e) \<and> 0 < e_chunk_size e"

lemma shuffle_range: "shuffle_ok sh \<Longrightarrow> x \<in> set (sh d [0..<n]) \<Longrightarrow> x < n"
  unfolding shuffle_ok_def by (metis atLeastLessThan_iff mset_eq_setD set_upt)

interpretation legacy_class: dataset_packer shuffle_ok legacy_get_pack_infos
proof
  fix shuffle :: "nat \<Rightarrow> nat list \<Rightarrow> nat list" and nt :: "int list" and n L did and fl :: "pyfloat list"
  assume ok: "shuffle_ok shuffle" "length nt = n"
  let ?r = "soft_split_loop (int did) nt L (shuffle did [0..<n]) [] [] 0 []"
  have "legacy_get_pack_infos shuffle L n did nt fl = Inr ?r"
    using ok shuffle_range [OF ok(1)] by (simp add: legacy_get_pack_infos_def get_pack_infos_by_soft_split_def)
  moreover have "mset (concat (map indices ?r)) = mset [0..<n]"
    using ok(1) by (simp add: soft_split_loop_indices shuffle_ok_def)
  moreover have "\<forall>p \<in> set ?r. dataset_id p = int did" by (rule soft_split_dataset_id) simp
  moreover have "\<forall>p \<in> set ?r. admissible nt L (indices p)" by (rule soft_split_loop_admissible) simp_all
  ultimately show "\<exists>infos. legacy_get_pack_infos shuffle L n did nt fl = Inr infos \<and>
      mset (concat (map indices infos)) = mset [0..<n] \<and>
      (\<forall>p \<in> set infos. dataset_id p = int did \<and> admissible nt L (indices p))" by blast
qed

interpretation expand_class: dataset_packer expand_ok expand_dataset_infos
proof
  fix e :: expand_cfg and nt :: "int list" and n L did and fl :: "pyfloat list"
  assume ok: "expand_ok e" "length nt = n" "length fl = n"
  have perm: "mset (e_randperm e did n) = mset [0..<n]" using ok(1) by (simp add: expand_ok_def)
  then have rng: "\<forall>i \<in> set (e_randperm e did n). i < length nt"
    using ok(2) by (metis atLeastLessThan_iff mset_eq_setD set_upt)
  let ?split = "get_pack_infos_by_expand_soft_split (e_argsort e) (e_randperm e did n) (int did) nt fl L
    (e_workers e) (e_chunk_size e) (e_extra e)"
  obtain infos where infos: "?split = Inr infos" "mset (concat (map indices infos)) = mset (e_randperm e did n)"
    "\<forall>p \<in> set infos. admissible nt L (indices p)"
    using expand_soft_split_spec [OF _ rng, of "e_argsort e" fl "e_chunk_size e" "int did" L "e_workers e" "e_extra e"]
      ok by (auto simp: expand_ok_def)
  have d: "distinct (concat (map indices infos))" by (metis infos(2) perm distinct_upt mset_eq_imp_distinct_iff)
  have len: "length (concat (map indices infos)) = n"
    by (metis infos(2) perm length_upt minus_nat.diff_0 size_mset)
  have "expand_dataset_infos e L n did nt fl = Inr infos"
    using infos(1) distinct_card [OF d] len by (simp add: expand_dataset_infos_def expand_get_pack_infos_def Let_def)
  then show "\<exists>infos. expand_dataset_infos e L n did nt fl = Inr infos \<and>
      mset (concat (map indices infos)) = mset [0..<n] \<and>
      (\<forall>p \<in> set infos. dataset_id p = int did \<and> admissible nt L (indices p))"
    using infos perm expand_split_dataset_id [OF infos(1)] by auto
qed

subsection \<open>Reading a hard-packed dataset\<close>

text \<open>The full blocks of \<open>L\<close> elements of a stream; the shuffled streams of a dataset list.\<close>

definition full_blocks :: "nat \<Rightarrow> 'a list \<Rightarrow> 'a list list" where
  "full_blocks L xs = map (\<lambda>i. take L (drop (i * L) xs)) [0..<length xs div L]"

definition shuffled :: "(nat \<Rightarrow> nat list \<Rightarrow> nat list) \<Rightarrow> nat \<Rightarrow> 'v sample list \<Rightarrow> nat list" where
  "shuffled shuffle i ds = shuffle i [0..<length ds]"

definition id_stream :: "(nat \<Rightarrow> nat list \<Rightarrow> nat list) \<Rightarrow> nat \<Rightarrow> 'v sample list \<Rightarrow> 'v list" where
  "id_stream shuffle i ds = concat (ids_of ds (shuffled shuffle i ds))"

definition label_stream :: "(nat \<Rightarrow> nat list \<Rightarrow> nat list) \<Rightarrow> nat \<Rightarrow> 'v sample list \<Rightarrow> 'v list" where
  "label_stream shuffle i ds = concat (labels_of ds (shuffled shuffle i ds))"

definition labelled :: "'v sample list \<Rightarrow> bool" where
  "labelled ds \<longleftrightarrow> (\<forall>x \<in> set ds. \<exists>ls. labels x = Some ls \<and> length ls = length (input_ids x))"

definition hard_rows ::
  "(int list \<Rightarrow> int \<Rightarrow> nat) \<Rightarrow> (nat \<Rightarrow> nat list \<Rightarrow> nat list) \<Rightarrow> nat \<Rightarrow> nat \<Rightarrow> 'v sample list \<Rightarrow> hard_row list" where
  "hard_rows ss shuffle L i ds =
     map (hard_row_of ss (int i) L (ids_of ds (shuffled shuffle i ds)) (shuffled shuffle i ds))
       [0..<num_packed ds (shuffled shuffle i ds) L]"

lemma read_hard_rows:
  assumes ss: "searchsorted_right ss" and sh: "shuffle_ok shuffle" and L: "0 < L"
  shows "\<exists>packs. rmap (read_row ds L) (hard_rows ss shuffle L i ds) = Inr packs \<and>
    map (\<lambda>p. concat (map p_input_ids p)) packs = full_blocks L (id_stream shuffle i ds) \<and>
    (labelled ds \<longrightarrow> map (\<lambda>p. concat (map (\<lambda>x. the (p_labels x)) p)) packs = full_blocks L (label_stream shuffle i ds))"
proof -
  define inds where "inds = shuffled shuffle i ds"
  define F where "F k = projr (read_row ds L (hard_row_of ss (int i) L (ids_of ds inds) inds k))" for k
  have rng: "\<forall>x \<in> set inds. x < length ds" using shuffle_range [OF sh] by (auto simp: inds_def shuffled_def)
  have lab: "\<forall>x \<in> set inds. \<exists>ls. labels (ds ! x) = Some ls \<and> length ls = length (input_ids (ds ! x))" if "labelled ds"
    using that rng by (auto simp: labelled_def)
  have F: "read_row ds L (hard_row_of ss (int i) L (ids_of ds inds) inds k) = Inr (F k) \<and>
      concat (map p_input_ids (F k)) = take L (drop (k * L) (concat (ids_of ds inds))) \<and>
      (labelled ds \<longrightarrow> concat (map (\<lambda>x. the (p_labels x)) (F k)) = take L (drop (k * L) (concat (labels_of ds inds))))"
    if k: "k < num_packed ds inds L" for k
  proof -
    have "Suc k * L \<le> num_packed ds inds L * L" using k by (intro mult_le_mono1) simp
    also have "\<dots> \<le> length (concat (ids_of ds inds))" unfolding num_packed_def by (rule div_times_less_eq_dividend)
    finally have "Suc k * L \<le> length (concat (ids_of ds inds))" .
    from read_row_items [OF ss L this rng, of "int i"] obtain s t where st: "located (ids_of ds inds) L k s t"
      and rr: "read_row ds L (hard_row_of ss (int i) L (ids_of ds inds) inds k) =
        Inr (map (item_of ds inds L k s t) [0..<Suc (t - s)])" by blast
    then have Fk: "F k = map (item_of ds inds L k s t) [0..<Suc (t - s)]" by (simp only: F_def sum.sel)
    show ?thesis unfolding rr Fk using items_tokens [OF st L] items_labels [OF st L lab] by blast
  qed
  have "rmap (read_row ds L) (hard_rows ss shuffle L i ds) = Inr (map F [0..<num_packed ds inds L])"
    unfolding hard_rows_def rmap_map inds_def [symmetric] by (rule rmap_total) (use F in simp)
  moreover have "map (\<lambda>p. concat (map p_input_ids p)) (map F [0..<num_packed ds inds L]) = full_blocks L (id_stream shuffle i ds)"
    using F by (simp add: full_blocks_def id_stream_def inds_def [symmetric] num_packed_def)
  moreover have "map (\<lambda>p. concat (map (\<lambda>x. the (p_labels x)) p)) (map F [0..<num_packed ds inds L]) =
      full_blocks L (label_stream shuffle i ds)" if l: "labelled ds"
  proof -
    have "map length (labels_of ds inds) = map length (ids_of ds inds)" using lab [OF l] by auto
    then have "length (concat (labels_of ds inds)) = length (concat (ids_of ds inds))" by (simp only: length_concat)
    then show ?thesis using F l
      by (simp add: full_blocks_def label_stream_def inds_def [symmetric] num_packed_def)
  qed
  ultimately show ?thesis by blast
qed

definition hard_dset_ok :: "'v sample list \<times> int list \<Rightarrow> bool" where
  "hard_dset_ok = (\<lambda>(ds, nt). counts_tokens ds nt)"

definition total_tokens :: "'v sample list \<Rightarrow> nat" where
  "total_tokens ds = sum_list (map (\<lambda>x. length (input_ids x)) ds)"

lemma length_id_stream:
  assumes "shuffle_ok shuffle"
  shows "length (id_stream shuffle i ds) = total_tokens ds"
proof -
  have "mset (map (\<lambda>x. length (input_ids (ds ! x))) (shuffled shuffle i ds)) =
      mset (map (\<lambda>x. length (input_ids x)) ds)"
  proof -
    have "mset (map (\<lambda>x. length (input_ids (ds ! x))) (shuffled shuffle i ds)) =
        mset (map (\<lambda>x. length (input_ids (ds ! x))) [0..<length ds])"
      using assms unfolding shuffled_def shuffle_ok_def mset_map by simp
    also have "map (\<lambda>x. length (input_ids (ds ! x))) [0..<length ds] = map (\<lambda>x. length (input_ids x)) ds"
      by (intro nth_equalityI) auto
    finally show ?thesis .
  qed
  then show ?thesis unfolding id_stream_def total_tokens_def length_concat map_map comp_def
    by (metis sum_mset_sum_list)
qed

lemma num_packed_shuffled:
  "shuffle_ok shuffle \<Longrightarrow> num_packed ds (shuffled shuffle i ds) L = total_tokens ds div L"
  using length_id_stream [of shuffle i ds] by (simp add: num_packed_def id_stream_def)

lemma hard_rows_empty:
  "shuffle_ok shuffle \<Longrightarrow> 0 < L \<Longrightarrow> hard_rows ss shuffle L i ds = [] \<longleftrightarrow> total_tokens ds < L"
  by (simp add: hard_rows_def num_packed_shuffled div_eq_0_iff)

lemma hard_compute_row:
  assumes ss: "searchsorted_right ss" and sh: "shuffle_ok shuffle" and L: "0 < L" and c: "0 < c"
    and nt: "counts_tokens ds nt"
  shows "hard_compute_pack_infos ss shuffle L c (length ds) i nt =
    (if total_tokens ds < L then Inl ValueError else Inr (csr (hard_rows ss shuffle L i ds)))"
proof -
  have rng: "\<forall>x \<in> set (shuffled shuffle i ds). x < length ds" using shuffle_range [OF sh] by (auto simp: shuffled_def)
  show ?thesis using hard_split_csr [OF ss L c nt rng, of "int i"] num_packed_shuffled [OF sh, of ds i L] L
    by (simp add: hard_compute_pack_infos_def hard_rows_def shuffled_def div_eq_0_iff)
qed

lemma hard_compute_all_rows:
  assumes ss: "searchsorted_right ss" and sh: "shuffle_ok shuffle" and L: "0 < L" and c: "0 < c"
    and ins: "ins \<noteq> []" "\<forall>d \<in> set ins. hard_dset_ok d \<and> L \<le> total_tokens (fst d)"
  shows "hard_compute_all ss shuffle L c ins =
    Inr (csr (concat (map (\<lambda>i. hard_rows ss shuffle L i (fst (ins ! i))) [0..<length ins])))"
proof -
  let ?R = "\<lambda>i. hard_rows ss shuffle L i (fst (ins ! i))"
  have elem: "zip [0..<length ins] ins = map (\<lambda>i. (i, ins ! i)) [0..<length ins]" by (intro nth_equalityI) auto
  have ok: "counts_tokens (fst (ins ! i)) (snd (ins ! i)) \<and> \<not> total_tokens (fst (ins ! i)) < L" if "i < length ins" for i
    using bspec [OF ins(2) nth_mem [OF that]] by (simp add: hard_dset_ok_def case_prod_beta)
  have "rmap (\<lambda>(i, ds, nt). hard_compute_pack_infos ss shuffle L c (length ds) i nt) (zip [0..<length ins] ins) =
      Inr (map (\<lambda>i. csr (?R i)) [0..<length ins])"
    unfolding elem rmap_map
    by (rule rmap_total) (use ok in \<open>simp add: case_prod_beta hard_compute_row [OF ss sh L c]\<close>)
  moreover have "merge_pack_infos (map csr (map ?R [0..<length ins])) = Inr (csr (concat (map ?R [0..<length ins])))"
  proof (rule merge_pack_infos_csr)
    show "\<forall>rows \<in> set (map ?R [0..<length ins]). rows \<noteq> []"
      using ok by (auto simp: hard_rows_empty [OF sh L])
  qed (use ins(1) in simp)
  ultimately show ?thesis by (simp add: hard_compute_all_def comp_def)
qed

lemma hard_reads:
  fixes ins :: "('v sample list \<times> int list) list"
  assumes ss: "searchsorted_right ss" and sh: "shuffle_ok shuffle" and L: "0 < L"
  defines "rows \<equiv> concat (map (\<lambda>i. hard_rows ss shuffle L i (fst (ins ! i))) [0..<length ins])"
  shows "\<exists>packs. rmap (hard_getitem (csr rows) (map fst ins) L) [0..<hard_len (csr rows)] = Inr packs \<and>
    map (\<lambda>p. concat (map p_input_ids p)) packs =
      concat (map (\<lambda>i. full_blocks L (id_stream shuffle i (fst (ins ! i)))) [0..<length ins]) \<and>
    ((\<forall>d \<in> set ins. labelled (fst d)) \<longrightarrow> map (\<lambda>p. concat (map (\<lambda>x. the (p_labels x)) p)) packs =
      concat (map (\<lambda>i. full_blocks L (label_stream shuffle i (fst (ins ! i)))) [0..<length ins]))"
proof -
  let ?ds = "\<lambda>i. fst (ins ! i)"
  let ?R = "\<lambda>i. hard_rows ss shuffle L i (?ds i)"
  define g where "g r = read_row (?ds (nat (r_dataset_id r))) L r" for r :: hard_row
  define P where "P i = projr (rmap (read_row (?ds i) L) (?R i))" for i
  have did: "r_dataset_id r = int i" if "r \<in> set (?R i)" for r i
    using that by (auto simp: hard_rows_def hard_row_of_def Let_def)
  have P: "rmap g (?R i) = Inr (P i) \<and>
      map (\<lambda>p. concat (map p_input_ids p)) (P i) = full_blocks L (id_stream shuffle i (?ds i)) \<and>
      (labelled (?ds i) \<longrightarrow> map (\<lambda>p. concat (map (\<lambda>x. the (p_labels x)) p)) (P i) = full_blocks L (label_stream shuffle i (?ds i)))" for i
  proof -
    have "rmap g (?R i) = rmap (read_row (?ds i) L) (?R i)" using did by (intro rmap_cong) (auto simp: g_def)
    then show ?thesis using read_hard_rows [OF ss sh L, of "?ds i" i] by (auto simp: P_def)
  qed
  have "hard_getitem (csr rows) (map fst ins) L k = g (rows ! k)" if k: "k < length rows" for k
  proof -
    obtain i where i: "i < length ins" "rows ! k \<in> set (?R i)" using nth_mem [OF k] by (auto simp: rows_def)
    show ?thesis using hard_getitem_csr [OF k did [OF i(2)], of "map fst ins" L] i(1) did [OF i(2)]
      by (simp add: g_def read_row_def Let_def)
  qed
  then have "rmap (hard_getitem (csr rows) (map fst ins) L) [0..<hard_len (csr rows)] = rmap g rows"
    by (simp add: hard_len_def csr_def rmap_positions)
  also have "\<dots> = Inr (concat (map P [0..<length ins]))"
  proof -
    have "rmap (rmap g) (map ?R is) = Inr (map P is) \<and> rmap g (concat (map ?R is)) = Inr (concat (map P is))" for "is"
      using P by (induction "is") (auto simp: rmap_append)
    then show ?thesis by (simp add: rows_def)
  qed
  finally have run: "rmap (hard_getitem (csr rows) (map fst ins) L) [0..<hard_len (csr rows)] =
      Inr (concat (map P [0..<length ins]))" .
  have "map (\<lambda>p. concat (map (\<lambda>x. the (p_labels x)) p)) (concat (map P [0..<length ins])) =
      concat (map (\<lambda>i. full_blocks L (label_stream shuffle i (?ds i))) [0..<length ins])"
    if "\<forall>d \<in> set ins. labelled (fst d)"
  proof -
    have "labelled (?ds i)" if "i < length ins" for i using \<open>\<forall>d \<in> set ins. labelled (fst d)\<close> that by simp
    then show ?thesis unfolding map_concat map_map comp_def using P by (intro arg_cong [of _ _ concat] map_cong) auto
  qed
  moreover have "map (\<lambda>p. concat (map p_input_ids p)) (concat (map P [0..<length ins])) =
      concat (map (\<lambda>i. full_blocks L (id_stream shuffle i (?ds i))) [0..<length ins])"
    unfolding map_concat map_map comp_def using P by (intro arg_cong [of _ _ concat] map_cong) auto
  ultimately show ?thesis using run by blast
qed

subsection \<open>Properties\<close>

text \<open>C5. A soft-packed dataset yields every sample of its source datasets exactly once: for both soft
  classes, with and without \<open>global_pack\<close>, construction succeeds and reading all items returns the
  multiset of all samples.\<close>

theorem soft_datasets_cover:
  assumes "dsets \<noteq> []" and "\<forall>d \<in> set dsets. dset_ok d" and "shuffle_ok shuffle" and "expand_ok e"
  shows "(\<exists>infos dss packs. soft_pack_init (legacy_get_pack_infos shuffle L) g dsets = Inr (infos, dss) \<and>
      rmap (\<lambda>k. soft_pack_getitem infos dss (int k)) [0..<soft_pack_len infos] = Inr packs \<and>
      mset (concat packs) = mset (concat (map fst dsets))) \<and>
    (\<exists>infos dss packs. soft_pack_init (expand_dataset_infos e L) g dsets = Inr (infos, dss) \<and>
      rmap (\<lambda>k. soft_pack_getitem infos dss (int k)) [0..<soft_pack_len infos] = Inr packs \<and>
      mset (concat packs) = mset (concat (map fst dsets)))"
  by (rule conjI [OF legacy_class.reads_every_sample [OF assms(3,1,2)]
        expand_class.reads_every_sample [OF assms(4,1,2)]])

theorem soft_datasets_cover_witness:
  "(\<exists>infos dss packs. soft_pack_init (legacy_get_pack_infos (\<lambda>d. rev) 5) True
        [([''a'', ''b''], [3, 2], [3, 2]), ([''c''], [4], [4])] = Inr (infos, dss) \<and>
      rmap (\<lambda>k. soft_pack_getitem infos dss (int k)) [0..<soft_pack_len infos] = Inr packs \<and>
      mset (concat packs) = mset (concat (map fst [([''a'', ''b''], [3, 2 :: int], [3, 2 :: pyfloat]), ([''c''], [4], [4])]))) \<and>
   (\<exists>infos dss packs. soft_pack_init (expand_dataset_infos \<lparr>e_randperm = (\<lambda>d n. rev [0..<n]),
        e_argsort = (\<lambda>xs. sort_key ((!) xs) [0..<length xs]), e_workers = 1, e_chunk_size = 2, e_extra = 1\<rparr> 5) True
        [([''a'', ''b''], [3, 2], [3, 2]), ([''c''], [4], [4])] = Inr (infos, dss) \<and>
      rmap (\<lambda>k. soft_pack_getitem infos dss (int k)) [0..<soft_pack_len infos] = Inr packs \<and>
      mset (concat packs) = mset (concat (map fst [([''a'', ''b''], [3, 2 :: int], [3, 2 :: pyfloat]), ([''c''], [4], [4])])))"
  by (rule soft_datasets_cover) (simp_all add: dset_ok_def shuffle_ok_def expand_ok_def argsort_perm_def)

text \<open>C3. A hard-packed dataset is the token stream cut into blocks: reading items \<open>0, 1, \<dots>\<close> never trips
  the internal assertion and returns, dataset by dataset, the consecutive full blocks of
  \<open>pack_max_length\<close> tokens of the shuffled stream; labels are cut at the same places.\<close>

theorem hard_dataset_stream:
  assumes "searchsorted_right ss" and "shuffle_ok shuffle" and "0 < L" and "0 < c"
    and "hard_inputs g dsets = Inr ins" and "ins \<noteq> []"
    and "\<forall>d \<in> set ins. hard_dset_ok d \<and> L \<le> total_tokens (fst d)"
    and "cache (keyf g (map snd ins)) = None"
  shows "\<exists>infos cache' packs.
    hard_pack_init keyf (hard_compute_all ss shuffle L c) g dsets cache = Inr (infos, map fst ins, cache') \<and>
    cache' = cache(keyf g (map snd ins) \<mapsto> infos) \<and>
    rmap (hard_getitem infos (map fst ins) L) [0..<hard_len infos] = Inr packs \<and>
    map (\<lambda>p. concat (map p_input_ids p)) packs =
      concat (map (\<lambda>i. full_blocks L (id_stream shuffle i (fst (ins ! i)))) [0..<length ins]) \<and>
    ((\<forall>d \<in> set ins. labelled (fst d)) \<longrightarrow> map (\<lambda>p. concat (map (\<lambda>x. the (p_labels x)) p)) packs =
      concat (map (\<lambda>i. full_blocks L (label_stream shuffle i (fst (ins ! i)))) [0..<length ins]))"
  using hard_compute_all_rows [OF assms(1-4,6,7)] hard_reads [OF assms(1-3), of ins] assms(5,8)
  by (simp add: hard_pack_init_def hard_build_pack_infos_def)

theorem hard_dataset_stream_witness:
  "\<exists>infos cache' packs.
    hard_pack_init (\<lambda>g nts. nts) (hard_compute_all (\<lambda>xs v. length (filter (\<lambda>x. x \<le> v) xs)) (\<lambda>d. rev) 2 1) False
      [([\<lparr>input_ids = [1, 2, 3], labels = None\<rparr>, \<lparr>input_ids = [4 :: int], labels = None\<rparr>], [3, 1])] Map.empty =
      Inr (infos, [[\<lparr>input_ids = [1, 2, 3], labels = None\<rparr>, \<lparr>input_ids = [4], labels = None\<rparr>]], cache') \<and>
    rmap (hard_getitem infos [[\<lparr>input_ids = [1, 2, 3], labels = None\<rparr>, \<lparr>input_ids = [4 :: int], labels = None\<rparr>]] 2)
      [0..<hard_len infos] = Inr packs \<and>
    map (\<lambda>p. concat (map p_input_ids p)) packs = [[4, 1], [2, 3]]"
proof -
  let ?ss = "\<lambda>(xs :: int list) v. length (filter (\<lambda>x. x \<le> v) xs)"
  let ?ds = "[\<lparr>input_ids = [1, 2, 3], labels = None\<rparr>, \<lparr>input_ids = [4 :: int], labels = None\<rparr>]"
  have blocks: "full_blocks 2 (id_stream (\<lambda>d. rev) 0 ?ds) = [[4, 1], [2, 3]]"
    by (simp add: full_blocks_def id_stream_def shuffled_def upt_rec)
  obtain infos cache' packs where
    "hard_pack_init (\<lambda>g nts. nts) (hard_compute_all ?ss (\<lambda>d. rev) 2 1) False [(?ds, [3, 1])] Map.empty =
      Inr (infos, map fst [(?ds, [3, 1 :: int])], cache')"
    "rmap (hard_getitem infos (map fst [(?ds, [3, 1 :: int])]) 2) [0..<hard_len infos] = Inr packs"
    "map (\<lambda>p. concat (map p_input_ids p)) packs = concat (map (\<lambda>i. full_blocks 2
      (id_stream (\<lambda>d. rev) i (fst ([(?ds, [3, 1 :: int])] ! i)))) [0..<length [(?ds, [3, 1 :: int])]])"
    using hard_dataset_stream [of ?ss "\<lambda>d. rev" 2 1 False "[(?ds, [3, 1])]" "[(?ds, [3, 1])]" Map.empty "\<lambda>g nts. nts"]
    by (auto simp: searchsorted_right_def shuffle_ok_def hard_inputs_def hard_dset_ok_def counts_tokens_def total_tokens_def)
  then show ?thesis using blocks by (intro exI [of _ infos] exI [of _ cache'] exI [of _ packs]) simp
qed

text \<open>C7. A dataset with fewer tokens than one pack makes hard packing fail: its part has no pack, the
  concatenation of no arrays raises \<open>ValueError\<close>, and with it the construction of the whole dataset list,
  although the other datasets can be packed.\<close>

theorem hard_dataset_short_fails:
  assumes "searchsorted_right ss" and "shuffle_ok shuffle" and "0 < L" and "0 < c"
    and "\<forall>d \<in> set ins. hard_dset_ok d" and "\<exists>d \<in> set ins. total_tokens (fst d) < L"
  shows "hard_compute_all ss shuffle L c ins = Inl ValueError"
proof -
  let ?f = "\<lambda>(i, ds, nt). hard_compute_pack_infos ss shuffle L c (length ds) i nt"
  have row: "?f x = (if total_tokens (fst (snd x)) < L then Inl ValueError
      else Inr (csr (hard_rows ss shuffle L (fst x) (fst (snd x)))))" if "x \<in> set (zip [0..<length ins] ins)" for x
  proof -
    have "snd x \<in> set ins" using that by (metis prod.collapse set_zip_rightD)
    then have "counts_tokens (fst (snd x)) (snd (snd x))" using assms(5) by (auto simp: hard_dset_ok_def split: prod.splits)
    then show ?thesis by (simp add: case_prod_beta hard_compute_row [OF assms(1-4)])
  qed
  obtain i where i: "i < length ins" "total_tokens (fst (ins ! i)) < L" using assms(6) by (metis in_set_conv_nth)
  then have "(i, ins ! i) \<in> set (zip [0..<length ins] ins)" by (auto simp: set_zip intro!: exI [of _ i])
  then have "\<exists>x \<in> set (zip [0..<length ins] ins). ?f x = Inl ValueError"
    by (rule bexI [rotated]) (subst row; use i in \<open>simp add: set_zip exI [of _ i]\<close>)
  then have "rmap ?f (zip [0..<length ins] ins) = Inl ValueError"
    using row by (intro rmap_first_error) auto
  then show ?thesis by (simp add: hard_compute_all_def)
qed

theorem hard_dataset_short_fails_witness:
  "hard_compute_all (\<lambda>xs v. length (filter (\<lambda>x. x \<le> v) xs)) (\<lambda>d. rev) 2 1
     [([\<lparr>input_ids = [1, 2, 3], labels = None\<rparr>], [3]), ([\<lparr>input_ids = [4 :: int], labels = None\<rparr>], [1])] = Inl ValueError"
  by (rule hard_dataset_short_fails)
     (simp_all add: searchsorted_right_def shuffle_ok_def hard_dset_ok_def counts_tokens_def total_tokens_def)

text \<open>C8. The cache key does not separate dataset boundaries: with array bytes that concatenate, two
  dataset lists whose token counts concatenate to the same array get the same key, so the second
  construction returns the packs of the first one.\<close>

theorem pack_cache_key_collision:
  assumes "\<forall>xs ys. tobytes (xs @ ys) = tobytes xs @ tobytes ys" and "concat (map snd ins) = concat (map snd ins')"
    and "tobytes [] = []" and "compute ins = Inr infos" and "cache (pack_cache_key xxh fmt tobytes seed L False (map snd ins)) = None"
  shows "\<exists>cache'. hard_pack_init (pack_cache_key xxh fmt tobytes seed L) compute False ins cache = Inr (infos, map fst ins, cache') \<and>
    hard_pack_init (pack_cache_key xxh fmt tobytes seed L) compute False ins' cache' = Inr (infos, map fst ins', cache')"
proof -
  have bytes: "concat (map tobytes nts) = tobytes (concat nts)" for nts
    using assms(1,3) by (induction nts) auto
  then have "pack_cache_key xxh fmt tobytes seed L False (map snd ins') = pack_cache_key xxh fmt tobytes seed L False (map snd ins)"
    by (simp only: pack_cache_key_def bytes assms(2))
  then show ?thesis using assms(4,5) by (simp add: hard_pack_init_def hard_inputs_def hard_build_pack_infos_def)
qed

theorem pack_cache_key_collision_witness:
  "\<exists>infos cache'.
    hard_pack_init (pack_cache_key id (\<lambda>s l g. []) id None 2)
      (hard_compute_all (\<lambda>xs v. length (filter (\<lambda>x. x \<le> v) xs)) (\<lambda>d. id) 2 4) False
      [([\<lparr>input_ids = [1, 2 :: int], labels = None\<rparr>], [2]), ([\<lparr>input_ids = [3, 4], labels = None\<rparr>], [2])] Map.empty =
      Inr (infos, [[\<lparr>input_ids = [1, 2], labels = None\<rparr>], [\<lparr>input_ids = [3, 4], labels = None\<rparr>]], cache') \<and>
    hard_pack_init (pack_cache_key id (\<lambda>s l g. []) id None 2)
      (hard_compute_all (\<lambda>xs v. length (filter (\<lambda>x. x \<le> v) xs)) (\<lambda>d. id) 2 4) False
      [([\<lparr>input_ids = [1, 2 :: int], labels = None\<rparr>, \<lparr>input_ids = [3, 4], labels = None\<rparr>], [2, 2])] cache' =
      Inr (infos, [[\<lparr>input_ids = [1, 2], labels = None\<rparr>, \<lparr>input_ids = [3, 4], labels = None\<rparr>]], cache') \<and>
    hard_getitem infos [[\<lparr>input_ids = [1, 2 :: int], labels = None\<rparr>, \<lparr>input_ids = [3, 4], labels = None\<rparr>]] 2 1 = Inl IndexError"
proof -
  let ?a = "\<lparr>input_ids = [1, 2 :: int], labels = None\<rparr>" and ?b = "\<lparr>input_ids = [3, 4 :: int], labels = None\<rparr>"
  let ?compute = "hard_compute_all (\<lambda>xs v. length (filter (\<lambda>x. x \<le> v) xs)) (\<lambda>d. id) 2 4"
  let ?infos = "\<lparr>h_dataset_id = [0, 1], h_indices = [0, 0], h_indices_cu_len = [1, 2], h_start_offset = [0, 0],
    h_end_offset = [2, 2], h_longest = [2, 2]\<rparr>"
  have run: "?compute [([?a], [2]), ([?b], [2])] = Inr ?infos" by code_simp
  have bad: "hard_getitem ?infos [[?a, ?b]] 2 1 = Inl IndexError" by code_simp
  show ?thesis
    using pack_cache_key_collision [of id "[([?a], [2]), ([?b], [2])]" "[([?a, ?b], [2, 2])]" ?compute ?infos
      Map.empty id "\<lambda>s l g. []" None 2] run bad by auto
qed

text \<open>The saved packing state of the hybrid dataset is checked field by field: loading it succeeds
  exactly when all five packing settings agree, and otherwise raises \<open>ValueError\<close>.\<close>

theorem hybrid_state_roundtrip:
  "hybrid_load_state_dict self (hybrid_get_state_dict other) =
    (if ss_seed self = ss_seed other \<and> ss_pack_max_length self = ss_pack_max_length other \<and>
        ss_global_pack self = ss_global_pack other \<and> hs_extra_buffer_size self = hs_extra_buffer_size other \<and>
        hs_chunk_size self = hs_chunk_size other
     then Inr () else Inl ValueError)"
  by (simp add: hybrid_load_state_dict_def hybrid_get_state_dict_def)

end
