(* ===== verification/Schedule.thy ===== *)
theory Schedule
  imports Prelude
begin

text \<open>
  The learning-rate factor and the order of repeated passes, \<^verbatim>\<open>xtuner/v1/rl/trainer/schedule.py\<close>
  (its \<open>partition_indices\<close> is modelled with the packer). Floats are reals here; the cosine is the real
  cosine. \<open>int\<close> truncates a nonnegative ratio downwards.
\<close>

datatype lr_type = Constant | Linear | Cosine | OtherLR

record LRConfig =
  lr_kind :: lr_type
  warmup_ratio :: real
  lr_min :: real

definition warmup_steps :: "LRConfig \<Rightarrow> nat \<Rightarrow> nat" where
  "warmup_steps cfg total_steps =
     min (nat \<lfloor>if warmup_ratio cfg < 1 then warmup_ratio cfg * real total_steps else warmup_ratio cfg\<rfloor>) total_steps"

definition lr_progress :: "nat \<Rightarrow> nat \<Rightarrow> nat \<Rightarrow> real" where
  "lr_progress total_steps w stp =
     min (max (real_of_int (int stp - int w) / real (max (total_steps - w) 1)) 0) 1"

definition lr_factor :: "LRConfig \<Rightarrow> real \<Rightarrow> nat \<Rightarrow> nat \<Rightarrow> real res" where
  "lr_factor cfg min_factor total_steps stp =
     (let w = warmup_steps cfg total_steps in
      if 0 < w \<and> stp < w then Inr (real (max stp 1) / real w)
      else if lr_kind cfg = Constant then Inr 1
      else
        let progress = lr_progress total_steps w stp in
        if lr_kind cfg = Linear then Inr (1 - progress * (1 - min_factor))
        else if lr_kind cfg = Cosine then Inr (min_factor + 0.5 * (1 - min_factor) * (1 + cos (pi * progress)))
        else Inl ValueError)"

definition build_lr_scheduler :: "real \<Rightarrow> LRConfig \<Rightarrow> int \<Rightarrow> (nat \<Rightarrow> real res) res" where
  "build_lr_scheduler base_lr cfg total_steps =
     (if total_steps \<le> 0 then Inl ValueError
      else
        let min_factor = (if 0 < base_lr then lr_min cfg / base_lr else 1)
        in Inr (lr_factor cfg min_factor (nat total_steps)))"

definition pass_order :: "(int \<Rightarrow> nat \<Rightarrow> nat list) \<Rightarrow> int \<Rightarrow> int \<Rightarrow> int \<Rightarrow> int \<Rightarrow> nat list" where
  "pass_order randperm num_batches rollout_idx pass_index seed =
     (if num_batches \<le> 0 then []
      else if pass_index = 0 then [0..<nat num_batches]
      else randperm (seed + rollout_idx * 1000003 + pass_index) (nat num_batches))"

lemma convex_bounds:
  assumes "0 \<le> (t :: real)" and "t \<le> 1" and "m \<le> 1"
  shows "m \<le> 1 - t * (1 - m)" and "1 - t * (1 - m) \<le> 1"
proof -
  have "t * (1 - m) \<le> 1 * (1 - m)" using assms by (intro mult_right_mono) auto
  then show "m \<le> 1 - t * (1 - m)" by simp
  show "1 - t * (1 - m) \<le> 1" using assms by simp
qed

lemma cosine_as_line:
  "m + 0.5 * (1 - m) * (1 + c) = 1 - (1 - c) / 2 * (1 - m)" for m c :: real
  by (simp add: field_simps)

lemma lr_progress_end: "w < n \<Longrightarrow> lr_progress n w n = 1"
  by (simp add: lr_progress_def of_nat_diff)

text \<open>The learning-rate factor stays within bounds: for every supported schedule type, positive step
  count and minimum not above the base rate, every step has a factor that is at most 1, positive during
  warmup, and at least the configured minimum ratio afterwards; the last step of a decaying schedule
  reaches that minimum.\<close>

theorem lr_factor_bounds:
  assumes "0 < total_steps" and "0 < base_lr" and "lr_min cfg \<le> base_lr" and "lr_kind cfg \<noteq> OtherLR"
  shows "\<exists>f. build_lr_scheduler base_lr cfg total_steps = Inr f \<and>
    (\<forall>stp. \<exists>x. f stp = Inr x \<and> x \<le> 1 \<and>
       (if stp < warmup_steps cfg (nat total_steps) then 0 < x else lr_min cfg / base_lr \<le> x)) \<and>
    (warmup_steps cfg (nat total_steps) < nat total_steps \<and> lr_kind cfg \<noteq> Constant \<longrightarrow>
       f (nat total_steps) = Inr (lr_min cfg / base_lr))"
proof -
  let ?m = "lr_min cfg / base_lr" and ?n = "nat total_steps"
  let ?w = "warmup_steps cfg ?n"
  let ?p = "lr_progress ?n ?w"
  have m: "?m \<le> 1" using assms(2,3) by simp
  have run: "build_lr_scheduler base_lr cfg total_steps = Inr (lr_factor cfg ?m ?n)"
    using assms(1,2) by (simp add: build_lr_scheduler_def)
  have p: "0 \<le> ?p stp" "?p stp \<le> 1" for stp by (auto simp: lr_progress_def)
  have c: "0 \<le> (1 - cos (pi * t)) / 2" "(1 - cos (pi * t)) / 2 \<le> 1" for t
    using cos_le_one [of "pi * t"] cos_ge_minus_one [of "pi * t"] by auto
  have each: "\<exists>x. lr_factor cfg ?m ?n stp = Inr x \<and> x \<le> 1 \<and> (if stp < ?w then 0 < x else ?m \<le> x)" for stp
  proof (cases "stp < ?w")
    case True
    then have "real (max stp 1) / real ?w \<le> 1" "0 < real (max stp 1) / real ?w" by auto
    then show ?thesis using True by (simp add: lr_factor_def)
  next
    case False
    then have "lr_factor cfg ?m ?n stp = Inr (case lr_kind cfg of Linear \<Rightarrow> 1 - ?p stp * (1 - ?m)
        | Cosine \<Rightarrow> 1 - (1 - cos (pi * ?p stp)) / 2 * (1 - ?m) | _ \<Rightarrow> 1)"
      using assms(4) unfolding lr_factor_def Let_def cosine_as_line by (cases "lr_kind cfg") simp_all
    moreover note convex_bounds [OF p [of stp] m] convex_bounds [OF c [of "?p stp"] m]
    ultimately show ?thesis using False m by (simp split: lr_type.split)
  qed
  have "lr_factor cfg ?m ?n ?n = Inr ?m" if "?w < ?n" "lr_kind cfg \<noteq> Constant"
  proof -
    have "?p ?n = 1" using that(1) by (rule lr_progress_end)
    then show ?thesis using that assms(4) by (cases "lr_kind cfg") (simp_all add: lr_factor_def Let_def)
  qed
  with run each show ?thesis by blast
qed

theorem lr_factor_bounds_witness:
  "\<exists>f. build_lr_scheduler 2 \<lparr>lr_kind = Cosine, warmup_ratio = 2, lr_min = 1\<rparr> 8 = Inr f \<and> f (nat 8) = Inr (1 / 2)"
  using lr_factor_bounds [of 8 2 "\<lparr>lr_kind = Cosine, warmup_ratio = 2, lr_min = 1\<rparr>"]
  by (auto simp: warmup_steps_def)

text \<open>Every pass over the batches visits each batch exactly once, and the first pass keeps the order.\<close>

theorem pass_order_permutes:
  assumes "\<forall>seed n. mset (randperm seed n) = mset [0..<n]"
  shows "mset (pass_order randperm n idx p seed) = mset [0..<nat n] \<and> pass_order randperm n idx 0 seed = [0..<nat n]"
  using assms by (auto simp: pass_order_def)

theorem pass_order_permutes_witness:
  "mset (pass_order (\<lambda>seed n. rev [0..<n]) 3 1 2 7) = mset [0..<nat 3] \<and>
   pass_order (\<lambda>seed n. rev [0..<n]) 3 1 0 7 = [0..<nat 3]"
  by (rule pass_order_permutes) simp

end
