(* ===== verification/PendingTasks.thy ===== *)
theory PendingTasks
  imports Prelude
begin

text \<open>
  The set of pending rollout tasks that the background producer and the pause routine share, \<open>_PendingTasks\<close> of
  \<^verbatim>\<open>rl/agent_loop_manager/produce_utils.py\<close>.

  Every section under the lock is one step; \<open>wait_and_claim\<close> is two, with the snapshot of its caller in between, so
  that steps of other callers may come between them. Tasks are numbered as they are spawned; sets are lists
  without repetition. \<open>log\<close> records the claims in order; it is not part of the code's state. Cancelling is the
  claim of all tasks, whose results are then dropped.
\<close>

record pending =
  tasks :: "nat list"
  done_tasks :: "nat set"
  snapshots :: "nat \<Rightarrow> nat list option"
  spawned :: nat
  log :: "nat list"
  cancelled :: "nat list"

definition pending_init :: pending where
  "pending_init = \<lparr>tasks = [], done_tasks = {}, snapshots = (\<lambda>_. None), spawned = 0, log = [], cancelled = []\<rparr>"

definition pending_count :: "pending \<Rightarrow> nat" where
  "pending_count s = length (tasks s)"

definition claim_ready :: "pending \<Rightarrow> nat list \<times> pending" where
  "claim_ready s =
     (let ready = filter (\<lambda>t. t \<in> done_tasks s) (tasks s) in
      (ready, s\<lparr>tasks := filter (\<lambda>t. t \<notin> set ready) (tasks s), log := log s @ ready\<rparr>))"

text \<open>The first section of \<open>wait_and_claim\<close>: an empty snapshot ends the call.\<close>

definition wait_begin :: "nat \<Rightarrow> pending \<Rightarrow> pending" where
  "wait_begin w s = s\<lparr>snapshots := (snapshots s)(w := (if tasks s = [] then None else Some (tasks s)))\<rparr>"

text \<open>The second section, with the tasks that \<open>asyncio.wait\<close> reported: claim those that are still pending.\<close>

definition wait_claim :: "nat \<Rightarrow> nat list \<Rightarrow> pending \<Rightarrow> nat list \<times> pending" where
  "wait_claim w finished s =
     (let claimed = filter (\<lambda>t. t \<in> set (tasks s)) finished in
      (claimed, s\<lparr>snapshots := (snapshots s)(w := None), tasks := filter (\<lambda>t. t \<notin> set claimed) (tasks s), log := log s @ claimed\<rparr>))"

definition schedule_one :: "int \<Rightarrow> bool \<Rightarrow> pending \<Rightarrow> bool \<times> pending" where
  "schedule_one max_pending abort s =
     (if abort \<or> max_pending \<le> int (length (tasks s)) then (False, s)
      else (True, s\<lparr>tasks := tasks s @ [spawned s], spawned := Suc (spawned s)\<rparr>))"

definition claim_all :: "pending \<Rightarrow> nat list \<times> pending" where
  "claim_all s = (tasks s, s\<lparr>tasks := [], cancelled := cancelled s @ tasks s\<rparr>)"

text \<open>What \<open>asyncio.wait\<close> may report to a waiter: some of the tasks of its snapshot that have finished.\<close>

definition reported :: "nat \<Rightarrow> pending \<Rightarrow> nat list \<Rightarrow> bool" where
  "reported w s finished \<longleftrightarrow> distinct finished \<and>
     (\<exists>snap. snapshots s w = Some snap \<and> set finished \<subseteq> set snap \<inter> done_tasks s)"

inductive pending_step :: "pending \<Rightarrow> pending \<Rightarrow> bool" where
  finish: "t < spawned s \<Longrightarrow> pending_step s (s\<lparr>done_tasks := insert t (done_tasks s)\<rparr>)"
| ready: "pending_step s (snd (claim_ready s))"
| wait: "pending_step s (wait_begin w s)"
| claim: "reported w s finished \<Longrightarrow> pending_step s (snd (wait_claim w finished s))"
| schedule: "pending_step s (snd (schedule_one max_pending abort s))"
| cancel: "pending_step s (snd (claim_all s))"

inductive_simps pending_step_iff: "pending_step s s'"

subsection \<open>Every task is handled once\<close>

text \<open>Each spawned task is pending, claimed or cancelled, in exactly one of these ways and exactly once.\<close>

definition handled_once :: "pending \<Rightarrow> bool" where
  "handled_once s \<longleftrightarrow> mset (tasks s) + mset (log s) + mset (cancelled s) = mset [0..<spawned s] \<and> set (log s) \<subseteq> done_tasks s"

lemma mset_claimed:
  assumes "distinct (tasks s)" "distinct xs" "set xs \<subseteq> set (tasks s)"
  shows "mset (filter (\<lambda>t. t \<notin> set xs) (tasks s)) + mset xs = mset (tasks s)"
proof -
  have "mset xs = mset (filter (\<lambda>t. t \<in> set xs) (tasks s))"
    using assms by (intro set_eq_iff_mset_eq_distinct [THEN iffD1]) auto
  then show ?thesis by (metis add.commute multiset_partition mset_filter)
qed

lemma handled_tasks: "handled_once s \<Longrightarrow> distinct (tasks s)"
  by (metis distinct_upt handled_once_def distinct_append mset_append mset_eq_imp_distinct_iff)

lemma handled_once_step:
  assumes "pending_step s s'" "handled_once s"
  shows "handled_once s'"
  using assms(1)
proof cases
  case (finish t)
  then show ?thesis using assms(2) by (auto simp: handled_once_def)
next
  case ready
  let ?r = "filter (\<lambda>t. t \<in> done_tasks s) (tasks s)"
  have "mset (filter (\<lambda>t. t \<notin> set ?r) (tasks s)) + mset ?r = mset (tasks s)"
    using handled_tasks [OF assms(2)] by (intro mset_claimed) auto
  moreover have "set ?r \<subseteq> done_tasks s" by auto
  ultimately show ?thesis using assms(2)
    by (auto simp: ready handled_once_def claim_ready_def Let_def add.assoc add.left_commute simp del: mset_filter set_filter)
next
  case (wait w)
  then show ?thesis using assms(2) by (simp add: handled_once_def wait_begin_def)
next
  case (claim w finished)
  let ?c = "filter (\<lambda>t. t \<in> set (tasks s)) finished"
  have "mset (filter (\<lambda>t. t \<notin> set ?c) (tasks s)) + mset ?c = mset (tasks s)"
    using handled_tasks [OF assms(2)] claim(2) by (intro mset_claimed) (auto simp: reported_def)
  moreover have "set ?c \<subseteq> done_tasks s" using claim(2) by (auto simp: reported_def)
  ultimately show ?thesis using assms(2)
    by (auto simp: claim handled_once_def wait_claim_def Let_def add.assoc add.left_commute simp del: mset_filter set_filter)
next
  case (schedule max_pending abort)
  then show ?thesis using assms(2) by (auto simp: handled_once_def schedule_one_def atLeast0_lessThan_Suc)
next
  case cancel
  then show ?thesis using assms(2) by (auto simp: handled_once_def claim_all_def ac_simps)
qed

lemma handled_once_init: "handled_once pending_init"
  by (simp add: handled_once_def pending_init_def)

lemma handled_once_reachable: "pending_step\<^sup>*\<^sup>* pending_init s \<Longrightarrow> handled_once s"
  by (induction rule: rtranclp_induct) (auto intro: handled_once_init handled_once_step)

text \<open>C25. No rollout task is processed twice and none is lost: in every interleaving of the producer, the pause routine, several
  waiters and a cancellation, the pending, the claimed and the cancelled tasks are pairwise different, together they are the
  spawned tasks, and only finished tasks are claimed.\<close>

theorem pending_claimed_once:
  assumes "pending_step\<^sup>*\<^sup>* pending_init s"
  shows "distinct (tasks s @ log s @ cancelled s) \<and> set (tasks s) \<union> set (log s) \<union> set (cancelled s) = {0..<spawned s} \<and>
    set (log s) \<subseteq> done_tasks s"
proof -
  have "handled_once s" using assms by (rule handled_once_reachable)
  then have m: "mset (tasks s @ log s @ cancelled s) = mset [0..<spawned s]" and l: "set (log s) \<subseteq> done_tasks s"
    by (auto simp: handled_once_def add.assoc)
  show ?thesis using mset_eq_imp_distinct_iff [OF m] mset_eq_setD [OF m] l by auto
qed

text \<open>Two waiters hold the snapshot \<open>{0, 1}\<close>; the first claims task 0, the second is told of the same task and gets nothing.\<close>

definition race_start :: pending where
  "race_start = wait_begin 1 (wait_begin 0 (snd (schedule_one 2 False (snd (schedule_one 2 False pending_init)))))"

definition race_end :: pending where
  "race_end = snd (wait_claim 1 [0] (snd (wait_claim 0 [0] (race_start\<lparr>done_tasks := insert 0 (done_tasks race_start)\<rparr>))))"

lemma race_reachable: "pending_step\<^sup>*\<^sup>* pending_init race_end"
proof -
  let ?d = "race_start\<lparr>done_tasks := insert 0 (done_tasks race_start)\<rparr>"
  have "pending_step\<^sup>*\<^sup>* pending_init race_start"
    unfolding race_start_def by (meson pending_step.schedule pending_step.wait rtranclp.intros)
  also have "pending_step race_start ?d"
    by (rule pending_step.finish) (simp add: race_start_def pending_init_def schedule_one_def wait_begin_def)
  also have "pending_step ?d (snd (wait_claim 0 [0] ?d))"
    by (rule pending_step.claim) (simp add: reported_def race_start_def pending_init_def schedule_one_def wait_begin_def)
  also have "pending_step (snd (wait_claim 0 [0] ?d)) race_end" unfolding race_end_def
    by (rule pending_step.claim) (simp add: reported_def race_start_def pending_init_def schedule_one_def wait_begin_def wait_claim_def Let_def)
  finally show ?thesis .
qed

theorem pending_claimed_once_witness:
  "distinct (tasks race_end @ log race_end @ cancelled race_end) \<and> set (log race_end) \<subseteq> done_tasks race_end \<and>
   tasks race_end = [1] \<and> log race_end = [0]"
  using pending_claimed_once [OF race_reachable]
  by (simp add: race_end_def race_start_def pending_init_def schedule_one_def wait_begin_def wait_claim_def Let_def)

end
