(* ===== verification/DataSampler.thy ===== *)
theory DataSampler
  imports RLPack
begin

text \<open>
  The distributed samplers and their resumption state: \<open>ParallelSampler\<close>, \<open>LengthGroupedSampler\<close>
  (\<^verbatim>\<open>xtuner/v1/datasets/sampler.py\<close>), \<open>PresetSampler\<close> (\<^verbatim>\<open>datasets/preset_sampler.py\<close>) and the sample
  counter of \<open>Dataloader\<close> (\<^verbatim>\<open>datasets/dataloader.py\<close>).

  \<open>torch.randperm\<close> seeded with seed plus epoch is the argument \<open>perm\<close> (epoch, length), the group
  shuffle of the grouped sampler is \<open>shuf\<close>. Quotients of lengths are exact. \<open>all_reduce\<close> over the
  data-parallel group is the sum of the ranks' counters. Prefetching of \<open>torch.utils.data.DataLoader\<close>
  is not modelled: the counter is advanced per delivered batch, as the code does.
\<close>

subsection \<open>Sampler state\<close>

record sampler =
  rank :: nat
  world_size :: nat
  global_batch_size :: nat
  epoch :: nat
  step :: nat
  shuffle :: bool
  round_up :: bool
  num_samples :: nat
  total_size :: nat
  group_batch_size :: nat
  group_size :: nat

definition sampler_num_samples :: "nat \<Rightarrow> nat \<Rightarrow> nat \<Rightarrow> bool \<Rightarrow> nat" where
  "sampler_num_samples len gbs w up =
     (if up then ceil_div len gbs * gbs div w else len div gbs * gbs div w)"

text \<open>\<open>mesh\<close> is the rank and the size of the data-parallel mesh, if there is one.\<close>

definition parallel_init :: "nat \<Rightarrow> nat \<Rightarrow> (nat \<times> nat) option \<Rightarrow> bool \<Rightarrow> bool \<Rightarrow> sampler res" where
  "parallel_init len gbs mesh shuf up =
     (let (r, w) = (case mesh of None \<Rightarrow> (0, 1) | Some m \<Rightarrow> m) in
      if w = 0 then Inl ZeroDivisionError
      else if gbs mod w \<noteq> 0 then Inl AssertionError
      else if gbs = 0 then Inl ZeroDivisionError
      else
        let n = sampler_num_samples len gbs w up in
        Inr \<lparr>rank = r, world_size = w, global_batch_size = gbs, epoch = 0, step = 0, shuffle = shuf,
             round_up = up, num_samples = n, total_size = n * w, group_batch_size = 0, group_size = 0\<rparr>)"

definition length_grouped_init :: "nat \<Rightarrow> nat \<Rightarrow> (nat \<times> nat) option \<Rightarrow> bool \<Rightarrow> sampler res" where
  "length_grouped_init len gbs mesh up =
     rbind (parallel_init len gbs mesh True up) (\<lambda>s.
       let mult = min (len div (gbs * 4)) 50;
           mult' = (if mult = 0 then 1 else mult)
       in Inr (s\<lparr>group_batch_size := mult' * gbs, group_size := world_size s\<rparr>))"

definition preset_init :: "int list \<Rightarrow> nat \<Rightarrow> nat \<Rightarrow> (nat \<times> nat) option \<Rightarrow> (sampler \<times> int list) res" where
  "preset_init order num_packs gbs mesh =
     (let (r, w) = (case mesh of None \<Rightarrow> (0, 1) | Some m \<Rightarrow> m) in
      if \<exists>i \<in> set order. i < 0 \<or> int num_packs \<le> i then Inl ValueError
      else if order = [] then Inl ValueError
      else if gbs = 0 \<or> w = 0 then Inl ZeroDivisionError
      else
        let n = length order div gbs * gbs div w in
        if n * w = 0 then Inl ValueError
        else Inr (\<lparr>rank = r, world_size = w, global_batch_size = gbs, epoch = 0, step = 0, shuffle = False,
                   round_up = False, num_samples = n, total_size = n * w, group_batch_size = 0, group_size = 0\<rparr>,
                  take (n * w) order))"

subsection \<open>Iteration\<close>

text \<open>Repeat to the rounded size, or cut to it.\<close>

definition fit_to_size :: "bool \<Rightarrow> nat \<Rightarrow> 'a list \<Rightarrow> 'a list res" where
  "fit_to_size up n ix =
     (if up then (if ix = [] then Inl ZeroDivisionError
                  else Inr (take n (concat (replicate (n div length ix + 1) ix))))
      else Inr (take n ix))"

definition rank_slice :: "sampler \<Rightarrow> 'a list \<Rightarrow> 'a list" where
  "rank_slice s ix = stride (step s + rank s) (world_size s) (take (total_size s) ix)"

definition parallel_order :: "(nat \<Rightarrow> nat \<Rightarrow> nat list) \<Rightarrow> nat \<Rightarrow> sampler \<Rightarrow> nat list res" where
  "parallel_order perm len s =
     fit_to_size (round_up s) (total_size s) (if shuffle s then perm (epoch s) len else [0..<len])"

definition parallel_iter :: "(nat \<Rightarrow> nat \<Rightarrow> nat list) \<Rightarrow> nat \<Rightarrow> sampler \<Rightarrow> (nat list \<times> sampler) res" where
  "parallel_iter perm len s =
     rbind (parallel_order perm len s) (\<lambda>ix. Inr (rank_slice s ix, s\<lparr>step := 0\<rparr>))"

definition length_grouped_order ::
  "(nat \<Rightarrow> nat \<Rightarrow> nat list) \<Rightarrow> (nat \<Rightarrow> nat \<Rightarrow> nat list list \<Rightarrow> nat list list) \<Rightarrow> int list \<Rightarrow> sampler \<Rightarrow> nat list res" where
  "length_grouped_order perm shuf max_lengths s =
     rbind (get_length_grouped_indices (perm (epoch s)) (shuf (epoch s)) max_lengths (group_batch_size s) (group_size s))
       (\<lambda>ix. if card (set ix) \<noteq> length ix then Inl AssertionError
             else fit_to_size (round_up s) (total_size s) ix)"

definition length_grouped_iter ::
  "(nat \<Rightarrow> nat \<Rightarrow> nat list) \<Rightarrow> (nat \<Rightarrow> nat \<Rightarrow> nat list list \<Rightarrow> nat list list) \<Rightarrow> int list \<Rightarrow> sampler \<Rightarrow>
   (nat list \<times> sampler) res" where
  "length_grouped_iter perm shuf max_lengths s =
     rbind (length_grouped_order perm shuf max_lengths s) (\<lambda>ix.
       if length ix \<noteq> total_size s then Inl AssertionError
       else
         let mine = rank_slice s ix in
         if int (length mine) \<noteq> int (num_samples s) - int (step s div world_size s) then Inl AssertionError
         else Inr (mine, s\<lparr>step := 0\<rparr>))"

definition preset_iter :: "int list \<Rightarrow> sampler \<Rightarrow> int list \<times> sampler" where
  "preset_iter global_order s = (rank_slice s global_order, s\<lparr>step := 0\<rparr>)"

definition sampler_len :: "sampler \<Rightarrow> nat" where
  "sampler_len s = num_samples s"

definition set_epoch :: "nat \<Rightarrow> sampler \<Rightarrow> sampler" where
  "set_epoch e s = s\<lparr>epoch := e\<rparr>"

subsection \<open>Checkpoint state\<close>

record sampler_state =
  st_epoch :: nat
  st_step :: nat
  st_world_size :: nat
  st_shuffle :: bool
  st_round_up :: bool
  st_num_samples :: nat
  st_total_size :: nat
  st_group_batch_size :: nat
  st_group_size :: nat

definition sampler_get_state_dict :: "sampler \<Rightarrow> nat \<Rightarrow> sampler_state res" where
  "sampler_get_state_dict s total_consumed_steps =
     (if total_size s = 0 then Inl ZeroDivisionError
      else Inr \<lparr>st_epoch = epoch s, st_step = total_consumed_steps mod total_size s,
                st_world_size = world_size s, st_shuffle = shuffle s, st_round_up = round_up s,
                st_num_samples = num_samples s, st_total_size = total_size s,
                st_group_batch_size = group_batch_size s, st_group_size = group_size s\<rparr>)"

text \<open>
  \<open>ParallelSampler.load_state_dict\<close> assigns epoch and step before it compares the shuffle flags, so the
  second component is the sampler after the call also when it raises.
\<close>

definition parallel_load_state_dict :: "sampler \<Rightarrow> sampler_state \<Rightarrow> unit res \<times> sampler" where
  "parallel_load_state_dict s st =
     (if shuffle s \<noteq> st_shuffle st then Inl ValueError else Inr (),
      s\<lparr>epoch := st_epoch st, step := st_step st\<rparr>)"

definition length_grouped_load_state_dict :: "sampler \<Rightarrow> sampler_state \<Rightarrow> sampler" where
  "length_grouped_load_state_dict s st =
     s\<lparr>epoch := st_epoch st, step := st_step st, group_size := st_group_size st\<rparr>"

definition preset_load_state_dict :: "sampler \<Rightarrow> sampler_state \<Rightarrow> sampler" where
  "preset_load_state_dict s st = s\<lparr>epoch := st_epoch st, step := st_step st\<rparr>"

subsection \<open>The dataloader counter\<close>

record dataloader =
  dl_sampler :: sampler
  init_total_samples :: nat
  local_samples :: nat

record dataloader_state =
  ds_sampler :: sampler_state
  total_consumed_samples :: nat

definition dl_deliver :: "'b list \<Rightarrow> dataloader \<Rightarrow> dataloader" where
  "dl_deliver batch d = d\<lparr>local_samples := local_samples d + length batch\<rparr>"

definition reduce_sum_across_dp_group :: "nat list option \<Rightarrow> nat \<Rightarrow> nat" where
  "reduce_sum_across_dp_group mesh local_value =
     (case mesh of None \<Rightarrow> local_value
      | Some others \<Rightarrow> if length others < 1 then local_value else local_value + sum_list others)"

definition dl_get_state_dict :: "nat list option \<Rightarrow> dataloader \<Rightarrow> dataloader_state res" where
  "dl_get_state_dict others d =
     (let consumed = init_total_samples d + reduce_sum_across_dp_group others (local_samples d) in
      rbind (sampler_get_state_dict (dl_sampler d) consumed)
        (\<lambda>st. Inr \<lparr>ds_sampler = st, total_consumed_samples = consumed\<rparr>))"

definition dl_load_state_dict :: "dataloader \<Rightarrow> dataloader_state \<Rightarrow> unit res \<times> dataloader" where
  "dl_load_state_dict d st =
     (let (r, s) = parallel_load_state_dict (dl_sampler d) (ds_sampler st) in
      case r of
        Inl e \<Rightarrow> (Inl e, d\<lparr>dl_sampler := s\<rparr>)
      | Inr u \<Rightarrow> (Inr u, d\<lparr>dl_sampler := s, init_total_samples := total_consumed_samples st, local_samples := 0\<rparr>))"

subsection \<open>The contract of a distributed sampler\<close>

text \<open>
  \<open>order\<close> is the global order of one epoch, \<open>iter\<close> what one rank reads of it. The order must not depend
  on the rank or on the resumption point; then the ranks share it out and a resumed rank reads on.
\<close>

definition sizes_ok :: "sampler \<Rightarrow> bool" where
  "sizes_ok s \<longleftrightarrow> 0 < world_size s \<and> total_size s = num_samples s * world_size s"

definition resume_point :: "sampler \<Rightarrow> bool" where
  "resume_point s \<longleftrightarrow> rank s < world_size s \<and> step s mod world_size s = 0 \<and> step s \<le> total_size s"

locale distributed_sampler =
  fixes ok :: "'e \<Rightarrow> sampler \<Rightarrow> bool"
    and order :: "'e \<Rightarrow> sampler \<Rightarrow> 'i list res"
    and iter :: "'e \<Rightarrow> sampler \<Rightarrow> ('i list \<times> sampler) res"
  assumes order_total: "ok e s \<Longrightarrow> \<exists>ix. order e s = Inr ix \<and> length ix = total_size s"
    and ok_sizes: "ok e s \<Longrightarrow> sizes_ok s"
    and ok_local: "ok e s \<Longrightarrow> ok e (s\<lparr>rank := r, step := k\<rparr>)"
    and order_local: "order e (s\<lparr>rank := r, step := k\<rparr>) = order e s"
    and iter_slice: "ok e s \<Longrightarrow> order e s = Inr ix \<Longrightarrow> resume_point s \<Longrightarrow>
      iter e s = Inr (rank_slice s ix, s\<lparr>step := 0\<rparr>)"
begin

lemma iter_at:
  assumes "ok e s" and "order e s = Inr ix" and "r < world_size s" and "k * world_size s \<le> total_size s"
  shows "iter e (s\<lparr>rank := r, step := k * world_size s\<rparr>) =
    Inr (drop k (stride r (world_size s) ix), s\<lparr>rank := r, step := 0\<rparr>)"
proof -
  have len: "length ix = total_size s" using order_total [OF assms(1)] assms(2) by auto
  have w: "0 < world_size s" using ok_sizes [OF assms(1)] by (simp add: sizes_ok_def)
  have "rank_slice (s\<lparr>rank := r, step := k * world_size s\<rparr>) ix = drop k (stride r (world_size s) ix)"
    by (simp add: rank_slice_def len stride_drop [OF w])
  moreover have "resume_point (s\<lparr>rank := r, step := k * world_size s\<rparr>)"
    using assms(3,4) by (simp add: resume_point_def)
  ultimately show ?thesis
    using iter_slice [OF ok_local [OF assms(1), where r = r and k = "k * world_size s"]] assms(2) by (simp add: order_local)
qed

text \<open>The ranks share out one epoch: equal parts, nothing lost, nothing read twice.\<close>

lemma ranks_share:
  assumes "ok e s"
  shows "\<exists>ix its. order e s = Inr ix \<and>
    rmap (\<lambda>r. iter e (s\<lparr>rank := r, step := 0\<rparr>)) [0..<world_size s] = Inr its \<and>
    mset (concat (map fst its)) = mset ix \<and> (\<forall>it \<in> set its. length (fst it) = num_samples s)"
proof -
  obtain ix where ix: "order e s = Inr ix" "length ix = total_size s" using order_total [OF assms] by blast
  have sz: "0 < world_size s" "total_size s = num_samples s * world_size s"
    using ok_sizes [OF assms] by (auto simp: sizes_ok_def)
  let ?its = "map (\<lambda>r. (stride r (world_size s) ix, s\<lparr>rank := r, step := 0\<rparr>)) [0..<world_size s]"
  have "rmap (\<lambda>r. iter e (s\<lparr>rank := r, step := 0\<rparr>)) [0..<world_size s] = Inr ?its"
    using iter_at [OF assms ix(1), of _ 0] by (intro rmap_total) simp
  moreover have "mset (concat (map fst ?its)) = mset ix"
    using mset_concat_strides [OF sz(1), of ix] by (simp add: comp_def)
  moreover have "\<forall>it \<in> set ?its. length (fst it) = num_samples s"
    using ix(2) sz by (auto intro: length_stride_even)
  ultimately show ?thesis using ix(1) by blast
qed

text \<open>A rank resumed after the group has consumed \<open>k\<close> samples per rank reads exactly the rest.\<close>

lemma resume_reads_rest:
  assumes "ok e s" and "r < world_size s" and "k \<le> num_samples s"
  shows "\<exists>xs. iter e (s\<lparr>rank := r, step := 0\<rparr>) = Inr (xs, s\<lparr>rank := r, step := 0\<rparr>) \<and>
    iter e (s\<lparr>rank := r, step := k * world_size s\<rparr>) = Inr (drop k xs, s\<lparr>rank := r, step := 0\<rparr>)"
proof -
  obtain ix where ix: "order e s = Inr ix" using order_total [OF assms(1)] by blast
  have "k * world_size s \<le> total_size s" using ok_sizes [OF assms(1)] assms(3) by (simp add: sizes_ok_def)
  then show ?thesis
    using iter_at [OF assms(1) ix assms(2), of 0] iter_at [OF assms(1) ix assms(2), of k] by simp
qed

end

subsection \<open>The three samplers\<close>

lemma length_replicate_concat: "length (concat (replicate n xs)) = n * length xs"
  by (induction n) auto

lemma fit_to_size_up:
  assumes "xs \<noteq> []"
  shows "\<exists>ys. fit_to_size True n xs = Inr ys \<and> length ys = n \<and> set ys \<subseteq> set xs \<and>
    (length xs \<le> n \<longrightarrow> take (length xs) ys = xs)"
proof -
  let ?r = "concat (replicate (n div length xs + 1) xs)"
  have "n < (n div length xs + 1) * length xs"
    using dividend_less_div_times [of "length xs" n] assms by simp
  then have len: "n \<le> length ?r" by (simp only: length_replicate_concat)
  have "set (take n ?r) \<subseteq> set xs" by (rule subset_trans [OF set_take_subset]) auto
  moreover have "take (length xs) (take n ?r) = xs" if "length xs \<le> n"
    using that by (simp add: min_def)
  ultimately show ?thesis using assms len by (simp add: fit_to_size_def)
qed

lemma fit_to_size_down: "n \<le> length xs \<Longrightarrow> fit_to_size False n xs = Inr (take n xs)"
  by (simp add: fit_to_size_def)

definition perm_ok :: "(nat \<Rightarrow> nat \<Rightarrow> nat list) \<Rightarrow> bool" where
  "perm_ok perm \<longleftrightarrow> (\<forall>e n. mset (perm e n) = mset [0..<n])"

text \<open>A sampler as \<open>__init__\<close> leaves it: sizes computed from a dataset of \<open>len\<close> samples.\<close>

definition built :: "nat \<Rightarrow> sampler \<Rightarrow> bool" where
  "built len s \<longleftrightarrow> 0 < world_size s \<and> 0 < global_batch_size s \<and> global_batch_size s mod world_size s = 0 \<and>
     num_samples s = sampler_num_samples len (global_batch_size s) (world_size s) (round_up s) \<and>
     total_size s = num_samples s * world_size s"

lemma built_total:
  assumes "built len s"
  shows "total_size s = (if round_up s then ceil_div len (global_batch_size s) else len div global_batch_size s) * global_batch_size s"
proof -
  obtain q where q: "global_batch_size s = q * world_size s"
    using assms by (auto simp: built_def mod_0_imp_dvd dvd_def mult.commute)
  then show ?thesis using assms by (auto simp: built_def sampler_num_samples_def mult.assoc [symmetric])
qed

lemma built_bounds:
  assumes "built len s"
  shows "round_up s \<Longrightarrow> len \<le> total_size s" and "\<not> round_up s \<Longrightarrow> total_size s \<le> len"
proof -
  have pos: "0 < global_batch_size s" using assms by (simp add: built_def)
  show "round_up s \<Longrightarrow> len \<le> total_size s"
    unfolding built_total [OF assms] using ceil_div_ge [OF pos, of len] by simp
  show "\<not> round_up s \<Longrightarrow> total_size s \<le> len"
    unfolding built_total [OF assms] by simp
qed

lemma built_init:
  "parallel_init len gbs mesh shuf up = Inr s \<Longrightarrow> built len s \<and> step s = 0 \<and> shuffle s = shuf \<and> round_up s = up"
  by (auto simp: parallel_init_def built_def Let_def split: if_splits option.splits prod.splits)

lemma fit_to_size_built:
  assumes "built len s" and "mset ix = mset [0..<len]" and "0 < len"
  shows "\<exists>ys. fit_to_size (round_up s) (total_size s) ix = Inr ys \<and> length ys = total_size s \<and>
    (round_up s \<longrightarrow> set ys = {0..<len}) \<and> (\<not> round_up s \<longrightarrow> distinct ys)"
proof -
  have ix: "length ix = len" "set ix = {0..<len}" "distinct ix"
    using assms(2) by (metis length_upt minus_nat.diff_0 size_mset, metis mset_eq_setD set_upt,
        metis distinct_upt mset_eq_imp_distinct_iff)
  show ?thesis
  proof (cases "round_up s")
    case True
    then obtain ys where ys: "fit_to_size True (total_size s) ix = Inr ys" "length ys = total_size s"
      "set ys \<subseteq> set ix" "take (length ix) ys = ix"
      using fit_to_size_up [of ix "total_size s"] ix assms(3) built_bounds(1) [OF assms(1)] by auto
    then have "set ys = {0..<len}" using ix(2) by (metis set_take_subset subset_antisym)
    with ys True show ?thesis by auto
  next
    case False
    then show ?thesis using built_bounds(2) [OF assms(1)] ix by (auto simp: fit_to_size_down)
  qed
qed

lemma rank_slice_length:
  assumes "sizes_ok s" and "resume_point s" and "length ix = total_size s"
  shows "int (length (rank_slice s ix)) = int (num_samples s) - int (step s div world_size s)"
proof -
  obtain m where m: "step s = m * world_size s" using assms(2) by (auto simp: resume_point_def)
  have w: "0 < world_size s" using assms(1) by (simp add: sizes_ok_def)
  have "rank_slice s ix = drop m (stride (rank s) (world_size s) ix)"
    unfolding rank_slice_def m using assms(3) by (simp add: stride_drop [OF w])
  moreover have "length (stride (rank s) (world_size s) ix) = num_samples s"
    using assms by (intro length_stride_even) (auto simp: sizes_ok_def resume_point_def)
  moreover have "m \<le> num_samples s" using assms(1,2) m w by (auto simp: sizes_ok_def resume_point_def)
  ultimately show ?thesis using m w by simp
qed

definition parallel_ok :: "(nat \<Rightarrow> nat \<Rightarrow> nat list) \<times> nat \<Rightarrow> sampler \<Rightarrow> bool" where
  "parallel_ok = (\<lambda>(perm, len) s. perm_ok perm \<and> 0 < len \<and> built len s)"

lemma parallel_order_spec:
  assumes "parallel_ok (perm, len) s"
  shows "\<exists>ys. parallel_order perm len s = Inr ys \<and> length ys = total_size s \<and>
    (round_up s \<longrightarrow> set ys = {0..<len}) \<and> (\<not> round_up s \<longrightarrow> distinct ys)"
  using assms unfolding parallel_order_def
  by (intro fit_to_size_built) (auto simp: parallel_ok_def perm_ok_def)

interpretation parallel: distributed_sampler parallel_ok
  "\<lambda>(perm, len). parallel_order perm len" "\<lambda>(perm, len). parallel_iter perm len"
proof
  fix e :: "(nat \<Rightarrow> nat \<Rightarrow> nat list) \<times> nat" and s :: sampler
  obtain perm len where e: "e = (perm, len)" by (cases e)
  assume ok: "parallel_ok e s"
  show "\<exists>ix. (case e of (perm, len) \<Rightarrow> parallel_order perm len) s = Inr ix \<and> length ix = total_size s"
    using parallel_order_spec [of perm len s] ok by (auto simp: e)
  show "sizes_ok s" using ok by (auto simp: e parallel_ok_def built_def sizes_ok_def)
  show "parallel_ok e (s\<lparr>rank := r, step := k\<rparr>)" for r k using ok by (simp add: e parallel_ok_def built_def)
next
  fix e :: "(nat \<Rightarrow> nat \<Rightarrow> nat list) \<times> nat" and s :: sampler and ix r k
  show "(case e of (perm, len) \<Rightarrow> parallel_order perm len) (s\<lparr>rank := r, step := k\<rparr>) =
      (case e of (perm, len) \<Rightarrow> parallel_order perm len) s" by (cases e) (simp add: parallel_order_def)
  assume "(case e of (perm, len) \<Rightarrow> parallel_order perm len) s = Inr ix"
  then show "(case e of (perm, len) \<Rightarrow> parallel_iter perm len) s = Inr (rank_slice s ix, s\<lparr>step := 0\<rparr>)"
    by (cases e) (simp add: parallel_iter_def)
qed

definition grouped_ok ::
  "(nat \<Rightarrow> nat \<Rightarrow> nat list) \<times> (nat \<Rightarrow> nat \<Rightarrow> nat list list \<Rightarrow> nat list list) \<times> int list \<Rightarrow> sampler \<Rightarrow> bool" where
  "grouped_ok = (\<lambda>(perm, shuf, lens) s. perm_ok perm \<and> (\<forall>e k xs. mset (shuf e k xs) = mset xs) \<and> lens \<noteq> [] \<and>
     0 < group_batch_size s \<and> 0 < group_size s \<and> built (length lens) s)"

lemma grouped_order_spec:
  assumes "grouped_ok (perm, shuf, lens) s"
  shows "\<exists>ys. length_grouped_order perm shuf lens s = Inr ys \<and> length ys = total_size s \<and>
    (round_up s \<longrightarrow> set ys = {0..<length lens}) \<and> (\<not> round_up s \<longrightarrow> distinct ys)"
proof -
  obtain ix where ix: "get_length_grouped_indices (perm (epoch s)) (shuf (epoch s)) lens (group_batch_size s) (group_size s) = Inr ix"
    "mset ix = mset [0..<length lens]"
    using length_grouped_spec [of "perm (epoch s)" "shuf (epoch s)" "group_batch_size s" "group_size s" lens] assms
    by (auto simp: grouped_ok_def perm_ok_def)
  then have "distinct ix" by (metis distinct_upt mset_eq_imp_distinct_iff)
  then have "length_grouped_order perm shuf lens s = fit_to_size (round_up s) (total_size s) ix"
    using ix(1) by (simp add: length_grouped_order_def distinct_card)
  then show ?thesis using fit_to_size_built [OF _ ix(2)] assms by (auto simp: grouped_ok_def)
qed

interpretation grouped: distributed_sampler grouped_ok
  "\<lambda>(perm, shuf, lens). length_grouped_order perm shuf lens" "\<lambda>(perm, shuf, lens). length_grouped_iter perm shuf lens"
proof
  fix e :: "(nat \<Rightarrow> nat \<Rightarrow> nat list) \<times> (nat \<Rightarrow> nat \<Rightarrow> nat list list \<Rightarrow> nat list list) \<times> int list" and s :: sampler
  obtain perm shuf lens where e: "e = (perm, shuf, lens)" by (cases e)
  assume ok: "grouped_ok e s"
  show "\<exists>ix. (case e of (perm, shuf, lens) \<Rightarrow> length_grouped_order perm shuf lens) s = Inr ix \<and> length ix = total_size s"
    using grouped_order_spec [of perm shuf lens s] ok by (auto simp: e)
  show sizes: "sizes_ok s" using ok by (auto simp: e grouped_ok_def built_def sizes_ok_def)
  show "grouped_ok e (s\<lparr>rank := r, step := k\<rparr>)" for r k using ok by (simp add: e grouped_ok_def built_def)
  fix ix assume ord: "(case e of (perm, shuf, lens) \<Rightarrow> length_grouped_order perm shuf lens) s = Inr ix" and pt: "resume_point s"
  have len: "length ix = total_size s" using grouped_order_spec [of perm shuf lens s] ok ord by (auto simp: e)
  show "(case e of (perm, shuf, lens) \<Rightarrow> length_grouped_iter perm shuf lens) s = Inr (rank_slice s ix, s\<lparr>step := 0\<rparr>)"
    using ord len rank_slice_length [OF sizes pt len] by (simp add: e length_grouped_iter_def Let_def)
next
  fix e :: "(nat \<Rightarrow> nat \<Rightarrow> nat list) \<times> (nat \<Rightarrow> nat \<Rightarrow> nat list list \<Rightarrow> nat list list) \<times> int list" and s :: sampler and r k
  show "(case e of (perm, shuf, lens) \<Rightarrow> length_grouped_order perm shuf lens) (s\<lparr>rank := r, step := k\<rparr>) =
      (case e of (perm, shuf, lens) \<Rightarrow> length_grouped_order perm shuf lens) s"
    by (cases e) (simp add: length_grouped_order_def cong: if_cong)
qed

definition preset_ok :: "int list \<Rightarrow> sampler \<Rightarrow> bool" where
  "preset_ok order s \<longleftrightarrow> sizes_ok s \<and> length order = total_size s"

interpretation preset: distributed_sampler preset_ok "\<lambda>order s. Inr order" "\<lambda>order s. Inr (preset_iter order s)"
  by unfold_locales (auto simp: preset_ok_def sizes_ok_def preset_iter_def)

subsection \<open>Properties\<close>

text \<open>C9. The ranks of a \<open>ParallelSampler\<close> share out one epoch: whatever sizes its constructor accepts,
  every rank reads \<open>num_samples\<close> indices, together they read the epoch's order without loss or overlap;
  with \<open>round_up\<close> every sample occurs, without it no sample occurs twice.\<close>

theorem parallel_ranks_share:
  assumes "parallel_init len gbs (Some (rk, w)) shuf up = Inr s" and "0 < len" and "perm_ok perm"
  shows "\<exists>ix its. parallel_order perm len s = Inr ix \<and>
    rmap (\<lambda>r. parallel_iter perm len (s\<lparr>rank := r, step := 0\<rparr>)) [0..<w] = Inr its \<and>
    mset (concat (map fst its)) = mset ix \<and> (\<forall>it \<in> set its. length (fst it) = num_samples s) \<and>
    (if up then set ix = {0..<len} else distinct ix)"
proof -
  have b: "built len s" "round_up s = up" "world_size s = w"
    using built_init [OF assms(1)] assms(1) by (auto simp: parallel_init_def Let_def split: if_splits)
  then have ok: "parallel_ok (perm, len) s" using assms(2,3) by (simp add: parallel_ok_def)
  show ?thesis using parallel.ranks_share [OF ok] parallel_order_spec [OF ok] b by auto
qed

theorem parallel_ranks_share_witness:
  "\<exists>ix its. parallel_order (\<lambda>e n. rev [0..<n]) 5 \<lparr>rank = 0, world_size = 2, global_batch_size = 4, epoch = 0, step = 0,
      shuffle = True, round_up = True, num_samples = 4, total_size = 8, group_batch_size = 0, group_size = 0\<rparr> = Inr ix \<and>
    rmap (\<lambda>r. parallel_iter (\<lambda>e n. rev [0..<n]) 5 (\<lparr>rank = 0, world_size = 2, global_batch_size = 4, epoch = 0, step = 0,
      shuffle = True, round_up = True, num_samples = 4, total_size = 8, group_batch_size = 0, group_size = 0\<rparr>
      \<lparr>rank := r, step := 0\<rparr>)) [0..<2] = Inr its \<and>
    mset (concat (map fst its)) = mset ix \<and> list_all (\<lambda>it. length (fst it) = num_samples
      \<lparr>rank = 0, world_size = 2, global_batch_size = 4, epoch = 0, step = 0,
      shuffle = True, round_up = True, num_samples = 4, total_size = 8, group_batch_size = 0, group_size = 0\<rparr>) its \<and>
    (if True then set ix = {0..<5} else distinct ix)"
  unfolding list_all_iff
  by (rule parallel_ranks_share [where gbs = 4 and rk = 0 and shuf = True])
     (simp_all add: parallel_init_def sampler_num_samples_def ceil_div_def perm_ok_def)

text \<open>The same for \<open>LengthGroupedSampler\<close>: for every sampler its constructor builds on a non-empty
  dataset none of the internal assertions fails, the ranks share out the epoch in equal parts, and with
  \<open>round_up\<close> every sample occurs, without it none twice.\<close>

theorem grouped_ranks_share:
  assumes "length_grouped_init (length lens) gbs (Some (rk, w)) up = Inr s" and "lens \<noteq> []" and "perm_ok perm"
    and "\<forall>e k xs. mset (shuf e k xs) = mset xs"
  shows "\<exists>ix its. length_grouped_order perm shuf lens s = Inr ix \<and>
    rmap (\<lambda>r. length_grouped_iter perm shuf lens (s\<lparr>rank := r, step := 0\<rparr>)) [0..<w] = Inr its \<and>
    mset (concat (map fst its)) = mset ix \<and> (\<forall>it \<in> set its. length (fst it) = num_samples s) \<and>
    (if up then set ix = {0..<length lens} else distinct ix)"
proof -
  obtain s0 where s0: "parallel_init (length lens) gbs (Some (rk, w)) True up = Inr s0"
    "s = s0\<lparr>group_batch_size := (if min (length lens div (gbs * 4)) 50 = 0 then 1 else min (length lens div (gbs * 4)) 50) * gbs,
      group_size := world_size s0\<rparr>"
    using assms(1) by (auto simp: length_grouped_init_def res_simps Let_def)
  have b: "built (length lens) s0" "round_up s0 = up" "world_size s0 = w" "0 < gbs"
    using built_init [OF s0(1)] s0(1) by (auto simp: parallel_init_def Let_def split: if_splits)
  then have ok: "grouped_ok (perm, shuf, lens) s"
    using assms(2-4) by (simp add: grouped_ok_def s0(2) built_def)
  have "round_up s = up" "world_size s = w" using b by (simp_all add: s0(2))
  then show ?thesis using grouped.ranks_share [OF ok] grouped_order_spec [OF ok] by auto
qed

theorem grouped_ranks_share_witness:
  "\<exists>ix its. length_grouped_order (\<lambda>e n. rev [0..<n]) (\<lambda>e k. rev) [3, 1, 2] \<lparr>rank = 0, world_size = 2, global_batch_size = 2,
      epoch = 0, step = 0, shuffle = True, round_up = True, num_samples = 2, total_size = 4, group_batch_size = 2, group_size = 2\<rparr> = Inr ix \<and>
    rmap (\<lambda>r. length_grouped_iter (\<lambda>e n. rev [0..<n]) (\<lambda>e k. rev) [3, 1, 2] (\<lparr>rank = 0, world_size = 2, global_batch_size = 2,
      epoch = 0, step = 0, shuffle = True, round_up = True, num_samples = 2, total_size = 4, group_batch_size = 2, group_size = 2\<rparr>
      \<lparr>rank := r, step := 0\<rparr>)) [0..<2] = Inr its \<and>
    mset (concat (map fst its)) = mset ix \<and> list_all (\<lambda>it. length (fst it) = num_samples \<lparr>rank = 0, world_size = 2, global_batch_size = 2,
      epoch = 0, step = 0, shuffle = True, round_up = True, num_samples = 2, total_size = 4, group_batch_size = 2, group_size = 2\<rparr>) its \<and>
    (if True then set ix = {0..<length [3, 1, 2 :: int]} else distinct ix)"
  unfolding list_all_iff
  by (rule grouped_ranks_share [where gbs = 2 and rk = 0])
     (simp_all add: length_grouped_init_def parallel_init_def sampler_num_samples_def ceil_div_def perm_ok_def Let_def)



text \<open>\<open>PresetSampler\<close> reads the user's order: whenever its constructor accepts an order, every index is
  a valid pack, the ranks share out a prefix of the order in equal parts, and with a batch size that the
  ranks divide evenly the prefix is cut to a multiple of the global batch size alone, so that fewer than
  one global batch is dropped.\<close>

theorem preset_ranks_share:
  assumes "preset_init order num_packs gbs (Some (rk, w)) = Inr (s, go)"
  shows "\<exists>its. rmap (\<lambda>r. Inr (preset_iter go (s\<lparr>rank := r, step := 0\<rparr>))) [0..<w] = Inr its \<and>
    mset (concat (map fst its)) = mset (take (total_size s) order) \<and>
    (\<forall>it \<in> set its. length (fst it) = num_samples s \<and> (\<forall>i \<in> set (fst it). 0 \<le> i \<and> i < int num_packs)) \<and>
    (gbs mod w = 0 \<longrightarrow> total_size s = length order div gbs * gbs)"
proof -
  let ?n = "length order div gbs * gbs div w"
  have s: "world_size s = w" "num_samples s = ?n" "total_size s = ?n * w" "go = take (?n * w) order" "0 < w" "0 < gbs"
    and rng: "\<forall>i \<in> set order. 0 \<le> i \<and> i < int num_packs"
    using assms by (auto simp: preset_init_def Let_def not_less split: if_splits)
  have "?n * w \<le> length order" by (meson div_times_less_eq_dividend le_trans)
  then have ok: "preset_ok go s" using s by (auto simp: preset_ok_def sizes_ok_def)
  obtain its where its: "rmap (\<lambda>r. Inr (preset_iter go (s\<lparr>rank := r, step := 0\<rparr>))) [0..<w] = Inr its"
    "mset (concat (map fst its)) = mset go" "\<forall>it \<in> set its. length (fst it) = num_samples s"
    using preset.ranks_share [OF ok] s(1) by auto
  have "set (concat (map fst its)) \<subseteq> set order"
    using mset_eq_setD [OF its(2)] s(4) set_take_subset by metis
  then have "\<forall>it \<in> set its. \<forall>i \<in> set (fst it). 0 \<le> i \<and> i < int num_packs" using rng by fastforce
  moreover have "total_size s = length order div gbs * gbs" if "gbs mod w = 0"
    using that s(3) by (metis dvd_div_mult_self dvd_mult mod_0_imp_dvd)
  ultimately show ?thesis using its s(3,4) by auto
qed

theorem preset_ranks_share_witness:
  "\<exists>its. rmap (\<lambda>r. Inr (preset_iter [2, 0, 1, 1, 2, 0] (\<lparr>rank = 0, world_size = 2, global_batch_size = 2, epoch = 0, step = 0,
      shuffle = False, round_up = False, num_samples = 3, total_size = 6, group_batch_size = 0, group_size = 0\<rparr>
      \<lparr>rank := r, step := 0\<rparr>))) [0..<2] = Inr its \<and>
    mset (concat (map fst its)) = mset [2, 0, 1, 1, 2, 0]"
proof -
  let ?s = "\<lparr>rank = 0, world_size = 2, global_batch_size = 2, epoch = 0, step = 0,
      shuffle = False, round_up = False, num_samples = 3, total_size = 6, group_batch_size = 0, group_size = 0\<rparr>"
  have "preset_init [2, 0, 1, 1, 2, 0, 1] 3 2 (Some (0, 2)) = Inr (?s, [2, 0, 1, 1, 2, 0])"
    by (simp add: preset_init_def Let_def)
  from preset_ranks_share [OF this] show ?thesis by auto
qed

end
