(* ===== verification/RolloutData.thy ===== *)
theory RolloutData
  imports Prelude
begin

text \<open>
  The rollout record that travels from the sampler through the agent loops and the replay buffer to
  training, \<^verbatim>\<open>xtuner/v1/data_proto/rl_data.py\<close>, with \<open>calculate_seq_staleness\<close> of
  \<^verbatim>\<open>data_proto/utils.py\<close> and \<open>free_object_refs\<close> of \<^verbatim>\<open>rl/utils/ray_utils.py\<close>.

  Fields of static type become options, lists and numbers; fields of type \<open>Any\<close> (messages, tool calls,
  multimodal data, extra fields) are \<open>pyval\<close>: Python values with Ray object references as leaves and
  arrays known by their number of dimensions (sets do not occur); \<open>VSerialized\<close> is the replay buffer's snapshot of a
  reference, which no operation here looks into. Floats are rationals. An operation that releases
  references also returns the list of references handed to Ray. A method that raises returns \<open>Inl\<close>;
  all of them assign only after their last check, so the record is then unchanged.
\<close>

subsection \<open>Values and records\<close>

datatype pyval =
    VNone
  | VBool bool
  | VInt int
  | VFloat pyfloat
  | VStr string
  | VRef nat
  | VArray nat
  | VList "pyval list"
  | VTuple "pyval list"
  | VDict "(string \<times> pyval) list"
  | VModel "(string \<times> pyval) list"
  | VSerialized pyval

datatype Status = INIT | COMPLETED | ABORTED | EXPIRED | FAILED | FILTERED | ARCHIVED

record SampleParams =
  sp_n :: int
  sp_top_k :: int
  sp_top_p :: pyfloat
  sp_temperature :: pyfloat
  sp_repetition_penalty :: pyfloat
  sp_presence_penalty :: pyfloat
  sp_frequency_penalty :: pyfloat
  sp_min_tokens :: int
  sp_max_tokens :: int
  sp_stops :: "string list"
  sp_stop_token_ids :: "int list"
  sp_skip_special_tokens :: bool
  sp_sampling_seed :: "int option"
  sp_stream :: bool
  sp_return_logprob :: bool
  sp_top_logprobs :: int
  sp_return_token_ids :: bool
  sp_include_stop_str_in_output :: bool
  sp_no_stop_trim :: bool
  sp_spaces_between_special_tokens :: bool
  sp_return_routed_experts :: bool

definition default_sample_params :: SampleParams where
  "default_sample_params = \<lparr>sp_n = 1, sp_top_k = 0, sp_top_p = 1, sp_temperature = 1, sp_repetition_penalty = 1,
     sp_presence_penalty = 0, sp_frequency_penalty = 0, sp_min_tokens = 0, sp_max_tokens = 2048, sp_stops = [],
     sp_stop_token_ids = [], sp_skip_special_tokens = True, sp_sampling_seed = None, sp_stream = False,
     sp_return_logprob = True, sp_top_logprobs = 1, sp_return_token_ids = True, sp_include_stop_str_in_output = True,
     sp_no_stop_trim = True, sp_spaces_between_special_tokens = False, sp_return_routed_experts = True\<rparr>"

datatype TeacherTargets =
    Sampled "int list" "pyfloat list"
  | TopK "int list list" "pyfloat list list"

definition check_shapes :: "TeacherTargets \<Rightarrow> TeacherTargets res" where
  "check_shapes t = (case t of
     Sampled toks lps \<Rightarrow> if length toks \<noteq> length lps then Inl ValueError else Inr t
   | TopK toks lps \<Rightarrow>
       if length toks \<noteq> length lps then Inl ValueError
       else
         let widths = set (map length toks) in
         if widths = {} \<or> widths = {0} \<or> card widths \<noteq> 1 then Inl ValueError
         else if \<exists>(a, b) \<in> set (zip toks lps). length a \<noteq> length b then Inl ValueError
         else Inr t)"

record TrainMeta =
  prompt_length :: int
  response_length :: int
  supervised_tokens :: int
  mrope_3d :: bool
  has_rollout_logprobs :: bool
  has_routed_experts :: bool
  segment_index :: pyval

record RolloutState =
  group_id :: "int option"
  message :: pyval
  prompt_ids :: "int list option"
  num_tokens :: "int option"
  proxy_attn_flops :: "pyfloat option"
  data_source :: pyval
  mm_info :: pyval
  reward_model :: pyval
  session_id :: "int option"
  rs_tokens :: "int list option"
  tools :: pyval
  tool_choice :: pyval
  sample_params :: SampleParams
  response :: "string option"
  tool_calls :: pyval
  response_ids :: "int list option"
  logprobs :: "pyfloat list option"
  teacher_targets :: "TeacherTargets option"
  routed_experts :: pyval
  finish_reason :: "string option"
  response_model_steps :: "int list option"
  seq_staleness :: int
  rs_input_ids :: "int list option"
  rs_labels :: "int list option"
  train_meta :: "TrainMeta option"
  reward :: pyval
  rollout_id :: "int option"
  uid :: "int option"
  task_name :: "string option"
  status :: Status
  error_msg :: "string option"
  position_ids :: pyval
  extra_fields :: "(string \<times> pyval) list"

text \<open>\<open>x or []\<close> for an optional list.\<close>

definition or_nil :: "'a list option \<Rightarrow> 'a list" where
  "or_nil x = (case x of None \<Rightarrow> [] | Some xs \<Rightarrow> xs)"

definition model_post_init :: "RolloutState \<Rightarrow> RolloutState" where
  "model_post_init s =
     (if rollout_id s = None then s\<lparr>rollout_id := uid s\<rparr> else s\<lparr>uid := rollout_id s\<rparr>)"

subsection \<open>Training fields\<close>

definition ignore_index :: int where
  "ignore_index = -100"

definition count_supervised :: "int list \<Rightarrow> int" where
  "count_supervised ls = int (length (filter (\<lambda>l. l \<noteq> ignore_index) ls))"

text \<open>\<open>extra_fields.get("train_prompt_ids") or prompt_ids\<close>, by length: a missing or empty value falls
  back, and an empty fallback counts as missing.\<close>

fun value_len :: "pyval \<Rightarrow> nat" where
  "value_len (VList xs) = length xs"
| "value_len (VTuple xs) = length xs"
| "value_len _ = 0"

definition dict_get :: "(string \<times> pyval) list \<Rightarrow> string \<Rightarrow> pyval" where
  "dict_get d k = (case map_of d k of None \<Rightarrow> VNone | Some v \<Rightarrow> v)"

definition prompt_len_of :: "RolloutState \<Rightarrow> int list \<Rightarrow> int \<Rightarrow> int" where
  "prompt_len_of s ids kept =
     (let extra = value_len (dict_get (extra_fields s) ''train_prompt_ids'') in
      if 0 < extra then int extra
      else if or_nil (prompt_ids s) \<noteq> [] then int (length (or_nil (prompt_ids s)))
      else int (length ids) - 1 - kept)"

definition build_train_meta ::
  "RolloutState \<Rightarrow> int list \<Rightarrow> int list \<Rightarrow> pyfloat list option \<Rightarrow> int option \<Rightarrow> TrainMeta res" where
  "build_train_meta s ids labs lps plen =
     (if length ids < 2 then Inl ValueError
      else if length ids \<noteq> length labs then Inl ValueError
      else if lps \<noteq> None \<and> length (or_nil lps) \<noteq> length ids then Inl ValueError
      else
        let rlen = length (or_nil (response_ids s)) in
        if length labs < rlen then Inl ValueError
        else
          let kept = count_supervised (tl labs);
              p = (case plen of Some p \<Rightarrow> p | None \<Rightarrow> prompt_len_of s ids kept)
          in if p < 0 then Inl ValueError
             else Inr \<lparr>prompt_length = p, response_length = int rlen, supervised_tokens = kept,
                       mrope_3d = (position_ids s = VArray 3), has_rollout_logprobs = (lps \<noteq> None),
                       has_routed_experts = (routed_experts s \<noteq> VNone),
                       segment_index = dict_get (extra_fields s) ''agent_trace_segment_index''\<rparr>)"

definition set_training_fields ::
  "RolloutState \<Rightarrow> int list \<Rightarrow> int list \<Rightarrow> pyfloat list option \<Rightarrow> RolloutState res" where
  "set_training_fields s ids labs lps =
     rbind (build_train_meta s ids labs lps None) (\<lambda>meta.
       Inr (s\<lparr>rs_input_ids := Some ids, rs_labels := Some labs, logprobs := lps,
              num_tokens := Some (int (length ids) - 1), train_meta := Some meta\<rparr>))"

text \<open>\<open>labels[i] = v\<close> with Python's negative positions.\<close>

definition py_set :: "'a list \<Rightarrow> int \<Rightarrow> 'a \<Rightarrow> 'a list res" where
  "py_set xs i v =
     (if 0 \<le> i \<and> i < int (length xs) then Inr (xs[nat i := v])
      else if - int (length xs) \<le> i \<and> i < 0 then Inr (xs[nat (i + int (length xs)) := v])
      else Inl IndexError)"

fun mask_loop :: "int \<Rightarrow> bool list \<Rightarrow> int list \<Rightarrow> int list res" where
  "mask_loop pos [] labs = Inr labs"
| "mask_loop pos (keep # ms) labs =
     rbind (if keep then Inr labs else py_set labs pos ignore_index) (mask_loop (pos + 1) ms)"

definition apply_response_mask :: "RolloutState \<Rightarrow> bool list \<Rightarrow> RolloutState res" where
  "apply_response_mask s effective_mask =
     (case (rs_labels s, train_meta s) of
        (Some labs, Some meta) \<Rightarrow>
          if length effective_mask \<noteq> length (or_nil (response_ids s)) then Inl ValueError
          else rbind (mask_loop (int (length labs) - int (length effective_mask)) effective_mask labs) (\<lambda>labs'.
            Inr (s\<lparr>rs_labels := Some labs',
                   train_meta := Some (meta\<lparr>supervised_tokens := count_supervised (tl labs')\<rparr>)\<rparr>))
      | _ \<Rightarrow> Inl ValueError)"

definition validate_training :: "RolloutState \<Rightarrow> unit res" where
  "validate_training s =
     (case (rs_input_ids s, rs_labels s, train_meta s) of
        (Some ids, Some labs, Some meta) \<Rightarrow>
          rbind (build_train_meta s ids labs (logprobs s) (Some (prompt_length meta))) (\<lambda>expected.
            if num_tokens s \<noteq> Some (int (length ids) - 1) \<or> meta \<noteq> expected then Inl ValueError
            else if length (or_nil (response_model_steps s)) \<noteq> length (or_nil (response_ids s)) then Inl ValueError
            else Inr ())
      | _ \<Rightarrow> Inl ValueError)"

subsection \<open>Releasing references\<close>

text \<open>\<open>free_object_refs\<close> drops what is no reference and every repetition.\<close>

fun refs_in :: "pyval list \<Rightarrow> nat list" where
  "refs_in [] = []"
| "refs_in (VRef r # vs) = r # refs_in vs"
| "refs_in (v # vs) = refs_in vs"

fun dedup :: "'a list \<Rightarrow> 'a list \<Rightarrow> 'a list" where
  "dedup seen [] = []"
| "dedup seen (x # xs) = (if x \<in> set seen then dedup seen xs else x # dedup (x # seen) xs)"

definition free_object_refs :: "pyval list \<Rightarrow> nat list" where
  "free_object_refs refs = dedup [] (refs_in refs)"

definition reset_response :: "RolloutState \<Rightarrow> RolloutState \<times> nat list" where
  "reset_response s =
     (s\<lparr>routed_experts := VNone, rs_tokens := prompt_ids s, response := Some '''', response_ids := Some [],
        logprobs := Some [], teacher_targets := None, finish_reason := None, response_model_steps := Some [],
        reward := VNone, error_msg := None, rs_input_ids := None, rs_labels := None, num_tokens := None,
        train_meta := None\<rparr>,
      case routed_experts s of
        VRef r \<Rightarrow> free_object_refs [VRef r]
      | VList vs \<Rightarrow> free_object_refs vs
      | _ \<Rightarrow> [])"

fun clear_object_refs :: "pyval \<Rightarrow> pyval \<times> nat list" where
  "clear_object_refs (VRef r) = (VNone, [r])"
| "clear_object_refs (VModel fs) =
     (VModel (map (\<lambda>(k, v). (k, fst (clear_object_refs v))) fs), concat (map (\<lambda>(k, v). snd (clear_object_refs v)) fs))"
| "clear_object_refs (VDict fs) =
     (VDict (map (\<lambda>(k, v). (k, fst (clear_object_refs v))) fs), concat (map (\<lambda>(k, v). snd (clear_object_refs v)) fs))"
| "clear_object_refs (VList vs) =
     (VList (map (\<lambda>v. fst (clear_object_refs v)) vs), concat (map (\<lambda>v. snd (clear_object_refs v)) vs))"
| "clear_object_refs (VTuple vs) =
     (VTuple (map (\<lambda>v. fst (clear_object_refs v)) vs), concat (map (\<lambda>v. snd (clear_object_refs v)) vs))"
| "clear_object_refs v = (v, [])"

text \<open>The fields of the record that can hold references, in field order.\<close>

definition heavy_fields :: "RolloutState \<Rightarrow> pyval list" where
  "heavy_fields s = [message s, data_source s, mm_info s, reward_model s, tools s, tool_choice s, tool_calls s,
     routed_experts s, reward s, position_ids s, VDict (extra_fields s)]"

definition free_rollout_state_refs :: "RolloutState \<Rightarrow> RolloutState \<times> nat list" where
  "free_rollout_state_refs s =
     (let c = (\<lambda>v. fst (clear_object_refs v)) in
      (s\<lparr>message := c (message s), data_source := c (data_source s), mm_info := c (mm_info s),
         reward_model := c (reward_model s), tools := c (tools s), tool_choice := c (tool_choice s),
         tool_calls := c (tool_calls s), routed_experts := c (routed_experts s), reward := c (reward s),
         position_ids := c (position_ids s),
         extra_fields := map (\<lambda>(k, v). (k, c v)) (extra_fields s)\<rparr>,
       dedup [] (concat (map (\<lambda>v. snd (clear_object_refs v)) (heavy_fields s)))))"

text \<open>The defaults of all fields but the required \<open>message\<close>.\<close>

definition default_state :: "pyval \<Rightarrow> RolloutState" where
  "default_state msg = \<lparr>group_id = None, message = msg, prompt_ids = None, num_tokens = None,
     proxy_attn_flops = None, data_source = VNone, mm_info = VNone, reward_model = VNone, session_id = None,
     rs_tokens = None, tools = VNone, tool_choice = VNone, sample_params = default_sample_params, response = None,
     tool_calls = VNone, response_ids = None, logprobs = None, teacher_targets = None, routed_experts = VNone,
     finish_reason = None, response_model_steps = None, seq_staleness = 0, rs_input_ids = None, rs_labels = None,
     train_meta = None, reward = VNone, rollout_id = None, uid = None, task_name = None, status = INIT,
     error_msg = None, position_ids = VNone, extra_fields = []\<rparr>"

definition discard_rollout_state :: "RolloutState \<Rightarrow> RolloutState \<times> nat list" where
  "discard_rollout_state s =
     (let (s', refs) = free_rollout_state_refs s in (default_state (message s'), refs))"

subsection \<open>Status\<close>

definition lower_char :: "char \<Rightarrow> char" where
  "lower_char c = (let n = of_char c :: nat in if 65 \<le> n \<and> n \<le> 90 then char_of (n + 32) else c)"

definition update_status_from_finish_reason :: "string option \<Rightarrow> Status" where
  "update_status_from_finish_reason fr =
     (case fr of
        None \<Rightarrow> FAILED
      | Some r \<Rightarrow>
          let reason = map lower_char r in
          if reason \<in> set [''stop'', ''length'', ''tool_calls''] then COMPLETED
          else if reason = ''abort'' then ABORTED
          else if reason = ''error'' then FAILED
          else FAILED)"

definition is_valid_for_training :: "RolloutState list \<Rightarrow> bool" where
  "is_valid_for_training g =
     (let is_abort = (\<exists>s \<in> set g. status s = ABORTED);
          is_filtered = (\<exists>s \<in> set g. status s = FILTERED);
          is_failed = (\<exists>s \<in> set g. status s = FAILED)
      in if is_filtered \<or> is_failed \<or> is_abort then False
         else list_all (\<lambda>s. validate_training s \<noteq> Inl ValueError) g)"

definition get_group_status :: "RolloutState list \<Rightarrow> Status" where
  "get_group_status g =
     (if \<forall>s \<in> set g. status s = COMPLETED then COMPLETED
      else if \<exists>s \<in> set g. status s = FAILED then FAILED
      else if \<exists>s \<in> set g. status s = ABORTED then ABORTED
      else if \<exists>s \<in> set g. status s = EXPIRED then EXPIRED
      else if \<exists>s \<in> set g. status s = FILTERED then FILTERED
      else COMPLETED)"

subsection \<open>Model versions and staleness\<close>

definition calculate_seq_staleness :: "int \<Rightarrow> int \<Rightarrow> int" where
  "calculate_seq_staleness model_step current_train_step = current_train_step - model_step - 1"

definition update_sample_version :: "int \<Rightarrow> RolloutState \<Rightarrow> RolloutState" where
  "update_sample_version model_step s =
     (let response_len = length (or_nil (response_ids s));
          steps = or_nil (response_model_steps s)
      in s\<lparr>response_model_steps := Some (steps @ replicate (response_len - length steps) model_step)\<rparr>)"

definition refresh_one :: "int \<Rightarrow> RolloutState \<Rightarrow> RolloutState" where
  "refresh_one current_train_step s =
     (let steps = or_nil (response_model_steps s) in
      s\<lparr>seq_staleness := (if steps \<noteq> [] then calculate_seq_staleness (Min (set steps)) current_train_step else 0)\<rparr>)"

definition refresh_seq_staleness :: "RolloutState list \<Rightarrow> int \<Rightarrow> RolloutState list" where
  "refresh_seq_staleness g current_train_step = map (refresh_one current_train_step) g"

definition calculate_effective_response_mask :: "RolloutState \<Rightarrow> int \<Rightarrow> int \<Rightarrow> bool list" where
  "calculate_effective_response_mask s current_train_step token_stale_threshold =
     (let labs = or_nil (rs_labels s);
          offset = length labs - length (or_nil (response_ids s));
          semantic_mask = map (\<lambda>l. l \<noteq> ignore_index) (drop offset labs);
          token_staleness_mask = map (\<lambda>m. calculate_seq_staleness m current_train_step < token_stale_threshold)
                                   (or_nil (response_model_steps s))
      in map2 (\<and>) semantic_mask token_staleness_mask)"

definition calculate_group_effective_response_masks ::
  "RolloutState list \<Rightarrow> int \<Rightarrow> int option \<Rightarrow> bool list option list res" where
  "calculate_group_effective_response_masks g current_train_step token_stale_threshold =
     (case token_stale_threshold of
        None \<Rightarrow> Inr (replicate (length g) None)
      | Some th \<Rightarrow> rmap (\<lambda>s.
          if rs_labels s = None \<or> or_nil (response_ids s) = [] \<or>
             length (or_nil (rs_labels s)) < length (or_nil (response_ids s)) then Inr None
          else if response_model_steps s = None then Inl TypeError
          else Inr (Some (calculate_effective_response_mask s current_train_step th))) g)"

definition validate_rollout_group :: "RolloutState list \<Rightarrow> unit res" where
  "validate_rollout_group g =
     rbind (rmap (\<lambda>s.
       if status s \<notin> {COMPLETED, FAILED, FILTERED, ABORTED, EXPIRED} then Inl ValueError
       else if length (or_nil (response_ids s)) < length (or_nil (response_model_steps s)) then Inl ValueError
       else Inr ()) g) (\<lambda>_. Inr ())"

definition validate_train_group :: "RolloutState list \<Rightarrow> unit res" where
  "validate_train_group g =
     (if g = [] \<or> (\<exists>s \<in> set g. status s \<noteq> COMPLETED) then Inl ValueError
      else rbind (rmap validate_training g) (\<lambda>_. Inr ()))"

subsection \<open>Lemmas: masks\<close>

lemma or_nil_simps [simp]: "or_nil (Some xs) = xs" "or_nil None = []"
  by (simp_all add: or_nil_def)

definition mask_labels :: "bool list \<Rightarrow> int list \<Rightarrow> int list" where
  "mask_labels ms ls = map2 (\<lambda>k l. if k then l else ignore_index) ms ls"

lemma mask_loop_suffix:
  assumes "length ms = length suf"
  shows "mask_loop (int (length pre)) ms (pre @ suf) = Inr (pre @ mask_labels ms suf)"
  using assms
proof (induction ms suf arbitrary: pre rule: list_induct2)
  case (Cons k ms l suf)
  have "py_set (pre @ l # suf) (int (length pre)) ignore_index = Inr (pre @ ignore_index # suf)"
    by (simp add: py_set_def)
  then show ?case
    using Cons.IH [of "pre @ [l]"] Cons.IH [of "pre @ [ignore_index]"]
    by (simp add: mask_labels_def add.commute)
qed (simp add: mask_labels_def)

lemma mask_loop_drop:
  assumes "length ms \<le> length labs"
  shows "mask_loop (int (length labs) - int (length ms)) ms labs =
    Inr (take (length labs - length ms) labs @ mask_labels ms (drop (length labs - length ms) labs))"
  using mask_loop_suffix [of ms "drop (length labs - length ms) labs" "take (length labs - length ms) labs"] assms
  by (simp add: of_nat_diff)

lemma length_mask_labels [simp]: "length ms = length ls \<Longrightarrow> length (mask_labels ms ls) = length ls"
  by (simp add: mask_labels_def)

lemma mask_labels_nth: "i < length ms \<Longrightarrow> i < length ls \<Longrightarrow> mask_labels ms ls ! i = (if ms ! i then ls ! i else ignore_index)"
  by (simp add: mask_labels_def)

text \<open>What a validated sample satisfies.\<close>

definition meta_of :: "RolloutState \<Rightarrow> int list \<Rightarrow> int \<Rightarrow> TrainMeta" where
  "meta_of s labs p = \<lparr>prompt_length = p, response_length = int (length (or_nil (response_ids s))),
     supervised_tokens = count_supervised (tl labs), mrope_3d = (position_ids s = VArray 3),
     has_rollout_logprobs = (logprobs s \<noteq> None), has_routed_experts = (routed_experts s \<noteq> VNone),
     segment_index = dict_get (extra_fields s) ''agent_trace_segment_index''\<rparr>"

definition training_ok :: "RolloutState \<Rightarrow> int list \<Rightarrow> int list \<Rightarrow> int \<Rightarrow> bool" where
  "training_ok s ids labs p \<longleftrightarrow>
     rs_input_ids s = Some ids \<and> rs_labels s = Some labs \<and> train_meta s = Some (meta_of s labs p) \<and>
     2 \<le> length ids \<and> length ids = length labs \<and> (\<forall>lps. logprobs s = Some lps \<longrightarrow> length lps = length ids) \<and>
     length (or_nil (response_ids s)) \<le> length labs \<and> 0 \<le> p \<and> num_tokens s = Some (int (length ids) - 1) \<and>
     length (or_nil (response_model_steps s)) = length (or_nil (response_ids s))"

lemma build_train_meta_Inr:
  "build_train_meta s ids labs (logprobs s) plen = Inr m \<longleftrightarrow>
     2 \<le> length ids \<and> length ids = length labs \<and> (\<forall>lps. logprobs s = Some lps \<longrightarrow> length lps = length ids) \<and>
     length (or_nil (response_ids s)) \<le> length labs \<and>
     (let p = (case plen of Some p \<Rightarrow> p | None \<Rightarrow> prompt_len_of s ids (count_supervised (tl labs)))
      in 0 \<le> p \<and> m = meta_of s labs p)"
  by (auto simp: build_train_meta_def Let_def meta_of_def or_nil_def not_less split: option.splits)

lemma validate_training_iff:
  "validate_training s = Inr () \<longleftrightarrow> (\<exists>ids labs p. training_ok s ids labs p)"
proof
  assume v: "validate_training s = Inr ()"
  then obtain ids labs meta where f: "rs_input_ids s = Some ids" "rs_labels s = Some labs" "train_meta s = Some meta"
    by (auto simp: validate_training_def split: option.splits)
  with v have b: "build_train_meta s ids labs (logprobs s) (Some (prompt_length meta)) = Inr meta"
    "num_tokens s = Some (int (length ids) - 1)"
    "length (or_nil (response_model_steps s)) = length (or_nil (response_ids s))"
    by (auto simp: validate_training_def rbind_Inr_iff split: if_splits)
  from b(1) have m: "2 \<le> length ids" "length ids = length labs"
    "\<forall>lps. logprobs s = Some lps \<longrightarrow> length lps = length ids" "length (or_nil (response_ids s)) \<le> length labs"
    "0 \<le> prompt_length meta" "meta = meta_of s labs (prompt_length meta)"
    unfolding build_train_meta_Inr Let_def option.case by blast+
  have "training_ok s ids labs (prompt_length meta)" unfolding training_ok_def m(6) [symmetric] using f b(2,3) m(1-5) by blast
  then show "\<exists>ids labs p. training_ok s ids labs p" by blast
next
  assume "\<exists>ids labs p. training_ok s ids labs p"
  then obtain ids labs p where ok: "training_ok s ids labs p" by blast
  have "build_train_meta s ids labs (logprobs s) (Some (prompt_length (meta_of s labs p))) = Inr (meta_of s labs p)"
    using ok unfolding build_train_meta_Inr training_ok_def by (simp add: meta_of_def)
  then show "validate_training s = Inr ()" using ok by (simp add: validate_training_def training_ok_def)
qed

lemma apply_response_mask_ok:
  assumes ok: "training_ok s ids labs p" and len: "length ms = length (or_nil (response_ids s))"
  defines "k \<equiv> length labs - length ms"
  shows "\<exists>s'. apply_response_mask s ms = Inr s' \<and>
    training_ok s' ids (take k labs @ mask_labels ms (drop k labs)) p \<and>
    response_ids s' = response_ids s \<and> response_model_steps s' = response_model_steps s"
proof -
  let ?labs = "take k labs @ mask_labels ms (drop k labs)"
  have le: "length ms \<le> length labs" using ok len by (simp add: training_ok_def)
  have mask: "mask_loop (int (length labs) - int (length ms)) ms labs = Inr ?labs"
    unfolding k_def by (rule mask_loop_drop [OF le])
  have labs: "length ?labs = length labs" using le by (simp add: k_def)
  have "apply_response_mask s ms = Inr (s\<lparr>rs_labels := Some ?labs,
      train_meta := Some ((meta_of s labs p)\<lparr>supervised_tokens := count_supervised (tl ?labs)\<rparr>)\<rparr>)"
    using ok len mask by (simp add: apply_response_mask_def training_ok_def)
  then show ?thesis using ok labs by (auto simp: training_ok_def meta_of_def)
qed

subsection \<open>Lemmas: references\<close>

lemma dedup_set: "set (dedup seen xs) = set xs - set seen"
  by (induction seen xs rule: dedup.induct) auto

lemma dedup_distinct: "distinct (dedup seen xs)"
  by (induction seen xs rule: dedup.induct) (auto simp: dedup_set)

lemma dedup_id: "distinct xs \<Longrightarrow> set xs \<inter> set seen = {} \<Longrightarrow> dedup seen xs = xs"
  by (induction seen xs rule: dedup.induct) auto

text \<open>A cleared value holds no reference: clearing it again finds nothing and changes nothing.\<close>

lemma clear_object_refs_idem: "clear_object_refs (fst (clear_object_refs v)) = (fst (clear_object_refs v), [])"
  by (induction v rule: clear_object_refs.induct) (auto simp: comp_def case_prod_beta intro!: map_idI)

text \<open>The references nested anywhere in a value, and in a record.\<close>

fun value_refs :: "pyval \<Rightarrow> nat set" where
  "value_refs (VRef r) = {r}"
| "value_refs (VModel fs) = (\<Union>(k, v) \<in> set fs. value_refs v)"
| "value_refs (VDict fs) = (\<Union>(k, v) \<in> set fs. value_refs v)"
| "value_refs (VList vs) = (\<Union>v \<in> set vs. value_refs v)"
| "value_refs (VTuple vs) = (\<Union>v \<in> set vs. value_refs v)"
| "value_refs v = {}"

definition state_refs :: "RolloutState \<Rightarrow> nat set" where
  "state_refs s = (\<Union>v \<in> set (heavy_fields s). value_refs v)"

lemma clear_object_refs_set: "set (snd (clear_object_refs v)) = value_refs v"
  by (induction v rule: clear_object_refs.induct) (auto simp: case_prod_beta)

lemma value_refs_cleared: "value_refs (fst (clear_object_refs v)) = {}"
  using clear_object_refs_set [of "fst (clear_object_refs v)"] by (simp add: clear_object_refs_idem)

lemma free_rollout_state_refs_idem:
  "snd (free_rollout_state_refs (fst (free_rollout_state_refs s))) = []"
  by (simp add: free_rollout_state_refs_def heavy_fields_def Let_def clear_object_refs_idem comp_def case_prod_beta)

subsection \<open>Lemmas: staleness\<close>

definition fresh :: "int \<Rightarrow> int \<Rightarrow> int \<Rightarrow> bool" where
  "fresh t th m \<longleftrightarrow> calculate_seq_staleness m t < th"

lemma fresh_antimono: "t \<le> t' \<Longrightarrow> fresh t' th m \<Longrightarrow> fresh t th m"
  by (simp add: fresh_def calculate_seq_staleness_def)

lemma refresh_is_max:
  assumes "or_nil (response_model_steps s) \<noteq> []"
  shows "seq_staleness (refresh_one t s) =
    Max (set (map (\<lambda>m. calculate_seq_staleness m t) (or_nil (response_model_steps s))))"
proof -
  let ?ms = "set (or_nil (response_model_steps s))"
  have ne: "?ms \<noteq> {}" "finite ?ms" using assms by auto
  have "t - Min ?ms - 1 = Max ((\<lambda>m. t - m - 1) ` ?ms)"
  proof (rule Max_eqI [symmetric])
    show "t - Min ?ms - 1 \<in> (\<lambda>m. t - m - 1) ` ?ms" using ne Min_in by blast
    show "y \<le> t - Min ?ms - 1" if y: "y \<in> (\<lambda>m. t - m - 1) ` ?ms" for y
    proof -
      obtain m where m: "m \<in> ?ms" "y = t - m - 1" using y by blast
      from Min_le [OF ne(2) m(1)] show ?thesis unfolding m(2) by linarith
    qed
  qed (use ne in simp)
  then show ?thesis using assms by (simp add: refresh_one_def calculate_seq_staleness_def)
qed

subsection \<open>Properties\<close>

text \<open>C11. Published training fields stay consistent: what \<open>set_training_fields\<close> publishes passes
  \<open>validate_training\<close> once the model versions align with the response; applying any response mask of the
  right length succeeds, keeps the sample valid, leaves prompt and kept positions alone and turns exactly
  the masked response positions into ignore tokens; after \<open>reset_response\<close> the sample is invalid.\<close>

theorem training_fields_consistent:
  assumes "set_training_fields s ids labs lps = Inr s1"
    and "length (or_nil (response_model_steps s)) = length (or_nil (response_ids s))"
    and "length ms = length (or_nil (response_ids s))"
  shows "validate_training s1 = Inr () \<and>
    (\<exists>s2. apply_response_mask s1 ms = Inr s2 \<and> validate_training s2 = Inr () \<and>
       (\<exists>labs2. rs_labels s2 = Some labs2 \<and> length labs2 = length labs \<and>
          (\<forall>i < length labs. labs2 ! i =
             (if length labs - length ms \<le> i \<and> \<not> ms ! (i - (length labs - length ms)) then ignore_index else labs ! i))) \<and>
       validate_training (fst (reset_response s2)) = Inl ValueError)"
proof -
  obtain meta where meta: "build_train_meta s ids labs lps None = Inr meta"
    and s1: "s1 = s\<lparr>rs_input_ids := Some ids, rs_labels := Some labs, logprobs := lps,
              num_tokens := Some (int (length ids) - 1), train_meta := Some meta\<rparr>"
    using assms(1) by (auto simp: set_training_fields_def rbind_Inr_iff)
  have "build_train_meta s1 ids labs lps None = build_train_meta s ids labs lps None"
    unfolding s1 build_train_meta_def prompt_len_of_def by (simp add: Let_def cong: if_cong)
  then have "build_train_meta s1 ids labs (logprobs s1) None = Inr meta" using meta by (simp add: s1)
  then obtain p where ok1: "training_ok s1 ids labs p"
    using assms(2) unfolding build_train_meta_Inr by (auto simp: training_ok_def s1 Let_def)
  let ?k = "length labs - length ms"
  let ?labs2 = "take ?k labs @ mask_labels ms (drop ?k labs)"
  have le: "length ms \<le> length labs" using ok1 assms(3) by (simp add: training_ok_def s1)
  obtain s2 where s2: "apply_response_mask s1 ms = Inr s2" "training_ok s2 ids ?labs2 p"
    using apply_response_mask_ok [OF ok1, of ms] assms(3) by (auto simp: s1)
  have "rs_labels s2 = Some ?labs2" using s2(2) by (simp add: training_ok_def)
  moreover have "?labs2 ! i = (if ?k \<le> i \<and> \<not> ms ! (i - ?k) then ignore_index else labs ! i)" if "i < length labs" for i
    using that le by (auto simp: nth_append mask_labels_nth)
  moreover have "length ?labs2 = length labs" using le by simp
  moreover have "validate_training (fst (reset_response s2)) = Inl ValueError"
    by (simp add: validate_training_def reset_response_def)
  ultimately show ?thesis using ok1 s2 validate_training_iff by blast
qed

theorem training_fields_consistent_witness:
  "validate_training ((default_state VNone)\<lparr>response_ids := Some [7, 8], response_model_steps := Some [0, 1],
      rs_input_ids := Some [5, 7, 8], rs_labels := Some [-100, 7, 8], logprobs := None, num_tokens := Some 2,
      train_meta := Some \<lparr>prompt_length = 0, response_length = 2, supervised_tokens = 2, mrope_3d = False,
        has_rollout_logprobs = False, has_routed_experts = False, segment_index = VNone\<rparr>\<rparr>) = Inr ()"
proof -
  let ?s = "(default_state VNone)\<lparr>response_ids := Some [7, 8], response_model_steps := Some [0, 1]\<rparr>"
  have "set_training_fields ?s [5, 7, 8] [-100, 7, 8] None = Inr (?s\<lparr>
      rs_input_ids := Some [5, 7, 8], rs_labels := Some [-100, 7, 8], logprobs := None, num_tokens := Some 2,
      train_meta := Some \<lparr>prompt_length = 0, response_length = 2, supervised_tokens = 2, mrope_3d = False,
        has_rollout_logprobs = False, has_routed_experts = False, segment_index = VNone\<rparr>\<rparr>)"
    by (simp add: set_training_fields_def build_train_meta_def default_state_def or_nil_def count_supervised_def
        ignore_index_def prompt_len_of_def dict_get_def Let_def)
  from training_fields_consistent [OF this, of "[True, False]"] show ?thesis
    by (simp add: default_state_def or_nil_def)
qed

text \<open>C12. Baking token staleness into the labels converges: on a validated sample, masking at one trainer
  step and again at a later one succeeds and gives the same sample as masking at the later step only; and
  the supervised positions that remain are those supervised before whose token is fresh enough.\<close>

theorem stale_masks_converge:
  assumes ok: "validate_training s = Inr ()" and le: "t1 \<le> t2"
    and s1: "apply_response_mask s (calculate_effective_response_mask s t1 th) = Inr s1"
  shows "\<exists>s2. apply_response_mask s1 (calculate_effective_response_mask s1 t2 th) = Inr s2 \<and>
      apply_response_mask s (calculate_effective_response_mask s t2 th) = Inr s2 \<and> validate_training s2 = Inr () \<and>
      (let k = length (or_nil (rs_labels s)) - length (or_nil (response_ids s)) in
       take k (or_nil (rs_labels s2)) = take k (or_nil (rs_labels s)) \<and>
       (\<forall>j < length (or_nil (response_ids s)). or_nil (rs_labels s2) ! (k + j) =
          (if calculate_seq_staleness (or_nil (response_model_steps s) ! j) t2 < th
           then or_nil (rs_labels s) ! (k + j) else ignore_index)))"
proof -
  obtain ids labs p where tok: "training_ok s ids labs p" using ok validate_training_iff by blast
  let ?n = "length (or_nil (response_ids s))"
  let ?steps = "or_nil (response_model_steps s)"
  let ?k = "length labs - ?n"
  let ?m = "\<lambda>t ls. calculate_effective_response_mask (s\<lparr>rs_labels := Some ls\<rparr>) t th"
  have labs: "rs_labels s = Some labs" "?n \<le> length labs" "length ?steps = ?n" "train_meta s \<noteq> None"
    using tok by (auto simp: training_ok_def)
  have meq: "calculate_effective_response_mask s t th = ?m t labs" for t
    by (simp add: calculate_effective_response_mask_def labs(1) or_nil_def)
  have mlen: "length (?m t ls) = ?n" if "length ls = length labs" for t ls
    using that labs by (simp add: calculate_effective_response_mask_def Let_def or_nil_def)
  have mnth: "?m t ls ! j = (ls ! (?k + j) \<noteq> ignore_index \<and> fresh t th (?steps ! j))"
    if "length ls = length labs" "j < ?n" for t ls j
    using that labs by (simp add: calculate_effective_response_mask_def Let_def or_nil_def fresh_def)
  let ?L = "\<lambda>t ls. take ?k ls @ mask_labels (?m t ls) (drop ?k ls)"
  have Llen: "length (?L t ls) = length labs" if "length ls = length labs" for t ls
    using mlen [OF that] labs that by simp
  have Lnth: "?L t ls ! (?k + j) = (if fresh t th (?steps ! j) then ls ! (?k + j) else ignore_index)"
    if "length ls = length labs" "j < ?n" for t ls j
    using mlen [OF that(1)] mnth [OF that] labs that by (auto simp: nth_append mask_labels_nth)
  have app: "apply_response_mask s' (?m t ls) = Inr (s\<lparr>rs_labels := Some (?L t ls),
      train_meta := Some ((meta_of s labs p)\<lparr>supervised_tokens := count_supervised (tl (?L t ls))\<rparr>)\<rparr>)"
    if "length ls = length labs" "s' = s\<lparr>rs_labels := Some ls, train_meta := Some ((meta_of s labs p)\<lparr>supervised_tokens := c\<rparr>)\<rparr>"
    for s' t ls c
    using that mlen [OF that(1), of t] mask_loop_drop [of "?m t ls" ls] labs
    by (simp add: apply_response_mask_def)
  have s_eq: "s = s\<lparr>rs_labels := Some labs,
      train_meta := Some ((meta_of s labs p)\<lparr>supervised_tokens := supervised_tokens (meta_of s labs p)\<rparr>)\<rparr>"
    using tok by (simp add: training_ok_def)
  note app0 = app [OF refl s_eq]
  define s2 where "s2 = s\<lparr>rs_labels := Some (?L t2 labs),
      train_meta := Some ((meta_of s labs p)\<lparr>supervised_tokens := count_supervised (tl (?L t2 labs))\<rparr>)\<rparr>"
  have s1_eq: "s1 = s\<lparr>rs_labels := Some (?L t1 labs),
      train_meta := Some ((meta_of s labs p)\<lparr>supervised_tokens := count_supervised (tl (?L t1 labs))\<rparr>)\<rparr>"
    using s1 app0 [of t1] unfolding meq by simp
  have Leq: "?L t2 (?L t1 labs) = ?L t2 labs"
  proof (rule nth_equalityI)
    show "length (?L t2 (?L t1 labs)) = length (?L t2 labs)" using Llen [OF Llen [OF refl]] Llen [OF refl] by metis
    fix i assume "i < length (?L t2 (?L t1 labs))"
    then have i: "i < length labs" using Llen [OF Llen [OF refl]] by metis
    show "?L t2 (?L t1 labs) ! i = ?L t2 labs ! i"
    proof (cases "i < ?k")
      case True
      then show ?thesis by (simp add: nth_append)
    next
      case False
      then obtain j where j: "i = ?k + j" "j < ?n" using i labs(2) le_Suc_ex by (metis add_less_cancel_left le_add_diff_inverse2 not_less)
      show ?thesis
        unfolding j(1) Lnth [OF Llen [OF refl] j(2)] Lnth [OF refl j(2)] using fresh_antimono [OF le] by auto
    qed
  qed
  have "apply_response_mask s1 (?m t2 (?L t1 labs)) = Inr s2"
    using app [OF Llen [OF refl] s1_eq, of t2] unfolding Leq s2_def .
  moreover have "calculate_effective_response_mask s1 t2 th = ?m t2 (?L t1 labs)"
    unfolding s1_eq by (simp add: calculate_effective_response_mask_def)
  moreover have a2: "apply_response_mask s (?m t2 labs) = Inr s2" using app0 [of t2] unfolding s2_def .
  moreover have "validate_training s2 = Inr ()"
    using apply_response_mask_ok [OF tok mlen [OF refl], of t2] a2 validate_training_iff by auto
  moreover have "or_nil (rs_labels s2) = ?L t2 labs" by (simp add: s2_def or_nil_def)
  ultimately show ?thesis
    unfolding meq Let_def using labs(1) Lnth [OF refl] by (auto simp: or_nil_def fresh_def)
qed

theorem stale_masks_converge_witness:
  "\<exists>s2. apply_response_mask ((default_state VNone)\<lparr>response_ids := Some [7, 8], response_model_steps := Some [0, 1],
      rs_input_ids := Some [5, 7, 8], rs_labels := Some [-100, 7, 8], logprobs := None, num_tokens := Some 2,
      train_meta := Some \<lparr>prompt_length = 0, response_length = 2, supervised_tokens = 2, mrope_3d = False,
        has_rollout_logprobs = False, has_routed_experts = False, segment_index = VNone\<rparr>\<rparr>) [False, True] = Inr s2 \<and>
    validate_training s2 = Inr ()"
proof -
  let ?s = "(default_state VNone)\<lparr>response_ids := Some [7, 8], response_model_steps := Some [0, 1],
      rs_input_ids := Some [5, 7, 8], rs_labels := Some [-100, 7, 8], logprobs := None, num_tokens := Some 2,
      train_meta := Some \<lparr>prompt_length = 0, response_length = 2, supervised_tokens = 2, mrope_3d = False,
        has_rollout_logprobs = False, has_routed_experts = False, segment_index = VNone\<rparr>\<rparr>"
  have v: "validate_training ?s = Inr ()"
    by (simp add: validate_training_def build_train_meta_def default_state_def or_nil_def count_supervised_def
        ignore_index_def dict_get_def Let_def)
  have m: "calculate_effective_response_mask ?s 2 2 = [True, True]"
    and m3: "calculate_effective_response_mask ?s 3 2 = [False, True]"
    by (simp_all add: calculate_effective_response_mask_def or_nil_def ignore_index_def calculate_seq_staleness_def)
  have a: "apply_response_mask ?s (calculate_effective_response_mask ?s 2 2) = Inr ?s"
    unfolding m by (simp add: apply_response_mask_def or_nil_def count_supervised_def ignore_index_def)
  have le: "(2::int) \<le> 3" by simp
  from stale_masks_converge [OF v le a] show ?thesis unfolding m3 by (elim exE conjE) (rule exI, rule conjI)
qed

text \<open>C13. Discarding a sample releases every reference it holds exactly once: the released list has no
  repetition, contains precisely the references nested anywhere in the record, nothing remains in the
  record, and releasing or discarding again releases nothing.\<close>

theorem discard_frees_each_ref_once:
  "distinct (snd (discard_rollout_state s)) \<and>
   set (snd (discard_rollout_state s)) = state_refs s \<and>
   snd (free_rollout_state_refs s) = snd (discard_rollout_state s) \<and>
   state_refs (fst (free_rollout_state_refs s)) = {} \<and>
   state_refs (fst (discard_rollout_state s)) = {} \<and>
   snd (free_rollout_state_refs (fst (free_rollout_state_refs s))) = [] \<and>
   snd (discard_rollout_state (fst (discard_rollout_state s))) = []"
proof -
  have d: "discard_rollout_state s = (default_state (message (fst (free_rollout_state_refs s))), snd (free_rollout_state_refs s))" for s
    by (simp add: discard_rollout_state_def case_prod_beta)
  have msg: "message (fst (free_rollout_state_refs s)) = fst (clear_object_refs (message s))"
    by (simp add: free_rollout_state_refs_def Let_def)
  have none: "state_refs (fst (free_rollout_state_refs s)) = {}"
    by (simp add: state_refs_def heavy_fields_def free_rollout_state_refs_def Let_def value_refs_cleared comp_def case_prod_beta)
  have def_none: "state_refs (default_state (fst (clear_object_refs v))) = {}" for v
    by (simp add: state_refs_def heavy_fields_def default_state_def value_refs_cleared)
  have refs: "set (snd (free_rollout_state_refs s)) = state_refs s" for s
    by (simp add: free_rollout_state_refs_def Let_def dedup_set state_refs_def clear_object_refs_set)
  have "distinct (snd (free_rollout_state_refs s))" by (simp add: free_rollout_state_refs_def Let_def dedup_distinct)
  moreover have "snd (free_rollout_state_refs (default_state (fst (clear_object_refs (message s))))) = []"
    using refs [of "default_state (fst (clear_object_refs (message s)))"] def_none by simp
  ultimately show ?thesis using none refs def_none free_rollout_state_refs_idem by (simp add: d msg)
qed

text \<open>The gate in front of training: a group passes \<open>validate_train_group\<close> exactly when it is nonempty,
  all its samples are COMPLETED and each has consistent training fields; such a group has status
  COMPLETED and is valid for training. A group of status FAILED, ABORTED or FILTERED is never valid, and
  the group status does not depend on the order of the samples.\<close>

theorem train_group_gate:
  "(validate_train_group g = Inr () \<longleftrightarrow>
      g \<noteq> [] \<and> list_all (\<lambda>s. status s = COMPLETED \<and> validate_training s = Inr ()) g) \<and>
   \<not> (validate_train_group g = Inr () \<and> \<not> (get_group_status g = COMPLETED \<and> is_valid_for_training g)) \<and>
   \<not> (get_group_status g \<in> {FAILED, ABORTED, FILTERED} \<and> is_valid_for_training g) \<and>
   \<not> (mset h = mset g \<and> get_group_status h \<noteq> get_group_status g)"
proof -
  have gate: "validate_train_group g = Inr () \<longleftrightarrow>
      g \<noteq> [] \<and> list_all (\<lambda>s. status s = COMPLETED \<and> validate_training s = Inr ()) g"
    by (auto simp: validate_train_group_def rbind_Inr_iff rmap_unit_iff list_all_iff split: if_splits)
  have "\<not> (get_group_status g \<in> {FAILED, ABORTED, FILTERED} \<and> is_valid_for_training g)"
    by (auto simp: get_group_status_def is_valid_for_training_def Let_def split: if_splits)
  moreover have "get_group_status h = get_group_status g" if "mset h = mset g"
    using mset_eq_setD [OF that] by (simp add: get_group_status_def)
  moreover have "get_group_status g = COMPLETED \<and> is_valid_for_training g" if "validate_train_group g = Inr ()"
    using that unfolding gate
    by (auto simp: get_group_status_def is_valid_for_training_def Let_def list_all_iff)
  ultimately show ?thesis using gate by blast
qed

text \<open>Model versions: completing the versions of a sample whose recorded versions do not exceed its response
  keeps those recorded, gives one version per response token, and is final: a later completion with another
  version changes nothing. The staleness written by \<open>refresh_seq_staleness\<close> is then the largest token staleness.\<close>

theorem sample_versions_complete:
  assumes "length (or_nil (response_model_steps s)) \<le> length (or_nil (response_ids s))"
    and "or_nil (response_ids s) \<noteq> []"
  shows "let s' = update_sample_version v s; steps = or_nil (response_model_steps s') in
     length steps = length (or_nil (response_ids s')) \<and>
     take (length (or_nil (response_model_steps s))) steps = or_nil (response_model_steps s) \<and>
     set (drop (length (or_nil (response_model_steps s))) steps) \<subseteq> {v} \<and>
     update_sample_version w s' = s' \<and>
     map seq_staleness (refresh_seq_staleness [s'] t) = [Max (set (map (\<lambda>m. calculate_seq_staleness m t) steps))]"
proof -
  let ?s = "update_sample_version v s"
  have steps: "or_nil (response_model_steps ?s) =
      or_nil (response_model_steps s) @ replicate (length (or_nil (response_ids s)) - length (or_nil (response_model_steps s))) v"
    and ids: "response_ids ?s = response_ids s"
    by (simp_all add: update_sample_version_def Let_def)
  have len: "length (or_nil (response_model_steps ?s)) = length (or_nil (response_ids s))" using assms(1) by (simp add: steps)
  have "response_model_steps ?s = Some (or_nil (response_model_steps ?s))"
    by (simp add: update_sample_version_def Let_def)
  then have "update_sample_version w ?s = ?s" using len ids by (simp add: update_sample_version_def [of w])
  moreover have "seq_staleness (refresh_one t ?s) =
      Max (set (map (\<lambda>m. calculate_seq_staleness m t) (or_nil (response_model_steps ?s))))"
    by (rule refresh_is_max) (use len assms(2) in auto)
  moreover have "take (length (or_nil (response_model_steps s))) (or_nil (response_model_steps ?s)) = or_nil (response_model_steps s)"
    "set (drop (length (or_nil (response_model_steps s))) (or_nil (response_model_steps ?s))) \<subseteq> {v}"
    by (auto simp: steps)
  ultimately show ?thesis using len ids by (simp add: Let_def refresh_seq_staleness_def)
qed

theorem sample_versions_complete_witness:
  "update_sample_version 9 (update_sample_version 4
     ((default_state VNone)\<lparr>response_ids := Some [7, 8, 9], response_model_steps := Some [2]\<rparr>)) =
   update_sample_version 4 ((default_state VNone)\<lparr>response_ids := Some [7, 8, 9], response_model_steps := Some [2]\<rparr>)"
proof -
  let ?s = "(default_state VNone)\<lparr>response_ids := Some [7, 8, 9], response_model_steps := Some [2]\<rparr>"
  have "length (or_nil (response_model_steps ?s)) \<le> length (or_nil (response_ids ?s))" "or_nil (response_ids ?s) \<noteq> []"
    by simp_all
  from sample_versions_complete [OF this, of 4 9 5] show ?thesis unfolding Let_def by blast
qed

end
