(* ===== verification/ReplayQuery.thy ===== *)
theory ReplayQuery
  imports RolloutData "HOL-Library.List_Lexorder" "HOL-Library.Char_ord"
begin

text \<open>
  The query language of the replay storage: the syntax tree and its parser \<open>parse_query\<close> of
  \<^verbatim>\<open>xtuner/v1/rl/utils/misc.py\<close>, and the evaluation \<open>NaiveStorage._evaluate\<close> of
  \<^verbatim>\<open>xtuner/v1/rl/replay_buffer.py\<close> on a \<open>StorageItem\<close>.

  Query values are the values a \<open>StorageItem\<close> field can have, and \<open>None\<close>; a list of rollout states is
  one value (\<open>QItems\<close>). Operands of the operators are Python lists and tuples of them, dictionaries in
  insertion order, or ready syntax trees. Python's \<open>==\<close> between different types is false; an order
  comparison between values that have none raises \<open>TypeError\<close>. Two lists of states are ordered by
  length when one extends the other and not comparable otherwise, since states have no order.
\<close>

subsection \<open>Stored items and query values\<close>

record StorageItem =
  si_item :: "RolloutState list"
  si_uid :: int
  si_timestamp_id :: int
  si_task_name :: string
  si_status :: Status
  si_staleness :: int

datatype qval = QNone | QInt int | QStr string | QStatus Status | QItems "RolloutState list"

datatype operand =
    QVal qval
  | QList "operand list"
  | QTuple "operand list"
  | QDict "(string \<times> operand) list"
  | QAst query_node
and query_node =
    ScalarNode string string operand
  | SetNode string string "operand list"
  | BetweenNode string operand operand
  | LogicNode string "query_node list"

text \<open>\<open>==\<close> of a field value with an operand.\<close>

fun py_eq :: "qval \<Rightarrow> operand \<Rightarrow> bool" where
  "py_eq v (QVal w) = (v = w)"
| "py_eq v _ = False"

text \<open>\<open>a \<le> b\<close> and \<open>a < b\<close>.\<close>

fun qval_le :: "qval \<Rightarrow> qval \<Rightarrow> bool res" where
  "qval_le (QInt a) (QInt b) = Inr (a \<le> b)"
| "qval_le (QStr a) (QStr b) = Inr (a \<le> b)"
| "qval_le (QItems a) (QItems b) =
     (let n = min (length a) (length b) in
      if take n a = take n b then Inr (length a \<le> length b) else Inl TypeError)"
| "qval_le _ _ = Inl TypeError"

fun py_le :: "operand \<Rightarrow> operand \<Rightarrow> bool res" where
  "py_le (QVal a) (QVal b) = qval_le a b"
| "py_le _ _ = Inl TypeError"

definition py_lt :: "operand \<Rightarrow> operand \<Rightarrow> bool res" where
  "py_lt a b = rbind (py_le b a) (\<lambda>r. Inr (\<not> r))"

subsection \<open>The parser\<close>

definition scalar_operators :: "string list" where
  "scalar_operators = [''$eq'', ''$ne'', ''$gt'', ''$gte'', ''$lt'', ''$lte'']"

definition set_operators :: "string list" where
  "set_operators = [''$in'', ''$not_in'']"

definition between_node :: "string \<Rightarrow> operand \<Rightarrow> operand \<Rightarrow> query_node res" where
  "between_node f lower upper = rbind (py_lt upper lower) (\<lambda>b. if b then Inl ValueError else Inr (BetweenNode f lower upper))"

fun sequence_items :: "operand \<Rightarrow> operand list option" where
  "sequence_items (QList vs) = Some vs"
| "sequence_items (QTuple vs) = Some vs"
| "sequence_items _ = None"

definition parse_operator :: "string \<Rightarrow> string \<times> operand \<Rightarrow> query_node res" where
  "parse_operator f e =
     (let (op, op_val) = e in
      if op \<in> set scalar_operators then Inr (ScalarNode f op op_val)
      else if op \<in> set set_operators then
        (case sequence_items op_val of None \<Rightarrow> Inl ValueError | Some vs \<Rightarrow> Inr (SetNode f op vs))
      else if op = ''$between'' then
        (case sequence_items op_val of Some [lower, upper] \<Rightarrow> between_node f lower upper | _ \<Rightarrow> Inl ValueError)
      else Inl ValueError)"

text \<open>The conditions collected so far, as one node.\<close>

definition conjoin :: "query_node list \<Rightarrow> query_node" where
  "conjoin conditions =
     (if 1 < length conditions then LogicNode ''$and'' conditions
      else case conditions of [] \<Rightarrow> LogicNode ''$and'' [] | c # _ \<Rightarrow> c)"

fun parse_query :: "operand \<Rightarrow> query_node res"
  and parse_entry :: "string \<Rightarrow> operand \<Rightarrow> query_node list res" where
  "parse_query (QAst n) = Inr n"
| "parse_query (QDict es) =
     rbind (rmap (\<lambda>(key, v). parse_entry key v) es) (\<lambda>cs. Inr (conjoin (concat cs)))"
| "parse_query (QVal v) = Inl ValueError"
| "parse_query (QList vs) = Inl ValueError"
| "parse_query (QTuple vs) = Inl ValueError"
| "parse_entry key (QList vs) =
     (if key \<in> set [''$and'', ''$or''] then rbind (rmap parse_query vs) (\<lambda>subs. Inr [LogicNode key subs])
      else Inr [ScalarNode key ''$eq'' (QList vs)])"
| "parse_entry key (QDict ops) =
     (if key \<in> set [''$and'', ''$or''] then Inl ValueError else rmap (parse_operator key) ops)"
| "parse_entry key (QVal v) =
     (if key \<in> set [''$and'', ''$or''] then Inl ValueError else Inr [ScalarNode key ''$eq'' (QVal v)])"
| "parse_entry key (QTuple vs) =
     (if key \<in> set [''$and'', ''$or''] then Inl ValueError else Inr [ScalarNode key ''$eq'' (QTuple vs)])"
| "parse_entry key (QAst n) =
     (if key \<in> set [''$and'', ''$or''] then Inl ValueError else Inr [ScalarNode key ''$eq'' (QAst n)])"

subsection \<open>Evaluation\<close>

definition field_value :: "StorageItem \<Rightarrow> string \<Rightarrow> qval res" where
  "field_value it f =
     (if f = ''item'' then Inr (QItems (si_item it))
      else if f = ''uid'' then Inr (QInt (si_uid it))
      else if f = ''timestamp_id'' then Inr (QInt (si_timestamp_id it))
      else if f = ''task_name'' then Inr (QStr (si_task_name it))
      else if f = ''status'' then Inr (QStatus (si_status it))
      else if f = ''staleness'' then Inr (QInt (si_staleness it))
      else Inl ValueError)"

text \<open>\<open>all\<close> and \<open>any\<close> stop at the first decisive element.\<close>

fun rall :: "('a \<Rightarrow> bool res) \<Rightarrow> 'a list \<Rightarrow> bool res" where
  "rall f [] = Inr True"
| "rall f (x # xs) = rbind (f x) (\<lambda>b. if b then rall f xs else Inr False)"

fun rany :: "('a \<Rightarrow> bool res) \<Rightarrow> 'a list \<Rightarrow> bool res" where
  "rany f [] = Inr False"
| "rany f (x # xs) = rbind (f x) (\<lambda>b. if b then Inr True else rany f xs)"

lemma rall_cong [fundef_cong]: "xs = ys \<Longrightarrow> (\<And>x. x \<in> set ys \<Longrightarrow> f x = g x) \<Longrightarrow> rall f xs = rall g ys"
  by (induction ys arbitrary: xs) (auto cong: if_cong)

lemma rany_cong [fundef_cong]: "xs = ys \<Longrightarrow> (\<And>x. x \<in> set ys \<Longrightarrow> f x = g x) \<Longrightarrow> rany f xs = rany g ys"
  by (induction ys arbitrary: xs) (auto cong: if_cong)

definition eval_scalar :: "string \<Rightarrow> qval \<Rightarrow> operand \<Rightarrow> bool res" where
  "eval_scalar op v x =
     (if op = ''$eq'' then Inr (py_eq v x)
      else if op = ''$ne'' then Inr (\<not> py_eq v x)
      else if op = ''$gt'' then py_lt x (QVal v)
      else if op = ''$gte'' then py_le x (QVal v)
      else if op = ''$lt'' then py_lt (QVal v) x
      else if op = ''$lte'' then py_le (QVal v) x
      else Inr False)"

definition eval_set :: "string \<Rightarrow> qval \<Rightarrow> operand list \<Rightarrow> bool" where
  "eval_set op v xs =
     (if op = ''$in'' then \<exists>x \<in> set xs. py_eq v x
      else if op = ''$not_in'' then \<not> (\<exists>x \<in> set xs. py_eq v x)
      else False)"

fun evaluate :: "StorageItem \<Rightarrow> query_node \<Rightarrow> bool res" where
  "evaluate it (LogicNode relation conditions) =
     (if conditions = [] then Inr (relation = ''$and'')
      else if relation = ''$and'' then rall (evaluate it) conditions
      else rany (evaluate it) conditions)"
| "evaluate it (ScalarNode f op x) = rbind (field_value it f) (\<lambda>v. eval_scalar op v x)"
| "evaluate it (SetNode f op xs) = rbind (field_value it f) (\<lambda>v. Inr (eval_set op v xs))"
| "evaluate it (BetweenNode f lower upper) = rbind (field_value it f) (\<lambda>v.
     rbind (py_le lower (QVal v)) (\<lambda>b. if b then py_le (QVal v) upper else Inr False))"

subsection \<open>Lemmas\<close>

lemma rall_append: "rall f (xs @ ys) = rbind (rall f xs) (\<lambda>b. if b then rall f ys else Inr False)"
  by (induction xs) (auto simp: rbind_def split: sum.splits)

lemma rall_concat: "rall f (concat xss) = rall (rall f) xss"
  by (induction xss) (simp_all add: rall_append cong: if_cong)

lemma rall_single: "rall f [x] = f x"
  by (cases "f x") auto

lemma rall_total: "(\<And>x. x \<in> set xs \<Longrightarrow> f x = Inr (P x)) \<Longrightarrow> rall f xs = Inr (list_all P xs)"
  by (induction xs) auto

lemma evaluate_conjoin: "evaluate it (conjoin cs) = rall (evaluate it) cs"
proof (cases cs)
  case (Cons c ds)
  then show ?thesis by (cases ds) (simp_all add: conjoin_def rall_single del: rall.simps)
qed (simp add: conjoin_def)

subsection \<open>Properties\<close>

text \<open>A dictionary query is the conjunction of its entries: when \<open>parse_query\<close> accepts it, evaluating the tree
  gives, on every item, what evaluating the entries one by one from left to right gives, up to the first that
  fails or raises; the empty query holds everywhere.\<close>

theorem query_dict_is_conjunction:
  assumes "parse_query (QDict es) = Inr ast"
  shows "evaluate it ast = rall (\<lambda>e. rbind (parse_query (QDict [e])) (evaluate it)) es"
proof -
  obtain css where css: "rmap (\<lambda>(key, v). parse_entry key v) es = Inr css" and ast: "ast = conjoin (concat css)"
    using assms by (auto simp: rbind_Inr_iff)
  have "rall (rall (evaluate it)) css = rall (\<lambda>e. rbind (parse_query (QDict [e])) (evaluate it)) es"
    using css unfolding rmap_Inr_iff
  proof (induction es css rule: list_all2_induct)
    case (Cons e es cs css)
    have "rbind (parse_query (QDict [e])) (evaluate it) = rall (evaluate it) cs"
      using Cons.hyps(1) by (auto simp: evaluate_conjoin case_prod_beta)
    then show ?case using Cons.IH by (simp cong: if_cong del: parse_query.simps)
  qed simp
  then show ?thesis by (simp add: ast evaluate_conjoin rall_concat)
qed

theorem query_dict_is_conjunction_witness:
  "evaluate \<lparr>si_item = [], si_uid = 3, si_timestamp_id = 3, si_task_name = ''math'', si_status = COMPLETED, si_staleness = 2\<rparr>
     (LogicNode ''$and'' [ScalarNode ''task_name'' ''$eq'' (QVal (QStr ''math'')), BetweenNode ''staleness'' (QVal (QInt 1)) (QVal (QInt 2))])
   = Inr True"
  using query_dict_is_conjunction [of "[(''task_name'', QVal (QStr ''math'')),
      (''staleness'', QDict [(''$between'', QList [QVal (QInt 1), QVal (QInt 2)])])]"]
  by (simp add: conjoin_def parse_operator_def scalar_operators_def set_operators_def between_node_def py_lt_def
      field_value_def eval_scalar_def)

end
