(* ===== verification/ReplayStorage.thy ===== *)
theory ReplayStorage
  imports ReplayQuery "HOL-Library.AList" "HOL-Library.Product_Lexorder"
begin

text \<open>
  The storage side of \<^verbatim>\<open>xtuner/v1/rl/replay_buffer.py\<close>: \<open>NaiveStorage\<close> with its uid and timestamp
  counters, the snapshot and restoration of Ray references for checkpoints, and the two replay policies.

  The dictionary \<open>_items\<close> is an association list in insertion order. Ray's object store is a list of
  immutable values, a reference being its position; \<open>ray.put\<close> appends. Reading a reference that the store does
  not hold raises. \<open>_snapshot_nested_objectrefs\<close> follows references inside referenced values; its recursion
  is bounded by fuel, and the number of stored objects is always enough, because an object can only
  refer to objects put before it.
\<close>

subsection \<open>Storage\<close>

record NaiveStorage =
  uid_gen :: int
  timestamp_id_gen :: int
  items :: "(int \<times> StorageItem) list"

definition storage_init :: NaiveStorage where
  "storage_init = \<lparr>uid_gen = 1, timestamp_id_gen = 1, items = []\<rparr>"

definition storage_put :: "StorageItem \<Rightarrow> NaiveStorage \<Rightarrow> int \<times> NaiveStorage" where
  "storage_put it st =
     (let uid = uid_gen st;
          stored = it\<lparr>si_uid := uid, si_timestamp_id := timestamp_id_gen st\<rparr>
      in (uid, st\<lparr>uid_gen := uid + 1, timestamp_id_gen := timestamp_id_gen st + 1,
                  items := AList.update uid stored (items st)\<rparr>))"

text \<open>The comprehension with a condition that may raise.\<close>

fun rfilter :: "('a \<Rightarrow> bool res) \<Rightarrow> 'a list \<Rightarrow> 'a list res" where
  "rfilter f [] = Inr []"
| "rfilter f (x # xs) = rbind (f x) (\<lambda>b. rbind (rfilter f xs) (\<lambda>ys. Inr (if b then x # ys else ys)))"

definition storage_get :: "operand \<Rightarrow> NaiveStorage \<Rightarrow> StorageItem list res" where
  "storage_get query st = rbind (parse_query query) (\<lambda>ast. rfilter (\<lambda>it. evaluate it ast) (map snd (items st)))"

definition storage_count :: "operand \<Rightarrow> NaiveStorage \<Rightarrow> nat res" where
  "storage_count query st = rbind (parse_query query) (\<lambda>ast.
     rbind (rfilter (\<lambda>it. evaluate it ast) (map snd (items st))) (\<lambda>xs. Inr (length xs)))"

definition storage_delete :: "int list \<Rightarrow> NaiveStorage \<Rightarrow> NaiveStorage" where
  "storage_delete uids st = st\<lparr>items := fold AList.delete uids (items st)\<rparr>"

definition update_one :: "StorageItem \<Rightarrow> (int \<times> StorageItem) list \<Rightarrow> (int \<times> StorageItem) list" where
  "update_one it its =
     (case map_of its (si_uid it) of
        None \<Rightarrow> its
      | Some old \<Rightarrow> AList.update (si_uid it) (it\<lparr>si_uid := si_uid old, si_timestamp_id := si_timestamp_id old\<rparr>) its)"

definition storage_update :: "StorageItem list \<Rightarrow> NaiveStorage \<Rightarrow> NaiveStorage" where
  "storage_update its st = st\<lparr>items := fold update_one its (items st)\<rparr>"

definition storage_len :: "NaiveStorage \<Rightarrow> nat" where
  "storage_len st = length (items st)"

subsection \<open>Snapshots of references\<close>

fun snapshot_objectrefs :: "nat \<Rightarrow> pyval list \<Rightarrow> pyval \<Rightarrow> pyval res" where
  "snapshot_objectrefs n heap (VRef r) =
     (case n of
        0 \<Rightarrow> Inl RuntimeError
      | Suc m \<Rightarrow> if r < length heap then rbind (snapshot_objectrefs m heap (heap ! r)) (\<lambda>v. Inr (VSerialized v))
                 else Inl RuntimeError)"
| "snapshot_objectrefs n heap (VModel fs) =
     rbind (rmap (\<lambda>(k, v). rbind (snapshot_objectrefs n heap v) (\<lambda>w. Inr (k, w))) fs) (\<lambda>gs. Inr (VModel gs))"
| "snapshot_objectrefs n heap (VSerialized v) = rbind (snapshot_objectrefs n heap v) (\<lambda>w. Inr (VSerialized w))"
| "snapshot_objectrefs n heap (VList vs) = rbind (rmap (snapshot_objectrefs n heap) vs) (\<lambda>ws. Inr (VList ws))"
| "snapshot_objectrefs n heap (VTuple vs) = rbind (rmap (snapshot_objectrefs n heap) vs) (\<lambda>ws. Inr (VTuple ws))"
| "snapshot_objectrefs n heap (VDict fs) =
     rbind (rmap (\<lambda>(k, v). rbind (snapshot_objectrefs n heap v) (\<lambda>w. Inr (k, w))) fs) (\<lambda>gs. Inr (VDict gs))"
| "snapshot_objectrefs n heap v = Inr v"

fun restore_objectrefs :: "pyval \<Rightarrow> pyval list \<Rightarrow> pyval \<times> pyval list"
  and restore_list :: "pyval list \<Rightarrow> pyval list \<Rightarrow> pyval list \<times> pyval list"
  and restore_fields :: "(string \<times> pyval) list \<Rightarrow> pyval list \<Rightarrow> (string \<times> pyval) list \<times> pyval list" where
  "restore_objectrefs (VSerialized v) heap =
     (let (w, heap') = restore_objectrefs v heap in (VRef (length heap'), heap' @ [w]))"
| "restore_objectrefs (VModel fs) heap = (let (gs, heap') = restore_fields fs heap in (VModel gs, heap'))"
| "restore_objectrefs (VList vs) heap = (let (ws, heap') = restore_list vs heap in (VList ws, heap'))"
| "restore_objectrefs (VTuple vs) heap = (let (ws, heap') = restore_list vs heap in (VTuple ws, heap'))"
| "restore_objectrefs (VDict fs) heap = (let (gs, heap') = restore_fields fs heap in (VDict gs, heap'))"
| "restore_objectrefs v heap = (v, heap)"
| "restore_list [] heap = ([], heap)"
| "restore_list (v # vs) heap =
     (let (w, heap') = restore_objectrefs v heap; (ws, heap'') = restore_list vs heap' in (w # ws, heap''))"
| "restore_fields [] heap = ([], heap)"
| "restore_fields ((k, v) # fs) heap =
     (let (w, heap') = restore_objectrefs v heap; (gs, heap'') = restore_fields fs heap' in ((k, w) # gs, heap''))"

text \<open>The fields of a rollout state that can hold references, written back.\<close>

fun with_heavy :: "pyval list \<Rightarrow> RolloutState \<Rightarrow> RolloutState" where
  "with_heavy [a, b, c, d, e, f, g, h, i, j, VDict k] s = s\<lparr>message := a, data_source := b, mm_info := c, reward_model := d,
     tools := e, tool_choice := f, tool_calls := g, routed_experts := h, reward := i, position_ids := j, extra_fields := k\<rparr>"
| "with_heavy _ s = s"

definition snapshot_state :: "nat \<Rightarrow> pyval list \<Rightarrow> RolloutState \<Rightarrow> RolloutState res" where
  "snapshot_state n heap s = rbind (rmap (snapshot_objectrefs n heap) (heavy_fields s)) (\<lambda>vs. Inr (with_heavy vs s))"

definition restore_state :: "RolloutState \<Rightarrow> pyval list \<Rightarrow> RolloutState \<times> pyval list" where
  "restore_state s heap = (let (vs, heap') = restore_list (heavy_fields s) heap in (with_heavy vs s, heap'))"

definition snapshot_item :: "nat \<Rightarrow> pyval list \<Rightarrow> StorageItem \<Rightarrow> StorageItem res" where
  "snapshot_item n heap it = rbind (rmap (snapshot_state n heap) (si_item it)) (\<lambda>g. Inr (it\<lparr>si_item := g\<rparr>))"

fun restore_states :: "RolloutState list \<Rightarrow> pyval list \<Rightarrow> RolloutState list \<times> pyval list" where
  "restore_states [] heap = ([], heap)"
| "restore_states (s # ss) heap =
     (let (t, heap') = restore_state s heap; (ts, heap'') = restore_states ss heap' in (t # ts, heap''))"

fun restore_items :: "StorageItem list \<Rightarrow> pyval list \<Rightarrow> StorageItem list \<times> pyval list" where
  "restore_items [] heap = ([], heap)"
| "restore_items (it # its) heap =
     (let (g, heap') = restore_states (si_item it) heap; (its', heap'') = restore_items its heap'
      in (it\<lparr>si_item := g\<rparr> # its', heap''))"

record storage_state =
  saved_items :: "StorageItem list"
  next_uid :: int
  next_timestamp_id :: int

definition storage_state_dict :: "pyval list \<Rightarrow> NaiveStorage \<Rightarrow> storage_state res" where
  "storage_state_dict heap st =
     (let max_uid = Max (set (0 # map fst (items st)));
          max_timestamp_id = Max (set (0 # map (\<lambda>(k, it). si_timestamp_id it) (items st)))
      in rbind (rmap (snapshot_item (length heap) heap) (map snd (items st))) (\<lambda>its.
           Inr \<lparr>saved_items = its, next_uid = max_uid + 1, next_timestamp_id = max_timestamp_id + 1\<rparr>))"

definition storage_load_state_dict :: "storage_state \<Rightarrow> pyval list \<Rightarrow> NaiveStorage \<times> pyval list" where
  "storage_load_state_dict state heap =
     (let (its, heap') = restore_items (saved_items state) heap in
      (\<lparr>uid_gen = next_uid state, timestamp_id_gen = next_timestamp_id state,
        items = fold (\<lambda>it. AList.update (si_uid it) it) its []\<rparr>, heap'))"

subsection \<open>Policies\<close>

datatype ReplayPolicy = FIFOReplayPolicy | StalenessReplayPolicy

definition policy_put :: "StorageItem \<Rightarrow> NaiveStorage \<Rightarrow> NaiveStorage" where
  "policy_put it st = (if si_item it = [] then st else snd (storage_put it st))"

definition fifo_order :: "StorageItem list \<Rightarrow> StorageItem list" where
  "fifo_order = sort_key si_timestamp_id"

definition staleness_order :: "StorageItem list \<Rightarrow> StorageItem list" where
  "staleness_order = sort_key (\<lambda>r. (- si_staleness r, si_timestamp_id r))"

definition policy_order :: "ReplayPolicy \<Rightarrow> StorageItem list \<Rightarrow> StorageItem list" where
  "policy_order p = (case p of FIFOReplayPolicy \<Rightarrow> fifo_order | StalenessReplayPolicy \<Rightarrow> staleness_order)"

definition policy_get :: "ReplayPolicy \<Rightarrow> int \<Rightarrow> operand \<Rightarrow> NaiveStorage \<Rightarrow> (RolloutState list list \<times> NaiveStorage) res" where
  "policy_get p n query st =
     (if n \<le> 0 then Inr ([], st)
      else rbind (storage_get query st) (\<lambda>records.
        let selected = take (nat n) (policy_order p records) in
        Inr (map si_item selected,
             if selected \<noteq> [] then storage_delete (map si_uid selected) st else st)))"

definition policy_count :: "operand \<Rightarrow> NaiveStorage \<Rightarrow> nat res" where
  "policy_count query st = storage_count query st"

subsection \<open>Lemmas: the content of a storage\<close>

definition content :: "NaiveStorage \<Rightarrow> StorageItem list" where
  "content st = map snd (items st)"

definition keyed :: "StorageItem list \<Rightarrow> (int \<times> StorageItem) list" where
  "keyed its = map (\<lambda>it. (si_uid it, it)) its"

text \<open>Records are keyed by their uid, uids and timestamps grow in storage order and stay below the counters.\<close>

definition storage_ok :: "NaiveStorage \<Rightarrow> bool" where
  "storage_ok st \<longleftrightarrow> items st = keyed (content st) \<and>
     sorted_wrt (<) (map si_uid (content st)) \<and> sorted_wrt (<) (map si_timestamp_id (content st)) \<and>
     list_all (\<lambda>it. 0 < si_uid it \<and> si_uid it < uid_gen st \<and> 0 < si_timestamp_id it \<and> si_timestamp_id it < timestamp_id_gen st) (content st) \<and>
     0 < uid_gen st \<and> 0 < timestamp_id_gen st"

lemma storage_ok_alt:
  "storage_ok st \<longleftrightarrow> items st = keyed (content st) \<and>
     sorted_wrt (<) (map si_uid (content st)) \<and> sorted_wrt (<) (map si_timestamp_id (content st)) \<and>
     (\<forall>u \<in> set (map si_uid (content st)). 0 < u \<and> u < uid_gen st) \<and>
     (\<forall>t \<in> set (map si_timestamp_id (content st)). 0 < t \<and> t < timestamp_id_gen st) \<and>
     0 < uid_gen st \<and> 0 < timestamp_id_gen st"
  by (auto simp: storage_ok_def list_all_iff)

lemma rfilter_total: "(\<And>x. x \<in> set xs \<Longrightarrow> f x = Inr (P x)) \<Longrightarrow> rfilter f xs = Inr (filter P xs)"
  by (induction xs) auto

lemma keyed_fst: "map fst (keyed its) = map si_uid its"
  by (simp add: keyed_def)

lemma keyed_snd: "map snd (keyed its) = its"
  by (simp add: keyed_def comp_def)

lemma keyed_append: "keyed (xs @ ys) = keyed xs @ keyed ys"
  by (simp add: keyed_def)

lemma strict_sorted_distinct: "sorted_wrt (<) (xs :: int list) \<Longrightarrow> distinct xs"
  by (simp add: strict_sorted_iff)

lemma storage_put_content:
  assumes "storage_ok st"
  shows "content (snd (storage_put it st)) = content st @ [it\<lparr>si_uid := uid_gen st, si_timestamp_id := timestamp_id_gen st\<rparr>]"
    and "storage_ok (snd (storage_put it st))"
proof -
  let ?it = "it\<lparr>si_uid := uid_gen st, si_timestamp_id := timestamp_id_gen st\<rparr>"
  have items: "items st = keyed (content st)" using assms by (simp add: storage_ok_def)
  have "uid_gen st \<notin> fst ` set (items st)"
  proof
    assume "uid_gen st \<in> fst ` set (items st)"
    then obtain x where "x \<in> set (content st)" "si_uid x = uid_gen st" unfolding items by (auto simp: keyed_def)
    then show False using assms by (auto simp: storage_ok_def list_all_iff)
  qed
  then have new: "items (snd (storage_put it st)) = items st @ [(uid_gen st, ?it)]"
    by (simp add: storage_put_def Let_def update_new)
  then show c: "content (snd (storage_put it st)) = content st @ [?it]" by (simp add: content_def)
  have gens: "uid_gen (snd (storage_put it st)) = uid_gen st + 1" "timestamp_id_gen (snd (storage_put it st)) = timestamp_id_gen st + 1"
    by (simp_all add: storage_put_def Let_def)
  show "storage_ok (snd (storage_put it st))"
    unfolding storage_ok_def c gens using assms new items
    by (auto simp: storage_ok_def keyed_append keyed_def sorted_wrt_append list_all_iff)
qed

lemma fold_delete: "fold AList.delete ks al = filter (\<lambda>(k, v). k \<notin> set ks) al"
proof (induction ks arbitrary: al)
  case (Cons a ks)
  have "filter (\<lambda>(k, v). k \<notin> set ks) (AList.delete a al) = filter (\<lambda>(k, v). k \<notin> set (a # ks)) al"
    unfolding AList.delete_eq filter_filter by (rule filter_cong [OF refl]) auto
  then show ?case using Cons by simp
qed (simp add: case_prod_beta)

lemma filter_keyed: "filter (\<lambda>(k, v). k \<notin> ks) (keyed its) = keyed (filter (\<lambda>it. si_uid it \<notin> ks) its)"
  by (induction its) (auto simp: keyed_def)

lemma storage_ok_filter:
  assumes "storage_ok st" "content st' = filter P (content st)" "items st' = keyed (content st')"
    "uid_gen st' = uid_gen st" "timestamp_id_gen st' = timestamp_id_gen st"
  shows "storage_ok st'"
  using assms sorted_wrt_map [of "(<)" si_uid "content st"] sorted_wrt_map [of "(<)" si_timestamp_id "content st"]
    sorted_wrt_filter [of _ "content st" P]
  unfolding storage_ok_def by (auto simp: sorted_wrt_map list_all_iff)

lemma storage_delete_content:
  assumes "storage_ok st"
  shows "content (storage_delete us st) = filter (\<lambda>it. si_uid it \<notin> set us) (content st)"
    and "storage_ok (storage_delete us st)"
proof -
  have i: "items (storage_delete us st) = keyed (filter (\<lambda>it. si_uid it \<notin> set us) (content st))"
    using assms by (simp add: storage_delete_def fold_delete storage_ok_def filter_keyed)
  then show c: "content (storage_delete us st) = filter (\<lambda>it. si_uid it \<notin> set us) (content st)"
    by (simp add: content_def keyed_snd)
  show "storage_ok (storage_delete us st)"
    by (rule storage_ok_filter [OF assms c]) (simp_all add: i c, simp_all add: storage_delete_def)
qed

text \<open>The effect of one record of an update on the content.\<close>

definition replace_record :: "StorageItem \<Rightarrow> StorageItem list \<Rightarrow> StorageItem list" where
  "replace_record u its = map (\<lambda>it. if si_uid it = si_uid u then u\<lparr>si_timestamp_id := si_timestamp_id it\<rparr> else it) its"

lemma map_of_keyed: "it \<in> set its \<Longrightarrow> distinct (map si_uid its) \<Longrightarrow> map_of (keyed its) (si_uid it) = Some it"
  by (rule map_of_is_SomeI) (auto simp: keyed_def comp_def)

lemma update_keyed:
  "distinct (map si_uid its) \<Longrightarrow> it \<in> set its \<Longrightarrow> si_uid v = si_uid it \<Longrightarrow>
     AList.update (si_uid it) v (keyed its) = keyed (map (\<lambda>x. if si_uid x = si_uid it then v else x) its)"
proof (induction its)
  case (Cons a its)
  show ?case
  proof (cases "si_uid a = si_uid it")
    case True
    have "si_uid it \<notin> si_uid ` set its" using True Cons.prems(1) by simp
    then have "si_uid x \<noteq> si_uid it" if "x \<in> set its" for x using that by (metis imageI)
    then have "map (\<lambda>x. if si_uid x = si_uid it then v else x) its = its" by (simp add: map_idI)
    then show ?thesis using True Cons.prems(3) by (simp add: keyed_def)
  next
    case False
    then have "it \<in> set its" using Cons.prems by auto
    then show ?thesis using Cons False by (simp add: keyed_def)
  qed
qed simp

lemma update_one_keyed:
  assumes "distinct (map si_uid its)"
  shows "update_one u (keyed its) = keyed (replace_record u its)"
proof (cases "\<exists>it \<in> set its. si_uid it = si_uid u")
  case True
  then obtain it where it: "it \<in> set its" "si_uid it = si_uid u" by blast
  have same: "x = it" if "x \<in> set its" "si_uid x = si_uid it" for x
    by (rule inj_onD [of si_uid "set its"]) (use that it assms in \<open>simp_all add: distinct_map\<close>)
  have "map_of (keyed its) (si_uid u) = Some it" using map_of_keyed [OF it(1) assms] it(2) by simp
  then have "update_one u (keyed its) =
      keyed (map (\<lambda>x. if si_uid x = si_uid it then u\<lparr>si_uid := si_uid it, si_timestamp_id := si_timestamp_id it\<rparr> else x) its)"
    using update_keyed [OF assms it(1), of "u\<lparr>si_uid := si_uid it, si_timestamp_id := si_timestamp_id it\<rparr>"] it(2)
    by (simp add: update_one_def)
  also have "\<dots> = keyed (replace_record u its)"
  proof -
    have "(if si_uid x = si_uid it then u\<lparr>si_uid := si_uid it, si_timestamp_id := si_timestamp_id it\<rparr> else x) =
        (if si_uid x = si_uid u then u\<lparr>si_timestamp_id := si_timestamp_id x\<rparr> else x)" if "x \<in> set its" for x
      using same [OF that] it(2) by (cases "si_uid x = si_uid it") simp_all
    then show ?thesis by (simp add: replace_record_def cong: map_cong)
  qed
  finally show ?thesis .
next
  case False
  then have "map_of (keyed its) (si_uid u) = None" by (auto simp: map_of_eq_None_iff keyed_def)
  moreover have "replace_record u its = its" using False by (auto simp: replace_record_def intro!: map_idI)
  ultimately show ?thesis by (simp add: update_one_def)
qed

lemma replace_record_keeps:
  "map si_uid (replace_record u its) = map si_uid its" "map si_timestamp_id (replace_record u its) = map si_timestamp_id its"
  by (auto simp: replace_record_def)

lemma fold_replace_keeps:
  "map si_uid (fold replace_record us its) = map si_uid its \<and> map si_timestamp_id (fold replace_record us its) = map si_timestamp_id its"
  by (induction us arbitrary: its) (simp_all add: replace_record_keeps)

lemma fold_update_keyed:
  "distinct (map si_uid its) \<Longrightarrow> fold update_one us (keyed its) = keyed (fold replace_record us its)"
  by (induction us arbitrary: its) (simp_all add: update_one_keyed replace_record_keeps)

lemma storage_update_content:
  assumes "storage_ok st"
  shows "content (storage_update us st) = fold replace_record us (content st)" and "storage_ok (storage_update us st)"
proof -
  have d: "distinct (map si_uid (content st))" using assms strict_sorted_distinct by (auto simp: storage_ok_def)
  have i: "items (storage_update us st) = keyed (fold replace_record us (content st))"
    using assms fold_update_keyed [OF d] by (simp add: storage_update_def storage_ok_def)
  then show c: "content (storage_update us st) = fold replace_record us (content st)" by (simp add: content_def keyed_snd)
  have keeps: "map si_uid (fold replace_record us (content st)) = map si_uid (content st)"
      "map si_timestamp_id (fold replace_record us (content st)) = map si_timestamp_id (content st)"
    using fold_replace_keeps [of us "content st"] by simp_all
  have gens: "uid_gen (storage_update us st) = uid_gen st" "timestamp_id_gen (storage_update us st) = timestamp_id_gen st"
    by (simp_all add: storage_update_def)
  show "storage_ok (storage_update us st)"
    using assms unfolding storage_ok_alt c i keeps gens by simp
qed

subsection \<open>Lemmas: snapshots\<close>

text \<open>A live value has no serialized part; every object refers to objects put before it.\<close>

fun plain :: "pyval \<Rightarrow> bool" where
  "plain (VSerialized v) = False"
| "plain (VModel fs) = list_all (\<lambda>(k, v). plain v) fs"
| "plain (VDict fs) = list_all (\<lambda>(k, v). plain v) fs"
| "plain (VList vs) = list_all plain vs"
| "plain (VTuple vs) = list_all plain vs"
| "plain v = True"

definition live_below :: "nat \<Rightarrow> pyval \<Rightarrow> bool" where
  "live_below n v \<longleftrightarrow> plain v \<and> value_refs v \<subseteq> {..<n}"

definition heap_ok :: "pyval list \<Rightarrow> bool" where
  "heap_ok heap \<longleftrightarrow> (\<forall>r < length heap. live_below r (heap ! r))"

text \<open>A snapshot: no references, serialized parts nested at most \<open>n\<close> deep.\<close>

fun serial :: "nat \<Rightarrow> pyval \<Rightarrow> bool" where
  "serial n (VRef r) = False"
| "serial n (VSerialized v) = (0 < n \<and> serial (n - 1) v)"
| "serial n (VModel fs) = list_all (\<lambda>(k, v). serial n v) fs"
| "serial n (VDict fs) = list_all (\<lambda>(k, v). serial n v) fs"
| "serial n (VList vs) = list_all (serial n) vs"
| "serial n (VTuple vs) = list_all (serial n) vs"
| "serial n v = True"

lemma rmap_exists:
  "(\<And>x. x \<in> set xs \<Longrightarrow> \<exists>y. f x = Inr y \<and> Q y) \<Longrightarrow> \<exists>ys. rmap f xs = Inr ys \<and> list_all Q ys"
  by (induction xs) fastforce+

lemma rmap_fields_exists:
  assumes "\<And>k v. (k, v) \<in> set fs \<Longrightarrow> \<exists>w. f v = Inr w \<and> Q w"
  shows "\<exists>gs. rmap (\<lambda>(k, v). rbind (f v) (\<lambda>w. Inr (k, w))) fs = Inr gs \<and> list_all (\<lambda>(k, w). Q w) gs"
  by (rule rmap_exists) (use assms in fastforce)

lemma live_below_parts:
  "live_below n (VList vs) \<longleftrightarrow> list_all (live_below n) vs" "live_below n (VTuple vs) \<longleftrightarrow> list_all (live_below n) vs"
  "live_below n (VDict fs) \<longleftrightarrow> list_all (\<lambda>(k, v). live_below n v) fs" "live_below n (VModel fs) \<longleftrightarrow> list_all (\<lambda>(k, v). live_below n v) fs"
  by (auto simp: live_below_def list_all_iff)

lemma live_below_mono: "live_below m v \<Longrightarrow> m \<le> n \<Longrightarrow> live_below n v"
  by (auto simp: live_below_def)

lemma snapshot_total:
  "heap_ok heap \<Longrightarrow> live_below n v \<Longrightarrow> n \<le> length heap \<Longrightarrow> \<exists>w. snapshot_objectrefs n heap v = Inr w \<and> serial n w"
proof (induction n heap v rule: snapshot_objectrefs.induct)
  case (1 n heap r)
  have r: "r < n" using 1(3) by (simp add: live_below_def)
  then obtain m where m: "n = Suc m" by (cases n) auto
  have "live_below m (heap ! r)" using 1(2,4) r m live_below_mono [of r "heap ! r" m] by (simp add: heap_ok_def)
  then obtain w where "snapshot_objectrefs m heap (heap ! r) = Inr w" "serial m w"
    using 1(1) [OF m] 1(2,4) r m by fastforce
  then show ?case using m r 1(4) by (auto intro!: exI [of _ "VSerialized w"])
next
  case (2 n heap fs)
  have "\<exists>w. snapshot_objectrefs n heap v = Inr w \<and> serial n w" if "(k, v) \<in> set fs" for k v
    using 2(1) [OF that refl] 2(2-4) that by (fastforce simp: live_below_parts list_all_iff)
  from rmap_fields_exists [OF this] show ?case by fastforce
next
  case (3 n heap v)
  then show ?case by (simp add: live_below_def)
next
  case (4 n heap vs)
  have "\<exists>w. snapshot_objectrefs n heap v = Inr w \<and> serial n w" if "v \<in> set vs" for v
    using 4(1) [OF that] 4(2-4) that by (fastforce simp: live_below_parts list_all_iff)
  from rmap_exists [OF this] show ?case by fastforce
next
  case (5 n heap vs)
  have "\<exists>w. snapshot_objectrefs n heap v = Inr w \<and> serial n w" if "v \<in> set vs" for v
    using 5(1) [OF that] 5(2-4) that by (fastforce simp: live_below_parts list_all_iff)
  from rmap_exists [OF this] show ?case by fastforce
next
  case (6 n heap fs)
  have "\<exists>w. snapshot_objectrefs n heap v = Inr w \<and> serial n w" if "(k, v) \<in> set fs" for k v
    using 6(1) [OF that refl] 6(2-4) that by (fastforce simp: live_below_parts list_all_iff)
  from rmap_fields_exists [OF this] show ?case by fastforce
qed simp_all

text \<open>Restoring extends the heap with objects from which the same snapshot is read again.\<close>

definition restored :: "nat \<Rightarrow> pyval list \<Rightarrow> pyval list \<Rightarrow> (pyval list \<Rightarrow> bool) \<Rightarrow> bool" where
  "restored n h h' Q \<longleftrightarrow> (\<exists>ext. h' = h @ ext) \<and> (\<forall>ext. Q (h' @ ext))"

lemma restored_trans: "restored n h h' Q \<Longrightarrow> restored n h' h'' R \<Longrightarrow> restored n h h'' (\<lambda>x. Q x \<and> R x)"
  by (force simp: restored_def)

lemma restore_snapshot:
  "serial n w \<Longrightarrow> restored n h (snd (restore_objectrefs w h))
     (\<lambda>x. snapshot_objectrefs n x (fst (restore_objectrefs w h)) = Inr w)"
  "list_all (serial n) ws \<Longrightarrow> restored n h (snd (restore_list ws h))
     (\<lambda>x. rmap (snapshot_objectrefs n x) (fst (restore_list ws h)) = Inr ws)"
  "list_all (\<lambda>(k, w). serial n w) gs \<Longrightarrow> restored n h (snd (restore_fields gs h))
     (\<lambda>x. rmap (\<lambda>(k, v). rbind (snapshot_objectrefs n x v) (\<lambda>w. Inr (k, w))) (fst (restore_fields gs h)) = Inr gs)"
proof (induction w h and ws h and gs h arbitrary: n and n and n rule: restore_objectrefs_restore_list_restore_fields.induct)
  case (1 v heap)
  obtain m where m: "n = Suc m" "serial m v" using 1(2) by (cases n) auto
  obtain w' h' where r: "restore_objectrefs v heap = (w', h')" by fastforce
  then have "restored m heap h' (\<lambda>x. snapshot_objectrefs m x w' = Inr v)" using 1(1) [OF m(2)] by simp
  then show ?case using m(1) by (force simp: r restored_def nth_append)
next
  case (8 v vs heap)
  obtain w' h' where r: "restore_objectrefs v heap = (w', h')" by fastforce
  obtain ws' h'' where rs: "restore_list vs h' = (ws', h'')" by fastforce
  have a: "restored n heap h' (\<lambda>x. snapshot_objectrefs n x w' = Inr v)" using 8(1) [of n] 8(3) r by simp
  have b: "restored n h' h'' (\<lambda>x. rmap (snapshot_objectrefs n x) ws' = Inr vs)" using 8(2) [OF r [symmetric] refl, of n] 8(3) rs by simp
  show ?case using restored_trans [OF a b] by (simp add: r rs restored_def)
next
  case (10 k v fs heap)
  obtain w' h' where r: "restore_objectrefs v heap = (w', h')" by fastforce
  obtain gs' h'' where rs: "restore_fields fs h' = (gs', h'')" by fastforce
  have a: "restored n heap h' (\<lambda>x. snapshot_objectrefs n x w' = Inr v)" using 10(1) [of n] 10(3) r by simp
  have b: "restored n h' h'' (\<lambda>x. rmap (\<lambda>(k, v). rbind (snapshot_objectrefs n x v) (\<lambda>w. Inr (k, w))) gs' = Inr fs)"
    using 10(2) [OF r [symmetric] refl, of n] 10(3) rs by simp
  show ?case using restored_trans [OF a b] by (simp add: r rs restored_def)
qed (auto simp: restored_def case_prod_beta)

text \<open>Writing the fields back.\<close>

definition heavy_shape :: "pyval list \<Rightarrow> bool" where
  "heavy_shape vs \<longleftrightarrow> (\<exists>us k. length us = 10 \<and> vs = us @ [VDict k])"

lemma heavy_shapeE:
  assumes "heavy_shape vs"
  obtains a b c d e f g h i j k where "vs = [a, b, c, d, e, f, g, h, i, j, VDict k]"
  using assms by (auto simp: heavy_shape_def length_Suc_conv eval_nat_numeral)

lemma heavy_shape_fields: "heavy_shape (heavy_fields s)"
  by (auto simp: heavy_shape_def heavy_fields_def intro!: exI [of _ "butlast (heavy_fields s)"])

lemma heavy_fields_with: "heavy_shape vs \<Longrightarrow> heavy_fields (with_heavy vs s) = vs"
  by (elim heavy_shapeE) (simp add: heavy_fields_def)

lemma with_heavy_with: "heavy_shape vs \<Longrightarrow> heavy_shape ws \<Longrightarrow> with_heavy ws (with_heavy vs s) = with_heavy ws s"
  by (elim heavy_shapeE) simp

lemma heavy_shape_snapshot:
  assumes "rmap (snapshot_objectrefs n heap) vs = Inr ws" "heavy_shape vs"
  shows "heavy_shape ws"
proof -
  obtain us k where us: "length us = 10" "vs = us @ [VDict k]" using assms(2) by (auto simp: heavy_shape_def)
  obtain us' gs where "rmap (snapshot_objectrefs n heap) us = Inr us'" "ws = us' @ [VDict gs]"
    using assms(1) unfolding us(2) rmap_append by (auto simp: rbind_Inr_iff)
  then show ?thesis using us(1) rmap_length [of _ us us'] by (auto simp: heavy_shape_def)
qed

lemma restore_list_append:
  "restore_list (us @ vs) h = (let (us', h') = restore_list us h; (vs', h'') = restore_list vs h' in (us' @ vs', h''))"
  by (induction us arbitrary: h) (auto simp: case_prod_beta Let_def)

lemma restore_list_length: "length (fst (restore_list vs h)) = length vs"
  by (induction vs arbitrary: h) (auto simp: case_prod_beta Let_def)

lemma heavy_shape_restore: "heavy_shape vs \<Longrightarrow> heavy_shape (fst (restore_list vs h))"
  by (auto simp: heavy_shape_def restore_list_append case_prod_beta Let_def restore_list_length)

definition state_live :: "nat \<Rightarrow> RolloutState \<Rightarrow> bool" where
  "state_live n s \<longleftrightarrow> list_all (live_below n) (heavy_fields s)"

definition state_serial :: "nat \<Rightarrow> RolloutState \<Rightarrow> bool" where
  "state_serial n s \<longleftrightarrow> list_all (serial n) (heavy_fields s)"

lemma snapshot_state_total:
  assumes "heap_ok heap" "state_live n s" "n \<le> length heap"
  shows "\<exists>t. snapshot_state n heap s = Inr t \<and> state_serial n t"
proof -
  have "\<exists>w. snapshot_objectrefs n heap v = Inr w \<and> serial n w" if "v \<in> set (heavy_fields s)" for v
    using snapshot_total [OF assms(1) _ assms(3)] assms(2) that by (auto simp: state_live_def list_all_iff)
  then have "\<exists>ws. rmap (snapshot_objectrefs n heap) (heavy_fields s) = Inr ws \<and> list_all (serial n) ws" by (rule rmap_exists)
  then obtain ws where ws: "rmap (snapshot_objectrefs n heap) (heavy_fields s) = Inr ws" "list_all (serial n) ws" by blast
  then have "heavy_fields (with_heavy ws s) = ws" using heavy_shape_snapshot heavy_shape_fields heavy_fields_with by blast
  then show ?thesis using ws by (simp add: snapshot_state_def state_serial_def)
qed

lemma restore_state_snapshot:
  assumes "state_serial n t"
  shows "restored n h (snd (restore_state t h)) (\<lambda>x. snapshot_state n x (fst (restore_state t h)) = Inr t)"
proof -
  obtain vs h' where r: "restore_list (heavy_fields t) h = (vs, h')" by fastforce
  have shape: "heavy_shape vs" using heavy_shape_restore [OF heavy_shape_fields, of t h] r by simp
  have "with_heavy (heavy_fields t) (with_heavy vs t) = with_heavy (heavy_fields t) t"
    by (rule with_heavy_with [OF shape heavy_shape_fields])
  moreover have "with_heavy (heavy_fields t) t = t" by (simp add: heavy_fields_def)
  ultimately show ?thesis
    using restore_snapshot(2) [of n "heavy_fields t" h] assms heavy_fields_with [OF shape, of t]
    by (auto simp: restored_def restore_state_def snapshot_state_def state_serial_def r)
qed

lemma restore_states_snapshot:
  "list_all (state_serial n) ts \<Longrightarrow>
     restored n h (snd (restore_states ts h)) (\<lambda>x. rmap (snapshot_state n x) (fst (restore_states ts h)) = Inr ts)"
proof (induction ts arbitrary: h)
  case (Cons t ts)
  obtain s' h' where r: "restore_state t h = (s', h')" by fastforce
  obtain ss h'' where rs: "restore_states ts h' = (ss, h'')" by fastforce
  have "restored n h h' (\<lambda>x. snapshot_state n x s' = Inr t)" using restore_state_snapshot [of n t h] Cons.prems r by simp
  moreover have "restored n h' h'' (\<lambda>x. rmap (snapshot_state n x) ss = Inr ts)" using Cons.IH [of h'] Cons.prems rs by simp
  ultimately have "restored n h h'' (\<lambda>x. snapshot_state n x s' = Inr t \<and> rmap (snapshot_state n x) ss = Inr ts)"
    by (rule restored_trans)
  then show ?case by (simp add: r rs restored_def)
qed (simp add: restored_def)

definition item_live :: "nat \<Rightarrow> StorageItem \<Rightarrow> bool" where
  "item_live n it \<longleftrightarrow> list_all (state_live n) (si_item it)"

text \<open>What a record is besides its group.\<close>

definition record_head :: "StorageItem \<Rightarrow> int \<times> int \<times> string \<times> Status \<times> int" where
  "record_head it = (si_uid it, si_timestamp_id it, si_task_name it, si_status it, si_staleness it)"

lemma snapshot_item_total:
  assumes "heap_ok heap" "item_live n it" "n \<le> length heap"
  shows "\<exists>g. snapshot_item n heap it = Inr g \<and> list_all (state_serial n) (si_item g) \<and> record_head g = record_head it"
proof -
  have "\<exists>t. snapshot_state n heap s = Inr t \<and> state_serial n t" if "s \<in> set (si_item it)" for s
    using snapshot_state_total [OF assms(1) _ assms(3)] assms(2) that by (auto simp: item_live_def list_all_iff)
  then have "\<exists>ts. rmap (snapshot_state n heap) (si_item it) = Inr ts \<and> list_all (state_serial n) ts" by (rule rmap_exists)
  then show ?thesis by (auto simp: snapshot_item_def record_head_def)
qed

lemma restore_items_snapshot:
  "list_all (\<lambda>it. list_all (state_serial n) (si_item it)) its \<Longrightarrow>
     restored n h (snd (restore_items its h)) (\<lambda>x. rmap (snapshot_item n x) (fst (restore_items its h)) = Inr its)"
proof (induction its arbitrary: h)
  case (Cons it its)
  obtain g h' where r: "restore_states (si_item it) h = (g, h')" by fastforce
  obtain js h'' where rs: "restore_items its h' = (js, h'')" by fastforce
  have "restored n h h' (\<lambda>x. rmap (snapshot_state n x) g = Inr (si_item it))"
    using restore_states_snapshot [of n "si_item it" h] Cons.prems r by simp
  moreover have "restored n h' h'' (\<lambda>x. rmap (snapshot_item n x) js = Inr its)" using Cons.IH [of h'] Cons.prems rs by simp
  ultimately have "restored n h h'' (\<lambda>x. rmap (snapshot_state n x) g = Inr (si_item it) \<and> rmap (snapshot_item n x) js = Inr its)"
    by (rule restored_trans)
  then show ?case by (simp add: r rs restored_def snapshot_item_def [of _ _ "it\<lparr>si_item := g\<rparr>"])
qed (simp add: restored_def)

lemma restore_items_heads: "map record_head (fst (restore_items its h)) = map record_head its"
  by (induction its arbitrary: h) (auto simp: case_prod_beta Let_def record_head_def)

lemma fold_update_keys:
  "distinct (map si_uid its) \<Longrightarrow> si_uid ` set its \<inter> fst ` set al = {} \<Longrightarrow>
     fold (\<lambda>it. AList.update (si_uid it) it) its al = al @ keyed its"
proof (induction its arbitrary: al)
  case (Cons it its)
  have "AList.update (si_uid it) it al = al @ [(si_uid it, it)]" using Cons.prems(2) by (intro update_new) auto
  moreover have "si_uid ` set its \<inter> fst ` set (al @ [(si_uid it, it)]) = {}" using Cons.prems by auto
  ultimately show ?case using Cons by (simp add: keyed_def)
qed (simp add: keyed_def)

subsection \<open>The interface of a storage backend\<close>

text \<open>What the policies and the buffer rely on, \<open>StorageBackend\<close>: an ordered content that \<open>put\<close> extends with a
  record of fresh uid and timestamp, \<open>get\<close> and \<open>count\<close> read, \<open>delete\<close> filters and \<open>update\<close> rewrites in place.\<close>

locale storage_backend =
  fixes ok :: "'s \<Rightarrow> bool"
    and cont :: "'s \<Rightarrow> StorageItem list"
    and put :: "StorageItem \<Rightarrow> 's \<Rightarrow> int \<times> 's"
    and get :: "operand \<Rightarrow> 's \<Rightarrow> StorageItem list res"
    and cnt :: "operand \<Rightarrow> 's \<Rightarrow> nat res"
    and del :: "int list \<Rightarrow> 's \<Rightarrow> 's"
    and upd :: "StorageItem list \<Rightarrow> 's \<Rightarrow> 's"
  assumes ordered: "ok s \<Longrightarrow> sorted_wrt (<) (map si_uid (cont s)) \<and> sorted_wrt (<) (map si_timestamp_id (cont s))"
    and put_ok: "ok s \<Longrightarrow> ok (snd (put it s)) \<and> (\<exists>t. cont (snd (put it s)) = cont s @ [it\<lparr>si_uid := fst (put it s), si_timestamp_id := t\<rparr>])"
    and get_spec: "get q s = rbind (parse_query q) (\<lambda>ast. rfilter (\<lambda>it. evaluate it ast) (cont s))"
    and cnt_spec: "cnt q s = rbind (get q s) (\<lambda>xs. Inr (length xs))"
    and del_ok: "ok s \<Longrightarrow> ok (del us s) \<and> cont (del us s) = filter (\<lambda>it. si_uid it \<notin> set us) (cont s)"
    and upd_ok: "ok s \<Longrightarrow> ok (upd its s) \<and> cont (upd its s) = fold replace_record its (cont s)"
begin

lemma distinct_uids: "ok s \<Longrightarrow> distinct (map si_uid (cont s))"
  and distinct_ts: "ok s \<Longrightarrow> distinct (map si_timestamp_id (cont s))"
  and distinct_cont: "ok s \<Longrightarrow> distinct (cont s)"
  using ordered [of s] strict_sorted_distinct distinct_map by blast+

text \<open>Deleting records by their uids removes exactly these records.\<close>

lemma del_records:
  assumes "ok s" "set sel \<subseteq> set (cont s)"
  shows "cont (del (map si_uid sel) s) = filter (\<lambda>it. it \<notin> set sel) (cont s)"
proof -
  have "si_uid it \<in> si_uid ` set sel \<longleftrightarrow> it \<in> set sel" if "it \<in> set (cont s)" for it
    using distinct_uids [OF assms(1)] assms(2) that unfolding distinct_map by (auto dest: inj_onD)
  then show ?thesis using del_ok [OF assms(1), of "map si_uid sel"] by (auto intro!: filter_cong)
qed

lemma get_filter:
  "parse_query q = Inr ast \<Longrightarrow> (\<And>it. it \<in> set (cont s) \<Longrightarrow> evaluate it ast = Inr (P it)) \<Longrightarrow> get q s = Inr (filter P (cont s))"
  by (simp add: get_spec rfilter_total)

end

interpretation naive: storage_backend storage_ok content storage_put storage_get storage_count storage_delete storage_update
proof unfold_locales
  fix s :: NaiveStorage and q us its it
  show "storage_get q s = rbind (parse_query q) (\<lambda>ast. rfilter (\<lambda>it. evaluate it ast) (content s))"
    by (simp add: storage_get_def content_def)
  show "storage_count q s = rbind (storage_get q s) (\<lambda>xs. Inr (length xs))"
    by (cases "parse_query q") (simp_all add: storage_count_def storage_get_def)
  assume ok: "storage_ok s"
  then show "sorted_wrt (<) (map si_uid (content s)) \<and> sorted_wrt (<) (map si_timestamp_id (content s))"
    by (simp add: storage_ok_def)
  have "fst (storage_put it s) = uid_gen s" by (simp add: storage_put_def Let_def)
  then show "storage_ok (snd (storage_put it s)) \<and>
      (\<exists>t. content (snd (storage_put it s)) = content s @ [it\<lparr>si_uid := fst (storage_put it s), si_timestamp_id := t\<rparr>])"
    using storage_put_content [OF ok, of it] by auto
  show "storage_ok (storage_delete us s) \<and> content (storage_delete us s) = filter (\<lambda>it. si_uid it \<notin> set us) (content s)"
    using storage_delete_content [OF ok] by blast
  show "storage_ok (storage_update its s) \<and> content (storage_update its s) = fold replace_record its (content s)"
    using storage_update_content [OF ok] by blast
qed

subsection \<open>Lemmas: policies\<close>

text \<open>The order in which a policy hands out records: oldest first, or stalest first and oldest among equals.\<close>

fun policy_before :: "ReplayPolicy \<Rightarrow> StorageItem \<Rightarrow> StorageItem \<Rightarrow> bool" where
  "policy_before FIFOReplayPolicy r r' \<longleftrightarrow> si_timestamp_id r < si_timestamp_id r'"
| "policy_before StalenessReplayPolicy r r' \<longleftrightarrow>
     si_staleness r' < si_staleness r \<or> si_staleness r = si_staleness r' \<and> si_timestamp_id r < si_timestamp_id r'"

lemma policy_order_mset: "mset (policy_order p xs) = mset xs"
  by (cases p) (simp_all add: policy_order_def fifo_order_def staleness_order_def)

lemma policy_order_sorted:
  assumes "distinct (map si_timestamp_id xs)"
  shows "sorted_wrt (policy_before p) (policy_order p xs)"
proof -
  have inj: "inj_on si_timestamp_id (set (sort_key f xs))" "distinct (sort_key f xs)" for f :: "StorageItem \<Rightarrow> 'b::linorder"
    using assms by (simp_all add: distinct_map)
  show ?thesis
  proof (cases p)
    case FIFOReplayPolicy
    have "sorted_wrt (<) (map si_timestamp_id (sort_key si_timestamp_id xs))"
      using inj [of si_timestamp_id] by (simp add: strict_sorted_iff distinct_map)
    then have "sorted_wrt (policy_before FIFOReplayPolicy) (sort_key si_timestamp_id xs)"
      unfolding sorted_wrt_map by (rule sorted_wrt_mono_rel [rotated]) simp
    then show ?thesis by (simp add: FIFOReplayPolicy policy_order_def fifo_order_def)
  next
    case StalenessReplayPolicy
    let ?k = "\<lambda>r. (- si_staleness r, si_timestamp_id r)"
    have "inj_on ?k (set (sort_key ?k xs))" using inj(1) [of ?k] by (auto simp: inj_on_def)
    then have "sorted_wrt (<) (map ?k (sort_key ?k xs))"
      using inj(2) [of ?k] by (simp add: strict_sorted_iff distinct_map)
    then have "sorted_wrt (policy_before StalenessReplayPolicy) (sort_key ?k xs)"
      unfolding sorted_wrt_map by (rule sorted_wrt_mono_rel [rotated]) auto
    then show ?thesis by (simp add: StalenessReplayPolicy policy_order_def staleness_order_def)
  qed
qed

lemma policy_order_fifo_id: "sorted_wrt (<) (map si_timestamp_id xs) \<Longrightarrow> policy_order FIFOReplayPolicy xs = xs"
  by (simp add: policy_order_def fifo_order_def sort_key_id_if_sorted strict_sorted_iff)

lemma sorted_wrt_take_before:
  "sorted_wrt R ys \<Longrightarrow> x \<in> set (take n ys) \<Longrightarrow> y \<in> set ys \<Longrightarrow> y \<notin> set (take n ys) \<Longrightarrow> R x y"
proof -
  assume s: "sorted_wrt R ys" and x: "x \<in> set (take n ys)" and y: "y \<in> set ys" "y \<notin> set (take n ys)"
  have "sorted_wrt R (take n ys @ drop n ys)" using s by simp
  moreover have "y \<in> set (drop n ys)" using y by (metis Un_iff append_take_drop_id set_append)
  ultimately show "R x y" using x unfolding sorted_wrt_append by blast
qed

lemma policy_get_eq:
  fixes p :: ReplayPolicy
  assumes ok: "storage_ok st" and n: "0 < n" and ast: "parse_query q = Inr ast"
    and P: "\<And>it. it \<in> set (content st) \<Longrightarrow> evaluate it ast = Inr (P it)"
  defines "sel \<equiv> take (nat n) (policy_order p (filter P (content st)))"
  shows "\<exists>st'. policy_get p n q st = Inr (map si_item sel, st') \<and> storage_ok st' \<and>
    content st' = filter (\<lambda>it. it \<notin> set sel) (content st)"
proof -
  let ?st = "if sel \<noteq> [] then storage_delete (map si_uid sel) st else st"
  have "storage_get q st = Inr (filter P (content st))" by (rule naive.get_filter [OF ast P])
  then have "policy_get p n q st = Inr (map si_item sel, ?st)"
    using n by (simp add: policy_get_def sel_def Let_def)
  moreover have "set sel \<subseteq> set (content st)"
    using set_take_subset [of "nat n" "policy_order p (filter P (content st))"]
      mset_eq_setD [OF policy_order_mset [of p "filter P (content st)"]] unfolding sel_def by auto
  then have "storage_ok ?st \<and> content ?st = filter (\<lambda>it. it \<notin> set sel) (content st)"
    using naive.del_records [OF ok] naive.del_ok [OF ok] ok by auto
  ultimately show ?thesis by blast
qed

subsection \<open>Properties\<close>

text \<open>C16. Both replay policies hand out and remove the right records: a positive request returns the first
  records of the policy's order among those that satisfy the query, as many as there are up to the request;
  exactly they leave the storage and the rest keeps its order; every returned record comes before every
  matching record that stays (older, or staler and then older); the FIFO policy hands out the oldest matching
  records in insertion order.\<close>

theorem policy_get_hands_out_first:
  assumes ok: "storage_ok st" and n: "0 < n" and ast: "parse_query q = Inr ast"
    and P: "list_all (\<lambda>it. evaluate it ast = Inr (P it)) (content st)"
  shows "\<exists>(sel :: StorageItem list) st'. policy_get p n q st = Inr (map si_item sel, st') \<and> storage_ok st' \<and>
    length sel = min (nat n) (length (filter P (content st))) \<and>
    sorted_wrt (policy_before p) sel \<and>
    mset sel + mset (content st') = mset (content st) \<and>
    content st' = filter (\<lambda>it. it \<notin> set sel) (content st) \<and>
    list_all P sel \<and> list_all (\<lambda>r. list_all (\<lambda>r'. policy_before p r r' \<or> \<not> P r') (content st')) sel \<and>
    (p = FIFOReplayPolicy \<longrightarrow> sel = take (nat n) (filter P (content st)))"
proof -
  let ?M = "filter P (content st)"
  let ?sel = "take (nat n) (policy_order p ?M)"
  obtain st' where st': "policy_get p n q st = Inr (map si_item ?sel, st')" "storage_ok st'"
    "content st' = filter (\<lambda>it. it \<notin> set ?sel) (content st)"
    using policy_get_eq [OF ok n ast, where P = P and p = p] P unfolding list_all_iff by blast
  have ts: "distinct (map si_timestamp_id ?M)"
    using naive.distinct_ts [OF ok] distinct_map_filter by blast
  note sorted = policy_order_sorted [OF ts, of p]
  have set_ord: "set (policy_order p ?M) = set ?M" by (rule mset_eq_setD [OF policy_order_mset])
  have sub: "set ?sel \<subseteq> set ?M" using set_take_subset [of "nat n" "policy_order p ?M"] set_ord by simp
  have len: "length ?sel = min (nat n) (length ?M)"
    using mset_eq_length [OF policy_order_mset [of p ?M]] by (simp add: min.commute)
  have "distinct (policy_order p ?M)"
    using mset_eq_imp_distinct_iff [OF policy_order_mset [of p ?M]] naive.distinct_cont [OF ok] by simp
  then have "mset ?sel = mset (filter (\<lambda>it. it \<in> set ?sel) (content st))"
    using sub naive.distinct_cont [OF ok] by (intro iffD1 [OF set_eq_iff_mset_eq_distinct]) auto
  then have "mset ?sel + mset (content st') = mset (content st)"
    unfolding st'(3) using multiset_partition [of "mset (content st)" "\<lambda>it. it \<in> set ?sel"] by (simp add: mset_filter)
  moreover have "sorted_wrt (policy_before p) ?sel" using sorted sorted_wrt_take by blast
  moreover have "policy_before p r r'" if "r \<in> set ?sel" "r' \<in> set (content st')" "P r'" for r r'
    by (rule sorted_wrt_take_before [OF sorted that(1)]) (use that st'(3) set_ord in auto)
  moreover have "?sel = take (nat n) ?M" if "p = FIFOReplayPolicy"
    using policy_order_fifo_id [of ?M] naive.ordered [OF ok] that by (simp add: sorted_wrt_map sorted_wrt_filter)
  ultimately show ?thesis using st' len sub by (intro exI [of _ ?sel] exI [of _ st']) (auto simp: list_all_iff)
qed

theorem policy_get_hands_out_first_witness:
  "\<exists>(sel :: StorageItem list) st'. policy_get StalenessReplayPolicy 1 (QDict [(''status'', QVal (QStatus COMPLETED))])
      \<lparr>uid_gen = 3, timestamp_id_gen = 3, items =
        [(1, \<lparr>si_item = [], si_uid = 1, si_timestamp_id = 1, si_task_name = ''a'', si_status = COMPLETED, si_staleness = 0\<rparr>),
         (2, \<lparr>si_item = [], si_uid = 2, si_timestamp_id = 2, si_task_name = ''a'', si_status = COMPLETED, si_staleness = 4\<rparr>)]\<rparr>
     = Inr (map si_item sel, st') \<and> length sel = 1 \<and> storage_ok st'"
proof -
  let ?st = "\<lparr>uid_gen = 3, timestamp_id_gen = 3, items =
        [(1, \<lparr>si_item = [], si_uid = 1, si_timestamp_id = 1, si_task_name = ''a'', si_status = COMPLETED, si_staleness = 0\<rparr>),
         (2, \<lparr>si_item = [], si_uid = 2, si_timestamp_id = 2, si_task_name = ''a'', si_status = COMPLETED, si_staleness = 4\<rparr>)]\<rparr>"
  have c: "storage_ok ?st" by (simp add: storage_ok_def content_def keyed_def)
  have a: "parse_query (QDict [(''status'', QVal (QStatus COMPLETED))]) = Inr (ScalarNode ''status'' ''$eq'' (QVal (QStatus COMPLETED)))"
    by (simp add: conjoin_def)
  have P: "list_all (\<lambda>it. evaluate it (ScalarNode ''status'' ''$eq'' (QVal (QStatus COMPLETED))) = Inr ((\<lambda>it. si_status it = COMPLETED) it)) (content ?st)"
    by (simp add: content_def field_value_def eval_scalar_def)
  have n: "(0::int) < 1" by simp
  have l: "length (filter (\<lambda>it. si_status it = COMPLETED) (content ?st)) = 2" by (simp add: content_def)
  obtain sel :: "StorageItem list" and st' where r: "policy_get StalenessReplayPolicy 1 (QDict [(''status'', QVal (QStatus COMPLETED))]) ?st = Inr (map si_item sel, st')"
    and ok': "storage_ok st'"
    and "length sel = min (nat 1) (length (filter (\<lambda>it. si_status it = COMPLETED) (content ?st)))"
    using policy_get_hands_out_first [OF c n a P, of StalenessReplayPolicy] by (elim exE conjE) (rule that)
  then have "length sel = 1" unfolding l by simp
  then show ?thesis using r ok' by blast
qed

lemma storage_roundtrip:
  assumes ok: "storage_ok st" and heap: "heap_ok heap" and live: "list_all (item_live (length heap)) (content st)"
  shows "\<exists>state. storage_state_dict heap st = Inr state \<and>
    (let (st', heap') = storage_load_state_dict state heap2 in
     storage_ok st' \<and> map record_head (content st') = map record_head (content st) \<and>
     rmap (snapshot_item (length heap) heap') (content st') = rmap (snapshot_item (length heap) heap) (content st) \<and>
     take (length heap2) heap' = heap2)"
proof -
  let ?n = "length heap"
  have "\<exists>g. snapshot_item ?n heap it = Inr g \<and> list_all (state_serial ?n) (si_item g)" if "it \<in> set (content st)" for it
    using snapshot_item_total [OF heap _ order_refl] live that by (fastforce simp: list_all_iff)
  then have "\<exists>gs. rmap (snapshot_item ?n heap) (content st) = Inr gs \<and> list_all (\<lambda>it. list_all (state_serial ?n) (si_item it)) gs"
    by (rule rmap_exists)
  then obtain gs where gs: "rmap (snapshot_item ?n heap) (content st) = Inr gs"
    "list_all (\<lambda>it. list_all (state_serial ?n) (si_item it)) gs" by blast
  have heads: "map record_head gs = map record_head (content st)"
  proof -
    have "list_all2 (\<lambda>it g. record_head it = record_head g) (content st) gs"
      using gs(1) unfolding rmap_Inr_iff
      by (rule list_all2_mono) (auto simp: snapshot_item_def record_head_def rbind_Inr_iff)
    then show ?thesis by (auto simp: list_all2_conv_all_nth intro!: nth_equalityI)
  qed
  obtain js heap' where r: "restore_items gs heap2 = (js, heap')" by fastforce
  have jheads: "map record_head js = map record_head (content st)" using restore_items_heads [of gs heap2] heads r by simp
  have uids: "map si_uid js = map si_uid (content st)" and ts: "map si_timestamp_id js = map si_timestamp_id (content st)"
    using arg_cong [OF jheads, of "map fst"] arg_cong [OF jheads, of "map (fst \<circ> snd)"] by (simp_all add: record_head_def comp_def)
  have snap: "restored ?n heap2 heap' (\<lambda>x. rmap (snapshot_item ?n x) js = Inr gs)"
    using restore_items_snapshot [OF gs(2), of heap2] r by simp
  let ?mu = "Max (set (0 # map fst (items st)))" and ?mt = "Max (set (0 # map (\<lambda>(k, it). si_timestamp_id it) (items st)))"
  let ?state = "\<lparr>saved_items = gs, next_uid = ?mu + 1, next_timestamp_id = ?mt + 1\<rparr>"
  let ?st = "\<lparr>uid_gen = ?mu + 1, timestamp_id_gen = ?mt + 1, items = keyed js\<rparr>"
  have save: "storage_state_dict heap st = Inr ?state" using gs(1) by (simp add: storage_state_dict_def content_def)
  have d: "distinct (map si_uid js)" using ok strict_sorted_distinct by (simp add: uids storage_ok_def)
  have load: "storage_load_state_dict ?state heap2 = (?st, heap')"
    using fold_update_keys [OF d, of "[]"] by (simp add: storage_load_state_dict_def r)
  have c: "content ?st = js" by (simp add: content_def keyed_snd)
  have items: "map fst (items st) = map si_uid js" "map (\<lambda>(k, it). si_timestamp_id it) (items st) = map si_timestamp_id js"
    using ok unfolding uids ts by (simp_all add: storage_ok_def keyed_def comp_def)
  have pos: "0 < u" if "u \<in> set (map si_uid js) \<union> set (map si_timestamp_id js)" for u
    using that ok unfolding uids ts by (auto simp: storage_ok_def list_all_iff)
  have "u < ?mu + 1" if "u \<in> set (map si_uid js)" for u
    using Max_ge [of "set (0 # map fst (items st))" u] that by (simp add: items(1) less_Suc_eq_le)
  moreover have "t < ?mt + 1" if "t \<in> set (map si_timestamp_id js)" for t
    using Max_ge [of "set (0 # map (\<lambda>(k, it). si_timestamp_id it) (items st))" t] that by (simp only: items(2)) simp
  moreover have "0 \<le> ?mu" "0 \<le> ?mt" by (rule Max_ge; simp)+
  moreover have "sorted_wrt (<) (map si_uid js)" "sorted_wrt (<) (map si_timestamp_id js)"
    using ok unfolding uids ts by (simp_all add: storage_ok_def)
  ultimately have "storage_ok ?st"
    unfolding storage_ok_alt c using pos by (auto simp del: set_map)
  moreover have "rmap (snapshot_item ?n heap') js = rmap (snapshot_item ?n heap) (content st)"
  proof -
    have "rmap (snapshot_item ?n (heap' @ [])) js = Inr gs" using snap unfolding restored_def by blast
    then show ?thesis using gs(1) by simp
  qed
  moreover have "take (length heap2) heap' = heap2" using snap by (auto simp: restored_def)
  ultimately show ?thesis using save load c jheads by (intro exI [of _ ?state]) (simp add: case_prod_beta)
qed

text \<open>C17. A checkpoint of the storage is a round trip: saving a consistent storage whose objects are all
  available succeeds, and loading it into another process gives a consistent storage with the same records in the
  same order (uid, timestamp, task, status, staleness), whose groups have the same contents when their
  references are followed, and whose next uid and timestamp are fresh.\<close>

theorem storage_checkpoint_roundtrip:
  assumes ok: "storage_ok st" and heap: "heap_ok heap" and live: "list_all (item_live (length heap)) (content st)"
  shows "\<exists>state. storage_state_dict heap st = Inr state \<and>
    (let (st', heap') = storage_load_state_dict state heap2 in
     storage_ok st' \<and> map record_head (content st') = map record_head (content st) \<and>
     rmap (snapshot_item (length heap) heap') (content st') = rmap (snapshot_item (length heap) heap) (content st) \<and>
     take (length heap2) heap' = heap2)"
  using assms by (rule storage_roundtrip)

theorem storage_checkpoint_roundtrip_witness:
  "\<exists>state. storage_state_dict [VInt 9] \<lparr>uid_gen = 2, timestamp_id_gen = 2, items =
      [(1, \<lparr>si_item = [default_state (VRef 0)], si_uid = 1, si_timestamp_id = 1, si_task_name = ''a'', si_status = INIT, si_staleness = 0\<rparr>)]\<rparr>
    = Inr state \<and> storage_ok (fst (storage_load_state_dict state []))"
proof -
  let ?st = "\<lparr>uid_gen = 2, timestamp_id_gen = 2, items =
      [(1, \<lparr>si_item = [default_state (VRef 0)], si_uid = 1, si_timestamp_id = 1, si_task_name = ''a'', si_status = INIT, si_staleness = 0\<rparr>)]\<rparr>"
  have ok: "storage_ok ?st" by (simp add: storage_ok_def content_def keyed_def)
  have h: "heap_ok [VInt 9]" by (simp add: heap_ok_def live_below_def)
  have l: "list_all (item_live (length [VInt 9])) (content ?st)"
    by (simp add: content_def item_live_def state_live_def heavy_fields_def default_state_def live_below_def)
  from storage_checkpoint_roundtrip [OF ok h l, of "[]"] show ?thesis by (auto simp: case_prod_beta Let_def)
qed

end
