(* ===== verification/TraceStore.thy ===== *)
theory TraceStore
  imports RolloutData "HOL-Library.AList" "HOL-Library.Sublist"
begin

text \<open>
  The store of tokenized conversation prefixes, \<^verbatim>\<open>xtuner/v1/rl/rollout/trace_store.py\<close>: a prefix tree per
  session whose nodes carry tokenized segments, the actor that owns the sessions, and the release of a
  session together with its rollout states.

  A node is its value and its children; Python's dictionaries are association lists in insertion order
  (\<open>AList.update\<close> overwrites in place or appends, \<open>AList.delete\<close> removes). \<open>parent\<close> and
  \<open>created_at\<close> are written and never read, so a node has neither. A node value is a
  \<open>TokenizedSegment\<close> or another value (\<open>Foreign\<close>); Python's \<open>None\<close> is \<open>None\<close>. Every operation that
  frees references also returns them, in the order they are handed to Ray. The message of the mismatch
  error (with its text windows) is not modelled, nor is the bootstrap of the named actor.

  The main result is that the tree, whose lookup greedily follows the longest child token, is a map from
  keys to values: an insertion never hides a key stored before, and a release never uncovers one.
\<close>

subsection \<open>Tokenized segments\<close>

record TokenizedSegment =
  seg_text :: string
  seg_token_ids :: "int list"
  seg_labels :: "int list"
  seg_logprobs :: "pyfloat list"
  seg_expert_key :: pyval
  seg_length :: int

text \<open>\<open>model_post_init\<close> fills the missing fields; a failing assertion reaches the caller as pydantic's
  validation error, a \<open>ValueError\<close>.\<close>

definition tokenized_segment ::
  "string \<Rightarrow> int list \<Rightarrow> int list option \<Rightarrow> pyfloat list option \<Rightarrow> pyval \<Rightarrow> int option \<Rightarrow> TokenizedSegment res" where
  "tokenized_segment txt ids labs lps expert len =
     (let labs' = (case labs of None \<Rightarrow> replicate (length ids) ignore_index | Some l \<Rightarrow> l);
          lps' = (case lps of None \<Rightarrow> replicate (length ids) 0 | Some l \<Rightarrow> l);
          len' = (case len of None \<Rightarrow> int (length ids) | Some n \<Rightarrow> n)
      in if length ids = length labs' \<and> length labs' = length lps'
         then Inr \<lparr>seg_text = txt, seg_token_ids = ids, seg_labels = labs', seg_logprobs = lps',
                   seg_expert_key = expert, seg_length = len'\<rparr>
         else Inl ValueError)"

datatype trace_value = Segment TokenizedSegment | Foreign pyval

fun free_ray_refs :: "pyval \<Rightarrow> nat list" where
  "free_ray_refs (VRef r) = [r]"
| "free_ray_refs (VDict fs) = concat (map (\<lambda>(k, v). free_ray_refs v) fs)"
| "free_ray_refs (VList vs) = concat (map free_ray_refs vs)"
| "free_ray_refs (VTuple vs) = concat (map free_ray_refs vs)"
| "free_ray_refs (VModel fs) = concat (map (\<lambda>(k, v). free_ray_refs v) fs)"
| "free_ray_refs v = []"

definition free_trace_value :: "trace_value \<Rightarrow> nat list" where
  "free_trace_value v = (case v of Segment s \<Rightarrow> free_ray_refs (seg_expert_key s) | Foreign p \<Rightarrow> free_ray_refs p)"

subsection \<open>The prefix tree\<close>

datatype 'v trie = TreeNode (node_value: "'v option") (children: "(string \<times> 'v trie) list")

definition empty_trie :: "'v trie" where
  "empty_trie = TreeNode None []"

text \<open>The loop over \<open>node.children\<close>: the longest token that starts the text; the first one wins.\<close>

fun best_prefix :: "string \<Rightarrow> string list \<Rightarrow> string \<Rightarrow> string" where
  "best_prefix key [] best = best"
| "best_prefix key (token # ts) best =
     best_prefix key ts (if prefix token key \<and> length best < length token then token else best)"

function trie_insert :: "string \<Rightarrow> 'v option \<Rightarrow> 'v trie \<Rightarrow> 'v trie" where
  "trie_insert key v (TreeNode w cs) =
     (if key = [] then TreeNode v cs
      else
        let best = best_prefix key (map fst cs) [] in
        if best \<noteq> []
        then TreeNode w (AList.update best (trie_insert (drop (length best) key) v (the (map_of cs best))) cs)
        else TreeNode w (AList.update key (TreeNode v []) cs))"
  by pat_completeness auto
termination by (relation "measure (\<lambda>(key, v, t). length key)") auto

function trie_walk :: "string \<Rightarrow> 'v trie \<Rightarrow> string list \<times> 'v trie list" where
  "trie_walk txt (TreeNode w cs) =
     (if txt = [] then ([], [])
      else
        let best = best_prefix txt (map fst cs) [] in
        if best \<noteq> []
        then let node = the (map_of cs best); (key_path, matched) = trie_walk (drop (length best) txt) node
             in (best # key_path, node # matched)
        else ([], []))"
  by pat_completeness auto
termination by (relation "measure (\<lambda>(txt, t). length txt)") auto

definition trie_search :: "string \<Rightarrow> bool \<Rightarrow> 'v trie \<Rightarrow> string \<times> 'v trie list" where
  "trie_search txt filter_none t =
     (let (key_path, matched) = trie_walk txt t in
      (concat key_path, if filter_none then filter (\<lambda>n. node_value n \<noteq> None) matched else matched))"

fun trie_collect :: "string \<Rightarrow> 'v trie \<Rightarrow> string list" where
  "trie_collect path (TreeNode w cs) =
     (if w \<noteq> None then [path] else []) @ concat (map (\<lambda>(token, child). trie_collect (path @ token) child) cs)"

definition trie_keys :: "'v trie \<Rightarrow> string list" where
  "trie_keys t = trie_collect [] t"

text \<open>\<open>_free_subtree\<close>: children first; afterwards the node is empty.\<close>

fun free_subtree :: "('v \<Rightarrow> nat list) \<Rightarrow> 'v trie \<Rightarrow> nat list" where
  "free_subtree free (TreeNode w cs) =
     concat (map (\<lambda>(token, child). free_subtree free child) cs) @ (case w of None \<Rightarrow> [] | Some v \<Rightarrow> free v)"

text \<open>\<open>release\<close> of one key: \<open>None\<close> when the walk gets stuck, else the tree without the value, its empty branch
  pruned bottom-up, and the freed references. Once a node of the path survives, its ancestors have a child,
  so the early end of the pruning loop needs no separate case.\<close>

function trie_release_key :: "('v \<Rightarrow> nat list) \<Rightarrow> string \<Rightarrow> 'v trie \<Rightarrow> ('v trie \<times> nat list) option" where
  "trie_release_key free key (TreeNode w cs) =
     (if key = [] then Some (TreeNode None cs, case w of None \<Rightarrow> [] | Some v \<Rightarrow> free v)
      else
        let best = best_prefix key (map fst cs) [] in
        if best \<noteq> []
        then case trie_release_key free (drop (length best) key) (the (map_of cs best)) of
               None \<Rightarrow> None
             | Some (child, refs) \<Rightarrow>
                 if node_value child = None \<and> children child = []
                 then Some (TreeNode w (AList.delete best cs), refs)
                 else Some (TreeNode w (AList.update best child cs), refs)
        else None)"
  by pat_completeness auto
termination by (relation "measure (\<lambda>(free, key, t). length key)") auto

definition trie_release :: "('v \<Rightarrow> nat list) \<Rightarrow> string option \<Rightarrow> 'v trie \<Rightarrow> 'v trie \<times> nat list" where
  "trie_release free key t =
     (case key of
        None \<Rightarrow> (empty_trie, free_subtree free t)
      | Some k \<Rightarrow> (case trie_release_key free k t of None \<Rightarrow> (t, []) | Some r \<Rightarrow> r))"

subsection \<open>The store\<close>

record trace_store =
  sessions :: "(string \<times> trace_value trie) list"
  objects :: "(string \<times> nat) list"
  updated_at :: "(string \<times> pyfloat) list"

definition store_init :: trace_store where
  "store_init = \<lparr>sessions = [], objects = [], updated_at = []\<rparr>"

definition get_or_create :: "string \<Rightarrow> trace_store \<Rightarrow> trace_value trie \<times> trace_store" where
  "get_or_create sid st =
     (case map_of (sessions st) sid of
        Some t \<Rightarrow> (t, st)
      | None \<Rightarrow> (empty_trie, st\<lparr>sessions := AList.update sid empty_trie (sessions st)\<rparr>))"

definition list_sessions :: "trace_store \<Rightarrow> string list" where
  "list_sessions st = map fst (sessions st)"

definition store_keys :: "string \<Rightarrow> trace_store \<Rightarrow> string list \<times> trace_store" where
  "store_keys sid st = (let (t, st') = get_or_create sid st in (trie_keys t, st'))"

definition store_insert :: "string \<Rightarrow> string \<Rightarrow> trace_value option \<Rightarrow> trace_store \<Rightarrow> trace_store" where
  "store_insert sid key v st =
     (let (t, st') = get_or_create sid st in
      st'\<lparr>sessions := AList.update sid (trie_insert key v t) (sessions st')\<rparr>)"

definition store_search :: "string \<Rightarrow> string \<Rightarrow> bool \<Rightarrow> trace_store \<Rightarrow> (string \<times> trace_value trie list) \<times> trace_store" where
  "store_search sid txt filter_none st =
     (let (t, st') = get_or_create sid st in (trie_search txt filter_none t, st'))"

definition store_release :: "string \<Rightarrow> string option \<Rightarrow> trace_store \<Rightarrow> (trace_store \<times> nat list) res" where
  "store_release sid key st =
     (case map_of (sessions st) sid of
        None \<Rightarrow> Inl AssertionError
      | Some t \<Rightarrow>
          let (t', refs) = trie_release free_trace_value key t in
          Inr (st\<lparr>sessions := (if key = None then AList.delete sid (sessions st)
                               else AList.update sid t' (sessions st))\<rparr>, refs))"

text \<open>The loop of \<open>release_sessions\<close> over the distinct ids: released ids, store, freed references.\<close>

fun release_sessions_loop :: "string list \<Rightarrow> trace_store \<Rightarrow> (string list \<times> trace_store \<times> nat list) res" where
  "release_sessions_loop [] st = Inr ([], st, [])"
| "release_sessions_loop (sid # sids) st =
     (if sid \<notin> fst ` set (sessions st) then release_sessions_loop sids st
      else rbind (store_release sid None st) (\<lambda>(st', refs).
           rbind (release_sessions_loop sids st') (\<lambda>(released, st'', refs').
             Inr (sid # released, st'', refs @ refs'))))"

definition release_sessions :: "string list \<Rightarrow> trace_store \<Rightarrow> (string list \<times> trace_store \<times> nat list) res" where
  "release_sessions sids st = release_sessions_loop (dedup [] sids) st"

definition release_all :: "trace_store \<Rightarrow> (trace_store \<times> nat list) res" where
  "release_all st =
     rbind (release_sessions (map fst (sessions st)) st) (\<lambda>(released, st', refs).
       Inr (st'\<lparr>objects := [], updated_at := []\<rparr>, refs))"

definition resolve_routed_experts :: "pyval list \<Rightarrow> pyval list option res" where
  "resolve_routed_experts expert_keys =
     (let present = map (\<lambda>e. e \<noteq> VNone) expert_keys in
      if True \<notin> set present then Inr None
      else if False \<notin> set present then Inr (Some expert_keys)
      else Inl ValueError)"

record training_trace =
  trace_input_ids :: "int list"
  trace_labels :: "int list"
  trace_logprobs :: "pyfloat list"
  trace_routed_experts :: "pyval list option"

text \<open>The values of the matched nodes: \<open>filter_none\<close> leaves only nodes with a value.\<close>

definition node_segment :: "trace_value trie \<Rightarrow> TokenizedSegment res" where
  "node_segment n = (case node_value n of Some (Segment s) \<Rightarrow> Inr s | _ \<Rightarrow> Inl TypeError)"

definition export_training_trace :: "string \<Rightarrow> string \<Rightarrow> trace_store \<Rightarrow> training_trace res \<times> trace_store" where
  "export_training_trace sid prompt_text st =
     (let (t, st') = get_or_create sid st;
          (key, nodes) = trie_search prompt_text True t
      in (if prompt_text \<noteq> key then Inl ValueError
          else rbind (rmap node_segment nodes) (\<lambda>segs.
               rbind (resolve_routed_experts (map seg_expert_key segs)) (\<lambda>experts.
                 Inr \<lparr>trace_input_ids = concat (map seg_token_ids segs),
                      trace_labels = concat (map seg_labels segs),
                      trace_logprobs = concat (map seg_logprobs segs),
                      trace_routed_experts = experts\<rparr>)),
          st'))"

definition get_objects :: "string list \<Rightarrow> trace_store \<Rightarrow> nat list" where
  "get_objects keys st = List.map_filter (map_of (objects st)) keys"

subsection \<open>Releasing sessions with their rollouts\<close>

text \<open>\<open>str\<close> of an integer.\<close>

fun str_nat :: "nat \<Rightarrow> string" where
  "str_nat n = (if n < 10 then [char_of (48 + n)] else str_nat (n div 10) @ [char_of (48 + n mod 10)])"

declare str_nat.simps [simp del]

definition str_int :: "int \<Rightarrow> string" where
  "str_int i = (if i < 0 then CHR ''-'' # str_nat (nat (- i)) else str_nat (nat i))"

text \<open>The store is absent when the actor was never created.\<close>

definition release_existing_sessions ::
  "string list \<Rightarrow> trace_store option \<Rightarrow> (string set \<times> trace_store option \<times> nat list) res" where
  "release_existing_sessions sids store =
     (let sids' = dedup [] sids in
      if sids' = [] then Inr ({}, store, [])
      else case store of
             None \<Rightarrow> Inr ({}, None, [])
           | Some st \<Rightarrow> rbind (release_sessions sids' st) (\<lambda>(released, st', refs).
               Inr (set released, Some st', refs)))"

definition detach_and_discard :: "string set \<Rightarrow> RolloutState \<Rightarrow> RolloutState \<times> nat list" where
  "detach_and_discard released s =
     discard_rollout_state
       (case session_id s of
          Some i \<Rightarrow> if str_int i \<in> released then s\<lparr>routed_experts := VNone\<rparr> else s
        | None \<Rightarrow> s)"

definition session_ids_of :: "RolloutState list list \<Rightarrow> string list" where
  "session_ids_of groups = map str_int (List.map_filter session_id (concat groups))"

definition release_and_discard_rollout_groups ::
  "RolloutState list list \<Rightarrow> trace_store option \<Rightarrow> (RolloutState list list \<times> trace_store option \<times> nat list) res" where
  "release_and_discard_rollout_groups groups store =
     rbind (release_existing_sessions (session_ids_of groups) store) (\<lambda>(released, store', refs).
       Inr (map (map (\<lambda>s. fst (detach_and_discard released s))) groups, store',
            refs @ concat (map (\<lambda>s. snd (detach_and_discard released s)) (concat groups))))"

subsection \<open>Lemmas: the longest token\<close>

lemma best_prefix_cases:
  "(best_prefix key ts acc = acc \<or>
      (best_prefix key ts acc \<in> set ts \<and> prefix (best_prefix key ts acc) key \<and> length acc < length (best_prefix key ts acc))) \<and>
   length acc \<le> length (best_prefix key ts acc) \<and>
   (\<forall>t \<in> set ts. prefix t key \<longrightarrow> length t \<le> length (best_prefix key ts acc))"
proof (induction key ts acc rule: best_prefix.induct)
  case (2 key token ts acc)
  show ?case
  proof (cases "prefix token key \<and> length acc < length token")
    case True
    then show ?thesis using 2 by auto
  next
    case False
    then have *: "prefix token key \<longrightarrow> length token \<le> length acc" by auto
    show ?thesis using 2 False * by (auto simp: le_trans)
  qed
qed simp

abbreviation best :: "(string \<times> 'v trie) list \<Rightarrow> string \<Rightarrow> string" where
  "best cs key \<equiv> best_prefix key (map fst cs) []"

lemma best_in: "best cs key \<noteq> [] \<Longrightarrow> best cs key \<in> fst ` set cs"
  and best_is_prefix: "best cs key \<noteq> [] \<Longrightarrow> prefix (best cs key) key"
  and best_longest: "t \<in> fst ` set cs \<Longrightarrow> prefix t key \<Longrightarrow> length t \<le> length (best cs key)"
  using best_prefix_cases [of key "map fst cs" "[]"] by auto

lemma prefix_same_length: "prefix a k \<Longrightarrow> prefix b k \<Longrightarrow> length a = length b \<Longrightarrow> a = b"
  by (metis prefix_length_prefix prefix_order.eq_iff order_refl)

lemma best_eqI:
  assumes "b \<in> fst ` set cs" "b \<noteq> []" "prefix b key" "\<And>t. t \<in> fst ` set cs \<Longrightarrow> prefix t key \<Longrightarrow> length t \<le> length b"
  shows "best cs key = b"
proof -
  have "length b \<le> length (best cs key)" using best_longest assms(1,3) .
  then have ne: "best cs key \<noteq> []" using assms(2) by auto
  then have "length (best cs key) \<le> length b" using assms(4) best_in best_is_prefix by blast
  then show ?thesis
    using \<open>length b \<le> length (best cs key)\<close> prefix_same_length [OF best_is_prefix [OF ne] assms(3)] by simp
qed

lemma best_Nil_iff: "best cs key = [] \<longleftrightarrow> (\<forall>t \<in> fst ` set cs. prefix t key \<longrightarrow> t = [])"
proof (rule iffI, intro ballI impI)
  fix t assume e: "best cs key = []" and t: "t \<in> fst ` set cs" "prefix t key"
  show "t = []" using best_longest [OF t] unfolding e by simp
next
  assume all: "\<forall>t \<in> fst ` set cs. prefix t key \<longrightarrow> t = []"
  show "best cs key = []"
  proof (rule ccontr)
    assume ne: "best cs key \<noteq> []"
    show False using bspec [OF all best_in [OF ne]] best_is_prefix [OF ne] ne by simp
  qed
qed

lemma best_set_cong:
  assumes "fst ` set cs = fst ` set ds"
  shows "best cs key = best ds key"
proof (cases "best ds key = []")
  case True
  then show ?thesis using assms best_Nil_iff by metis
next
  case False
  show ?thesis
  proof (rule best_eqI)
    show "best ds key \<in> fst ` set cs" using False assms best_in by metis
    show "length t \<le> length (best ds key)" if "t \<in> fst ` set cs" "prefix t key" for t
      using that assms best_longest by metis
  qed (use False best_is_prefix in blast)+
qed

lemma best_split: "best cs key \<noteq> [] \<Longrightarrow> key = best cs key @ drop (length (best cs key)) key"
  using best_is_prefix by (metis append_eq_conv_conj prefix_def)

lemma best_child: "best cs key \<noteq> [] \<Longrightarrow> \<exists>c. map_of cs (best cs key) = Some c \<and> (best cs key, c) \<in> set cs"
  using best_in by (metis (no_types, opaque_lifting) domIff dom_map_of_conv_image_fst map_of_SomeD option.exhaust)

subsection \<open>Lemmas: the tree as a map\<close>

text \<open>The value at a key: the specification-level reading of the tree.\<close>

function trie_get :: "string \<Rightarrow> 'v trie \<Rightarrow> 'v option" where
  "trie_get key (TreeNode w cs) =
     (if key = [] then w
      else if best cs key = [] then None
      else trie_get (drop (length (best cs key)) key) (the (map_of cs (best cs key))))"
  by pat_completeness auto
termination by (relation "measure (\<lambda>(key, t). length key)") auto

declare trie_get.simps [simp del] trie_insert.simps [simp del] trie_walk.simps [simp del] trie_release_key.simps [simp del]

lemma trie_get_Nil [simp]: "trie_get [] t = node_value t"
  by (cases t) (simp add: trie_get.simps)

lemma trie_get_leaf [simp]: "trie_get key (TreeNode w []) = (if key = [] then w else None)"
  by (simp add: trie_get.simps)

lemma trie_get_stuck: "key \<noteq> [] \<Longrightarrow> best cs key = [] \<Longrightarrow> trie_get key (TreeNode w cs) = None"
  by (simp add: trie_get.simps)

lemma trie_get_step:
  "best cs key = b \<Longrightarrow> b \<noteq> [] \<Longrightarrow> map_of cs b = Some c \<Longrightarrow> trie_get key (TreeNode w cs) = trie_get (drop (length b) key) c"
  by (auto simp: trie_get.simps best_Nil_iff)

text \<open>Overwriting the subtree of a child leaves the walk at the node alone.\<close>

lemma best_update: "b \<in> fst ` set cs \<Longrightarrow> best (AList.update b c cs) key = best cs key"
  by (rule best_set_cong) (auto simp: dom_update)

lemma trie_get_update:
  assumes b: "best cs k = b" "b \<noteq> []"
  shows "trie_get k' (TreeNode w (AList.update b c cs)) =
    (if k' \<noteq> [] \<and> best cs k' = b then trie_get (drop (length b) k') c else trie_get k' (TreeNode w cs))"
proof -
  have B: "best (AList.update b c cs) k' = best cs k'" using best_update best_in b by metis
  show ?thesis using b B by (auto simp: trie_get.simps update_conv' fun_upd_def)
qed

lemma drop_best_eq_iff:
  assumes "best cs k = b" "best cs k' = b" "b \<noteq> []"
  shows "drop (length b) k = drop (length b) k' \<longleftrightarrow> k = k'"
  using assms best_split [of k cs] best_split [of k' cs] by metis

text \<open>A new child, whose token no child token starts, captures only texts on which the walk was stuck.\<close>

lemma best_snoc:
  assumes "best cs key = []" "key \<noteq> []"
  shows "best (cs @ [(key, c)]) k = (if prefix key k \<and> best cs k = [] then key else best cs k)"
proof -
  have split: "best (cs @ [(key, c)]) k = (if prefix key k \<and> length (best cs k) < length key then key else best cs k)"
  proof -
    have "best_prefix k (ts @ [key]) acc =
        (if prefix key k \<and> length (best_prefix k ts acc) < length key then key else best_prefix k ts acc)" for ts acc
      by (induction k ts acc rule: best_prefix.induct) auto
    then show ?thesis by simp
  qed
  have "best cs k = []" if "prefix key k" "length (best cs k) < length key"
  proof (rule ccontr)
    assume ne: "best cs k \<noteq> []"
    have "prefix (best cs k) key" by (rule prefix_length_prefix [OF best_is_prefix [OF ne] that(1)]) (use that(2) in simp)
    then show False using bspec [OF iffD1 [OF best_Nil_iff assms(1)] best_in [OF ne]] ne by simp
  qed
  then show ?thesis unfolding split using assms(2) by auto
qed

lemma best_Nil_new_key: "best cs key = [] \<Longrightarrow> key \<noteq> [] \<Longrightarrow> key \<notin> fst ` set cs"
  unfolding best_Nil_iff by auto

lemma trie_get_insert: "trie_get k (trie_insert key v t) = (if k = key then v else trie_get k t)"
proof (induction key v t arbitrary: k rule: trie_insert.induct)
  case (1 key v w cs)
  let ?b = "best cs key"
  consider "key = []" | "key \<noteq> []" "?b \<noteq> []" | "key \<noteq> []" "?b = []" by blast
  then show ?case
  proof cases
    case 1
    then show ?thesis by (simp add: trie_insert.simps trie_get.simps)
  next
    case 2
    obtain c where c: "map_of cs ?b = Some c" using best_child [OF 2(2)] by blast
    have IH: "trie_get j (trie_insert (drop (length ?b) key) v c) = (if j = drop (length ?b) key then v else trie_get j c)" for j
      using "1.IH" [OF 2(1) refl 2(2)] c by simp
    have "trie_insert key v (TreeNode w cs) = TreeNode w (AList.update ?b (trie_insert (drop (length ?b) key) v c) cs)"
      using 2 c by (simp add: trie_insert.simps Let_def)
    then have new: "trie_get k (trie_insert key v (TreeNode w cs)) =
        (if k \<noteq> [] \<and> best cs k = ?b then trie_get (drop (length ?b) k) (trie_insert (drop (length ?b) key) v c)
         else trie_get k (TreeNode w cs))"
      using trie_get_update [OF refl 2(2)] by simp
    show ?thesis
    proof (cases "k \<noteq> [] \<and> best cs k = ?b")
      case True
      then have "trie_get k (TreeNode w cs) = trie_get (drop (length ?b) k) c"
        using trie_get_step [OF _ 2(2) c] by blast
      then show ?thesis
        unfolding new IH using True drop_best_eq_iff [OF _ refl 2(2), of k] by simp
    next
      case False
      then have "k \<noteq> key" using 2(1) by auto
      then show ?thesis unfolding new using False by auto
    qed
  next
    case 3
    have ins: "trie_insert key v (TreeNode w cs) = TreeNode w (cs @ [(key, TreeNode v [])])"
      using 3 by (simp add: trie_insert.simps update_new [OF best_Nil_new_key [OF 3(2,1)]])
    note bs = best_snoc [OF 3(2,1), where c = "TreeNode v []" and k = k]
    show ?thesis
    proof (cases "prefix key k \<and> best cs k = []")
      case True
      have k: "k \<noteq> []" using True 3(1) by auto
      have m: "map_of (cs @ [(key, TreeNode v [])]) key = Some (TreeNode v [])"
        using iffD2 [OF map_of_eq_None_iff best_Nil_new_key [OF 3(2,1)]] by (simp add: map_add_def)
      have "trie_get k (TreeNode w (cs @ [(key, TreeNode v [])])) = trie_get (drop (length key) k) (TreeNode v [])"
        by (rule trie_get_step [OF _ 3(1) m]) (use True bs in simp)
      moreover have "drop (length key) k = [] \<longleftrightarrow> k = key" using True by (auto simp: prefix_def)
      moreover have "trie_get k (TreeNode w cs) = None" using trie_get_stuck [OF k] True by blast
      ultimately show ?thesis unfolding ins by simp
    next
      case False
      then have same: "best (cs @ [(key, TreeNode v [])]) k = best cs k" and "k \<noteq> key" using bs 3(2) by auto
      moreover have "map_of (cs @ [(key, TreeNode v [])]) (best cs k) = map_of cs (best cs k)" if "best cs k \<noteq> []"
        using best_child [OF that] by auto
      ultimately show ?thesis unfolding ins by (simp add: trie_get.simps)
    qed
  qed
qed

subsection \<open>Lemmas: the invariant of the tree\<close>

text \<open>The keys of all nodes, with or without a value.\<close>

fun node_keys :: "'v trie \<Rightarrow> string set" where
  "node_keys (TreeNode w cs) = insert [] (\<Union>(b, c) \<in> set cs. (@) b ` node_keys c)"

text \<open>No node is hidden: a node below a child is not captured by a longer sibling token.\<close>

fun trie_ok :: "'v trie \<Rightarrow> bool" where
  "trie_ok (TreeNode w cs) \<longleftrightarrow> distinct (map fst cs) \<and> (\<forall>(b, c) \<in> set cs. b \<noteq> [] \<and> trie_ok c) \<and>
     (\<forall>(b, c) \<in> set cs. \<forall>b' \<in> fst ` set cs. strict_prefix b b' \<longrightarrow> (\<forall>p \<in> node_keys c. \<not> prefix b' (b @ p)))"

lemma trie_okI:
  assumes "distinct (map fst cs)" and "\<And>b c. (b, c) \<in> set cs \<Longrightarrow> b \<noteq> [] \<and> trie_ok c"
    and "\<And>b c b' p. (b, c) \<in> set cs \<Longrightarrow> b' \<in> fst ` set cs \<Longrightarrow> strict_prefix b b' \<Longrightarrow> p \<in> node_keys c \<Longrightarrow> \<not> prefix b' (b @ p)"
  shows "trie_ok (TreeNode w cs)"
  unfolding trie_ok.simps using assms by blast

lemma trie_ok_child: "trie_ok (TreeNode w cs) \<Longrightarrow> map_of cs b = Some c \<Longrightarrow> b \<noteq> [] \<and> trie_ok c"
  by (auto dest!: map_of_SomeD)

lemma trie_ok_sibling:
  assumes "trie_ok (TreeNode w cs)" "(b, c) \<in> set cs" "b' \<in> fst ` set cs" "strict_prefix b b'" "p \<in> node_keys c"
  shows "\<not> prefix b' (b @ p)"
proof -
  have "\<forall>(b, c) \<in> set cs. \<forall>b' \<in> fst ` set cs. strict_prefix b b' \<longrightarrow> (\<forall>p \<in> node_keys c. \<not> prefix b' (b @ p))"
    using assms(1) unfolding trie_ok.simps by blast
  from bspec [OF this assms(2)] show ?thesis using assms(3-5) by blast
qed

lemma trie_get_node_key: "trie_get k t = Some v \<Longrightarrow> k \<in> node_keys t"
proof (induction k t rule: trie_get.induct)
  case (1 k w cs)
  show ?case
  proof (cases "k = [] \<or> best cs k = []")
    case False
    then obtain c where c: "map_of cs (best cs k) = Some c" "(best cs k, c) \<in> set cs" using best_child by blast
    have "drop (length (best cs k)) k \<in> node_keys c" using 1 False c(1) by (auto simp: trie_get.simps)
    then have "best cs k @ drop (length (best cs k)) k \<in> node_keys (TreeNode w cs)" using c(2) by force
    then show ?thesis using best_split False by metis
  qed (use 1 in \<open>auto simp: trie_get.simps\<close>)
qed

lemma best_of_node_key:
  assumes ok: "trie_ok (TreeNode w cs)" and c: "(b, c) \<in> set cs" and p: "p \<in> node_keys c"
  shows "best cs (b @ p) = b"
proof (rule best_eqI)
  fix t assume t: "t \<in> fst ` set cs" "prefix t (b @ p)"
  show "length t \<le> length b"
  proof (rule ccontr)
    assume "\<not> length t \<le> length b"
    then have "prefix b t" "b \<noteq> t" using prefix_length_prefix [OF prefixI [OF refl] t(2)] by auto
    then have "strict_prefix b t" by (simp add: strict_prefix_def)
    then show False using trie_ok_sibling [OF ok c t(1) _ p] t(2) by blast
  qed
qed (use assms in force)+

lemma update_set_subset: "set (AList.update k v cs) \<subseteq> insert (k, v) (set cs)"
  by (induction cs) auto

lemma node_keys_update:
  "node_keys (TreeNode w (AList.update b c cs)) \<subseteq> node_keys (TreeNode w cs) \<union> (@) b ` node_keys c"
proof -
  have "(\<Union>(b, c) \<in> set (AList.update b c cs). (@) b ` node_keys c) \<subseteq> (\<Union>(b, c) \<in> insert (b, c) (set cs). (@) b ` node_keys c)"
    by (rule UN_mono [OF update_set_subset order_refl])
  then show ?thesis by auto
qed

text \<open>Replacing the child at \<open>b\<close> keeps the invariant when the new subtree has no node that a sibling captures.\<close>

lemma trie_ok_update:
  assumes ok: "trie_ok (TreeNode w cs)" and b: "b \<noteq> []" "b \<in> fst ` set cs" and c: "trie_ok c"
    and cap: "\<And>b' p. b' \<in> fst ` set cs \<Longrightarrow> strict_prefix b b' \<Longrightarrow> p \<in> node_keys c \<Longrightarrow> \<not> prefix b' (b @ p)"
  shows "trie_ok (TreeNode w (AList.update b c cs))"
proof -
  have dom: "fst ` set (AList.update b c cs) = fst ` set cs" using b(2) by (auto simp: dom_update)
  have mem: "(x, y) = (b, c) \<or> (x, y) \<in> set cs" if "(x, y) \<in> set (AList.update b c cs)" for x y
    using that update_set_subset by fastforce
  have "distinct (map fst (AList.update b c cs))" using ok by (simp add: distinct_update)
  moreover have "x \<noteq> [] \<and> trie_ok y" if "(x, y) \<in> set (AList.update b c cs)" for x y
    using mem [OF that] ok b c by auto
  moreover have "\<not> prefix b' (x @ p)" if "(x, y) \<in> set (AList.update b c cs)" "b' \<in> fst ` set cs" "strict_prefix x b'" "p \<in> node_keys y" for x y b' p
    using mem [OF that(1)] cap [OF that(2)] trie_ok_sibling [OF ok _ that(2)] that(3,4) by blast
  ultimately show ?thesis by (intro trie_okI) (simp_all only: dom, blast+)
qed

lemma node_keys_insert: "node_keys (trie_insert key v t) \<subseteq> insert key (node_keys t)"
proof (induction key v t rule: trie_insert.induct)
  case (1 key v w cs)
  let ?b = "best cs key"
  consider "key = []" | "key \<noteq> []" "?b \<noteq> []" | "key \<noteq> []" "?b = []" by blast
  then show ?case
  proof cases
    case 2
    obtain c where c: "map_of cs ?b = Some c" "(?b, c) \<in> set cs" using best_child [OF 2(2)] by blast
    have IH: "node_keys (trie_insert (drop (length ?b) key) v c) \<subseteq> insert (drop (length ?b) key) (node_keys c)"
      using "1.IH" [OF 2(1) refl 2(2)] c by simp
    have img: "(@) ?b ` node_keys (trie_insert (drop (length ?b) key) v c) \<subseteq> insert key (node_keys (TreeNode w cs))"
    proof -
      have "(@) ?b ` node_keys c \<subseteq> node_keys (TreeNode w cs)" using c(2) by auto
      moreover have "(@) ?b ` insert (drop (length ?b) key) (node_keys c) = insert key ((@) ?b ` node_keys c)"
        using best_split [OF 2(2)] by simp
      ultimately show ?thesis using image_mono [OF IH, of "(@) ?b"] by blast
    qed
    have ins: "trie_insert key v (TreeNode w cs) = TreeNode w (AList.update ?b (trie_insert (drop (length ?b) key) v c) cs)"
      using 2 c by (simp add: trie_insert.simps Let_def)
    show ?thesis unfolding ins by (rule order_trans [OF node_keys_update Un_least [OF subset_insertI img]])
  next
    case 3
    then show ?thesis using node_keys_update [of w key "TreeNode v []" cs] by (simp add: trie_insert.simps)
  qed (simp add: trie_insert.simps)
qed

text \<open>Induction along the walk, shared by the operations.\<close>

lemma trie_walk_induct [case_names root stuck step]:
  assumes "\<And>w cs. P [] (TreeNode w cs)"
    and "\<And>k w cs. k \<noteq> [] \<Longrightarrow> best cs k = [] \<Longrightarrow> P k (TreeNode w cs)"
    and "\<And>p w cs b c. best cs (b @ p) = b \<Longrightarrow> b \<noteq> [] \<Longrightarrow> map_of cs b = Some c \<Longrightarrow> (b, c) \<in> set cs \<Longrightarrow> P p c \<Longrightarrow>
           P (b @ p) (TreeNode w cs)"
  shows "P k t"
proof (induction k t rule: trie_get.induct)
  case (1 k w cs)
  consider "k = []" | "k \<noteq> []" "best cs k = []" | "k \<noteq> []" "best cs k \<noteq> []" by blast
  then show ?case
  proof cases
    case 3
    obtain c where c: "map_of cs (best cs k) = Some c" "(best cs k, c) \<in> set cs" using best_child [OF 3(2)] by blast
    have "P (drop (length (best cs k)) k) c" using "1.IH" [OF 3] c(1) by simp
    then show ?thesis using assms(3) [OF _ 3(2) c] best_split [OF 3(2)] by metis
  qed (use assms in simp_all)
qed

lemma trie_insert_step:
  "best cs (b @ p) = b \<Longrightarrow> b \<noteq> [] \<Longrightarrow> map_of cs b = Some c \<Longrightarrow>
     trie_insert (b @ p) v (TreeNode w cs) = TreeNode w (AList.update b (trie_insert p v c) cs)"
  by (simp add: trie_insert.simps Let_def)

lemma trie_insert_new:
  "k \<noteq> [] \<Longrightarrow> best cs k = [] \<Longrightarrow> trie_insert k v (TreeNode w cs) = TreeNode w (cs @ [(k, TreeNode v [])])"
  by (simp add: trie_insert.simps update_new best_Nil_new_key)

lemma trie_ok_insert: "trie_ok t \<Longrightarrow> trie_ok (trie_insert k v t)"
proof (induction k t rule: trie_walk_induct)
  case (root w cs)
  then show ?case by (simp add: trie_insert.simps)
next
  case (stuck k w cs)
  have new: "k \<notin> fst ` set cs" by (rule best_Nil_new_key [OF stuck(2,1)])
  have nopre: "\<not> prefix b k" if "b \<in> fst ` set cs" for b
    using that stuck(2,3) unfolding best_Nil_iff trie_ok.simps by fastforce
  show ?case unfolding trie_insert_new [OF stuck(1,2)]
  proof (rule trie_okI)
    show "distinct (map fst (cs @ [(k, TreeNode v [])]))" using stuck(3) new by auto
    show "b \<noteq> [] \<and> trie_ok c" if "(b, c) \<in> set (cs @ [(k, TreeNode v [])])" for b c
      using that stuck(1,3) by auto
    fix b c b' p
    assume b: "(b, c) \<in> set (cs @ [(k, TreeNode v [])])" "b' \<in> fst ` set (cs @ [(k, TreeNode v [])])"
      "strict_prefix b b'" "p \<in> node_keys c"
    then consider "(b, c) \<in> set cs" "b' \<in> fst ` set cs" | "b = k" "c = TreeNode v []" | "b \<in> fst ` set cs" "b' = k"
      by force
    then show "\<not> prefix b' (b @ p)"
    proof cases
      case 1
      then show ?thesis using trie_ok_sibling [OF stuck(3) 1 b(3,4)] by blast
    next
      case 2
      then show ?thesis using b(3,4) by (auto simp: strict_prefix_def)
    next
      case 3
      then show ?thesis using nopre b(3) by (auto simp: strict_prefix_def)
    qed
  qed
next
  case (step p w cs b c)
  show ?case unfolding trie_insert_step [OF step(1-3)]
  proof (rule trie_ok_update [OF step(6) step(2)])
    show "b \<in> fst ` set cs" using step(4) by force
    show "trie_ok (trie_insert p v c)" using step.IH trie_ok_child [OF step(6,3)] by blast
    fix b' q assume b': "b' \<in> fst ` set cs" "strict_prefix b b'" and q: "q \<in> node_keys (trie_insert p v c)"
    show "\<not> prefix b' (b @ q)"
    proof (cases "q = p")
      case True
      then show ?thesis using best_longest [OF b'(1), of "b @ p"] b'(2) step(1) prefix_length_less by fastforce
    next
      case False
      then show ?thesis using trie_ok_sibling [OF step(6,4) b'] q node_keys_insert [of p v c] by blast
    qed
  qed
qed

lemma trie_release_step:
  "best cs (b @ p) = b \<Longrightarrow> b \<noteq> [] \<Longrightarrow> map_of cs b = Some c \<Longrightarrow>
     trie_release_key free (b @ p) (TreeNode w cs) = (case trie_release_key free p c of
        None \<Rightarrow> None
      | Some (child, refs) \<Rightarrow>
          if child = empty_trie then Some (TreeNode w (AList.delete b cs), refs)
          else Some (TreeNode w (AList.update b child cs), refs))"
  by (auto simp: trie_release_key.simps Let_def empty_trie_def split: option.splits prod.splits intro: trie.expand)

lemma trie_release_stuck: "k \<noteq> [] \<Longrightarrow> best cs k = [] \<Longrightarrow> trie_release_key free k (TreeNode w cs) = None"
  by (simp add: trie_release_key.simps)

lemma node_keys_delete: "node_keys (TreeNode w (AList.delete b cs)) \<subseteq> node_keys (TreeNode w cs)"
  by (auto simp: AList.delete_eq)

lemma node_keys_release: "trie_release_key free k t = Some (t', refs) \<Longrightarrow> node_keys t' \<subseteq> node_keys t"
proof (induction k t arbitrary: t' rule: trie_walk_induct)
  case (root w cs)
  then show ?case by (auto simp: trie_release_key.simps)
next
  case (stuck k w cs)
  then show ?case by (simp add: trie_release_stuck)
next
  case (step p w cs b c)
  from step.prems obtain child where child: "trie_release_key free p c = Some (child, refs)"
    and t': "t' = TreeNode w (AList.delete b cs) \<or> t' = TreeNode w (AList.update b child cs)"
    unfolding trie_release_step [OF step(1-3)] by (auto split: option.splits if_splits)
  have "(@) b ` node_keys child \<subseteq> node_keys (TreeNode w cs)" using step.IH [OF child] step(4) by auto
  then show ?case
    using t' order_trans [OF node_keys_update Un_least [OF order_refl]] node_keys_delete by metis
qed

lemma trie_ok_delete: "trie_ok (TreeNode w cs) \<Longrightarrow> trie_ok (TreeNode w (AList.delete b cs))"
proof (rule trie_okI)
  assume ok: "trie_ok (TreeNode w cs)"
  have sub: "set (AList.delete b cs) \<subseteq> set cs" by (auto simp: AList.delete_eq)
  show "distinct (map fst (AList.delete b cs))" using ok by (simp add: distinct_delete)
  show "x \<noteq> [] \<and> trie_ok c" if "(x, c) \<in> set (AList.delete b cs)" for x c
    using that sub ok by auto
  show "\<not> prefix b' (x @ p)" if "(x, c) \<in> set (AList.delete b cs)" "b' \<in> fst ` set (AList.delete b cs)"
      "strict_prefix x b'" "p \<in> node_keys c" for x c b' p
    using trie_ok_sibling [OF ok _ _ that(3,4)] that(1,2) sub by blast
qed

lemma trie_ok_release: "trie_ok t \<Longrightarrow> trie_release_key free k t = Some (t', refs) \<Longrightarrow> trie_ok t'"
proof (induction k t arbitrary: t' rule: trie_walk_induct)
  case (root w cs)
  then show ?case by (auto simp: trie_release_key.simps)
next
  case (stuck k w cs)
  then show ?case by (simp add: trie_release_stuck)
next
  case (step p w cs b c)
  from step.prems(2) obtain child where child: "trie_release_key free p c = Some (child, refs)"
    and t': "t' = TreeNode w (AList.delete b cs) \<or> t' = TreeNode w (AList.update b child cs)"
    unfolding trie_release_step [OF step(1-3)] by (auto split: option.splits if_splits)
  have b: "b \<in> fst ` set cs" using step(4) by force
  have ok: "trie_ok child" using step.IH [OF _ child] trie_ok_child [OF step.prems(1) step(3)] by blast
  have "trie_ok (TreeNode w (AList.update b child cs))"
    by (rule trie_ok_update [OF step.prems(1) step(2) b ok])
       (use trie_ok_sibling [OF step.prems(1) step(4)] node_keys_release [OF child] in blast)
  then show ?case using t' trie_ok_delete [OF step.prems(1)] by blast
qed

text \<open>Pruning an empty child uncovers nothing: a text the child captured has no value elsewhere.\<close>

lemma trie_get_delete:
  assumes ok: "trie_ok (TreeNode w cs)" and b: "(b, c) \<in> set cs"
  shows "trie_get k (TreeNode w (AList.delete b cs)) =
    (if k \<noteq> [] \<and> best cs k = b then None else trie_get k (TreeNode w cs))"
proof -
  let ?ds = "AList.delete b cs"
  have dom: "t \<in> fst ` set ?ds \<longleftrightarrow> t \<in> fst ` set cs \<and> t \<noteq> b" for t by (force simp: AList.delete_eq)
  consider "k = []" | "k \<noteq> []" "best cs k = b" | "k \<noteq> []" "best cs k \<noteq> b" by blast
  then show ?thesis
  proof cases
    case 2
    have bne: "b \<noteq> []" using ok b by auto
    have "trie_get k (TreeNode w ?ds) = None"
    proof (rule ccontr)
      assume "trie_get k (TreeNode w ?ds) \<noteq> None"
      then obtain v where v: "trie_get k (TreeNode w ?ds) = Some v" by blast
      then have ne: "best ?ds k \<noteq> []" using trie_get_stuck [OF 2(1)] by (metis option.distinct(1))
      obtain c2 where c2: "map_of ?ds (best ?ds k) = Some c2" "(best ?ds k, c2) \<in> set ?ds"
        using best_child [OF ne] by blast
      let ?p = "drop (length (best ?ds k)) k"
      have "trie_get ?p c2 = Some v" using trie_get_step [OF refl ne c2(1)] v by simp
      then have p: "?p \<in> node_keys c2" by (rule trie_get_node_key)
      have pre: "prefix (best ?ds k) k" "prefix b k" using best_is_prefix [OF ne] best_is_prefix [of k cs] 2 bne by auto
      have in_cs: "best ?ds k \<in> fst ` set cs" "best ?ds k \<noteq> b" using best_in [OF ne] dom by auto
      then have "length (best ?ds k) \<le> length b" using best_longest [OF in_cs(1) pre(1)] 2(2) by simp
      then have "prefix (best ?ds k) b" using pre prefix_length_prefix by blast
      then have "strict_prefix (best ?ds k) b" using in_cs(2) by (simp add: strict_prefix_def)
      moreover have "(best ?ds k, c2) \<in> set cs" using c2(2) by (auto simp: AList.delete_eq)
      moreover have "b \<in> fst ` set cs" using b by force
      ultimately have "\<not> prefix b (best ?ds k @ ?p)" using trie_ok_sibling [OF ok _ _ _ p] by blast
      then show False using pre(2) best_split [OF ne] by simp
    qed
    then show ?thesis using 2 by simp
  next
    case 3
    have B: "best ?ds k = best cs k"
    proof (cases "best cs k = []")
      case True
      have "\<forall>t \<in> fst ` set ?ds. prefix t k \<longrightarrow> t = []" using iffD1 [OF best_Nil_iff True] dom by blast
      from iffD2 [OF best_Nil_iff this] show ?thesis using True by simp
    next
      case False
      show ?thesis
      proof (rule best_eqI)
        show "best cs k \<in> fst ` set ?ds" using dom best_in [OF False] 3(2) by blast
        show "length t \<le> length (best cs k)" if "t \<in> fst ` set ?ds" "prefix t k" for t
          by (rule best_longest [OF _ that(2)]) (use that(1) dom in blast)
      qed (use False best_is_prefix [OF False] in simp_all)
    qed
    then show ?thesis using 3 by (simp add: trie_get.simps)
  qed (simp add: trie_get.simps)
qed

lemma trie_get_release:
  "trie_ok t \<Longrightarrow> trie_release_key free key t = Some (t', refs) \<Longrightarrow>
     trie_get k t' = (if k = key then None else trie_get k t)"
proof (induction key t arbitrary: t' k rule: trie_walk_induct)
  case (root w cs)
  then show ?case by (auto simp: trie_release_key.simps trie_get.simps)
next
  case (stuck key w cs)
  then show ?case by (simp add: trie_release_stuck)
next
  case (step p w cs b c)
  note ok = step.prems(1)
  from step.prems(2) obtain child where child: "trie_release_key free p c = Some (child, refs)"
    and t': "if child = empty_trie then t' = TreeNode w (AList.delete b cs) else t' = TreeNode w (AList.update b child cs)"
    unfolding trie_release_step [OF step(1-3)] by (auto split: option.splits if_splits)
  have IH: "trie_get j child = (if j = p then None else trie_get j c)" for j
    using step.IH [OF _ child] trie_ok_child [OF ok step(3)] by blast
  show ?case
  proof (cases "k \<noteq> [] \<and> best cs k = b")
    case True
    have "k = b @ p \<longleftrightarrow> drop (length b) k = p"
      using drop_best_eq_iff [of k cs b "b @ p"] True step(1,2) by simp
    moreover have "trie_get k (TreeNode w cs) = trie_get (drop (length b) k) c"
      using trie_get_step [OF _ step(2,3)] True by blast
    moreover have "trie_get k t' = trie_get (drop (length b) k) child"
    proof (cases "child = empty_trie")
      case e: True
      then have "trie_get k t' = None" using t' trie_get_delete [OF ok step(4), of k] True by simp
      then show ?thesis using e by (simp add: empty_trie_def)
    next
      case False
      then show ?thesis using t' trie_get_update [OF step(1,2)] True by simp
    qed
    ultimately show ?thesis using IH by simp
  next
    case False
    then have "k \<noteq> b @ p" using step(1,2) by auto
    moreover have "trie_get k t' = trie_get k (TreeNode w cs)"
      using t' trie_get_delete [OF ok step(4), of k] trie_get_update [OF step(1,2)] False by (auto split: if_splits)
    ultimately show ?thesis by simp
  qed
qed

lemma trie_release_refs:
  "trie_release_key free key t = Some (t', refs) \<Longrightarrow> refs = (case trie_get key t of None \<Rightarrow> [] | Some v \<Rightarrow> free v)"
proof (induction key t arbitrary: t' rule: trie_walk_induct)
  case (step p w cs b c)
  from step.prems obtain child where "trie_release_key free p c = Some (child, refs)"
    unfolding trie_release_step [OF step(1-3)] by (auto split: option.splits if_splits)
  then show ?case using step.IH trie_get_step [OF step(1-3)] by simp
qed (auto simp: trie_release_key.simps)

lemma trie_release_None: "trie_release_key free key t = None \<Longrightarrow> trie_get key t = None"
proof (induction key t rule: trie_walk_induct)
  case (step p w cs b c)
  then show ?case
    using trie_get_step [OF step(1-3)] by (auto simp: trie_release_step split: option.splits if_splits)
qed (auto simp: trie_release_key.simps trie_get_stuck)

subsection \<open>Lemmas: listing and searching\<close>

definition stored_keys :: "'v trie \<Rightarrow> string set" where
  "stored_keys t = {k. trie_get k t \<noteq> None}"

lemma stored_keys_TreeNode:
  assumes ok: "trie_ok (TreeNode w cs)"
  shows "stored_keys (TreeNode w cs) = (if w \<noteq> None then {[]} else {}) \<union> (\<Union>(b, c) \<in> set cs. (@) b ` stored_keys c)"
    (is "?l = ?r")
proof (intro set_eqI iffI)
  fix k assume k: "k \<in> ?l"
  consider "k = []" | "k \<noteq> []" "best cs k = []" | "k \<noteq> []" "best cs k \<noteq> []" by blast
  then show "k \<in> ?r"
  proof cases
    case 3
    obtain c where c: "map_of cs (best cs k) = Some c" "(best cs k, c) \<in> set cs" using best_child [OF 3(2)] by blast
    have "drop (length (best cs k)) k \<in> stored_keys c"
      using k trie_get_step [OF refl 3(2) c(1), of w] by (simp add: stored_keys_def)
    then have "k \<in> (@) (best cs k) ` stored_keys c" using best_split [OF 3(2)] by blast
    then show ?thesis using c(2) by blast
  qed (use k in \<open>auto simp: stored_keys_def trie_get.simps\<close>)
next
  fix k assume "k \<in> ?r"
  then consider "k = []" "w \<noteq> None" | b c p where "(b, c) \<in> set cs" "p \<in> stored_keys c" "k = b @ p"
    by (auto split: if_splits)
  then show "k \<in> ?l"
  proof cases
    case (2 b c p)
    have "p \<in> node_keys c" using 2(2) trie_get_node_key by (auto simp: stored_keys_def)
    then have B: "best cs k = b" using best_of_node_key [OF ok 2(1)] 2(3) by simp
    have "map_of cs b = Some c" "b \<noteq> []" using ok 2(1) by auto
    then show ?thesis using trie_get_step [OF B, of c w] 2 by (simp add: stored_keys_def)
  qed (simp add: stored_keys_def)
qed

lemma trie_collect_correct:
  "trie_ok t \<Longrightarrow> set (trie_collect path t) = (@) path ` stored_keys t \<and> distinct (trie_collect path t)"
proof (induction path t rule: trie_collect.induct)
  case (1 path w cs)
  note ok = 1(2)
  have IH: "set (trie_collect (path @ b) c) = (@) (path @ b) ` stored_keys c" "distinct (trie_collect (path @ b) c)"
    if "(b, c) \<in> set cs" for b c
    using "1.IH" [OF that refl] ok that by auto
  have kids: "set (concat (map (\<lambda>(b, c). trie_collect (path @ b) c) cs)) = (@) path ` (\<Union>(b, c) \<in> set cs. (@) b ` stored_keys c)"
    using IH by (force simp: image_UN image_comp comp_def)
  have "distinct (concat (map (\<lambda>(b, c). trie_collect (path @ b) c) cs))"
  proof (rule distinct_concat_map)
    show "distinct cs" using ok by (auto simp: distinct_map)
    show "distinct (case x of (b, c) \<Rightarrow> trie_collect (path @ b) c)" if "x \<in> set cs" for x
      using IH(2) [of "fst x" "snd x"] that by (simp add: case_prod_beta)
    fix x y assume xy: "x \<in> set cs" "y \<in> set cs" "x \<noteq> y"
    obtain b c b' c' where eq: "x = (b, c)" "y = (b', c')" by fastforce
    have "b \<noteq> b'" using xy ok eq by (auto dest: eq_key_imp_eq_value)
    have "b @ p \<noteq> b' @ p'" if "p \<in> stored_keys c" "p' \<in> stored_keys c'" for p p'
    proof -
      have "p \<in> node_keys c" "p' \<in> node_keys c'" using that trie_get_node_key by (auto simp: stored_keys_def)
      then show ?thesis using best_of_node_key [OF ok] xy eq \<open>b \<noteq> b'\<close> by metis
    qed
    then show "set (case x of (b, c) \<Rightarrow> trie_collect (path @ b) c) \<inter> set (case y of (b, c) \<Rightarrow> trie_collect (path @ b) c) = {}"
      using IH xy eq by auto
  qed
  moreover have "path \<notin> set (concat (map (\<lambda>(b, c). trie_collect (path @ b) c) cs))"
    unfolding kids using ok by auto
  ultimately show ?case
    unfolding stored_keys_TreeNode [OF ok] trie_collect.simps set_append image_Un kids distinct_append by simp
qed

lemma trie_walk_get:
  "prefix (concat (fst (trie_walk k t))) k \<and>
   trie_get k t = (if concat (fst (trie_walk k t)) = k then node_value (last (t # snd (trie_walk k t))) else None) \<and>
   length (fst (trie_walk k t)) = length (snd (trie_walk k t))"
proof (induction k t rule: trie_walk_induct)
  case (step p w cs b c)
  have "trie_walk (b @ p) (TreeNode w cs) = (b # fst (trie_walk p c), c # snd (trie_walk p c))"
    using step(1-3) by (simp add: trie_walk.simps Let_def case_prod_beta)
  then show ?case using step.IH trie_get_step [OF step(1-3), of w] by auto
qed (auto simp: trie_walk.simps trie_get_stuck)

subsection \<open>Lemmas: the matched path\<close>

lemma trie_walk_step:
  "best cs (b @ p) = b \<Longrightarrow> b \<noteq> [] \<Longrightarrow> map_of cs b = Some c \<Longrightarrow>
     trie_walk (b @ p) (TreeNode w cs) = (b # fst (trie_walk p c), c # snd (trie_walk p c))"
  by (simp add: trie_walk.simps Let_def case_prod_beta)

lemma trie_walk_stuck: "best cs k = [] \<Longrightarrow> trie_walk k (TreeNode w cs) = ([], [])"
  by (simp add: trie_walk.simps)

definition matches :: "string \<Rightarrow> 'v trie \<Rightarrow> 'v option list \<Rightarrow> bool" where
  "matches u t vals \<longleftrightarrow> concat (fst (trie_walk u t)) = u \<and> map node_value (snd (trie_walk u t)) = vals"

lemma matches_Nil: "matches [] t vals \<longleftrightarrow> vals = []"
  by (cases t) (auto simp: matches_def trie_walk.simps)

lemma matches_stuck: "k \<noteq> [] \<Longrightarrow> best cs k = [] \<Longrightarrow> \<not> matches k (TreeNode w cs) vals"
  by (simp add: matches_def trie_walk_stuck)

lemma matches_step:
  "best cs (b @ p) = b \<Longrightarrow> b \<noteq> [] \<Longrightarrow> map_of cs b = Some c \<Longrightarrow>
     matches (b @ p) (TreeNode w cs) vals \<longleftrightarrow> (\<exists>vs. vals = node_value c # vs \<and> matches p c vs)"
  by (auto simp: matches_def trie_walk_step)

lemma node_value_insert: "key \<noteq> [] \<Longrightarrow> node_value (trie_insert key v t) = node_value t"
  by (cases t) (simp add: trie_insert.simps Let_def)

text \<open>An insertion off the path changes neither the path nor its values.\<close>

lemma matches_insert_other:
  "matches u t vals \<Longrightarrow> \<not> prefix key u \<Longrightarrow> matches u (trie_insert key v t) vals"
proof (induction u t arbitrary: key vals rule: trie_walk_induct)
  case (root w cs)
  then show ?case by (simp add: matches_Nil)
next
  case (stuck k w cs)
  then show ?case by (simp add: matches_stuck)
next
  case (step p w cs b c)
  from step.prems(1) obtain vs where vals: "vals = node_value c # vs" and m: "matches p c vs"
    unfolding matches_step [OF step(1-3)] by blast
  have key: "key \<noteq> []" using step.prems(2) by auto
  consider "best cs key = []" | "best cs key = b" | "best cs key \<noteq> []" "best cs key \<noteq> b" by blast
  then show ?case
  proof cases
    case 1
    have B: "best (cs @ [(key, TreeNode v [])]) (b @ p) = b"
      using best_snoc [OF 1 key, where k = "b @ p"] step(1) step.prems(2) by simp
    have "map_of (cs @ [(key, TreeNode v [])]) b = Some c" using step(3) by simp
    from matches_step [OF B step(2) this] show ?thesis
      unfolding trie_insert_new [OF key 1] using vals m by simp
  next
    case 2
    obtain q where q: "key = b @ q" using best_split [of key cs] step(2) 2 by metis
    have "q \<noteq> []" "\<not> prefix q p" using step.prems(2) unfolding q by auto
    then have c': "node_value (trie_insert q v c) = node_value c" "matches p (trie_insert q v c) vs"
      using step.IH [OF m] node_value_insert by blast+
    have B: "best (AList.update b (trie_insert q v c) cs) (b @ p) = b"
      using best_update [where b = b and cs = cs] step(1,4) by force
    have "map_of (AList.update b (trie_insert q v c) cs) b = Some (trie_insert q v c)" by (simp add: update_conv')
    from matches_step [OF B step(2) this] show ?thesis
      unfolding q trie_insert_step [OF 2 [unfolded q] step(2,3)] using vals c' by simp
  next
    case 3
    obtain q where q: "key = best cs key @ q" using best_split [OF 3(1)] by blast
    obtain d where d: "map_of cs (best cs key) = Some d" "(best cs key, d) \<in> set cs" using best_child [OF 3(1)] by blast
    have B: "best (AList.update (best cs key) (trie_insert q v d) cs) (b @ p) = b"
      using best_update [where b = "best cs key" and cs = cs] step(1) d(2) by force
    have "map_of (AList.update (best cs key) (trie_insert q v d) cs) b = Some c" using step(3) 3(2) by (simp add: update_conv')
    from matches_step [OF B step(2) this] have "matches (b @ p) (TreeNode w (AList.update (best cs key) (trie_insert q v d) cs)) vals"
      using vals m by simp
    then show ?thesis using trie_insert_step [where cs = cs and b = "best cs key" and p = q and c = d] q 3(1) d(1) by metis
  qed
qed

text \<open>Appending a turn to a matched text that no stored node extends adds one node to the path.\<close>

lemma matches_insert_turn:
  "matches u t vals \<Longrightarrow> x \<noteq> [] \<Longrightarrow> (\<And>q. q \<in> node_keys t \<Longrightarrow> \<not> strict_prefix u q) \<Longrightarrow>
     matches (u @ x) (trie_insert (u @ x) v t) (vals @ [v])"
proof (induction u t arbitrary: vals rule: trie_walk_induct)
  case (root w cs)
  have "best cs x = []"
  proof (rule ccontr)
    assume ne: "best cs x \<noteq> []"
    then obtain c where "(best cs x, c) \<in> set cs" using best_child by blast
    then have "best cs x \<in> node_keys (TreeNode w cs)" by (cases c) force
    from root.prems(3) [OF this] show False using ne by (simp add: strict_prefix_def)
  qed
  then have new: "best (cs @ [(x, TreeNode v [])]) (x @ []) = x" "map_of cs x = None"
    using best_snoc [where cs = cs and key = x and c = "TreeNode v []" and k = x] best_Nil_new_key root.prems(2) by (auto simp: map_of_eq_None_iff)
  have "map_of (cs @ [(x, TreeNode v [])]) x = Some (TreeNode v [])" using new(2) by (simp add: map_add_def)
  from matches_step [OF new(1) root.prems(2) this, of w "[v]"] show ?case
    using trie_insert_new [OF root.prems(2) \<open>best cs x = []\<close>] root.prems(1) by (simp add: matches_Nil)
next
  case (stuck k w cs)
  then show ?case by (simp add: matches_stuck)
next
  case (step p w cs b c)
  from step.prems(1) obtain vs where vals: "vals = node_value c # vs" and m: "matches p c vs"
    unfolding matches_step [OF step(1-3)] by blast
  have nk: "b @ q \<in> node_keys (TreeNode w cs)" if "q \<in> node_keys c" for q using step(4) that by force
  have B: "best cs (b @ p @ x) = b"
  proof (rule best_eqI)
    fix t assume t: "t \<in> fst ` set cs" "prefix t (b @ p @ x)"
    show "length t \<le> length b"
    proof (cases "prefix t (b @ p)")
      case True
      then show ?thesis using best_longest [OF t(1) True] step(1) by simp
    next
      case False
      have "prefix t ((b @ p) @ x)" using t(2) by simp
      then have "strict_prefix (b @ p) t" using False unfolding prefix_append by (auto simp: strict_prefix_def)
      moreover obtain d where "(t, d) \<in> set cs" using t(1) by force
      then have "t \<in> node_keys (TreeNode w cs)" by (cases d) force
      ultimately show ?thesis using step.prems(3) by blast
    qed
  qed (use step(2,4) in force)+
  have IH: "matches (p @ x) (trie_insert (p @ x) v c) (vs @ [v])"
  proof (rule step.IH [OF m step.prems(2)])
    show "\<not> strict_prefix p q" if "q \<in> node_keys c" for q
      using step.prems(3) [OF nk [OF that]] by (simp add: strict_prefix_def)
  qed
  have B': "best (AList.update b (trie_insert (p @ x) v c) cs) (b @ p @ x) = b"
    using best_update [where b = b and cs = cs] B step(4) by force
  have "map_of (AList.update b (trie_insert (p @ x) v c) cs) b = Some (trie_insert (p @ x) v c)" by (simp add: update_conv')
  moreover have "p @ x \<noteq> []" using step.prems(2) by simp
  ultimately show ?case
    using matches_step [OF B' step(2)] IH vals trie_insert_step [OF B step(2,3)] by (simp add: node_value_insert)
qed

definition session_trie :: "string \<Rightarrow> trace_store \<Rightarrow> trace_value trie" where
  "session_trie sid st = (case map_of (sessions st) sid of None \<Rightarrow> empty_trie | Some t \<Rightarrow> t)"

lemma get_or_create_fst: "fst (get_or_create sid st) = session_trie sid st"
  by (simp add: get_or_create_def session_trie_def split: option.splits)

lemma session_trie_insert: "session_trie sid (store_insert sid k v st) = trie_insert k v (session_trie sid st)"
  by (simp add: store_insert_def session_trie_def get_or_create_def case_prod_beta update_conv' split: option.splits)

lemma matches_insert_others:
  "matches u (session_trie sid st) vals \<Longrightarrow> list_all (\<lambda>(k, v). \<not> prefix k u) others \<Longrightarrow>
     matches u (session_trie sid (fold (\<lambda>(k, v). store_insert sid k v) others st)) vals"
proof (induction others arbitrary: st)
  case (Cons o1 others)
  obtain k v where o1: "o1 = (k, v)" by fastforce
  have "matches u (session_trie sid (store_insert sid k v st)) vals"
    unfolding session_trie_insert by (rule matches_insert_other) (use Cons.prems o1 in auto)
  from Cons.IH [OF this] show ?case using Cons.prems(2) o1 by simp
qed simp

lemma resolve_routed_experts_eq:
  "resolve_routed_experts es = (if VNone \<in> set es \<and> set es \<noteq> {VNone} then Inl ValueError
     else Inr (if VNone \<in> set es \<or> es = [] then None else Some es))"
proof -
  have "True \<in> set (map (\<lambda>e. e \<noteq> VNone) es) \<longleftrightarrow> set es \<noteq> {VNone} \<and> es \<noteq> []" by (cases es) auto
  moreover have "False \<in> set (map (\<lambda>e. e \<noteq> VNone) es) \<longleftrightarrow> VNone \<in> set es" by auto
  ultimately show ?thesis unfolding resolve_routed_experts_def Let_def by auto
qed

text \<open>The turns of a conversation, each stored under the whole text up to its end.\<close>

fun record_turns :: "string \<Rightarrow> string \<Rightarrow> (string \<times> TokenizedSegment) list \<Rightarrow> trace_store \<Rightarrow> trace_store" where
  "record_turns sid pre [] st = st"
| "record_turns sid pre ((x, seg) # turns) st =
     record_turns sid (pre @ x) turns (store_insert sid (pre @ x) (Some (Segment seg)) st)"

lemma matches_record_turns:
  assumes "matches pre (session_trie sid st) vals" "\<And>q. q \<in> node_keys (session_trie sid st) \<Longrightarrow> \<not> strict_prefix pre q"
    and "list_all (\<lambda>(x, seg). x \<noteq> []) turns"
  shows "matches (pre @ concat (map fst turns)) (session_trie sid (record_turns sid pre turns st))
    (vals @ map (\<lambda>(x, seg). Some (Segment seg)) turns)"
  using assms
proof (induction sid pre turns st arbitrary: vals rule: record_turns.induct)
  case (2 sid pre x seg turns st)
  let ?st = "store_insert sid (pre @ x) (Some (Segment seg)) st"
  have x: "x \<noteq> []" using 2(4) by simp
  have m: "matches (pre @ x) (session_trie sid ?st) (vals @ [Some (Segment seg)])"
    unfolding session_trie_insert by (rule matches_insert_turn [OF 2(2) x 2(3)])
  have "\<not> strict_prefix (pre @ x) q" if "q \<in> node_keys (session_trie sid ?st)" for q
  proof -
    have "q = pre @ x \<or> q \<in> node_keys (session_trie sid st)"
      using that node_keys_insert unfolding session_trie_insert by blast
    moreover have "strict_prefix pre (pre @ x)" using x by (simp add: strict_prefix_def)
    ultimately show ?thesis using 2(3) prefix_order.less_trans by blast
  qed
  from "2.IH" [OF m this] 2(4) show ?case by simp
qed simp

lemma export_of_matches:
  assumes "matches u (session_trie sid st) (map (Some \<circ> Segment) segs)"
  shows "fst (export_training_trace sid u st) = rbind (resolve_routed_experts (map seg_expert_key segs)) (\<lambda>experts.
    Inr \<lparr>trace_input_ids = concat (map seg_token_ids segs), trace_labels = concat (map seg_labels segs),
         trace_logprobs = concat (map seg_logprobs segs), trace_routed_experts = experts\<rparr>)"
proof -
  obtain ks ns where w: "trie_walk u (session_trie sid st) = (ks, ns)" by fastforce
  have key: "concat ks = u" and vals: "map node_value ns = map (Some \<circ> Segment) segs"
    using assms by (simp_all add: matches_def w)
  have "\<forall>n \<in> set ns. node_value n \<noteq> None"
  proof
    fix n assume "n \<in> set ns"
    then have "node_value n \<in> set (map (Some \<circ> Segment) segs)" unfolding vals [symmetric] by simp
    then show "node_value n \<noteq> None" by auto
  qed
  then have search: "trie_search u True (session_trie sid st) = (u, ns)"
    using key by (simp add: trie_search_def w filter_id_conv)
  have "list_all2 (\<lambda>n s. node_value n = Some (Segment s)) ns segs"
    using vals by (auto simp: list_all2_conv_all_nth list_eq_iff_nth_eq)
  then have "rmap node_segment ns = Inr segs"
    unfolding rmap_Inr_iff by (rule list_all2_mono) (simp add: node_segment_def)
  then show ?thesis by (simp add: export_training_trace_def case_prod_beta get_or_create_fst search)
qed

subsection \<open>Lemmas: releasing sessions\<close>

definition session_refs :: "trace_store \<Rightarrow> string \<Rightarrow> nat list" where
  "session_refs st sid = free_subtree free_trace_value (session_trie sid st)"

definition live :: "trace_store \<Rightarrow> string set" where
  "live st = fst ` set (sessions st)"

lemma store_release_live:
  "sid \<in> live st \<Longrightarrow> store_release sid None st = Inr (st\<lparr>sessions := AList.delete sid (sessions st)\<rparr>, session_refs st sid)"
  by (auto simp: live_def store_release_def session_refs_def session_trie_def trie_release_def map_of_eq_None_iff
      split: option.splits)

lemma release_sessions_loop_eq:
  "distinct sids \<Longrightarrow> release_sessions_loop sids st =
     Inr (filter (\<lambda>s. s \<in> live st) sids, st\<lparr>sessions := filter (\<lambda>(s, t). s \<notin> set sids) (sessions st)\<rparr>,
          concat (map (session_refs st) (filter (\<lambda>s. s \<in> live st) sids)))"
proof (induction sids arbitrary: st)
  case Nil
  then show ?case by (simp add: case_prod_beta)
next
  case (Cons sid sids)
  show ?case
  proof (cases "sid \<in> live st")
    case False
    have "filter (\<lambda>(s, t). s \<noteq> sid \<and> s \<notin> set sids) (sessions st) = filter (\<lambda>(s, t). s \<notin> set sids) (sessions st)"
      by (rule filter_cong [OF refl]) (use False in \<open>force simp: live_def\<close>)
    then show ?thesis using False Cons by (simp add: live_def [symmetric])
  next
    case True
    let ?st = "st\<lparr>sessions := AList.delete sid (sessions st)\<rparr>"
    have live': "s \<in> live ?st \<longleftrightarrow> s \<in> live st" if "s \<in> set sids" for s
      using that Cons.prems by (auto simp: live_def AList.delete_eq)
    have refs': "session_refs ?st s = session_refs st s" if "s \<in> set sids" for s
    proof -
      have "s \<noteq> sid" using that Cons.prems by auto
      then show ?thesis by (simp add: session_refs_def session_trie_def)
    qed
    have sess: "filter (\<lambda>(s, t). s \<notin> set sids) (AList.delete sid (sessions st)) =
        filter (\<lambda>(s, t). s \<noteq> sid \<and> s \<notin> set sids) (sessions st)"
      unfolding AList.delete_eq filter_filter by (rule filter_cong [OF refl]) auto
    have fl: "filter (\<lambda>s. s \<in> live ?st) sids = filter (\<lambda>s. s \<in> live st) sids"
      by (rule filter_cong [OF refl live'])
    have mc: "map (session_refs ?st) (filter (\<lambda>s. s \<in> live st) sids) = map (session_refs st) (filter (\<lambda>s. s \<in> live st) sids)"
      by (rule map_cong [OF refl]) (simp add: refs')
    show ?thesis
      using Cons True fl sess by (simp add: live_def [symmetric] store_release_live mc)
  qed
qed

text \<open>The references left to the generic cleanup of a state.\<close>

definition held_refs :: "trace_store \<Rightarrow> RolloutState \<Rightarrow> nat set" where
  "held_refs st s = state_refs
     (if \<exists>i. session_id s = Some i \<and> str_int i \<in> live st then s\<lparr>routed_experts := VNone\<rparr> else s)"

lemma discard_frees:
  "distinct (snd (discard_rollout_state s))" "set (snd (discard_rollout_state s)) = state_refs s"
  "state_refs (fst (discard_rollout_state s)) = {}"
  by (simp_all add: discard_rollout_state_def free_rollout_state_refs_def Let_def case_prod_beta dedup_distinct dedup_set
      state_refs_def clear_object_refs_set heavy_fields_def default_state_def value_refs_cleared)

lemma detach_and_discard_frees:
  fixes st :: trace_store
  assumes "s \<in> set (concat groups)"
  defines "released \<equiv> set (filter (\<lambda>i. i \<in> live st) (session_ids_of groups))"
  shows "distinct (snd (detach_and_discard released s))" "set (snd (detach_and_discard released s)) = held_refs st s"
    "state_refs (fst (detach_and_discard released s)) = {}"
proof -
  have "str_int i \<in> set (session_ids_of groups)" if "session_id s = Some i" for i
    using assms(1) that by (force simp: session_ids_of_def List.map_filter_def)
  then have "detach_and_discard released s = discard_rollout_state
      (if \<exists>i. session_id s = Some i \<and> str_int i \<in> live st then s\<lparr>routed_experts := VNone\<rparr> else s)"
    unfolding detach_and_discard_def released_def by (auto split: option.splits)
  then show "distinct (snd (detach_and_discard released s))" "set (snd (detach_and_discard released s)) = held_refs st s"
    "state_refs (fst (detach_and_discard released s)) = {}"
    by (simp_all add: discard_frees held_refs_def)
qed

subsection \<open>The contract of a prefix store\<close>

text \<open>What the sessions rely on: looking up after an insertion and after a release, and the listing of the keys.\<close>

datatype 'v trie_op = OpInsert string "'v option" | OpRelease "string option"

fun map_step :: "'v trie_op \<Rightarrow> (string \<Rightarrow> 'v option) \<Rightarrow> (string \<Rightarrow> 'v option)" where
  "map_step (OpInsert k v) m = m(k := v)"
| "map_step (OpRelease (Some k)) m = m(k := None)"
| "map_step (OpRelease None) m = Map.empty"

locale prefix_store =
  fixes inv :: "'t \<Rightarrow> bool"
    and look :: "string \<Rightarrow> 't \<Rightarrow> 'v option"
    and nil :: 't
    and ins :: "string \<Rightarrow> 'v option \<Rightarrow> 't \<Rightarrow> 't"
    and rel :: "string option \<Rightarrow> 't \<Rightarrow> 't"
    and listing :: "'t \<Rightarrow> string list"
  assumes inv_nil: "inv nil" and inv_ins: "inv t \<Longrightarrow> inv (ins k v t)" and inv_rel: "inv t \<Longrightarrow> inv (rel ko t)"
    and look_nil: "look j nil = None"
    and look_ins: "inv t \<Longrightarrow> look j (ins k v t) = (if j = k then v else look j t)"
    and look_rel: "inv t \<Longrightarrow> look j (rel (Some k) t) = (if j = k then None else look j t)"
    and rel_all: "rel None t = nil"
    and listing_ok: "inv t \<Longrightarrow> set (listing t) = {k. look k t \<noteq> None} \<and> distinct (listing t)"
begin

fun step where
  "step (OpInsert k v) t = ins k v t"
| "step (OpRelease ko) t = rel ko t"

lemma step_inv: "inv t \<Longrightarrow> inv (step op t)"
  by (cases op) (auto intro: inv_ins inv_rel)

lemma step_look: "inv t \<Longrightarrow> (\<lambda>j. look j (step op t)) = map_step op (\<lambda>j. look j t)"
proof (cases op)
  case (OpRelease ko)
  then show "inv t \<Longrightarrow> ?thesis" by (cases ko) (auto simp: look_rel rel_all look_nil)
qed (auto simp: look_ins)

lemma run_refines:
  "inv t \<Longrightarrow> inv (fold step ops t) \<and> (\<lambda>j. look j (fold step ops t)) = fold map_step ops (\<lambda>j. look j t)"
  by (induction ops arbitrary: t) (simp_all add: step_inv step_look)

lemma run_listing:
  "set (listing (fold step ops nil)) = dom (fold map_step ops Map.empty) \<and> distinct (listing (fold step ops nil))"
  using run_refines [OF inv_nil, of ops] listing_ok [of "fold step ops nil"]
  by (auto simp: look_nil dom_def fun_eq_iff)

end

interpretation tr: prefix_store trie_ok trie_get empty_trie trie_insert "\<lambda>k t. fst (trie_release free k t)" trie_keys
proof unfold_locales
  fix t :: "'a trie" and k j v o'
  show "trie_ok (empty_trie :: 'a trie)" "trie_get j (empty_trie :: 'a trie) = None" by (simp_all add: empty_trie_def)
  show "trie_get j (trie_insert k v t) = (if j = k then v else trie_get j t)" by (rule trie_get_insert)
  show "fst (trie_release free None t) = empty_trie" by (simp add: trie_release_def)
  assume ok: "trie_ok t"
  show "trie_ok (trie_insert k v t)" by (rule trie_ok_insert [OF ok])
  show "trie_ok (fst (trie_release free o' t))"
    using trie_ok_release [OF ok] ok by (auto simp: trie_release_def empty_trie_def split: option.splits)
  show "trie_get j (fst (trie_release free (Some k) t)) = (if j = k then None else trie_get j t)"
    using trie_get_release [OF ok, of free k] trie_release_None [of free k t]
    by (auto simp: trie_release_def split: option.splits)
  show "set (trie_keys t) = {k. trie_get k t \<noteq> None} \<and> distinct (trie_keys t)"
    using trie_collect_correct [OF ok, of "[]"] by (simp add: trie_keys_def stored_keys_def)
qed

subsection \<open>Properties\<close>

fun trie_step :: "('v \<Rightarrow> nat list) \<Rightarrow> 'v trie_op \<Rightarrow> 'v trie \<Rightarrow> 'v trie" where
  "trie_step free (OpInsert k v) t = trie_insert k v t"
| "trie_step free (OpRelease ko) t = fst (trie_release free ko t)"

lemma trie_step_eq: "trie_step free = tr.step free"
proof (intro ext)
  show "trie_step free op t = tr.step free op t" for op :: "'a trie_op" and t by (cases op) simp_all
qed

text \<open>C14. The prefix tree is a map: after any sequence of insertions and releases, \<open>search\<close> matches a stored key
  completely and ends at the node with its value, a key that is not stored never ends at a node with a value,
  \<open>keys\<close> lists exactly the stored keys once each, and releasing a key frees exactly the references of its value.\<close>

theorem trie_refines_map:
  "let t = fold (trie_step free) ops empty_trie; m = fold map_step ops Map.empty in
   (\<forall>k. m k = (if fst (trie_search k False t) = k then node_value (last (t # snd (trie_search k False t))) else None) \<and>
        snd (trie_release free (Some k) t) = (case m k of None \<Rightarrow> [] | Some v \<Rightarrow> free v)) \<and>
   set (trie_keys t) = dom m \<and> distinct (trie_keys t)"
proof -
  let ?t = "fold (trie_step free) ops empty_trie" and ?m = "fold map_step ops Map.empty"
  have get: "trie_get j ?t = ?m j" for j
    using tr.run_refines [OF tr.inv_nil, of free ops] by (simp add: trie_step_eq tr.look_nil fun_eq_iff)
  have "?m k = (if fst (trie_search k False ?t) = k then node_value (last (?t # snd (trie_search k False ?t))) else None)" for k
    using trie_walk_get [of k ?t] unfolding get by (simp add: trie_search_def case_prod_beta)
  moreover have "snd (trie_release free (Some k) ?t) = (case ?m k of None \<Rightarrow> [] | Some v \<Rightarrow> free v)" for k
    using trie_release_refs [of free k ?t] trie_release_None [of free k ?t] unfolding get
    by (auto simp: trie_release_def split: option.splits)
  ultimately show ?thesis using tr.run_listing [of free ops] by (simp add: trie_step_eq)
qed

text \<open>C15. Recording and exporting a conversation is a round trip: turns stored one after the other in a fresh session
  come back from \<open>export_training_trace\<close> in order, with nothing lost and nothing from the other branches that
  the session also holds. Only a mixture of turns with and without routed experts is refused.\<close>

theorem export_returns_recorded_turns:
  assumes "sid \<notin> set (list_sessions st)"
    and "list_all (\<lambda>(x, seg). x \<noteq> []) turns"
    and "list_all (\<lambda>(k, v). \<not> prefix k (concat (map fst turns))) others"
  shows "fst (export_training_trace sid (concat (map fst turns))
      (fold (\<lambda>(k, v). store_insert sid k v) others (record_turns sid [] turns st))) =
    (let segs = map snd turns; experts = map seg_expert_key segs in
     if VNone \<in> set experts \<and> set experts \<noteq> {VNone} then Inl ValueError
     else Inr \<lparr>trace_input_ids = concat (map seg_token_ids segs), trace_labels = concat (map seg_labels segs),
               trace_logprobs = concat (map seg_logprobs segs),
               trace_routed_experts = (if VNone \<in> set experts \<or> experts = [] then None else Some experts)\<rparr>)"
proof -
  have fresh: "session_trie sid st = empty_trie"
    using assms(1) by (simp add: session_trie_def list_sessions_def map_of_eq_None_iff [symmetric])
  have "matches ([] @ concat (map fst turns)) (session_trie sid (record_turns sid [] turns st))
      ([] @ map (\<lambda>(x, seg). Some (Segment seg)) turns)"
    by (rule matches_record_turns) (use assms(2) fresh in \<open>simp_all add: matches_Nil empty_trie_def\<close>)
  moreover have "map (\<lambda>(x, seg). Some (Segment seg)) turns = map (Some \<circ> Segment) (map snd turns)"
    by (simp add: case_prod_beta)
  ultimately have "matches (concat (map fst turns)) (session_trie sid (record_turns sid [] turns st))
      (map (Some \<circ> Segment) (map snd turns))" by simp
  from export_of_matches [OF matches_insert_others [OF this assms(3)]] show ?thesis
    unfolding resolve_routed_experts_eq Let_def if_distrib [of "\<lambda>r. rbind r _"] rbind_simps .
qed

theorem export_returns_recorded_turns_witness:
  "fst (export_training_trace ''s'' ''ab'' (record_turns ''s'' []
     [(''a'', \<lparr>seg_text = ''a'', seg_token_ids = [1], seg_labels = [-100], seg_logprobs = [0], seg_expert_key = VNone, seg_length = 1\<rparr>),
      (''b'', \<lparr>seg_text = ''b'', seg_token_ids = [2, 3], seg_labels = [2, 3], seg_logprobs = [0, 0], seg_expert_key = VNone, seg_length = 2\<rparr>)]
     store_init)) =
   Inr \<lparr>trace_input_ids = [1, 2, 3], trace_labels = [-100, 2, 3], trace_logprobs = [0, 0, 0], trace_routed_experts = None\<rparr>"
  using export_returns_recorded_turns [where sid = "''s''" and st = store_init and others = "[]" and turns =
    "[(''a'', \<lparr>seg_text = ''a'', seg_token_ids = [1], seg_labels = [-100], seg_logprobs = [0], seg_expert_key = VNone, seg_length = 1\<rparr>),
      (''b'', \<lparr>seg_text = ''b'', seg_token_ids = [2, 3], seg_labels = [2, 3], seg_logprobs = [0, 0], seg_expert_key = VNone, seg_length = 2\<rparr>)]"]
  by (simp add: list_sessions_def store_init_def Let_def del: record_turns.simps)

text \<open>Releasing terminal rollouts frees no reference twice: when the references in the store are distinct and
  every state's other references are its own, \<open>release_and_discard_rollout_groups\<close> succeeds, hands each
  reference of the released sessions and of the states to Ray exactly once (although \<open>routed_experts\<close>
  may share references with the store), leaves no reference in the states, and drops exactly the sessions of
  the states.\<close>

theorem release_and_discard_frees_once:
  assumes store: "distinct (concat (map (\<lambda>(sid, t). free_subtree free_trace_value t) (sessions st)))"
      "distinct (map fst (sessions st))"
    and own: "sorted_wrt (\<lambda>s s'. held_refs st s \<inter> held_refs st s' = {}) (concat groups)"
    and sep: "list_all (\<lambda>s. held_refs st s \<inter> (\<Union>sid \<in> live st. set (session_refs st sid)) = {}) (concat groups)"
  shows "\<exists>groups' st' refs. release_and_discard_rollout_groups groups (Some st) = Inr (groups', Some st', refs) \<and>
    distinct refs \<and>
    set refs = (\<Union>sid \<in> live st \<inter> set (session_ids_of groups). set (session_refs st sid)) \<union>
      (\<Union>s \<in> set (concat groups). held_refs st s) \<and>
    (\<Union>s \<in> set (concat groups'). state_refs s) = {} \<and> map length groups' = map length groups \<and>
    sessions st' = filter (\<lambda>(sid, t). sid \<notin> set (session_ids_of groups)) (sessions st)"
proof -
  let ?sids = "dedup [] (session_ids_of groups)"
  let ?rel = "filter (\<lambda>i. i \<in> live st) ?sids"
  let ?R = "set (filter (\<lambda>i. i \<in> live st) (session_ids_of groups))"
  let ?st = "st\<lparr>sessions := filter (\<lambda>(sid, t). sid \<notin> set (session_ids_of groups)) (sessions st)\<rparr>"
  let ?refs1 = "concat (map (session_refs st) ?rel)"
  let ?refs2 = "concat (map (\<lambda>s. snd (detach_and_discard ?R s)) (concat groups))"
  have rel: "set ?rel = ?R" by (simp add: dedup_set)
  have "release_existing_sessions (session_ids_of groups) (Some st) = Inr (?R, Some ?st, ?refs1)"
  proof (cases "?sids = []")
    case True
    then have "session_ids_of groups = []" using dedup_set [of "[]" "session_ids_of groups"] by simp
    then show ?thesis by (simp add: release_existing_sessions_def case_prod_beta)
  next
    case False
    then show ?thesis
      using release_sessions_loop_eq [of ?sids st] rel
      by (simp add: release_existing_sessions_def release_sessions_def dedup_id dedup_distinct dedup_set)
  qed
  then have res: "release_and_discard_rollout_groups groups (Some st) =
      Inr (map (map (\<lambda>s. fst (detach_and_discard ?R s))) groups, Some ?st, ?refs1 @ ?refs2)"
    by (simp add: release_and_discard_rollout_groups_def)
  have sr: "session_refs st sid = free_subtree free_trace_value t" if "(sid, t) \<in> set (sessions st)" for sid t
    using that store(2) by (simp add: session_refs_def session_trie_def)
  have d1: "distinct ?refs1"
  proof (rule distinct_concat_map)
    show "distinct ?rel" by (simp add: dedup_distinct)
    fix x assume "x \<in> set ?rel"
    then obtain t where t: "(x, t) \<in> set (sessions st)" by (auto simp: live_def)
    then show "distinct (session_refs st x)" using store(1) sr [OF t] by (auto simp: distinct_concat_iff)
    fix y assume "y \<in> set ?rel" "x \<noteq> y"
    then obtain t' where t': "(y, t') \<in> set (sessions st)" by (auto simp: live_def)
    show "set (session_refs st x) \<inter> set (session_refs st y) = {}"
      using distinct_concat_mapD [OF store(1) t t'] \<open>x \<noteq> y\<close> sr [OF t] sr [OF t'] by simp
  qed
  note frees = detach_and_discard_frees [where groups = groups and st = st]
  have d2: "distinct ?refs2"
    by (rule distinct_concat_sorted_wrt [OF frees(1)], assumption)
       (rule sorted_wrt_mono_rel [OF _ own], simp only: frees(2))
  have set1: "set ?refs1 = (\<Union>sid \<in> live st \<inter> set (session_ids_of groups). set (session_refs st sid))"
    by (auto simp: dedup_set)
  have set2: "set ?refs2 = (\<Union>s \<in> set (concat groups). held_refs st s)"
  proof -
    have "set ?refs2 = (\<Union>s \<in> set (concat groups). set (snd (detach_and_discard ?R s)))" by simp
    also have "\<dots> = (\<Union>s \<in> set (concat groups). held_refs st s)" by (rule SUP_cong [OF refl frees(2)])
    finally show ?thesis .
  qed
  have "set ?refs1 \<inter> set ?refs2 = {}" unfolding set1 set2 using sep unfolding list_all_iff by blast
  then have "distinct (?refs1 @ ?refs2)" using d1 d2 by simp
  moreover have "(\<Union>s \<in> set (concat (map (map (\<lambda>s. fst (detach_and_discard ?R s))) groups)). state_refs s) = {}"
    using frees(3) by fastforce
  ultimately show ?thesis using res set1 set2 by (intro exI conjI) (assumption | simp add: comp_def)+
qed

theorem release_and_discard_frees_once_witness:
  "\<exists>groups' st' refs. release_and_discard_rollout_groups
      [[(default_state (VRef 4))\<lparr>session_id := Some 7, routed_experts := VList [VRef 3]\<rparr>, default_state (VRef 5)]]
      (Some \<lparr>sessions = [(''7'', TreeNode None [(''a'', TreeNode (Some (Foreign (VRef 3))) [])])], objects = [], updated_at = []\<rparr>)
    = Inr (groups', Some st', refs) \<and> distinct refs \<and> set refs = {3, 4, 5} \<and> sessions st' = []"
proof -
  let ?st = "\<lparr>sessions = [(''7'', TreeNode None [(''a'', TreeNode (Some (Foreign (VRef 3))) [])])], objects = [], updated_at = []\<rparr>"
  let ?g = "[[(default_state (VRef 4))\<lparr>session_id := Some 7, routed_experts := VList [VRef 3]\<rparr>, default_state (VRef 5)]]"
  have live: "live ?st = {''7''}" by (simp add: live_def)
  have seven: "str_int 7 = ''7''" by code_simp
  have ids: "session_ids_of ?g = [''7'']" by (simp add: session_ids_of_def seven default_state_def List.map_filter_def)
  have sr: "session_refs ?st ''7'' = [3]" by (simp add: session_refs_def session_trie_def free_trace_value_def)
  have h: "held_refs ?st ((default_state (VRef 4))\<lparr>session_id := Some 7, routed_experts := VList [VRef 3]\<rparr>) = {4}"
      "held_refs ?st (default_state (VRef 5)) = {5}"
    by (simp_all add: held_refs_def live_def seven state_refs_def heavy_fields_def default_state_def)
  have "\<exists>groups' st' refs. release_and_discard_rollout_groups ?g (Some ?st) = Inr (groups', Some st', refs) \<and>
    distinct refs \<and>
    set refs = (\<Union>sid \<in> live ?st \<inter> set (session_ids_of ?g). set (session_refs ?st sid)) \<union>
      (\<Union>s \<in> set (concat ?g). held_refs ?st s) \<and>
    (\<Union>s \<in> set (concat groups'). state_refs s) = {} \<and> map length groups' = map length ?g \<and>
    sessions st' = filter (\<lambda>(sid, t). sid \<notin> set (session_ids_of ?g)) (sessions ?st)"
    by (rule release_and_discard_frees_once) (simp_all add: free_trace_value_def live sr h)
  then show ?thesis unfolding live ids by (elim exE conjE) (intro exI conjI, assumption, assumption, auto simp: sr h)
qed

end
