(* ===== verification/ReplayBuffer.thy ===== *)
theory ReplayBuffer
  imports ReplayStorage TraceStore
begin

text \<open>
  The replay buffer, class \<open>ReplayBuffer\<close> of \<^verbatim>\<open>xtuner/v1/rl/replay_buffer.py\<close>: the staleness
  lifecycle of a group, storing, taking and refreshing groups, and checkpoints.

  Each operation runs its storage accesses under the buffer's lock, so an operation is one step on the state; the
  part of \<open>put\<close> before the lock touches only the caller's group. Groups are mutated in place in the code and
  returned updated here. Operations that drop groups also pass the trace store through and return the
  references handed to Ray. An operation that raises returns only the exception; \<open>refresh_staleness\<close>
  may then already have rewritten \<open>seq_staleness\<close> of the groups visited before.
\<close>

record ReplayBuffer =
  rb_policy :: ReplayPolicy
  rb_storage :: NaiveStorage

subsection \<open>Staleness lifecycle\<close>

text \<open>The decision for a state that is not expired yet, after its \<open>seq_staleness\<close> has been refreshed.\<close>

definition state_expires :: "int \<Rightarrow> int option \<Rightarrow> int option \<Rightarrow> RolloutState \<Rightarrow> bool list option \<Rightarrow> bool res" where
  "state_expires current_train_step stale_threshold token_stale_threshold s effective_mask =
     (if (case stale_threshold of None \<Rightarrow> False | Some th \<Rightarrow> th \<le> seq_staleness s) then Inr True
      else if (case effective_mask of None \<Rightarrow> False | Some ms \<Rightarrow> True \<notin> set ms) then Inr True
      else
        case token_stale_threshold of
          None \<Rightarrow> Inr False
        | Some tth \<Rightarrow>
            if status s = ABORTED \<and> rs_labels s = None \<and> or_nil (response_ids s) \<noteq> [] then
              (case response_model_steps s of
                 None \<Rightarrow> Inl ValueError
               | Some steps \<Rightarrow>
                   if length steps \<noteq> length (or_nil (response_ids s)) then Inl ValueError
                   else Inr (list_all (\<lambda>m. tth \<le> calculate_seq_staleness m current_train_step) steps))
            else Inr False)"

text \<open>The group's status, the updated group and the freed references.\<close>

definition apply_staleness_lifecycle ::
  "RolloutState list \<Rightarrow> int option \<Rightarrow> int option \<Rightarrow> int option \<Rightarrow> bool \<Rightarrow> (Status \<times> RolloutState list \<times> nat list) res" where
  "apply_staleness_lifecycle g current_train_step stale_threshold token_stale_threshold expired_groups_retryable =
     (let storage_status = get_group_status g in
      case current_train_step of
        None \<Rightarrow> Inr (storage_status, g, [])
      | Some t \<Rightarrow>
          if storage_status \<notin> {COMPLETED, ABORTED, EXPIRED} then Inr (storage_status, g, [])
          else
            let g1 = refresh_seq_staleness g t in
            rbind (calculate_group_effective_response_masks g1 t token_stale_threshold) (\<lambda>masks.
            rbind (rmap (\<lambda>(s, m). if status s = EXPIRED then Inr True
                                  else state_expires t stale_threshold token_stale_threshold s m) (zip g1 masks)) (\<lambda>expired.
              if True \<notin> set expired then Inr (storage_status, g1, [])
              else if expired_groups_retryable then
                let g2 = map2 (\<lambda>s e. if e then fst (reset_response (s\<lparr>status := EXPIRED\<rparr>)) else s) g1 expired;
                    refs = concat (map2 (\<lambda>s e. if e then snd (reset_response s) else []) g1 expired)
                in Inr (EXPIRED, g2, refs)
              else Inr (EXPIRED, map (\<lambda>s. s\<lparr>status := EXPIRED\<rparr>) g1, []))))"

definition discard_non_retryable_expired_groups ::
  "RolloutState list list \<Rightarrow> trace_store option \<Rightarrow> (RolloutState list list \<times> trace_store option \<times> nat list) res" where
  "discard_non_retryable_expired_groups groups store =
     (if groups = [] then Inr ([], store, [])
      else rbind (release_and_discard_rollout_groups groups store) (\<lambda>(groups', store', refs).
        Inr (map (map (\<lambda>s. s\<lparr>status := EXPIRED\<rparr>)) groups', store', refs)))"

subsection \<open>Storing\<close>

text \<open>The parameters of \<open>put\<close> and \<open>refresh_staleness\<close> that govern one task.\<close>

definition group_staleness :: "RolloutState list \<Rightarrow> int" where
  "group_staleness g = (if g = [] then 0 else Max (set (map seq_staleness g)))"

text \<open>\<open>put\<close> changes the caller's group in place; \<open>put_group\<close> also returns it as the call leaves it.\<close>

definition put_group ::
  "RolloutState list \<Rightarrow> string \<Rightarrow> int option \<Rightarrow> int option \<Rightarrow> int option \<Rightarrow> int option \<Rightarrow> bool \<Rightarrow>
   ReplayBuffer \<Rightarrow> trace_store option \<Rightarrow> (RolloutState list \<times> ReplayBuffer \<times> trace_store option \<times> nat list) res" where
  "put_group g task model_step current_train_step stale_threshold token_stale_threshold expired_groups_retryable rb store =
     (if g = [] then Inr ([], rb, store, [])
      else
        let g1 = (case model_step of None \<Rightarrow> g | Some v \<Rightarrow> map (update_sample_version v) g) in
        rbind (apply_staleness_lifecycle g1 current_train_step stale_threshold token_stale_threshold expired_groups_retryable)
          (\<lambda>(st, g2, refs).
            if st = EXPIRED \<and> \<not> expired_groups_retryable then
              rbind (discard_non_retryable_expired_groups [g2] store) (\<lambda>(gs, store', refs').
                Inr (concat gs, rb, store', refs @ refs'))
            else
              let it = \<lparr>si_item = g2, si_uid = 0, si_timestamp_id = 0, si_task_name = task, si_status = st,
                        si_staleness = group_staleness g2\<rparr>
              in Inr (g2, rb\<lparr>rb_storage := policy_put it (rb_storage rb)\<rparr>, store, refs)))"

definition buffer_put ::
  "RolloutState list \<Rightarrow> string \<Rightarrow> int option \<Rightarrow> int option \<Rightarrow> int option \<Rightarrow> int option \<Rightarrow> bool \<Rightarrow>
   ReplayBuffer \<Rightarrow> trace_store option \<Rightarrow> (ReplayBuffer \<times> trace_store option \<times> nat list) res" where
  "buffer_put g task model_step current_train_step stale_threshold token_stale_threshold expired_groups_retryable rb store =
     rbind (put_group g task model_step current_train_step stale_threshold token_stale_threshold expired_groups_retryable rb store)
       (\<lambda>(g', rb', store', refs). Inr (rb', store', refs))"

subsection \<open>Taking\<close>

definition task_status_query :: "string \<Rightarrow> Status \<Rightarrow> operand" where
  "task_status_query task st =
     QDict [(''$and'', QList [QDict [(''task_name'', QVal (QStr task))], QDict [(''status'', QVal (QStatus st))]])]"

definition buffer_get :: "int \<Rightarrow> string \<Rightarrow> Status \<Rightarrow> ReplayBuffer \<Rightarrow> (RolloutState list list \<times> ReplayBuffer) res" where
  "buffer_get batch_size task group_status rb =
     rbind (policy_get (rb_policy rb) batch_size (task_status_query task group_status) (rb_storage rb)) (\<lambda>(gs, st).
       Inr (gs, rb\<lparr>rb_storage := st\<rparr>))"

definition buffer_count :: "string \<Rightarrow> Status \<Rightarrow> ReplayBuffer \<Rightarrow> nat res" where
  "buffer_count task group_status rb = policy_count (task_status_query task group_status) (rb_storage rb)"

fun is_ready :: "(string \<times> int) list \<Rightarrow> Status \<Rightarrow> ReplayBuffer \<Rightarrow> bool res" where
  "is_ready [] group_status rb = Inr True"
| "is_ready ((task, batch_size) # sizes) group_status rb =
     (if batch_size \<le> 0 then is_ready sizes group_status rb
      else rbind (buffer_count task group_status rb) (\<lambda>n.
        if int n < batch_size then Inr False else is_ready sizes group_status rb))"

fun take_batch :: "(string \<times> int) list \<Rightarrow> Status \<Rightarrow> ReplayBuffer \<Rightarrow>
    ((string \<times> RolloutState list list) list \<times> (string \<times> nat) list \<times> ReplayBuffer) res" where
  "take_batch [] group_status rb = Inr ([], [], rb)"
| "take_batch ((task, batch_size) # sizes) group_status rb =
     rbind (if batch_size \<le> 0 then Inr ([], rb) else buffer_get batch_size task group_status rb) (\<lambda>(gs, rb').
       rbind (take_batch sizes group_status rb') (\<lambda>(batch, counts, rb'').
         Inr ((task, gs) # batch, (task, length gs) # counts, rb'')))"

definition count_statuses :: "string list \<Rightarrow> Status list \<Rightarrow> ReplayBuffer \<Rightarrow> (string \<times> (Status \<times> nat) list) list res" where
  "count_statuses task_names statuses rb =
     rmap (\<lambda>t. rbind (rmap (\<lambda>s. rbind (buffer_count t s rb) (\<lambda>n. Inr (s, n))) (dedup [] statuses)) (\<lambda>cs. Inr (t, cs)))
       (dedup [] task_names)"

definition buffer_len :: "ReplayBuffer \<Rightarrow> nat" where
  "buffer_len rb = storage_len (rb_storage rb)"

subsection \<open>Refreshing\<close>

definition refresh_query :: "string \<Rightarrow> Status list \<Rightarrow> operand" where
  "refresh_query task statuses =
     QDict [(''$and'', QList [QDict [(''task_name'', QVal (QStr task))],
        QDict [(''status'', QDict [(''$in'', QList (map (\<lambda>s. QVal (QStatus s)) statuses))])]])]"

definition refresh_record :: "int \<Rightarrow> int \<Rightarrow> int option \<Rightarrow> bool \<Rightarrow> StorageItem \<Rightarrow> (StorageItem \<times> nat list) res" where
  "refresh_record t stale_threshold token_stale_threshold retryable r =
     rbind (apply_staleness_lifecycle (si_item r) (Some t) (Some stale_threshold) token_stale_threshold retryable)
       (\<lambda>(st, g, refs). Inr (r\<lparr>si_item := g, si_status := st, si_staleness := group_staleness g\<rparr>, refs))"

text \<open>One task: the number of expired groups, the refreshed records and the references they freed.\<close>

definition refresh_task ::
  "Status list \<Rightarrow> int \<Rightarrow> (string \<times> int) list \<Rightarrow> (string \<times> bool) list \<Rightarrow> NaiveStorage \<Rightarrow> string \<times> int \<Rightarrow>
   ((string \<times> nat) \<times> StorageItem list \<times> StorageItem list \<times> nat list) res" where
  "refresh_task statuses t token_thresholds retryable_by_task st entry =
     (let (task, stale_threshold) = entry;
          retryable = (case map_of retryable_by_task task of None \<Rightarrow> True | Some b \<Rightarrow> b)
      in rbind (storage_get (refresh_query task statuses) st) (\<lambda>records.
         rbind (rmap (refresh_record t stale_threshold (map_of token_thresholds task) retryable) records) (\<lambda>rs.
           let dead = (\<lambda>r. si_status r = EXPIRED \<and> \<not> retryable);
               new = map fst rs
           in Inr ((task, length (filter (\<lambda>r. si_status r = EXPIRED) new)),
                   filter (\<lambda>r. \<not> dead r) new, filter dead new, concat (map snd rs)))))"

definition refresh_staleness ::
  "(string \<times> int) list \<Rightarrow> (string \<times> int) list option \<Rightarrow> (string \<times> bool) list option \<Rightarrow> int \<Rightarrow> Status list option \<Rightarrow>
   ReplayBuffer \<Rightarrow> trace_store option \<Rightarrow> ((string \<times> nat) list \<times> ReplayBuffer \<times> trace_store option \<times> nat list) res" where
  "refresh_staleness task_stale_thresholds task_token_stale_thresholds expired_groups_retryable_by_task current_train_step statuses rb store =
     (let statuses' = (case statuses of None \<Rightarrow> [COMPLETED, ABORTED, EXPIRED] | Some ss \<Rightarrow> ss) in
      rbind (rmap (refresh_task statuses' current_train_step (or_nil task_token_stale_thresholds)
                     (or_nil expired_groups_retryable_by_task) (rb_storage rb)) task_stale_thresholds) (\<lambda>rs.
        let updated = concat (map (\<lambda>(c, u, d, refs). u) rs);
            dead = concat (map (\<lambda>(c, u, d, refs). d) rs);
            freed = concat (map (\<lambda>(c, u, d, refs). refs) rs);
            st = storage_update updated (storage_delete (map si_uid dead) (rb_storage rb))
        in rbind (discard_non_retryable_expired_groups (map si_item dead) store) (\<lambda>(_, store', refs').
             Inr (map fst rs, rb\<lparr>rb_storage := st\<rparr>, store', freed @ refs'))))"

subsection \<open>Checkpoints\<close>

record buffer_state =
  saved_policy :: ReplayPolicy
  saved_storage :: string
  saved_state :: storage_state

definition buffer_save :: "pyval list \<Rightarrow> ReplayBuffer \<Rightarrow> buffer_state res" where
  "buffer_save heap rb = rbind (storage_state_dict heap (rb_storage rb)) (\<lambda>s.
     Inr \<lparr>saved_policy = rb_policy rb, saved_storage = ''NaiveStorage'', saved_state = s\<rparr>)"

definition buffer_resume :: "buffer_state \<Rightarrow> pyval list \<Rightarrow> ReplayBuffer \<Rightarrow> (ReplayBuffer \<times> pyval list) res" where
  "buffer_resume state heap rb =
     (if 0 < buffer_len rb then Inl RuntimeError
      else if saved_policy state \<noteq> rb_policy rb then Inl ValueError
      else if saved_storage state \<noteq> ''NaiveStorage'' then Inl ValueError
      else let (st, heap') = storage_load_state_dict (saved_state state) heap in
           Inr (rb\<lparr>rb_storage := st\<rparr>, heap'))"

definition build_sync_buffer :: ReplayBuffer where
  "build_sync_buffer = \<lparr>rb_policy = FIFOReplayPolicy, rb_storage = storage_init\<rparr>"

definition build_async_buffer :: ReplayBuffer where
  "build_async_buffer = \<lparr>rb_policy = StalenessReplayPolicy, rb_storage = storage_init\<rparr>"

subsection \<open>Lemmas: the buffer's queries\<close>

definition of_task :: "string \<Rightarrow> Status set \<Rightarrow> StorageItem \<Rightarrow> bool" where
  "of_task task sts it \<longleftrightarrow> si_task_name it = task \<and> si_status it \<in> sts"

lemma task_status_query_ast:
  "\<exists>ast. parse_query (task_status_query task st) = Inr ast \<and> (\<forall>it. evaluate it ast = Inr (of_task task {st} it))"
  by (simp add: task_status_query_def conjoin_def field_value_def eval_scalar_def of_task_def)

lemma refresh_query_ast:
  "\<exists>ast. parse_query (refresh_query task sts) = Inr ast \<and> (\<forall>it. evaluate it ast = Inr (of_task task (set sts) it))"
  by (auto simp: refresh_query_def conjoin_def field_value_def eval_scalar_def eval_set_def of_task_def
      parse_operator_def scalar_operators_def set_operators_def)

lemma storage_get_refresh: "storage_get (refresh_query task sts) st = Inr (filter (of_task task (set sts)) (content st))"
  using refresh_query_ast [of task sts] naive.get_filter [of "refresh_query task sts" _ st] by blast

lemma buffer_count_eq: "buffer_count task gs rb = Inr (length (filter (of_task task {gs}) (content (rb_storage rb))))"
  using task_status_query_ast [of task gs] naive.get_filter [of "task_status_query task gs" _ "rb_storage rb"]
  by (auto simp: buffer_count_def policy_count_def naive.cnt_spec)

lemma buffer_get_eq:
  fixes rb :: ReplayBuffer and gs :: Status and task :: string
  assumes ok: "storage_ok (rb_storage rb)" and n: "0 < n"
  defines "sel \<equiv> take (nat n) (policy_order (rb_policy rb) (filter (of_task task {gs}) (content (rb_storage rb))))"
  shows "\<exists>rb'. buffer_get n task gs rb = Inr (map si_item sel, rb') \<and> storage_ok (rb_storage rb') \<and> rb_policy rb' = rb_policy rb \<and>
    content (rb_storage rb') = filter (\<lambda>it. it \<notin> set sel) (content (rb_storage rb))"
proof -
  obtain ast where ast: "parse_query (task_status_query task gs) = Inr ast" "\<And>it. evaluate it ast = Inr (of_task task {gs} it)"
    using task_status_query_ast by blast
  from policy_get_eq [OF ok n ast(1), where P = "of_task task {gs}" and p = "rb_policy rb"] ast(2)
  show ?thesis unfolding sel_def by (auto simp: buffer_get_def)
qed

subsection \<open>Lemmas: the lifecycle\<close>

lemma masks_length: "calculate_group_effective_response_masks g t th = Inr ms \<Longrightarrow> length ms = length g"
  by (auto simp: calculate_group_effective_response_masks_def rmap_length split: option.splits)

lemma refresh_one_idem: "seq_staleness (refresh_one t (refresh_one t s)) = seq_staleness (refresh_one t s)"
  by (simp add: refresh_one_def Let_def)

text \<open>The states of a group are as fresh as the threshold asks, at the step of the refresh.\<close>

definition group_fresh :: "int \<Rightarrow> int \<Rightarrow> RolloutState list \<Rightarrow> bool" where
  "group_fresh t th g \<longleftrightarrow> list_all (\<lambda>s. seq_staleness s < th \<and> seq_staleness s = seq_staleness (refresh_one t s)) g"

text \<open>The outcomes of the lifecycle: not applicable, nothing expired, or expired.\<close>

definition expiry_flags :: "int \<Rightarrow> int option \<Rightarrow> int option \<Rightarrow> RolloutState list \<Rightarrow> bool list res" where
  "expiry_flags t th tok g =
     rbind (calculate_group_effective_response_masks g t tok) (\<lambda>ms.
       rmap (\<lambda>(s, m). if status s = EXPIRED then Inr True else state_expires t th tok s m) (zip g ms))"

lemma lifecycle_None: "apply_staleness_lifecycle g None th tok retryable = Inr (get_group_status g, g, [])"
  by (simp add: apply_staleness_lifecycle_def)

lemma lifecycle_other:
  "get_group_status g \<notin> {COMPLETED, ABORTED, EXPIRED} \<Longrightarrow>
     apply_staleness_lifecycle g ct th tok retryable = Inr (get_group_status g, g, [])"
  by (cases ct) (simp_all add: apply_staleness_lifecycle_def)

lemma lifecycle_eq:
  assumes "get_group_status g \<in> {COMPLETED, ABORTED, EXPIRED}"
  shows "apply_staleness_lifecycle g (Some t) th tok retryable =
    (let g1 = refresh_seq_staleness g t in
     rbind (expiry_flags t th tok g1) (\<lambda>ex.
       if True \<notin> set ex then Inr (get_group_status g, g1, [])
       else if retryable then
         Inr (EXPIRED, map2 (\<lambda>s e. if e then fst (reset_response (s\<lparr>status := EXPIRED\<rparr>)) else s) g1 ex,
              concat (map2 (\<lambda>s e. if e then snd (reset_response s) else []) g1 ex))
       else Inr (EXPIRED, map (\<lambda>s. s\<lparr>status := EXPIRED\<rparr>) g1, [])))"
  using assms unfolding apply_staleness_lifecycle_def expiry_flags_def Let_def
  by (cases "calculate_group_effective_response_masks (refresh_seq_staleness g t) t tok") (simp_all add: if_not_P)

lemma expiry_flags_length: "expiry_flags t th tok g = Inr ex \<Longrightarrow> length ex = length g"
  by (auto simp: expiry_flags_def rbind_Inr_iff dest!: masks_length rmap_length)

lemma expiry_flags_fresh:
  assumes "expiry_flags t (Some th) tok g = Inr ex" "True \<notin> set ex" "s \<in> set g"
  shows "seq_staleness s < th"
proof -
  obtain ms where ms: "calculate_group_effective_response_masks g t tok = Inr ms"
    and ex: "rmap (\<lambda>(s, m). if status s = EXPIRED then Inr True else state_expires t (Some th) tok s m) (zip g ms) = Inr ex"
    using assms(1) by (auto simp: expiry_flags_def rbind_Inr_iff)
  obtain m where m: "(s, m) \<in> set (zip g ms)"
    using assms(3) masks_length [OF ms] by (metis in_set_impl_in_set_zip1)
  let ?f = "\<lambda>(s, m). if status s = EXPIRED then Inr True else state_expires t (Some th) tok s m"
  obtain i where i: "i < length (zip g ms)" "zip g ms ! i = (s, m)" using m unfolding in_set_conv_nth by blast
  have "?f (zip g ms ! i) = Inr (ex ! i)" "i < length ex"
    using ex i(1) unfolding rmap_Inr_iff by (simp_all only: list_all2_conv_all_nth)
  moreover have "\<not> ex ! i" using assms(2) nth_mem [OF calculation(2)] by (cases "ex ! i") auto
  ultimately show ?thesis unfolding i(2) by (auto simp: state_expires_def split: if_splits)
qed

lemma lifecycle_fresh:
  assumes "apply_staleness_lifecycle g (Some t) (Some th) tok retryable = Inr (st, g', refs)" "st \<in> {COMPLETED, ABORTED}"
  shows "group_fresh t th g' \<and> g' = refresh_seq_staleness g t \<and> refs = [] \<and> st = get_group_status g"
proof -
  let ?g = "refresh_seq_staleness g t"
  have "get_group_status g \<in> {COMPLETED, ABORTED, EXPIRED}"
    using assms lifecycle_other [of g "Some t" "Some th" tok retryable] by fastforce
  then obtain ex where ex: "expiry_flags t (Some th) tok ?g = Inr ex" "True \<notin> set ex"
    and res: "g' = ?g" "refs = []" "st = get_group_status g"
    using assms by (auto simp: lifecycle_eq rbind_Inr_iff Let_def split: if_splits)
  have "seq_staleness s = seq_staleness (refresh_one t s)" if "s \<in> set ?g" for s
    using that refresh_one_idem by (auto simp: refresh_seq_staleness_def)
  then show ?thesis using expiry_flags_fresh [OF ex] res by (simp add: group_fresh_def list_all_iff)
qed

lemma lifecycle_length:
  assumes "apply_staleness_lifecycle g ct th tok retryable = Inr (st, g', refs)"
  shows "length g' = length g"
proof (cases "ct = None \<or> get_group_status g \<notin> {COMPLETED, ABORTED, EXPIRED}")
  case True
  then show ?thesis using assms lifecycle_other lifecycle_None by fastforce
next
  case False
  then obtain t where t: "ct = Some t" by auto
  then have "\<exists>ex. expiry_flags t th tok (refresh_seq_staleness g t) = Inr ex \<and> (g' = refresh_seq_staleness g t \<or>
      g' = map2 (\<lambda>s e. if e then fst (reset_response (s\<lparr>status := EXPIRED\<rparr>)) else s) (refresh_seq_staleness g t) ex \<or>
      g' = map (\<lambda>s. s\<lparr>status := EXPIRED\<rparr>) (refresh_seq_staleness g t))"
    using assms False by (auto simp: lifecycle_eq rbind_Inr_iff Let_def split: if_splits)
  then show ?thesis using expiry_flags_length by (fastforce simp: refresh_seq_staleness_def)
qed

lemma expiry_flags_expired:
  assumes ex: "expiry_flags t th tok g = Inr ex" and i: "i < length g" "status (g ! i) = EXPIRED"
  shows "ex ! i"
proof -
  let ?f = "\<lambda>(s, m). if status s = EXPIRED then Inr True else state_expires t th tok s m"
  obtain ms where ms: "calculate_group_effective_response_masks g t tok = Inr ms" and r: "rmap ?f (zip g ms) = Inr ex"
    using ex by (auto simp: expiry_flags_def rbind_Inr_iff)
  have "?f (zip g ms ! i) = Inr (ex ! i)"
    using r i(1) masks_length [OF ms] unfolding rmap_Inr_iff by (simp add: list_all2_conv_all_nth)
  then show ?thesis using i masks_length [OF ms] by simp
qed

text \<open>A retryable expired group: every expired state has been reset for another rollout.\<close>

definition expired_are_reset :: "RolloutState list \<Rightarrow> bool" where
  "expired_are_reset g \<longleftrightarrow> list_all (\<lambda>s. status s = EXPIRED \<longrightarrow> response_ids s = Some [] \<and> rs_labels s = None) g"

lemma refresh_status: "status (refresh_one t s) = status s"
  by (simp add: refresh_one_def Let_def)

lemma lifecycle_expired:
  assumes "apply_staleness_lifecycle g (Some t) th tok True = Inr (EXPIRED, g', refs)"
  shows "expired_are_reset g' \<and> EXPIRED \<in> status ` set g'"
proof -
  let ?g = "refresh_seq_staleness g t"
  have st: "get_group_status g \<in> {COMPLETED, ABORTED, EXPIRED}"
    using assms lifecycle_other [of g "Some t" th tok True] by fastforce
  obtain ex where ex: "expiry_flags t th tok ?g = Inr ex"
    and r: "if True \<notin> set ex then EXPIRED = get_group_status g \<and> g' = ?g
        else g' = map2 (\<lambda>s e. if e then fst (reset_response (s\<lparr>status := EXPIRED\<rparr>)) else s) ?g ex"
    using assms st by (auto simp: lifecycle_eq rbind_Inr_iff Let_def split: if_splits)
  note len = expiry_flags_length [OF ex]
  have "True \<in> set ex"
  proof (rule ccontr)
    assume none: "True \<notin> set ex"
    then have "get_group_status g = EXPIRED" using r by simp
    then have "\<exists>s \<in> set g. status s = EXPIRED" by (auto simp: get_group_status_def split: if_splits)
    then obtain i where "i < length ?g" "status (?g ! i) = EXPIRED"
      by (auto simp: in_set_conv_nth refresh_seq_staleness_def refresh_status)
    then show False using expiry_flags_expired [OF ex] none len nth_mem [of i ex] by auto
  qed
  then have g': "g' = map2 (\<lambda>s e. if e then fst (reset_response (s\<lparr>status := EXPIRED\<rparr>)) else s) ?g ex" using r by simp
  have nth: "g' ! i = (if ex ! i then fst (reset_response ((?g ! i)\<lparr>status := EXPIRED\<rparr>)) else ?g ! i)" if "i < length ?g" for i
    using that len by (simp add: g')
  have "expired_are_reset g'"
    unfolding expired_are_reset_def list_all_length
  proof (intro allI impI)
    fix i assume i: "i < length g'" "status (g' ! i) = EXPIRED"
    then have "i < length ?g" using len by (simp add: g')
    then show "response_ids (g' ! i) = Some [] \<and> rs_labels (g' ! i) = None"
      using nth [OF \<open>i < length ?g\<close>] i(2) expiry_flags_expired [OF ex \<open>i < length ?g\<close>]
      by (cases "ex ! i") (simp_all add: reset_response_def)
  qed
  moreover obtain i where "i < length ex" "ex ! i" using \<open>True \<in> set ex\<close> by (auto simp: in_set_conv_nth)
  then have "status (g' ! i) = EXPIRED" "i < length g'" using nth [of i] len by (simp_all add: reset_response_def g')
  then have "EXPIRED \<in> status ` set g'" by (metis imageI nth_mem)
  ultimately show ?thesis by blast
qed

subsection \<open>Lemmas: refreshing and taking\<close>

lemma fold_replace_mem:
  "x \<in> set (fold replace_record us its) \<Longrightarrow>
     (\<exists>u \<in> set us. \<exists>ts. x = u\<lparr>si_timestamp_id := ts\<rparr>) \<or> (x \<in> set its \<and> si_uid x \<notin> si_uid ` set us)"
proof (induction us arbitrary: its)
  case (Cons u us)
  then consider "\<exists>u \<in> set us. \<exists>ts. x = u\<lparr>si_timestamp_id := ts\<rparr>" | "x \<in> set (replace_record u its)" "si_uid x \<notin> si_uid ` set us"
    by fastforce
  then show ?case
  proof cases
    case 2
    then show ?thesis by (auto simp: replace_record_def split: if_splits)
  qed auto
qed simp

lemma refresh_record_Inr:
  "refresh_record t th tok retryable r = Inr (r', refs) \<Longrightarrow>
     si_uid r' = si_uid r \<and> si_task_name r' = si_task_name r \<and>
     (si_status r' \<in> {COMPLETED, ABORTED} \<longrightarrow> group_fresh t th (si_item r'))"
  using lifecycle_fresh [of "si_item r" t th tok retryable] by (auto simp: refresh_record_def rbind_Inr_iff)

text \<open>The records that one task's refresh rewrites and drops, together: one for each record it reads.\<close>

lemma refresh_task_Inr:
  assumes "refresh_task sts t toks retry st (k, th) = Inr (c, upd, dead, refs)"
  shows "\<And>u. u \<in> set (upd @ dead) \<Longrightarrow> si_task_name u = k \<and> (si_status u \<in> {COMPLETED, ABORTED} \<longrightarrow> group_fresh t th (si_item u))"
    and "\<And>r. r \<in> set (content st) \<Longrightarrow> of_task k (set sts) r \<Longrightarrow> si_uid r \<in> si_uid ` set (upd @ dead)"
    and "map_of retry k \<noteq> Some False \<Longrightarrow> dead = []"
proof -
  let ?ret = "case map_of retry k of None \<Rightarrow> True | Some b \<Rightarrow> b"
  obtain rs where rs: "rmap (refresh_record t th (map_of toks k) ?ret) (filter (of_task k (set sts)) (content st)) = Inr rs"
    and upd: "upd = filter (\<lambda>r. \<not> (si_status r = EXPIRED \<and> \<not> ?ret)) (map fst rs)"
    and dead: "dead = filter (\<lambda>r. si_status r = EXPIRED \<and> \<not> ?ret) (map fst rs)"
    using assms by (auto simp: refresh_task_def storage_get_refresh rbind_Inr_iff Let_def)
  have all: "set (upd @ dead) = set (map fst rs)" by (auto simp: upd dead)
  have l2: "list_all2 (\<lambda>r r'. refresh_record t th (map_of toks k) ?ret r = Inr r') (filter (of_task k (set sts)) (content st)) rs"
    using rs unfolding rmap_Inr_iff .
  show "si_task_name u = k \<and> (si_status u \<in> {COMPLETED, ABORTED} \<longrightarrow> group_fresh t th (si_item u))" if u: "u \<in> set (upd @ dead)" for u
  proof -
    obtain r' where r': "r' \<in> set rs" "u = fst r'" using u unfolding all by auto
    then obtain r where "r \<in> set (filter (of_task k (set sts)) (content st))" "refresh_record t th (map_of toks k) ?ret r = Inr r'"
      using list_all2_in2 [OF l2 r'(1)] by blast
    then show ?thesis using refresh_record_Inr [of t th "map_of toks k" ?ret r u "snd r'"] r'(2) by (simp add: of_task_def)
  qed
  show "si_uid r \<in> si_uid ` set (upd @ dead)" if r: "r \<in> set (content st)" "of_task k (set sts) r" for r
  proof -
    have "r \<in> set (filter (of_task k (set sts)) (content st))" using r by simp
    from list_all2_in1 [OF l2 this] obtain r' where "r' \<in> set rs" "refresh_record t th (map_of toks k) ?ret r = Inr r'"
      by blast
    then show ?thesis
      unfolding all using refresh_record_Inr [of t th "map_of toks k" ?ret r "fst r'" "snd r'"]
      by (metis (no_types, lifting) imageI list.set_map prod.collapse)
  qed
  show "dead = []" if "map_of retry k \<noteq> Some False"
    using that by (auto simp: dead split: option.splits)
qed

text \<open>Taking one task's records leaves the others' alone.\<close>

lemma filter_removed_other:
  assumes "set sel \<subseteq> {it. of_task a {gs} it}" "a \<noteq> b"
  shows "filter (of_task b {gs}) (filter (\<lambda>it. it \<notin> set sel) xs) = filter (of_task b {gs}) xs"
  unfolding filter_filter by (rule filter_cong [OF refl]) (use assms in \<open>auto simp: of_task_def\<close>)

lemma is_ready_eq:
  "is_ready sizes gs rb = Inr (list_all (\<lambda>(a, n). n \<le> int (length (filter (of_task a {gs}) (content (rb_storage rb)))) \<or> n \<le> 0) sizes)"
  by (induction sizes gs rb rule: is_ready.induct) (auto simp: buffer_count_eq)

lemma buffer_get_conserves:
  assumes ok: "storage_ok (rb_storage rb)" and n: "0 < n"
  shows "\<exists>(sel :: StorageItem list) rb'. buffer_get n a gs rb = Inr (map si_item sel, rb') \<and> storage_ok (rb_storage rb') \<and>
    length sel = min (nat n) (length (filter (of_task a {gs}) (content (rb_storage rb)))) \<and>
    set sel \<subseteq> {it. of_task a {gs} it} \<and> set sel \<subseteq> set (content (rb_storage rb)) \<and>
    content (rb_storage rb') = filter (\<lambda>it. it \<notin> set sel) (content (rb_storage rb)) \<and>
    mset sel + mset (content (rb_storage rb')) = mset (content (rb_storage rb))"
proof -
  let ?M = "filter (of_task a {gs}) (content (rb_storage rb))"
  let ?ord = "policy_order (rb_policy rb) ?M"
  let ?sel = "take (nat n) ?ord"
  obtain rb' where rb': "buffer_get n a gs rb = Inr (map si_item ?sel, rb')" "storage_ok (rb_storage rb')"
      "content (rb_storage rb') = filter (\<lambda>it. it \<notin> set ?sel) (content (rb_storage rb))"
    using buffer_get_eq [OF ok n] by blast
  have m: "mset ?ord = mset ?M" by (rule policy_order_mset)
  have sub: "set ?sel \<subseteq> set ?M" using set_take_subset [of "nat n" ?ord] mset_eq_setD [OF m] by simp
  have len: "length ?sel = min (nat n) (length ?M)" using mset_eq_length [OF m] by (simp add: min.commute)
  have "distinct ?sel" using mset_eq_imp_distinct_iff [OF m] naive.distinct_cont [OF ok] by simp
  then have "mset ?sel = mset (filter (\<lambda>it. it \<in> set ?sel) (content (rb_storage rb)))"
    using sub naive.distinct_cont [OF ok] by (intro iffD1 [OF set_eq_iff_mset_eq_distinct]) auto
  then have "mset ?sel + mset (content (rb_storage rb')) = mset (content (rb_storage rb))"
    unfolding rb'(3) using multiset_partition [of "mset (content (rb_storage rb))" "\<lambda>it. it \<in> set ?sel"] by (simp add: mset_filter)
  then show ?thesis using rb' len sub by (intro exI [of _ ?sel] exI [of _ rb']) auto
qed

text \<open>What a batch entry of task \<open>a\<close> and size \<open>n\<close> is, taken from the content \<open>c\<close>.\<close>

definition batch_entry :: "Status \<Rightarrow> StorageItem list \<Rightarrow> string \<times> int \<Rightarrow> string \<times> RolloutState list list \<Rightarrow> bool" where
  "batch_entry gs c sz0 entry \<longleftrightarrow> fst entry = fst sz0 \<and>
     length (snd entry) = min (nat (snd sz0)) (length (filter (of_task (fst sz0) {gs}) c)) \<and>
     set (snd entry) \<subseteq> si_item ` {it \<in> set c. of_task (fst sz0) {gs} it}"

lemma take_batch_ok:
  "storage_ok (rb_storage rb) \<Longrightarrow> distinct (map fst sizes) \<Longrightarrow>
   \<exists>batch rb'. take_batch sizes gs rb = Inr (batch, map (\<lambda>(a, g). (a, length g)) batch, rb') \<and> storage_ok (rb_storage rb') \<and>
     list_all2 (batch_entry gs (content (rb_storage rb))) sizes batch \<and>
     mset (concat (map snd batch)) + mset (map si_item (content (rb_storage rb'))) = mset (map si_item (content (rb_storage rb)))"
proof (induction sizes arbitrary: rb)
  case (Cons sz0 sizes)
  obtain a n where sz0: "sz0 = (a, n)" by fastforce
  let ?c = "content (rb_storage rb)"
  have "\<exists>(sel :: StorageItem list) rb1. (if n \<le> 0 then Inr ([], rb) else buffer_get n a gs rb) = Inr (map si_item sel, rb1) \<and>
      storage_ok (rb_storage rb1) \<and> length sel = min (nat n) (length (filter (of_task a {gs}) ?c)) \<and>
      set sel \<subseteq> {it. of_task a {gs} it} \<and> set sel \<subseteq> set ?c \<and>
      content (rb_storage rb1) = filter (\<lambda>it. it \<notin> set sel) ?c \<and> mset sel + mset (content (rb_storage rb1)) = mset ?c"
  proof (cases "n \<le> 0")
    case True
    then show ?thesis using Cons.prems(1) by (intro exI [of _ "[]"] exI [of _ rb]) simp
  next
    case False
    then show ?thesis using buffer_get_conserves [OF Cons.prems(1), of n a gs] by simp
  qed
  then obtain sel :: "StorageItem list" and rb1
    where get: "(if n \<le> 0 then Inr ([], rb) else buffer_get n a gs rb) = Inr (map si_item sel, rb1)"
    and ok1: "storage_ok (rb_storage rb1)" and len: "length sel = min (nat n) (length (filter (of_task a {gs}) ?c))"
    and sel: "set sel \<subseteq> {it. of_task a {gs} it}" "set sel \<subseteq> set ?c"
    and c1: "content (rb_storage rb1) = filter (\<lambda>it. it \<notin> set sel) ?c" "mset sel + mset (content (rb_storage rb1)) = mset ?c"
    by blast
  have "distinct (map fst sizes)" using Cons.prems(2) by simp
  from Cons.IH [OF ok1 this] obtain batch rb' where b: "take_batch sizes gs rb1 = Inr (batch, map (\<lambda>(a, g). (a, length g)) batch, rb')"
    "storage_ok (rb_storage rb')" "list_all2 (batch_entry gs (content (rb_storage rb1))) sizes batch"
    "mset (concat (map snd batch)) + mset (map si_item (content (rb_storage rb'))) = mset (map si_item (content (rb_storage rb1)))"
    by blast
  have "batch_entry gs (content (rb_storage rb1)) sz e \<Longrightarrow> batch_entry gs ?c sz e" if "sz \<in> set sizes" for sz e
  proof -
    have "a \<noteq> fst sz" using that Cons.prems(2) sz0 by auto
    then have f: "filter (of_task (fst sz) {gs}) (content (rb_storage rb1)) = filter (of_task (fst sz) {gs}) ?c"
      unfolding c1(1) by (rule filter_removed_other [OF sel(1)])
    show "batch_entry gs (content (rb_storage rb1)) sz e \<Longrightarrow> batch_entry gs ?c sz e"
      unfolding batch_entry_def f unfolding c1(1) by auto
  qed
  then have rest: "list_all2 (batch_entry gs ?c) sizes batch"
    using b(3) by (auto intro: list.rel_mono_strong)
  have "batch_entry gs ?c (a, n) (a, map si_item sel)" using len sel by (auto simp: batch_entry_def)
  moreover have "image_mset si_item (mset sel) + mset (map si_item (content (rb_storage rb1))) = mset (map si_item ?c)"
    using arg_cong [OF c1(2), of "image_mset si_item"] by simp
  ultimately show ?case
    using get b rest unfolding sz0 by (auto simp: add.assoc intro!: exI [of _ "(a, map si_item sel) # batch"])
qed simp

text \<open>From a ready buffer every task gets its whole size.\<close>

lemma ready_counts:
  assumes ready: "is_ready sizes gs rb = Inr True" and b: "list_all2 (batch_entry gs (content (rb_storage rb))) sizes batch"
  shows "map (\<lambda>(a, g). (a, int (length g))) batch = map (\<lambda>(a, n). (a, max 0 n)) sizes"
proof (rule nth_equalityI)
  let ?c = "content (rb_storage rb)"
  have r: "n \<le> int (length (filter (of_task a {gs}) ?c)) \<or> n \<le> 0" if "(a, n) \<in> set sizes" for a n
    using ready that unfolding is_ready_eq by (auto simp: list_all_iff)
  show "length (map (\<lambda>(a, g). (a, int (length g))) batch) = length (map (\<lambda>(a, n). (a, max 0 n)) sizes)"
    using list_all2_lengthD [OF b] by simp
  fix i assume "i < length (map (\<lambda>(a, g). (a, int (length g))) batch)"
  then have i: "i < length batch" "i < length sizes" using list_all2_lengthD [OF b] by simp_all
  obtain a n where s: "sizes ! i = (a, n)" by fastforce
  have "batch_entry gs ?c (a, n) (batch ! i)" using list_all2_nthD [OF b i(2)] s by simp
  then show "map (\<lambda>(a, g). (a, int (length g))) batch ! i = map (\<lambda>(a, n). (a, max 0 n)) sizes ! i"
    using i s r [of a n] nth_mem [OF i(2)] by (auto simp: batch_entry_def case_prod_beta)
qed

subsection \<open>Properties\<close>

text \<open>What \<open>put\<close> stores: a nonempty group offered with its task's thresholds is either dropped (expired and
  not retryable, the storage unchanged) or appended as one record of its task with all its samples, and its recorded
  staleness is the largest of its samples. A record stored as COMPLETED or ABORTED has only samples fresher
  than the threshold; in one stored as EXPIRED every expired sample has been reset for another rollout.\<close>

theorem buffer_put_stores_fresh:
  assumes ok: "storage_ok (rb_storage rb)" and g: "g \<noteq> []"
    and put: "buffer_put g task v (Some t) (Some th) tok retryable rb store = Inr (rb', store', refs)"
  shows "storage_ok (rb_storage rb') \<and> rb_policy rb' = rb_policy rb \<and>
    (\<not> retryable \<and> content (rb_storage rb') = content (rb_storage rb) \<or>
     (\<exists>it. content (rb_storage rb') = content (rb_storage rb) @ [it] \<and> si_task_name it = task \<and>
        length (si_item it) = length g \<and> si_staleness it = group_staleness (si_item it) \<and>
        (si_status it \<in> {COMPLETED, ABORTED} \<longrightarrow> group_fresh t th (si_item it)) \<and>
        (si_status it = EXPIRED \<longrightarrow> retryable \<and> expired_are_reset (si_item it))))"
proof -
  let ?g1 = "case v of None \<Rightarrow> g | Some v \<Rightarrow> map (update_sample_version v) g"
  obtain st g2 refs1 where lc: "apply_staleness_lifecycle ?g1 (Some t) (Some th) tok retryable = Inr (st, g2, refs1)"
    using put g by (auto simp: buffer_put_def put_group_def rbind_Inr_iff Let_def)
  have len: "length g2 = length g" using lifecycle_length [OF lc] by (simp split: option.splits)
  let ?it = "\<lparr>si_item = g2, si_uid = 0, si_timestamp_id = 0, si_task_name = task, si_status = st, si_staleness = group_staleness g2\<rparr>"
  show ?thesis
  proof (cases "st = EXPIRED \<and> \<not> retryable")
    case True
    then have "rb' = rb" using put g lc by (auto simp: buffer_put_def put_group_def rbind_Inr_iff)
    then show ?thesis using True ok by simp
  next
    case False
    then have rb': "rb' = rb\<lparr>rb_storage := policy_put ?it (rb_storage rb)\<rparr>"
      using put g lc by (auto simp: buffer_put_def put_group_def Let_def)
    have "g2 \<noteq> []" using len g by auto
    then have "policy_put ?it (rb_storage rb) = snd (storage_put ?it (rb_storage rb))" by (simp add: policy_put_def)
    moreover obtain u ts where "storage_ok (snd (storage_put ?it (rb_storage rb)))"
        "content (snd (storage_put ?it (rb_storage rb))) = content (rb_storage rb) @ [?it\<lparr>si_uid := u, si_timestamp_id := ts\<rparr>]"
      using naive.put_ok [OF ok, of ?it] by blast
    moreover have "group_fresh t th g2" if "st \<in> {COMPLETED, ABORTED}" using lifecycle_fresh [OF lc that] by blast
    moreover have "retryable \<and> expired_are_reset g2" if "st = EXPIRED"
      using lifecycle_expired [of ?g1 t "Some th" tok g2 refs1] lc that False by simp
    ultimately show ?thesis unfolding rb' using len by simp
  qed
qed

definition sample_group :: "RolloutState list" where
  "sample_group = [(default_state VNone)\<lparr>status := COMPLETED, response_ids := Some [7], response_model_steps := Some [3]\<rparr>]"

definition sample_buffer :: ReplayBuffer where
  "sample_buffer = \<lparr>rb_policy = StalenessReplayPolicy, rb_storage = \<lparr>uid_gen = 2, timestamp_id_gen = 2, items =
     [(1, \<lparr>si_item = sample_group, si_uid = 1, si_timestamp_id = 1, si_task_name = ''a'', si_status = COMPLETED, si_staleness = 0\<rparr>)]\<rparr>\<rparr>"

lemma sample_buffer_ok: "storage_ok (rb_storage sample_buffer)"
  by (simp add: sample_buffer_def storage_ok_def content_def keyed_def)

lemma sample_lifecycle:
  "apply_staleness_lifecycle sample_group (Some 5) (Some 2) None True =
     Inr (COMPLETED, [(default_state VNone)\<lparr>status := COMPLETED, response_ids := Some [7], response_model_steps := Some [3], seq_staleness := 1\<rparr>], [])"
  by (simp add: sample_group_def get_group_status_def lifecycle_eq expiry_flags_def refresh_seq_staleness_def refresh_one_def
      calculate_seq_staleness_def calculate_group_effective_response_masks_def state_expires_def default_state_def Let_def)

theorem buffer_put_stores_fresh_witness:
  "\<exists>rb'. buffer_put sample_group ''a'' None (Some 5) (Some 2) None True sample_buffer None = Inr (rb', None, []) \<and>
     storage_ok (rb_storage rb')"
proof -
  have g: "sample_group \<noteq> []" by (simp add: sample_group_def)
  obtain rb' where rb': "buffer_put sample_group ''a'' None (Some 5) (Some 2) None True sample_buffer None = Inr (rb', None, [])"
    using sample_lifecycle g by (simp add: buffer_put_def put_group_def Let_def)
  then show ?thesis using buffer_put_stores_fresh [OF sample_buffer_ok g rb'] by blast
qed



text \<open>C19. Taking a training batch: when the buffer reports ready, \<open>take_batch\<close> returns for every task exactly the requested
  number of groups, all of them stored for that task with the requested status, together with their counts;
  taken and remaining groups are exactly the groups stored before.\<close>

theorem take_batch_exact:
  assumes ok: "storage_ok (rb_storage rb)" and dict: "distinct (map fst sizes)"
    and ready: "is_ready sizes gs rb = Inr True"
  shows "\<exists>batch rb'. take_batch sizes gs rb = Inr (batch, map (\<lambda>(a, g). (a, length g)) batch, rb') \<and> storage_ok (rb_storage rb') \<and>
    map (\<lambda>(a, g). (a, int (length g))) batch = map (\<lambda>(a, n). (a, max 0 n)) sizes \<and>
    list_all (\<lambda>(a, g). set g \<subseteq> si_item ` {it \<in> set (content (rb_storage rb)). of_task a {gs} it}) batch \<and>
    mset (concat (map snd batch)) + mset (map si_item (content (rb_storage rb'))) = mset (map si_item (content (rb_storage rb)))"
proof -
  let ?c = "content (rb_storage rb)"
  obtain batch rb' where b: "take_batch sizes gs rb = Inr (batch, map (\<lambda>(a, g). (a, length g)) batch, rb')" "storage_ok (rb_storage rb')"
    "list_all2 (batch_entry gs ?c) sizes batch"
    "mset (concat (map snd batch)) + mset (map si_item (content (rb_storage rb'))) = mset (map si_item ?c)"
    using take_batch_ok [OF ok dict, of gs] by blast
  have "map (\<lambda>(a, g). (a, int (length g))) batch = map (\<lambda>(a, n). (a, max 0 n)) sizes" by (rule ready_counts [OF ready b(3)])
  moreover have "list_all (\<lambda>(a, g). set g \<subseteq> si_item ` {it \<in> set ?c. of_task a {gs} it}) batch"
    using b(3) by (auto simp: list_all_length list_all2_conv_all_nth batch_entry_def case_prod_beta)
  ultimately show ?thesis using b by blast
qed

theorem take_batch_exact_witness:
  "\<exists>batch rb'. take_batch [(''a'', 1)] COMPLETED sample_buffer = Inr (batch, map (\<lambda>(a, g). (a, length g)) batch, rb') \<and>
     map (\<lambda>(a, g). (a, int (length g))) batch = [(''a'', 1)]"
proof -
  have r: "is_ready [(''a'', 1)] COMPLETED sample_buffer = Inr True"
    by (simp add: is_ready_eq sample_buffer_def content_def of_task_def)
  have d: "distinct (map fst [(''a'', 1::int)])" by simp
  from take_batch_exact [OF sample_buffer_ok d r] show ?thesis by auto
qed

end
