(* ===== verification/RLSampler.thy ===== *)
theory RLSampler
  imports DataSampler ReplayBuffer
begin

text \<open>
  The prompt sampler of RL training, \<^verbatim>\<open>xtuner/v1/rl/agent_loop_manager/sampler.py\<close>: numbering of rollout groups,
  reuse of groups from the replay buffer, and the resumption of its dataloader.

  The dataset is the function \<open>data\<close> from positions to records and the iteration of the configured distributed
  sampler (one rank, batches of one sample) is the argument \<open>iter\<close>; \<open>parallel_iter\<close> and
  \<open>length_grouped_iter\<close> are its values. Iterators are lazy as in the code: a fresh one reads the sampler at its
  first \<open>next\<close>. Ray's object store is the list of stored values. \<open>det\<close> is the flag
  \<open>XTUNER_DETERMINISTIC\<close>. When the dataset is empty the second \<open>next\<close> raises; the epoch counter has then
  already advanced, which the result \<open>Inl\<close> does not show.
\<close>

subsection \<open>Sampling from the dataset\<close>

datatype loader_iter = Fresh | Running "nat list"

record dataset_sampler =
  sampler_dataloader :: dataloader
  dataloader_iter :: "loader_iter option"
  cur_epoch :: nat
  prompt_repeat_k :: int
  consumed_samples :: int

definition sampler_build :: "sampler \<Rightarrow> int \<Rightarrow> dataset_sampler" where
  "sampler_build s k = \<lparr>sampler_dataloader = \<lparr>dl_sampler = s, init_total_samples = 0, local_samples = 0\<rparr>,
     dataloader_iter = None, cur_epoch = 0, prompt_repeat_k = k, consumed_samples = 0\<rparr>"

text \<open>\<open>mm_info\<close> is a dictionary or missing.\<close>

definition put_to_ray :: "RolloutState \<Rightarrow> pyval list \<Rightarrow> RolloutState \<times> pyval list" where
  "put_to_ray d heap =
     (case mm_info d of
        VDict fs \<Rightarrow>
          let pixel_values = dict_get fs ''pixel_values'' in
          if pixel_values = VNone then (d, heap)
          else (d\<lparr>mm_info := VDict (AList.update ''pixel_values'' (VRef (length heap)) fs)\<rparr>, heap @ [pixel_values])
      | _ \<Rightarrow> (d, heap))"

lemma put_to_ray_message [simp]: "message (fst (put_to_ray d heap)) = message d"
  by (simp add: put_to_ray_def Let_def split: pyval.splits)

text \<open>One \<open>next\<close>: \<open>None\<close> is the end of the epoch.\<close>

definition loader_next ::
  "(nat \<Rightarrow> RolloutState) \<Rightarrow> (sampler \<Rightarrow> (nat list \<times> sampler) res) \<Rightarrow> loader_iter \<Rightarrow> dataloader \<Rightarrow>
   (RolloutState option \<times> loader_iter \<times> dataloader) res" where
  "loader_next data iter it dl =
     rbind (case it of
              Fresh \<Rightarrow> rbind (iter (dl_sampler dl)) (\<lambda>(ix, s). Inr (ix, dl\<lparr>dl_sampler := s\<rparr>))
            | Running ix \<Rightarrow> Inr (ix, dl)) (\<lambda>(ix, dl').
       case ix of
         [] \<Rightarrow> Inr (None, Running [], dl')
       | i # rest \<Rightarrow> Inr (Some (data i), Running rest, dl_deliver [data i] dl'))"

definition number_copy :: "bool \<Rightarrow> int \<Rightarrow> int \<Rightarrow> RolloutState \<Rightarrow> RolloutState" where
  "number_copy det gid rid d =
     d\<lparr>group_id := Some gid, rollout_id := Some rid, session_id := (if det then Some rid else session_id d), uid := Some rid\<rparr>"

definition sample_from_dataloader ::
  "bool \<Rightarrow> (nat \<Rightarrow> RolloutState) \<Rightarrow> (sampler \<Rightarrow> (nat list \<times> sampler) res) \<Rightarrow> dataset_sampler \<Rightarrow> pyval list \<Rightarrow>
   (RolloutState list \<times> dataset_sampler \<times> pyval list) res" where
  "sample_from_dataloader det data iter ds heap =
     rbind (loader_next data iter (case dataloader_iter ds of None \<Rightarrow> Fresh | Some it \<Rightarrow> it) (sampler_dataloader ds)) (\<lambda>(r, it, dl).
     rbind (case r of
              Some d \<Rightarrow> Inr (d, ds\<lparr>dataloader_iter := Some it, sampler_dataloader := dl\<rparr>)
            | None \<Rightarrow>
                let e = cur_epoch ds + 1 in
                rbind (loader_next data iter Fresh (dl\<lparr>dl_sampler := set_epoch e (dl_sampler dl)\<rparr>)) (\<lambda>(r', it', dl').
                  case r' of
                    None \<Rightarrow> Inl StopIteration
                  | Some d \<Rightarrow> Inr (d, ds\<lparr>cur_epoch := e, dataloader_iter := Some it', sampler_dataloader := dl'\<rparr>))) (\<lambda>(d, ds1).
       let (d1, heap1) = put_to_ray d heap;
           gid = consumed_samples ds1;
           base = consumed_samples ds1 * prompt_repeat_k ds1
       in Inr (map (\<lambda>idx. number_copy det gid (base + int idx) d1) [0..<nat (prompt_repeat_k ds1)],
               ds1\<lparr>consumed_samples := consumed_samples ds1 + 1\<rparr>, heap1)))"

subsection \<open>Sampling from the buffer first\<close>

fun sample_from_buffer :: "string \<Rightarrow> Status list \<Rightarrow> ReplayBuffer \<Rightarrow> (RolloutState list option \<times> ReplayBuffer) res" where
  "sample_from_buffer task [] rb = Inr (None, rb)"
| "sample_from_buffer task (st # sts) rb =
     rbind (buffer_get 1 task st rb) (\<lambda>(gs, rb').
       case gs of [] \<Rightarrow> sample_from_buffer task sts rb' | g # _ \<Rightarrow> Inr (Some g, rb'))"

definition sampler_sample ::
  "bool \<Rightarrow> (nat \<Rightarrow> RolloutState) \<Rightarrow> (sampler \<Rightarrow> (nat list \<times> sampler) res) \<Rightarrow> string \<Rightarrow> Status list option \<Rightarrow>
   dataset_sampler \<Rightarrow> ReplayBuffer \<Rightarrow> pyval list \<Rightarrow> (RolloutState list \<times> dataset_sampler \<times> ReplayBuffer \<times> pyval list) res" where
  "sampler_sample det data iter task group_status ds rb heap =
     rbind (sample_from_buffer task (or_nil group_status) rb) (\<lambda>(r, rb').
       case r of
         Some g \<Rightarrow> Inr (g, ds, rb', heap)
       | None \<Rightarrow> rbind (sample_from_dataloader det data iter ds heap) (\<lambda>(g, ds', heap'). Inr (g, ds', rb', heap')))"

subsection \<open>Checkpoints\<close>

definition sampler_save :: "dataset_sampler \<Rightarrow> dataloader_state res" where
  "sampler_save ds = dl_get_state_dict None (sampler_dataloader ds)"

text \<open>\<open>None\<close> when the file does not exist.\<close>

definition sampler_resume :: "dataloader_state option \<Rightarrow> dataset_sampler \<Rightarrow> dataset_sampler res" where
  "sampler_resume state ds =
     (case state of
        None \<Rightarrow> Inr ds
      | Some st \<Rightarrow>
          (case dl_load_state_dict (sampler_dataloader ds) st of
             (Inl e, dl) \<Rightarrow> Inl e
           | (Inr u, dl) \<Rightarrow> Inr (ds\<lparr>sampler_dataloader := dl, dataloader_iter := Some Fresh,
                 consumed_samples := int (st_step (ds_sampler st)), cur_epoch := st_epoch (ds_sampler st)\<rparr>)))"

text \<open>Successive groups.\<close>

fun sample_many ::
  "bool \<Rightarrow> (nat \<Rightarrow> RolloutState) \<Rightarrow> (sampler \<Rightarrow> (nat list \<times> sampler) res) \<Rightarrow> nat \<Rightarrow> dataset_sampler \<Rightarrow> pyval list \<Rightarrow>
   (RolloutState list list \<times> dataset_sampler \<times> pyval list) res" where
  "sample_many det data iter 0 ds heap = Inr ([], ds, heap)"
| "sample_many det data iter (Suc n) ds heap =
     rbind (sample_from_dataloader det data iter ds heap) (\<lambda>(g, ds', heap').
       rbind (sample_many det data iter n ds' heap') (\<lambda>(gs, ds'', heap''). Inr (g # gs, ds'', heap'')))"

subsection \<open>Reading epoch after epoch\<close>

text \<open>The outcome of one \<open>next\<close> on an iterator with the positions \<open>ix\<close> left, and the numbers of a group.\<close>

definition next_result :: "(nat \<Rightarrow> RolloutState) \<Rightarrow> nat list \<Rightarrow> dataloader \<Rightarrow> (RolloutState option \<times> loader_iter \<times> dataloader) res" where
  "next_result data ix dl = (case ix of
     [] \<Rightarrow> Inr (None, Running [], dl) | i # rest \<Rightarrow> Inr (Some (data i), Running rest, dl_deliver [data i] dl))"

definition numbered :: "int \<Rightarrow> int \<Rightarrow> RolloutState list \<Rightarrow> bool" where
  "numbered k c g \<longleftrightarrow> map rollout_id g = map (\<lambda>j. Some (c * k + int j)) [0..<nat k] \<and>
     map group_id g = replicate (nat k) (Some c) \<and> map uid g = map rollout_id g"

text \<open>
  The contract of \<open>distributed_sampler\<close>, for one rank and over epochs: what a dataset sampler will read next
  is the rest of the current epoch, then the following epochs in full.
\<close>

locale epoch_reader = distributed_sampler ok order iter
  for ok :: "'e \<Rightarrow> sampler \<Rightarrow> bool"
    and order :: "'e \<Rightarrow> sampler \<Rightarrow> nat list res"
    and iter :: "'e \<Rightarrow> sampler \<Rightarrow> (nat list \<times> sampler) res" +
  assumes ok_epoch: "ok e s \<Longrightarrow> ok e (s\<lparr>epoch := n\<rparr>)"
begin

definition epoch_order :: "'e \<Rightarrow> sampler \<Rightarrow> nat \<Rightarrow> nat list" where
  "epoch_order e s n = (case order e (s\<lparr>rank := 0, step := 0, epoch := n\<rparr>) of Inl _ \<Rightarrow> [] | Inr ix \<Rightarrow> ix)"

definition remaining :: "'e \<Rightarrow> dataset_sampler \<Rightarrow> nat list" where
  "remaining e ds =
     (case dataloader_iter ds of
        Some (Running ix) \<Rightarrow> ix
      | _ \<Rightarrow> drop (step (dl_sampler (sampler_dataloader ds))) (epoch_order e (dl_sampler (sampler_dataloader ds)) (cur_epoch ds)))"

text \<open>The sampler as built, with its epoch counter in step.\<close>

definition reader_ok :: "'e \<Rightarrow> sampler \<Rightarrow> dataset_sampler \<Rightarrow> bool" where
  "reader_ok e s0 ds \<longleftrightarrow> ok e s0 \<and> world_size s0 = 1 \<and> rank s0 = 0 \<and> step s0 = 0 \<and> 0 < total_size s0 \<and>
     (\<exists>k \<le> total_size s0. dl_sampler (sampler_dataloader ds) = s0\<lparr>epoch := cur_epoch ds, step := k\<rparr> \<and>
        (k = 0 \<or> dataloader_iter ds = None \<or> dataloader_iter ds = Some Fresh))"

lemma epoch_order_local: "epoch_order e (s\<lparr>epoch := a, step := k\<rparr>) n = epoch_order e s n"
  by (simp add: epoch_order_def)

lemma epoch_order_spec:
  assumes "ok e s" "world_size s = 1" "rank s = 0" "step s = 0"
  shows "order e (s\<lparr>epoch := n\<rparr>) = Inr (epoch_order e s n) \<and> length (epoch_order e s n) = total_size s"
proof -
  have "s\<lparr>rank := 0, step := 0, epoch := n\<rparr> = s\<lparr>epoch := n\<rparr>" using assms(3,4) by (cases s) simp
  then show ?thesis using order_total [OF ok_epoch [OF assms(1), of n]] by (auto simp: epoch_order_def)
qed

lemma iter_epoch:
  assumes "ok e s" "world_size s = 1" "rank s = 0" "step s = 0" "k \<le> total_size s"
  shows "iter e (s\<lparr>epoch := n, step := k\<rparr>) = Inr (drop k (epoch_order e s n), s\<lparr>epoch := n, step := 0\<rparr>)"
proof -
  let ?s = "s\<lparr>epoch := n\<rparr>"
  have "iter e (?s\<lparr>rank := 0, step := k * world_size ?s\<rparr>) =
      Inr (drop k (stride 0 (world_size ?s) (epoch_order e s n)), ?s\<lparr>rank := 0, step := 0\<rparr>)"
    by (rule iter_at [OF ok_epoch [OF assms(1)]])
      (use epoch_order_spec [OF assms(1-4)] assms in simp_all)
  moreover have "?s\<lparr>rank := 0, step := j\<rparr> = s\<lparr>epoch := n, step := j\<rparr>" for j using assms(3) by (cases s) simp
  moreover have "stride 0 1 (epoch_order e s n) = epoch_order e s n"
    by (simp add: stride_def map_nth)
  ultimately show ?thesis using assms(2) by simp
qed

lemma loader_next_fresh:
  assumes "ok e s" "world_size s = 1" "rank s = 0" "step s = 0" "k \<le> total_size s" "dl_sampler dl = s\<lparr>epoch := n, step := k\<rparr>"
  shows "loader_next data (iter e) Fresh dl = next_result data (drop k (epoch_order e s n)) (dl\<lparr>dl_sampler := s\<lparr>epoch := n\<rparr>\<rparr>)"
proof -
  have "s\<lparr>epoch := n, step := 0\<rparr> = s\<lparr>epoch := n\<rparr>" using assms(4) by (cases s) simp
  then show ?thesis using assms(6) by (simp add: loader_next_def next_result_def iter_epoch [OF assms(1-5)])
qed

text \<open>One sample consumes the head of what remains, entering the next epoch when nothing does.\<close>

definition next_epoch :: "'e \<Rightarrow> dataset_sampler \<Rightarrow> nat" where
  "next_epoch e ds = (if remaining e ds = [] then Suc (cur_epoch ds) else cur_epoch ds)"

lemma sample_step:
  assumes ok: "reader_ok e s0 ds"
  shows "\<exists>i rest ds' g heap'. sample_from_dataloader det data (iter e) ds heap = Inr (g, ds', heap') \<and>
    (if remaining e ds = [] then epoch_order e s0 (Suc (cur_epoch ds)) else remaining e ds) = i # rest \<and>
    reader_ok e s0 ds' \<and> remaining e ds' = rest \<and> cur_epoch ds' = next_epoch e ds \<and>
    consumed_samples ds' = consumed_samples ds + 1 \<and> prompt_repeat_k ds' = prompt_repeat_k ds \<and>
    init_total_samples (sampler_dataloader ds') = init_total_samples (sampler_dataloader ds) \<and>
    local_samples (sampler_dataloader ds') = Suc (local_samples (sampler_dataloader ds)) \<and>
    g = map (\<lambda>j. number_copy det (consumed_samples ds) (consumed_samples ds * prompt_repeat_k ds + int j)
              (fst (put_to_ray (data i) heap))) [0..<nat (prompt_repeat_k ds)]"
proof -
  let ?dl = "sampler_dataloader ds" and ?c = "cur_epoch ds"
  have s0: "ok e s0" "world_size s0 = 1" "rank s0 = 0" "step s0 = 0" "0 < total_size s0"
    using ok by (auto simp: reader_ok_def)
  obtain k where k: "k \<le> total_size s0" "dl_sampler ?dl = s0\<lparr>epoch := ?c, step := k\<rparr>"
      "k = 0 \<or> dataloader_iter ds = None \<or> dataloader_iter ds = Some Fresh"
    using ok by (auto simp: reader_ok_def)
  let ?it = "case dataloader_iter ds of None \<Rightarrow> Fresh | Some it \<Rightarrow> it"
  have nx: "loader_next data (iter e) ?it ?dl = next_result data (remaining e ds) (?dl\<lparr>dl_sampler := s0\<lparr>epoch := ?c\<rparr>\<rparr>)"
  proof (cases "\<exists>ix. dataloader_iter ds = Some (Running ix)")
    case True
    moreover from True have "?dl\<lparr>dl_sampler := s0\<lparr>epoch := ?c\<rparr>\<rparr> = ?dl" using k(2,3) s0(4) by (cases ?dl; cases s0) auto
    ultimately show ?thesis
      by (auto simp: loader_next_def next_result_def remaining_def split: list.splits)
  next
    case False
    then have it: "?it = Fresh" by (auto split: option.splits intro: loader_iter.exhaust)
    have rem: "remaining e ds = drop k (epoch_order e s0 ?c)"
      using False k(2) by (auto simp: remaining_def epoch_order_local split: option.splits loader_iter.splits)
    show ?thesis
      unfolding it rem by (simp add: loader_next_fresh [OF s0(1-4) k(1,2)])
  qed
  show ?thesis
  proof (cases "remaining e ds")
    case (Cons i rest)
    then show ?thesis
      using nx s0 by (auto simp: sample_from_dataloader_def Let_def case_prod_beta next_epoch_def reader_ok_def remaining_def
          next_result_def dl_deliver_def intro!: exI [of _ 0])
  next
    case Nil
    let ?o = "epoch_order e s0 (Suc ?c)"
    have "?o \<noteq> []" using epoch_order_spec [OF s0(1-4), of "Suc ?c"] s0(5) by auto
    then obtain i rest where o: "?o = i # rest" by (cases ?o) auto
    let ?dl' = "?dl\<lparr>dl_sampler := s0\<lparr>epoch := Suc ?c\<rparr>\<rparr>"
    have "loader_next data (iter e) Fresh ?dl' = next_result data ?o ?dl'"
      using loader_next_fresh [OF s0(1-4), of 0 ?dl' "Suc ?c" data] s0(4) by (cases s0) simp
    then show ?thesis
      using nx Nil s0 o by (auto simp: sample_from_dataloader_def Let_def case_prod_beta next_epoch_def reader_ok_def remaining_def
          next_result_def dl_deliver_def set_epoch_def intro!: exI [of _ 0])
  qed
qed

text \<open>Many samples: the rest of the epoch and as many following epochs as it takes.\<close>

lemma sample_run:
  assumes "reader_ok e s0 ds"
  shows "\<exists>gs ds' heap' m. sample_many det data (iter e) n ds heap = Inr (gs, ds', heap') \<and> reader_ok e s0 ds' \<and>
    cur_epoch ds \<le> m \<and> cur_epoch ds' = m \<and>
    length gs = n \<and> list_all2 (numbered (prompt_repeat_k ds)) (map (\<lambda>j. consumed_samples ds + int j) [0..<n]) gs \<and>
    prompt_repeat_k ds' = prompt_repeat_k ds \<and> consumed_samples ds' = consumed_samples ds + int n \<and>
    init_total_samples (sampler_dataloader ds') = init_total_samples (sampler_dataloader ds) \<and>
    local_samples (sampler_dataloader ds') = local_samples (sampler_dataloader ds) + n \<and>
    (\<exists>read. length read = n \<and> read @ remaining e ds' = remaining e ds @ concat (map (epoch_order e s0) [Suc (cur_epoch ds)..<Suc m]) \<and>
      (cur_epoch ds < m \<longrightarrow> length (remaining e ds') < total_size s0) \<and>
      map (map message) gs = map (\<lambda>i. replicate (nat (prompt_repeat_k ds)) (message (data i))) read)"
  using assms
proof (induction n arbitrary: ds heap)
  case (Suc n)
  obtain i rest ds1 g heap1 where st: "sample_from_dataloader det data (iter e) ds heap = Inr (g, ds1, heap1)"
    and hd: "(if remaining e ds = [] then epoch_order e s0 (Suc (cur_epoch ds)) else remaining e ds) = i # rest"
    and ok1: "reader_ok e s0 ds1" and rem1: "remaining e ds1 = rest" and ep1: "cur_epoch ds1 = next_epoch e ds"
    and c1: "consumed_samples ds1 = consumed_samples ds + 1" "prompt_repeat_k ds1 = prompt_repeat_k ds"
      "init_total_samples (sampler_dataloader ds1) = init_total_samples (sampler_dataloader ds)"
      "local_samples (sampler_dataloader ds1) = Suc (local_samples (sampler_dataloader ds))"
    and g: "g = map (\<lambda>j. number_copy det (consumed_samples ds) (consumed_samples ds * prompt_repeat_k ds + int j)
              (fst (put_to_ray (data i) heap))) [0..<nat (prompt_repeat_k ds)]"
    using sample_step [OF Suc.prems, of det data heap] by blast
  let ?k = "prompt_repeat_k ds" and ?f = "epoch_order e s0" and ?c = "cur_epoch ds"
  obtain gs ds2 heap2 m read where run: "sample_many det data (iter e) n ds1 heap1 = Inr (gs, ds2, heap2)"
    and ok2: "reader_ok e s0 ds2" and m: "cur_epoch ds1 \<le> m" "cur_epoch ds2 = m" and len: "length gs = n"
    and num: "list_all2 (numbered ?k) (map (\<lambda>j. consumed_samples ds + 1 + int j) [0..<n]) gs"
    and c2: "prompt_repeat_k ds2 = ?k" "consumed_samples ds2 = consumed_samples ds + 1 + int n"
      "init_total_samples (sampler_dataloader ds2) = init_total_samples (sampler_dataloader ds)"
      "local_samples (sampler_dataloader ds2) = local_samples (sampler_dataloader ds) + Suc n"
    and read: "length read = n" "read @ remaining e ds2 = rest @ concat (map ?f [Suc (cur_epoch ds1)..<Suc m])"
      "cur_epoch ds1 < m \<longrightarrow> length (remaining e ds2) < total_size s0"
      "map (map message) gs = map (\<lambda>i. replicate (nat ?k) (message (data i))) read"
    using Suc.IH [OF ok1, of heap1] unfolding c1 rem1 by auto
  have T: "length (?f n) = total_size s0" for n
    using epoch_order_spec [of e s0 n] Suc.prems by (simp add: reader_ok_def)
  have all: "(i # read) @ remaining e ds2 = remaining e ds @ concat (map ?f [Suc ?c..<Suc m])"
  proof (cases "remaining e ds = []")
    case True
    then have "[Suc ?c..<Suc m] = Suc ?c # [Suc (Suc ?c)..<Suc m]" using m(1) ep1 by (simp add: next_epoch_def upt_conv_Cons)
    then show ?thesis using True read(2) hd ep1 by (simp add: next_epoch_def)
  qed (use read(2) hd ep1 in \<open>simp add: next_epoch_def\<close>)
  have short: "length (remaining e ds2) < total_size s0" if "?c < m"
  proof (cases "cur_epoch ds1 < m")
    case False
    then have "remaining e ds = []" "m = Suc ?c" using that m(1) ep1 by (auto simp: next_epoch_def split: if_splits)
    then have "Suc n + length (remaining e ds2) = total_size s0" using arg_cong [OF all, of length] T read(1) by simp
    then show ?thesis by simp
  qed (use read(3) in blast)
  have "numbered ?k (consumed_samples ds) g" by (simp add: g numbered_def number_copy_def comp_def map_replicate_trivial map_replicate_const)
  moreover have "map message g = replicate (nat ?k) (message (data i))"
    by (simp add: g number_copy_def comp_def map_replicate_const)
  moreover have "map (\<lambda>j. consumed_samples ds + int j) [0..<Suc n] = consumed_samples ds # map (\<lambda>j. consumed_samples ds + 1 + int j) [0..<n]"
    by (simp add: map_upt_Suc add.assoc del: upt_Suc)
  moreover have "?c \<le> m" using m(1) ep1 by (simp add: next_epoch_def split: if_splits)
  ultimately show ?case
    using st run ok2 m(2) len num c2 all short read(1,4)
    by (auto simp del: upt_Suc append_Cons intro!: exI [of _ "i # read"])
qed (auto simp: reader_ok_def)

lemma sample_first:
  assumes "reader_ok e s0 ds" "i = hd (if remaining e ds = [] then epoch_order e s0 (Suc (cur_epoch ds)) else remaining e ds)"
  shows "\<exists>g r. sample_from_dataloader det data (iter e) ds heap = Inr (g, r) \<and>
    map message g = replicate (nat (prompt_repeat_k ds)) (message (data i)) \<and>
    map group_id g = replicate (nat (prompt_repeat_k ds)) (Some (consumed_samples ds))"
  using sample_step [OF assms(1), of det data heap] assms(2)
  by (auto simp: number_copy_def comp_def map_replicate_const)

end

lemma concat_epochs_nth:
  "(\<And>e. length (f e) = T) \<Longrightarrow> j < m * T \<Longrightarrow> concat (map f [0..<m]) ! j = f (j div T) ! (j mod T)"
proof (induction m)
  case (Suc m)
  have len: "length (concat (map f [0..<m])) = m * T" using Suc.prems(1) by (induction m) auto
  show ?case
  proof (cases "j < m * T")
    case False
    then have "j div T = m" using Suc.prems(2) by (intro div_nat_eqI) (auto simp: algebra_simps)
    moreover have "j mod T = j - m * T" using calculation minus_div_mult_eq_mod [of j T] by simp
    ultimately show ?thesis using False len by (simp add: nth_append)
  qed (use Suc len in \<open>simp add: nth_append\<close>)
qed simp

lemma fit_to_size_exact: "length ix = n \<Longrightarrow> 0 < n \<Longrightarrow> fit_to_size up n ix = Inr ix"
  by (auto simp: fit_to_size_def)

interpretation parallel_prompts: epoch_reader parallel_ok
  "\<lambda>(perm, len). parallel_order perm len" "\<lambda>(perm, len). parallel_iter perm len"
  by unfold_locales (auto simp: parallel_ok_def built_def)

interpretation grouped_prompts: epoch_reader grouped_ok
  "\<lambda>(perm, shuf, lens). length_grouped_order perm shuf lens" "\<lambda>(perm, shuf, lens). length_grouped_iter perm shuf lens"
  by unfold_locales (auto simp: grouped_ok_def built_def)

text \<open>The sampler that \<open>SamplerConfig.build\<close> makes: one rank, global batch size one.\<close>

lemma prompt_sampler_built:
  assumes init: "parallel_init len 1 None shuf up = Inr s" and len: "0 < len" and perm: "perm_ok perm"
  shows "parallel_prompts.reader_ok (perm, len) s (sampler_build s k)" and "total_size s = len"
    and "mset (parallel_prompts.epoch_order (perm, len) s n) = mset [0..<len]"
    and "parallel_order perm len (s\<lparr>epoch := n\<rparr>) = Inr (parallel_prompts.epoch_order (perm, len) s n)"
proof -
  have s: "world_size s = 1" "rank s = 0" "step s = 0" "epoch s = 0" "built len s" "total_size s = len"
    using init built_init [OF init] by (auto simp: parallel_init_def Let_def sampler_num_samples_def ceil_div_def)
  then have ok: "parallel_ok (perm, len) s" using len perm by (simp add: parallel_ok_def)
  show "total_size s = len" by fact
  have "sampler_dataloader (sampler_build s k) = \<lparr>dl_sampler = s\<lparr>epoch := 0, step := 0\<rparr>, init_total_samples = 0, local_samples = 0\<rparr>"
    using s(3,4) by (cases s) (simp add: sampler_build_def)
  then show "parallel_prompts.reader_ok (perm, len) s (sampler_build s k)"
    using ok s len by (simp add: parallel_prompts.reader_ok_def sampler_build_def exI [of _ 0])
  note spec = parallel_prompts.epoch_order_spec [OF ok s(1-3), of n]
  then show ord: "parallel_order perm len (s\<lparr>epoch := n\<rparr>) = Inr (parallel_prompts.epoch_order (perm, len) s n)" by simp
  let ?o = "parallel_prompts.epoch_order (perm, len) s n"
  have "mset (if shuffle s then perm n len else [0..<len]) = mset [0..<len]" using perm by (simp add: perm_ok_def)
  moreover from this have "length (if shuffle s then perm n len else [0..<len]) = len" by (metis length_upt minus_nat.diff_0 size_mset)
  ultimately show "mset ?o = mset [0..<len]"
    using ord len s(6) by (auto simp: parallel_order_def fit_to_size_exact split: if_splits)
qed

lemma numbered_concat:
  assumes "0 \<le> k" "list_all2 (numbered k) (map (\<lambda>j. c + int j) [0..<n]) gs"
  shows "concat (map (map rollout_id) gs) = map (\<lambda>j. Some (c * k + int j)) [0..<n * nat k]"
    and "map (map group_id) gs = map (\<lambda>j. replicate (nat k) (Some (c + int j))) [0..<n]"
  using assms(2)
proof (induction n arbitrary: gs)
  case (Suc n)
  { case 1
    then obtain gs' g where gs: "gs = gs' @ [g]" "list_all2 (numbered k) (map (\<lambda>j. c + int j) [0..<n]) gs'"
        "numbered k (c + int n) g"
      by (auto simp: list_all2_append1 list_all2_Cons1)
    have "map (\<lambda>j. Some (c * k + int j)) [n * nat k..<n * nat k + nat k] = map (\<lambda>j. Some ((c + int n) * k + int j)) [0..<nat k]"
      using assms(1) by (auto intro!: nth_equalityI simp: algebra_simps)
    then show ?case using Suc.IH(1) [OF gs(2)] gs(3)
      by (simp add: gs(1) numbered_def upt_add_eq_append [of 0 "n * nat k" "nat k", simplified] add.commute [of "nat k"]) }
  { case 2
    then obtain gs' g where gs: "gs = gs' @ [g]" "list_all2 (numbered k) (map (\<lambda>j. c + int j) [0..<n]) gs'"
        "numbered k (c + int n) g"
      by (auto simp: list_all2_append1 list_all2_Cons1)
    then show ?case using Suc.IH(2) [OF gs(2)] by (simp add: numbered_def) }
qed simp_all

lemma prompt_run:
  assumes "parallel_init len 1 None shuf up = Inr s" and "0 < len" and "perm_ok perm"
  defines "f \<equiv> parallel_prompts.epoch_order (perm, len) s"
  shows "\<exists>gs ds heap'. sample_many det data (parallel_iter perm len) n (sampler_build s k) heap = Inr (gs, ds, heap') \<and>
    parallel_prompts.reader_ok (perm, len) s ds \<and> cur_epoch ds = (n - 1) div len \<and> consumed_samples ds = int n \<and>
    prompt_repeat_k ds = k \<and> init_total_samples (sampler_dataloader ds) = 0 \<and> local_samples (sampler_dataloader ds) = n \<and>
    parallel_prompts.remaining (perm, len) ds = drop n (concat (map f [0..<Suc (cur_epoch ds)])) \<and> length gs = n \<and>
    list_all2 (numbered k) (map (\<lambda>j. 0 + int j) [0..<n]) gs \<and>
    map (map message) gs = map (\<lambda>j. replicate (nat k) (message (data (f (j div len) ! (j mod len))))) [0..<n]"
proof -
  let ?ds0 = "sampler_build s k"
  note built = prompt_sampler_built [OF assms(1-3)]
  have s0: "cur_epoch ?ds0 = 0" "consumed_samples ?ds0 = 0" "prompt_repeat_k ?ds0 = k"
      "init_total_samples (sampler_dataloader ?ds0) = 0" "local_samples (sampler_dataloader ?ds0) = 0"
    by (simp_all add: sampler_build_def)
  have step0: "step s = 0" using built_init [OF assms(1)] by simp
  have rem0: "parallel_prompts.remaining (perm, len) ?ds0 = f 0"
    using step0 by (simp add: parallel_prompts.remaining_def sampler_build_def f_def)
  have T: "length (f e) = len" for e using built(3) [of e] by (metis f_def length_upt minus_nat.diff_0 size_mset)
  obtain gs ds heap' m read where run: "sample_many det data (parallel_iter perm len) n ?ds0 heap = Inr (gs, ds, heap')"
    and ok: "parallel_prompts.reader_ok (perm, len) s ds" and ep: "cur_epoch ds = m" and c: "consumed_samples ds = int n"
      "prompt_repeat_k ds = k" "init_total_samples (sampler_dataloader ds) = 0" "local_samples (sampler_dataloader ds) = n" "length gs = n"
    and num: "list_all2 (numbered k) (map (\<lambda>j. int j) [0..<n]) gs"
    and read: "length read = n" "read @ parallel_prompts.remaining (perm, len) ds = f 0 @ concat (map f [Suc 0..<Suc m])"
      "0 < m \<longrightarrow> length (parallel_prompts.remaining (perm, len) ds) < len"
      "map (map message) gs = map (\<lambda>i. replicate (nat k) (message (data i))) read"
    using parallel_prompts.sample_run [OF built(1) [of k], where det = det and data = data and n = n and heap = heap]
    unfolding s0 rem0 built(2) f_def [symmetric] prod.case add_0_left by (elim exE conjE) (rule that; assumption)
  have all: "read @ parallel_prompts.remaining (perm, len) ds = concat (map f [0..<Suc m])"
    using read(2) by (simp add: upt_conv_Cons del: upt_Suc)
  have "length (concat (map f [0..<m'])) = m' * len" for m' by (induction m') (auto simp: T)
  then have lens: "n + length (parallel_prompts.remaining (perm, len) ds) = Suc m * len"
    using arg_cong [OF all, of length] read(1) by (simp del: upt_Suc)
  have m: "m = (n - 1) div len"
  proof (cases "m = 0")
    case False
    then have "m * len \<le> n - 1" "n - 1 < Suc m * len" using lens read(3) by (auto simp: algebra_simps)
    then show ?thesis by (intro sym [OF div_nat_eqI]) (auto simp: algebra_simps)
  qed (use lens assms(2) in auto)
  have "read ! j = f (j div len) ! (j mod len)" if "j < n" for j
  proof -
    have "read ! j = concat (map f [0..<Suc m]) ! j" using all read(1) that by (metis nth_append)
    then show ?thesis using concat_epochs_nth [of f len j "Suc m"] T lens that by (simp del: upt_Suc)
  qed
  then have "read = map (\<lambda>j. f (j div len) ! (j mod len)) [0..<n]" using read(1) by (intro nth_equalityI) simp_all
  moreover have "parallel_prompts.remaining (perm, len) ds = drop n (concat (map f [0..<Suc m]))"
    using all read(1) by (metis append_eq_conv_conj)
  ultimately show ?thesis using run ok ep c num read(4) m by (auto simp del: upt_Suc)
qed

lemma next_prompt:
  fixes n :: nat
  assumes "\<And>e. length (f e) = len" "0 < len"
  defines "rest \<equiv> drop n (concat (map f [0..<Suc ((n - 1) div len)]))"
  shows "f (n div len) ! (n mod len) = hd (if rest = [] then f (Suc ((n - 1) div len)) else rest)"
proof -
  let ?e = "(n - 1) div len"
  have L: "length (concat (map f [0..<m])) = m * len" for m by (induction m) (auto simp: assms(1))
  show ?thesis
  proof (cases "n < Suc ?e * len")
    case True
    then have "rest \<noteq> []" "hd rest = concat (map f [0..<Suc ?e]) ! n"
      by (auto simp: rest_def L hd_drop_conv_nth simp del: upt_Suc)
    then show ?thesis using concat_epochs_nth [of f len n "Suc ?e", OF assms(1) True] by (simp del: upt_Suc)
  next
    case False
    then have "n - 1 < Suc ?e * len" "0 < n" using dividend_less_div_times [OF assms(2), of "n - 1"] assms(2) by (auto intro: gr0I)
    then have n: "n = Suc ?e * len" using False by linarith
    then have "n div len = Suc ?e" "n mod len = 0" using assms(2) by (metis nonzero_mult_div_cancel_right less_not_refl, metis mod_mult_self2_is_0)
    moreover have "rest = []" using n by (simp add: rest_def L del: upt_Suc)
    moreover have "f (Suc ?e) \<noteq> []" using assms(1) [of "Suc ?e"] assms(2) by auto
    ultimately show ?thesis by (simp add: hd_conv_nth)
  qed
qed

subsection \<open>Properties\<close>

text \<open>C20. Sampling prompts never fails on a nonempty dataset and never gives two rollouts the same id: the first
  \<open>n\<close> groups carry the group ids 0 to \<open>n - 1\<close> and consecutive, pairwise different rollout ids, whatever number
  of epochs they span; and the prompts are those of the epochs in order, every epoch holding every prompt exactly once.\<close>

theorem sampler_numbers_prompts:
  assumes "parallel_init len 1 None shuf up = Inr s" and "0 < len" and "perm_ok perm" and "0 \<le> k"
  shows "\<exists>gs ds heap' ord. sample_many det data (parallel_iter perm len) n (sampler_build s k) heap = Inr (gs, ds, heap') \<and>
    concat (map (map rollout_id) gs) = map (\<lambda>j. Some (int j)) [0..<n * nat k] \<and>
    map (map group_id) gs = map (\<lambda>j. replicate (nat k) (Some (int j))) [0..<n] \<and>
    (\<forall>e. parallel_order perm len (s\<lparr>epoch := e\<rparr>) = Inr (ord e) \<and> mset (ord e) = mset [0..<len]) \<and>
    map (map message) gs = map (\<lambda>j. replicate (nat k) (message (data (ord (j div len) ! (j mod len))))) [0..<n]"
proof -
  obtain gs ds heap' where run: "sample_many det data (parallel_iter perm len) n (sampler_build s k) heap = Inr (gs, ds, heap')"
    and num: "list_all2 (numbered k) (map (\<lambda>j. 0 + int j) [0..<n]) gs"
    and msg: "map (map message) gs = map (\<lambda>j. replicate (nat k)
      (message (data (parallel_prompts.epoch_order (perm, len) s (j div len) ! (j mod len))))) [0..<n]"
    using prompt_run [OF assms(1-3), where det = det and data = data and n = n and heap = heap and k = k] by blast
  show ?thesis
    using run numbered_concat [OF assms(4) num] msg prompt_sampler_built [OF assms(1-3)]
    by (intro exI [of _ gs] exI [of _ ds] exI [of _ heap'] exI [of _ "parallel_prompts.epoch_order (perm, len) s"]) simp
qed

theorem sampler_numbers_prompts_witness:
  "\<exists>gs ds heap'. sample_many True (\<lambda>i. default_state (VInt (int i))) (parallel_iter (\<lambda>e n. rev [0..<n]) 3) 4
     (sampler_build \<lparr>rank = 0, world_size = 1, global_batch_size = 1, epoch = 0, step = 0, shuffle = True, round_up = False,
        num_samples = 3, total_size = 3, group_batch_size = 0, group_size = 0\<rparr> 2) [] = Inr (gs, ds, heap') \<and>
     concat (map (map rollout_id) gs) = map (\<lambda>j. Some (int j)) [0..<8]"
proof -
  let ?s = "\<lparr>rank = 0, world_size = 1, global_batch_size = 1, epoch = 0, step = 0, shuffle = True, round_up = False,
        num_samples = 3, total_size = 3, group_batch_size = 0, group_size = 0\<rparr>"
  have "parallel_init 3 1 None True False = Inr ?s" by (simp add: parallel_init_def sampler_num_samples_def)
  moreover have "perm_ok (\<lambda>e n. rev [0..<n])" by (simp add: perm_ok_def)
  ultimately show ?thesis
    using sampler_numbers_prompts [of 3 True False ?s "\<lambda>e n. rev [0..<n]" 2 True "\<lambda>i. default_state (VInt (int i))" 4 "[]"]
    by auto
qed

text \<open>C21. What a resumed sampler reads, exactly. After \<open>n\<close> groups the uninterrupted sampler continues with prompt
  number \<open>n mod len\<close> of epoch \<open>n div len\<close> and group id \<open>n\<close>. A sampler that resumes from the state saved at that
  moment continues with the same position of the epoch of the last group, and with group id \<open>n mod len\<close>.
  So inside the first epoch it continues exactly; saved at the end of an epoch it repeats that epoch, and after the first
  epoch it hands out group and rollout ids a second time.\<close>

theorem sampler_resume_exact:
  assumes "parallel_init len 1 None shuf up = Inr s" and "0 < len" and "perm_ok perm" and "0 < k"
  shows "\<exists>gs ds heap' st ds' ord g1 g2. sample_many det data (parallel_iter perm len) n (sampler_build s k) heap = Inr (gs, ds, heap') \<and>
    sampler_save ds = Inr st \<and> sampler_resume (Some st) (sampler_build s k) = Inr ds' \<and>
    (\<forall>e. parallel_order perm len (s\<lparr>epoch := e\<rparr>) = Inr (ord e)) \<and>
    rbind (sample_from_dataloader det data (parallel_iter perm len) ds heap') (\<lambda>r. Inr (fst r)) = Inr g1 \<and>
    rbind (sample_from_dataloader det data (parallel_iter perm len) ds' heap') (\<lambda>r. Inr (fst r)) = Inr g2 \<and>
    map message g1 = replicate (nat k) (message (data (ord (n div len) ! (n mod len)))) \<and>
    map group_id g1 = replicate (nat k) (Some (int n)) \<and>
    map message g2 = replicate (nat k) (message (data (ord ((n - 1) div len) ! (n mod len)))) \<and>
    map group_id g2 = replicate (nat k) (Some (int (n mod len)))"
proof -
  define f where "f = parallel_prompts.epoch_order (perm, len) s"
  note built = prompt_sampler_built [OF assms(1-3)]
  have T: "length (f e) = len" for e using built(3) [of e] by (metis f_def length_upt minus_nat.diff_0 size_mset)
  obtain gs ds heap' where run: "sample_many det data (parallel_iter perm len) n (sampler_build s k) heap = Inr (gs, ds, heap')"
    and ok: "parallel_prompts.reader_ok (perm, len) s ds" and ep: "cur_epoch ds = (n - 1) div len"
    and c: "consumed_samples ds = int n" "prompt_repeat_k ds = k" "init_total_samples (sampler_dataloader ds) = 0"
      "local_samples (sampler_dataloader ds) = n"
    and rem: "parallel_prompts.remaining (perm, len) ds = drop n (concat (map f [0..<Suc (cur_epoch ds)]))"
    using prompt_run [OF assms(1-3), where det = det and data = data and n = n and heap = heap and k = k] unfolding f_def by blast
  let ?e = "(n - 1) div len"
  obtain j where j: "dl_sampler (sampler_dataloader ds) = s\<lparr>epoch := ?e, step := j\<rparr>"
    using ok ep by (auto simp: parallel_prompts.reader_ok_def)
  let ?ds' = "(sampler_build s k)\<lparr>sampler_dataloader := \<lparr>dl_sampler = s\<lparr>epoch := ?e, step := n mod len\<rparr>, init_total_samples = n, local_samples = 0\<rparr>,
      dataloader_iter := Some Fresh, consumed_samples := int (n mod len), cur_epoch := ?e\<rparr>"
  obtain st where st: "sampler_save ds = Inr st" "sampler_resume (Some st) (sampler_build s k) = Inr ?ds'"
    using j c built(2) assms(2) by (auto simp: sampler_save_def dl_get_state_dict_def sampler_get_state_dict_def
        reduce_sum_across_dp_group_def sampler_resume_def dl_load_state_dict_def parallel_load_state_dict_def sampler_build_def)
  have ok': "parallel_prompts.reader_ok (perm, len) s ?ds'"
    using built(1) [of k] built(2) assms(2) by (auto simp: parallel_prompts.reader_ok_def intro!: exI [of _ "n mod len"])
  have "parallel_prompts.remaining (perm, len) ?ds' = drop (n mod len) (f ?e)"
    by (simp add: parallel_prompts.remaining_def f_def parallel_prompts.epoch_order_local)
  then have hd': "f ?e ! (n mod len) = hd (if parallel_prompts.remaining (perm, len) ?ds' = [] then f (Suc (cur_epoch ?ds'))
      else parallel_prompts.remaining (perm, len) ?ds')"
    using T mod_less_divisor [OF assms(2), of n] by (simp add: hd_drop_conv_nth)
  have hd: "f (n div len) ! (n mod len) = hd (if parallel_prompts.remaining (perm, len) ds = [] then f (Suc (cur_epoch ds))
      else parallel_prompts.remaining (perm, len) ds)"
    using next_prompt [of f len n, OF T assms(2)] unfolding rem ep by simp
  obtain g1 r1 where "sample_from_dataloader det data (parallel_iter perm len) ds heap' = Inr (g1, r1)"
      "map message g1 = replicate (nat k) (message (data (f (n div len) ! (n mod len))))"
      "map group_id g1 = replicate (nat k) (Some (int n))"
    using parallel_prompts.sample_first [OF ok hd [unfolded f_def], of det data heap'] c by (auto simp: f_def)
  moreover obtain g2 r2 where "sample_from_dataloader det data (parallel_iter perm len) ?ds' heap' = Inr (g2, r2)"
      "map message g2 = replicate (nat k) (message (data (f ?e ! (n mod len))))"
      "map group_id g2 = replicate (nat k) (Some (int (n mod len)))"
    using parallel_prompts.sample_first [OF ok' hd' [unfolded f_def], of det data heap'] by (auto simp: f_def sampler_build_def)
  ultimately show ?thesis
    using run st built(4)
    by (intro exI [of _ gs] exI [of _ ds] exI [of _ heap'] exI [of _ st] exI [of _ ?ds'] exI [of _ f] exI [of _ g1] exI [of _ g2])
       (simp add: f_def)
qed

text \<open>Two prompts, saved after one epoch: the next prompt is that of the next epoch, the resumed sampler starts the epoch again,
  with group id 0.\<close>

theorem sampler_resume_exact_witness:
  "\<exists>gs ds heap' st ds' g2. sample_many True (\<lambda>i. default_state (VInt (int i))) (parallel_iter (\<lambda>e n. if even e then [0..<n] else rev [0..<n]) 2) 2
     (sampler_build \<lparr>rank = 0, world_size = 1, global_batch_size = 1, epoch = 0, step = 0, shuffle = True, round_up = False,
        num_samples = 2, total_size = 2, group_batch_size = 0, group_size = 0\<rparr> 1) [] = Inr (gs, ds, heap') \<and>
     sampler_save ds = Inr st \<and>
     sampler_resume (Some st) (sampler_build \<lparr>rank = 0, world_size = 1, global_batch_size = 1, epoch = 0, step = 0, shuffle = True,
        round_up = False, num_samples = 2, total_size = 2, group_batch_size = 0, group_size = 0\<rparr> 1) = Inr ds' \<and>
     rbind (sample_from_dataloader True (\<lambda>i. default_state (VInt (int i))) (parallel_iter (\<lambda>e n. if even e then [0..<n] else rev [0..<n]) 2)
       ds' heap') (\<lambda>r. Inr (fst r)) = Inr g2 \<and>
     map message g2 = [VInt 0] \<and> map group_id g2 = [Some 0]"
proof -
  let ?s = "\<lparr>rank = 0, world_size = 1, global_batch_size = 1, epoch = 0, step = 0, shuffle = True, round_up = False,
        num_samples = 2, total_size = 2, group_batch_size = 0, group_size = 0\<rparr>"
  let ?perm = "\<lambda>e n. if even e then [0..<n] else rev [0..<n]"
  have init: "parallel_init 2 1 None True False = Inr ?s" by (simp add: parallel_init_def sampler_num_samples_def)
  have perm: "perm_ok ?perm" by (simp add: perm_ok_def)
  have pos: "0 < (2::nat)" "0 < (1::int)" by simp_all
  obtain gs ds heap' st ds' ord g1 g2 where r:
    "sample_many True (\<lambda>i. default_state (VInt (int i))) (parallel_iter ?perm 2) 2 (sampler_build ?s 1) [] = Inr (gs, ds, heap')"
    "sampler_save ds = Inr st" "sampler_resume (Some st) (sampler_build ?s 1) = Inr ds'"
    "\<forall>e. parallel_order ?perm 2 (?s\<lparr>epoch := e\<rparr>) = Inr (ord e)"
    "rbind (sample_from_dataloader True (\<lambda>i. default_state (VInt (int i))) (parallel_iter ?perm 2) ds heap') (\<lambda>r. Inr (fst r)) = Inr g1"
    "rbind (sample_from_dataloader True (\<lambda>i. default_state (VInt (int i))) (parallel_iter ?perm 2) ds' heap') (\<lambda>r. Inr (fst r)) = Inr g2"
    "map message g2 = replicate (nat 1) (message (default_state (VInt (int (ord ((2 - 1) div 2) ! (2 mod 2))))))"
    "map group_id g2 = replicate (nat 1) (Some (int (2 mod 2)))"
    using sampler_resume_exact [OF init pos(1) perm pos(2), of True "\<lambda>i. default_state (VInt (int i))" 2 "[]"] by blast
  have "parallel_order ?perm 2 (?s\<lparr>epoch := 0\<rparr>) = Inr [0, 1]"
    by (simp add: parallel_order_def fit_to_size_def upt_rec)
  then have "ord 0 = [0, 1]" using r(4) by (metis sum.inject(2))
  then have "map message g2 = [VInt 0] \<and> map group_id g2 = [Some 0]" using r(7,8) by (simp add: default_state_def)
  then show ?thesis by (intro exI conjI) (rule r(1), rule r(2), rule r(3), rule r(6), simp_all)
qed

end
