(* ===== verification/Progress.thy ===== *)
theory Progress
  imports ReplayBuffer
begin

text \<open>
  The production counters: \<open>ProduceProgress\<close> of \<^verbatim>\<open>rl/agent_loop_manager/producer.py\<close> (one colocated window) and
  \<open>DisaggProduceProgress\<close> of \<^verbatim>\<open>disagg_producer.py\<close> (absolute progress shared by the background producer and the
  trainer), with the checkpoint of the latter.

  Dictionaries are association lists in insertion order. The two classes repeat the same methods; a method is one
  function here, on the fields they share. A method that raises returns only the exception.
\<close>

subsection \<open>Dictionaries of counters\<close>

text \<open>\<open>d[k] += x\<close>, \<open>d[k]\<close> followed by \<open>d[k] = 0\<close>, and \<open>{k: 0 for k in names}\<close>.\<close>

definition dict_incr :: "(string \<times> 'a::plus) list \<Rightarrow> string \<Rightarrow> 'a \<Rightarrow> (string \<times> 'a) list res" where
  "dict_incr d k x = (case map_of d k of None \<Rightarrow> Inl KeyError | Some v \<Rightarrow> Inr (AList.update k (v + x) d))"

definition dict_read :: "(string \<times> 'a) list \<Rightarrow> string \<Rightarrow> 'a res" where
  "dict_read d k = (case map_of d k of None \<Rightarrow> Inl KeyError | Some v \<Rightarrow> Inr v)"

definition dict_const :: "string list \<Rightarrow> 'a \<Rightarrow> (string \<times> 'a) list" where
  "dict_const names x = fold (\<lambda>n. AList.update n x) names []"

subsection \<open>The counters\<close>

record ProduceProgress =
  target_samples :: "(string \<times> int) list"
  raw_rewards_sum :: "(string \<times> pyfloat) list"
  raw_rewards_count :: "(string \<times> int) list"
  produced_samples :: "(string \<times> int) list"
  produced_tokens :: "(string \<times> int) list"
  failed_samples :: "(string \<times> int) list"
  filtered_samples :: "(string \<times> int) list"
  produce_time_s :: pyfloat

record DisaggProduceProgress = ProduceProgress +
  progress_task_names :: "string list"
  producer_future_step :: int
  next_consumer_step :: int
  target_upto_future_step :: int
  consumed_by_task :: "(string \<times> int) list"

definition progress_build :: "string list \<Rightarrow> (string \<times> int) list \<Rightarrow> ProduceProgress" where
  "progress_build task_names target = \<lparr>target_samples = target, raw_rewards_sum = dict_const task_names 0,
     raw_rewards_count = dict_const task_names 0, produced_samples = dict_const task_names 0,
     produced_tokens = dict_const task_names 0, failed_samples = dict_const task_names 0,
     filtered_samples = dict_const task_names 0, produce_time_s = 0\<rparr>"

definition disagg_build :: "string list \<Rightarrow> DisaggProduceProgress" where
  "disagg_build task_names = \<lparr>target_samples = dict_const task_names 0, raw_rewards_sum = dict_const task_names 0,
     raw_rewards_count = dict_const task_names 0, produced_samples = dict_const task_names 0,
     produced_tokens = dict_const task_names 0, failed_samples = dict_const task_names 0,
     filtered_samples = dict_const task_names 0, produce_time_s = 0, progress_task_names = task_names,
     producer_future_step = 1, next_consumer_step = 1, target_upto_future_step = 0,
     consumed_by_task = dict_const task_names 0\<rparr>"

definition add_raw_rewards :: "string \<Rightarrow> pyfloat \<Rightarrow> int \<Rightarrow> 'a ProduceProgress_scheme \<Rightarrow> 'a ProduceProgress_scheme res" where
  "add_raw_rewards task rewards_sum rewards_count p =
     rbind (dict_incr (raw_rewards_sum p) task rewards_sum) (\<lambda>rs.
     rbind (dict_incr (raw_rewards_count p) task rewards_count) (\<lambda>rc.
       Inr (p\<lparr>raw_rewards_sum := rs, raw_rewards_count := rc\<rparr>)))"

definition add_produced :: "string \<Rightarrow> int \<Rightarrow> int \<Rightarrow> 'a ProduceProgress_scheme \<Rightarrow> 'a ProduceProgress_scheme res" where
  "add_produced task samples tokens p =
     rbind (dict_incr (produced_samples p) task samples) (\<lambda>ps.
     rbind (dict_incr (produced_tokens p) task tokens) (\<lambda>pt.
       Inr (p\<lparr>produced_samples := ps, produced_tokens := pt\<rparr>)))"

definition add_discarded :: "string \<Rightarrow> Status \<Rightarrow> int \<Rightarrow> 'a ProduceProgress_scheme \<Rightarrow> 'a ProduceProgress_scheme res" where
  "add_discarded task st samples p =
     (if st = FAILED then rbind (dict_incr (failed_samples p) task samples) (\<lambda>d. Inr (p\<lparr>failed_samples := d\<rparr>))
      else if st = FILTERED then rbind (dict_incr (filtered_samples p) task samples) (\<lambda>d. Inr (p\<lparr>filtered_samples := d\<rparr>))
      else Inl ValueError)"

definition add_produce_time :: "pyfloat \<Rightarrow> 'a ProduceProgress_scheme \<Rightarrow> 'a ProduceProgress_scheme" where
  "add_produce_time elapsed p = p\<lparr>produce_time_s := produce_time_s p + elapsed\<rparr>"

definition consume_produced :: "string \<Rightarrow> 'a ProduceProgress_scheme \<Rightarrow> ((int \<times> int) \<times> 'a ProduceProgress_scheme) res" where
  "consume_produced task p =
     rbind (dict_read (produced_samples p) task) (\<lambda>s. rbind (dict_read (produced_tokens p) task) (\<lambda>t.
       Inr ((s, t), p\<lparr>produced_samples := AList.update task 0 (produced_samples p),
                      produced_tokens := AList.update task 0 (produced_tokens p)\<rparr>)))"

definition consume_produce_time :: "'a ProduceProgress_scheme \<Rightarrow> pyfloat \<times> 'a ProduceProgress_scheme" where
  "consume_produce_time p = (produce_time_s p, p\<lparr>produce_time_s := 0\<rparr>)"

definition consume_discarded :: "string \<Rightarrow> 'a ProduceProgress_scheme \<Rightarrow> ((int \<times> int) \<times> 'a ProduceProgress_scheme) res" where
  "consume_discarded task p =
     rbind (dict_read (failed_samples p) task) (\<lambda>a. rbind (dict_read (filtered_samples p) task) (\<lambda>b.
       Inr ((a, b), p\<lparr>failed_samples := AList.update task 0 (failed_samples p),
                      filtered_samples := AList.update task 0 (filtered_samples p)\<rparr>)))"

definition consume_raw_rewards :: "string \<Rightarrow> 'a ProduceProgress_scheme \<Rightarrow> ((pyfloat \<times> int) \<times> 'a ProduceProgress_scheme) res" where
  "consume_raw_rewards task p =
     rbind (dict_read (raw_rewards_sum p) task) (\<lambda>a. rbind (dict_read (raw_rewards_count p) task) (\<lambda>b.
       Inr ((a, b), p\<lparr>raw_rewards_sum := AList.update task 0 (raw_rewards_sum p),
                      raw_rewards_count := AList.update task 0 (raw_rewards_count p)\<rparr>)))"

subsection \<open>Absolute progress\<close>

fun add_counts :: "(string \<times> int) list \<Rightarrow> (string \<times> int) list \<Rightarrow> (string \<times> int) list res" where
  "add_counts [] d = Inr d"
| "add_counts ((k, n) # ns) d = rbind (dict_incr d k n) (add_counts ns)"

fun target_loop :: "(int \<Rightarrow> int \<Rightarrow> (string \<times> int) list res) \<Rightarrow> int \<Rightarrow> int list \<Rightarrow> (string \<times> int) list option \<Rightarrow>
    (string \<times> int) list \<Rightarrow> ((string \<times> int) list option \<times> (string \<times> int) list) res" where
  "target_loop allocate batch_size [] current targets = Inr (current, targets)"
| "target_loop allocate batch_size (st # sts) current targets =
     rbind (allocate batch_size st) (\<lambda>sizes. rbind (add_counts sizes targets) (target_loop allocate batch_size sts (Some sizes)))"

definition ensure_target_upto ::
  "int \<Rightarrow> int \<Rightarrow> (int \<Rightarrow> int \<Rightarrow> (string \<times> int) list res) \<Rightarrow> DisaggProduceProgress \<Rightarrow> ((string \<times> int) list \<times> DisaggProduceProgress) res" where
  "ensure_target_upto batch_size future_step allocate p =
     rbind (if target_upto_future_step p < future_step
            then rbind (target_loop allocate batch_size [target_upto_future_step p + 1..future_step] None (target_samples p)) (\<lambda>(cur, targets).
                   Inr (cur, p\<lparr>target_samples := targets, target_upto_future_step := future_step\<rparr>))
            else Inr (None, p)) (\<lambda>(cur, p').
       case cur of
         None \<Rightarrow> rbind (allocate batch_size future_step) (\<lambda>sizes. Inr (sizes, p'))
       | Some sizes \<Rightarrow> Inr (sizes, p'))"

definition begin_consume :: "int \<Rightarrow> DisaggProduceProgress \<Rightarrow> DisaggProduceProgress" where
  "begin_consume train_step p = p\<lparr>next_consumer_step := train_step\<rparr>"

definition mark_consumed :: "(string \<times> int) list \<Rightarrow> DisaggProduceProgress \<Rightarrow> DisaggProduceProgress res" where
  "mark_consumed counts p = rbind (add_counts counts (consumed_by_task p)) (\<lambda>d. Inr (p\<lparr>consumed_by_task := d\<rparr>))"

definition finish_consume :: "int \<Rightarrow> DisaggProduceProgress \<Rightarrow> DisaggProduceProgress" where
  "finish_consume train_step p = p\<lparr>next_consumer_step := train_step + 1\<rparr>"

definition advance_future_step :: "DisaggProduceProgress \<Rightarrow> DisaggProduceProgress" where
  "advance_future_step p = p\<lparr>producer_future_step := producer_future_step p + 1\<rparr>"

subsection \<open>Checkpoints\<close>

text \<open>The saved dictionary; entries that \<open>load_state_dict\<close> reads with a default may be missing.\<close>

record progress_state =
  ps_producer_future_step :: int
  ps_next_consumer_step :: int
  ps_target_upto_future_step :: int
  ps_consumed_samples :: "(string \<times> int) list"
  ps_target_samples :: "(string \<times> int) list"
  ps_raw_rewards_sum :: "(string \<times> pyfloat) list option"
  ps_raw_rewards_count :: "(string \<times> int) list option"
  ps_produced_samples :: "(string \<times> int) list option"
  ps_produced_tokens :: "(string \<times> int) list option"
  ps_failed_samples :: "(string \<times> int) list option"
  ps_filtered_samples :: "(string \<times> int) list option"
  ps_produce_time_s :: "pyfloat option"

definition progress_state_dict :: "DisaggProduceProgress \<Rightarrow> progress_state" where
  "progress_state_dict p = \<lparr>ps_producer_future_step = producer_future_step p, ps_next_consumer_step = next_consumer_step p,
     ps_target_upto_future_step = target_upto_future_step p, ps_consumed_samples = consumed_by_task p,
     ps_target_samples = target_samples p, ps_raw_rewards_sum = Some (raw_rewards_sum p),
     ps_raw_rewards_count = Some (raw_rewards_count p), ps_produced_samples = Some (produced_samples p),
     ps_produced_tokens = Some (produced_tokens p), ps_failed_samples = Some (failed_samples p),
     ps_filtered_samples = Some (filtered_samples p), ps_produce_time_s = Some (produce_time_s p)\<rparr>"

text \<open>\<open>{task_name: d.get(task_name, 0) for task_name in task_names}\<close>.\<close>

definition dict_restrict :: "string list \<Rightarrow> (string \<times> 'a::zero) list option \<Rightarrow> (string \<times> 'a) list" where
  "dict_restrict names d = map (\<lambda>n. (n, case map_of (or_nil d) n of None \<Rightarrow> 0 | Some v \<Rightarrow> v)) names"

text \<open>The union of the two key sets is listed in order of first occurrence; the order of a Python set is arbitrary.\<close>

definition progress_load_state_dict :: "progress_state \<Rightarrow> DisaggProduceProgress \<Rightarrow> DisaggProduceProgress" where
  "progress_load_state_dict st p =
     (let task_names = dedup [] (map fst (ps_consumed_samples st) @ map fst (ps_target_samples st)) in
      p\<lparr>producer_future_step := ps_producer_future_step st, next_consumer_step := ps_next_consumer_step st,
        target_upto_future_step := ps_target_upto_future_step st, consumed_by_task := ps_consumed_samples st,
        target_samples := ps_target_samples st,
        raw_rewards_sum := dict_restrict task_names (ps_raw_rewards_sum st),
        raw_rewards_count := dict_restrict task_names (ps_raw_rewards_count st),
        produced_samples := dict_restrict task_names (ps_produced_samples st),
        produced_tokens := dict_restrict task_names (ps_produced_tokens st),
        failed_samples := dict_restrict task_names (ps_failed_samples st),
        filtered_samples := dict_restrict task_names (ps_filtered_samples st),
        produce_time_s := (case ps_produce_time_s st of None \<Rightarrow> 0 | Some x \<Rightarrow> x)\<rparr>)"

text \<open>\<open>DisaggAgentLoopManager._progress_state_without_replay_buffer\<close>.\<close>

definition progress_state_without_replay_buffer :: "progress_state \<Rightarrow> progress_state" where
  "progress_state_without_replay_buffer st =
     (let task_names = map fst (ps_consumed_samples st);
          step = ps_next_consumer_step st
      in st\<lparr>ps_producer_future_step := step, ps_target_samples := ps_consumed_samples st,
            ps_target_upto_future_step := max 0 (step - 1),
            ps_raw_rewards_sum := Some (dict_const task_names 0), ps_raw_rewards_count := Some (dict_const task_names 0),
            ps_produced_samples := Some (dict_const task_names 0), ps_produced_tokens := Some (dict_const task_names 0),
            ps_produce_time_s := Some 0\<rparr>)"

subsection \<open>Lemmas: dictionaries over a fixed list of tasks\<close>

text \<open>The dictionary that maps every task of the list to its value under \<open>f\<close>.\<close>

definition tab :: "string list \<Rightarrow> (string \<Rightarrow> 'a) \<Rightarrow> (string \<times> 'a) list" where
  "tab names f = map (\<lambda>n. (n, f n)) names"

lemma tab_keys [simp]: "map fst (tab names f) = names"
  by (simp add: tab_def comp_def)

lemma map_of_tab: "map_of (tab names f) k = (if k \<in> set names then Some (f k) else None)"
  by (simp add: tab_def map_of_map_restrict restrict_map_def comp_def)

lemma tab_cong: "(\<And>k. k \<in> set names \<Longrightarrow> f k = g k) \<Longrightarrow> tab names f = tab names g"
  by (simp add: tab_def)

lemma map_of_nth: "distinct (map fst d) \<Longrightarrow> i < length d \<Longrightarrow> map_of d (fst (d ! i)) = Some (snd (d ! i))"
  by (simp add: map_of_is_SomeI)

lemma tab_eq: "distinct names \<Longrightarrow> map fst d = names \<Longrightarrow> d = tab names (\<lambda>k. the (map_of d k))"
  by (rule nth_equalityI) (auto simp: tab_def map_of_nth intro!: prod_eqI)

lemma update_tab: "distinct names \<Longrightarrow> k \<in> set names \<Longrightarrow> AList.update k v (tab names f) = tab names (f(k := v))"
proof (induction names)
  case (Cons n names)
  then show ?case by (auto simp: tab_def)
qed simp

lemma dict_incr_tab: "distinct names \<Longrightarrow> k \<in> set names \<Longrightarrow> dict_incr (tab names f) k x = Inr (tab names (f(k := f k + x)))"
  by (simp add: dict_incr_def map_of_tab update_tab)

lemma dict_read_tab: "k \<in> set names \<Longrightarrow> dict_read (tab names f) k = Inr (f k)"
  by (simp add: dict_read_def map_of_tab)

lemma add_counts_tab:
  "distinct names \<Longrightarrow> distinct ns \<Longrightarrow> set ns \<subseteq> set names \<Longrightarrow>
     add_counts (tab ns g) (tab names f) = Inr (tab names (\<lambda>k. f k + (if k \<in> set ns then g k else 0)))"
proof (induction ns arbitrary: f)
  case (Cons n ns)
  have "add_counts (tab ns g) (tab names (f(n := f n + g n))) =
      Inr (tab names (\<lambda>k. (f(n := f n + g n)) k + (if k \<in> set ns then g k else 0)))"
    by (rule Cons.IH) (use Cons.prems in auto)
  moreover have "(\<lambda>k. (f(n := f n + g n)) k + (if k \<in> set ns then g k else 0)) = (\<lambda>k. f k + (if k \<in> set (n # ns) then g k else 0))"
    using Cons.prems by (auto simp: fun_eq_iff)
  ultimately show ?case
    using Cons.prems by (simp add: tab_def [of "n # ns"] dict_incr_tab) (simp add: tab_def)
qed (simp add: tab_def)

lemma dict_const_tab: "distinct names \<Longrightarrow> dict_const names x = tab names (\<lambda>_. x)"
proof -
  have "fold (\<lambda>n. AList.update n x) ns d = d @ tab ns (\<lambda>_. x)" if "distinct ns" "set ns \<inter> set (map fst d) = {}" for ns and d :: "(string \<times> 'a) list"
    using that by (induction ns arbitrary: d) (auto simp: tab_def update_new)
  from this [of names "[]"] show "distinct names \<Longrightarrow> ?thesis" by (simp add: dict_const_def)
qed

lemma dict_restrict_tab: "dict_restrict names (Some (tab names f)) = tab names f"
  by (simp add: dict_restrict_def map_of_tab) (simp add: tab_def)

lemma dict_restrict_id: "distinct names \<Longrightarrow> map fst d = names \<Longrightarrow> dict_restrict names (Some d) = d"
  using tab_eq dict_restrict_tab by metis

lemma dedup_twice: "distinct names \<Longrightarrow> dedup [] (names @ names) = names"
proof -
  have "dedup seen (xs @ ys) = dedup seen xs @ dedup (rev xs @ seen) ys" if "distinct xs" "set xs \<inter> set seen = {}" for seen xs and ys :: "'a list"
    using that by (induction xs arbitrary: seen) auto
  moreover have "dedup seen ys = []" if "set ys \<subseteq> set seen" for seen ys :: "'a list"
    using that by (induction ys) auto
  ultimately show "distinct names \<Longrightarrow> ?thesis" by (simp add: dedup_id)
qed

subsection \<open>Lemmas: the shape of the counters\<close>

definition counters_ok :: "string list \<Rightarrow> 'a ProduceProgress_scheme \<Rightarrow> bool" where
  "counters_ok names p \<longleftrightarrow> distinct names \<and> map fst (raw_rewards_sum p) = names \<and> map fst (raw_rewards_count p) = names \<and>
     map fst (produced_samples p) = names \<and> map fst (produced_tokens p) = names \<and> map fst (failed_samples p) = names \<and>
     map fst (filtered_samples p) = names"

definition progress_ok :: "string list \<Rightarrow> DisaggProduceProgress \<Rightarrow> bool" where
  "progress_ok names p \<longleftrightarrow> counters_ok names p \<and> map fst (target_samples p) = names \<and> map fst (consumed_by_task p) = names"

lemma disagg_build_ok: "distinct names \<Longrightarrow> progress_ok names (disagg_build names)"
  by (simp add: progress_ok_def counters_ok_def disagg_build_def dict_const_tab)

lemma progress_build_ok: "distinct names \<Longrightarrow> counters_ok names (progress_build names target)"
  by (simp add: counters_ok_def progress_build_def dict_const_tab)

lemma dict_incr_keys: "k \<in> fst ` set d \<Longrightarrow> \<exists>d'. dict_incr d k x = Inr d' \<and> map fst d' = map fst d"
  by (auto simp: dict_incr_def update_keys split: option.splits simp: map_of_eq_None_iff)

lemma update_keys_in: "k \<in> fst ` set d \<Longrightarrow> map fst (AList.update k v d) = map fst d"
  by (auto simp: update_keys)

text \<open>Loading a saved state restores every counter.\<close>

lemma progress_roundtrip:
  assumes "progress_ok names p"
  shows "progress_load_state_dict (progress_state_dict p) q = p\<lparr>progress_task_names := progress_task_names q\<rparr>"
proof -
  have "distinct names" using assms by (simp add: progress_ok_def counters_ok_def)
  show ?thesis
    using assms \<open>distinct names\<close> by (cases p; cases q)
      (simp add: progress_load_state_dict_def progress_state_dict_def progress_ok_def counters_ok_def dict_restrict_id dedup_twice Let_def)
qed

text \<open>When every step gets the same sizes, the targets are those sizes times the number of the last planned step.\<close>

definition targets_linear :: "(string \<times> int) list \<Rightarrow> DisaggProduceProgress \<Rightarrow> bool" where
  "targets_linear sizes p \<longleftrightarrow> target_samples p = map (\<lambda>(k, n). (k, target_upto_future_step p * n)) sizes"

lemma map_scaled_tab: "distinct (map fst sizes) \<Longrightarrow> map (\<lambda>(k, n). (k, c * n)) sizes = tab (map fst sizes) (\<lambda>k. c * the (map_of sizes k))"
  by (rule nth_equalityI) (auto simp: tab_def case_prod_beta map_of_nth)

lemma target_loop_static:
  "distinct names \<Longrightarrow> map fst sizes = names \<Longrightarrow> (\<And>st. st \<in> set sts \<Longrightarrow> allocate bs st = Inr sizes) \<Longrightarrow>
     target_loop allocate bs sts cur (tab names f) =
       Inr (if sts = [] then cur else Some sizes, tab names (\<lambda>k. f k + int (length sts) * the (map_of sizes k)))"
proof (induction sts arbitrary: cur f)
  case (Cons st sts)
  let ?g = "\<lambda>k. the (map_of sizes k)"
  have "add_counts sizes (tab names f) = Inr (tab names (\<lambda>k. f k + ?g k))"
    using add_counts_tab [of names names ?g f] tab_eq [OF Cons.prems(1,2)] Cons.prems(1) by (auto intro: tab_cong)
  moreover have "target_loop allocate bs sts (Some sizes) (tab names (\<lambda>k. f k + ?g k)) =
      Inr (Some sizes, tab names (\<lambda>k. f k + ?g k + int (length sts) * ?g k))"
    using Cons.IH [of "Some sizes" "\<lambda>k. f k + ?g k"] Cons.prems by simp
  ultimately show ?case using Cons.prems(3) [of st] by (simp add: algebra_simps)
qed (auto intro: tab_cong)

lemma ensure_target_static:
  assumes lin: "targets_linear sizes p" and dist: "distinct (map fst sizes)"
    and static: "\<And>st. allocate bs st = Inr sizes"
  shows "ensure_target_upto bs f allocate p =
    Inr (sizes, p\<lparr>target_samples := map (\<lambda>(k, n). (k, max (target_upto_future_step p) f * n)) sizes,
      target_upto_future_step := max (target_upto_future_step p) f\<rparr>)"
proof (cases "target_upto_future_step p < f")
  case True
  let ?u = "target_upto_future_step p" and ?g = "\<lambda>k. the (map_of sizes k)"
  have "target_loop allocate bs [?u + 1..f] None (target_samples p) =
      Inr (Some sizes, tab (map fst sizes) (\<lambda>k. ?u * ?g k + int (nat (f - ?u)) * ?g k))"
    using target_loop_static [OF dist refl, where allocate = allocate and bs = bs and sts = "[?u + 1..f]" and cur = None and f = "\<lambda>k. ?u * ?g k"] static lin True
    by (simp add: targets_linear_def map_scaled_tab [OF dist])
  then have "target_loop allocate bs [?u + 1..f] None (target_samples p) = Inr (Some sizes, map (\<lambda>(k, n). (k, f * n)) sizes)"
    using True by (simp add: map_scaled_tab [OF dist] distrib_right [symmetric])
  then show ?thesis using True by (simp add: ensure_target_upto_def max_def)
next
  case False
  then show ?thesis using lin static by (cases p) (simp add: ensure_target_upto_def targets_linear_def max_def)
qed

subsection \<open>Properties\<close>

text \<open>C22. Checkpoints of the background progress. A state saved and loaded again restores every counter. A state saved
  without the replay buffer plans nothing beyond what was consumed: when every consumed step took the sizes \<open>sizes\<close>,
  the restored producer starts at the next unconsumed step with the targets of the consumed steps, all reward and
  production counters are zero, and planning up to any later step adds exactly the sizes of the steps in between; the
  counts of failed and filtered samples are kept although their window is gone.\<close>

theorem progress_checkpoint:
  assumes ok: "progress_ok (map fst sizes) p" and static: "\<And>st. allocate bs st = Inr sizes"
    and consumed: "consumed_by_task p = map (\<lambda>(k, n). (k, (next_consumer_step p - 1) * n)) sizes" and t: "1 \<le> next_consumer_step p"
  defines "q \<equiv> progress_load_state_dict (progress_state_without_replay_buffer (progress_state_dict p)) (disagg_build (map fst sizes))"
  shows "progress_load_state_dict (progress_state_dict p) (disagg_build (map fst sizes)) = p\<lparr>progress_task_names := map fst sizes\<rparr> \<and>
    progress_ok (map fst sizes) q \<and> producer_future_step q = next_consumer_step p \<and> consumed_by_task q = consumed_by_task p \<and>
    target_samples q = consumed_by_task p \<and> produced_samples q = dict_const (map fst sizes) 0 \<and> raw_rewards_count q = dict_const (map fst sizes) 0 \<and>
    failed_samples q = failed_samples p \<and> filtered_samples q = filtered_samples p \<and>
    (\<exists>q'. ensure_target_upto bs (producer_future_step q + int n) allocate q = Inr (sizes, q') \<and>
       target_samples q' = map (\<lambda>(k, m). (k, (next_consumer_step p + int n) * m)) sizes)"
proof -
  have dist: "distinct (map fst sizes)" using ok by (simp add: progress_ok_def counters_ok_def)
  have q: "q = \<lparr>target_samples = consumed_by_task p, raw_rewards_sum = dict_const (map fst sizes) 0,
     raw_rewards_count = dict_const (map fst sizes) 0, produced_samples = dict_const (map fst sizes) 0,
     produced_tokens = dict_const (map fst sizes) 0, failed_samples = failed_samples p, filtered_samples = filtered_samples p,
     produce_time_s = 0, progress_task_names = map fst sizes, producer_future_step = next_consumer_step p,
     next_consumer_step = next_consumer_step p, target_upto_future_step = next_consumer_step p - 1, consumed_by_task = consumed_by_task p\<rparr>"
    using ok dist t unfolding q_def by (simp add: progress_load_state_dict_def progress_state_without_replay_buffer_def progress_state_dict_def
        progress_ok_def counters_ok_def dict_restrict_id dedup_twice dict_const_tab disagg_build_def Let_def)
  have "targets_linear sizes q" by (simp add: targets_linear_def q consumed)
  from ensure_target_static [OF this dist, where f = "producer_future_step q + int n" and allocate = allocate and bs = bs] static
  obtain q' where q': "ensure_target_upto bs (producer_future_step q + int n) allocate q = Inr (sizes, q')"
    "target_samples q' = map (\<lambda>(k, m). (k, (next_consumer_step p + int n) * m)) sizes"
    by (simp add: q max_def)
  moreover have "progress_ok (map fst sizes) q" using ok dist by (simp add: q progress_ok_def counters_ok_def dict_const_tab)
  ultimately show ?thesis using q' progress_roundtrip [OF ok] by (auto simp: q disagg_build_def)
qed

theorem progress_checkpoint_witness:
  "\<exists>q'. ensure_target_upto 8 4 (\<lambda>bs st. Inr [(''a'', 5), (''b'', 3)])
     (progress_load_state_dict (progress_state_without_replay_buffer (progress_state_dict
       ((disagg_build [''a'', ''b''])\<lparr>next_consumer_step := 3, consumed_by_task := [(''a'', 10), (''b'', 6)],
          failed_samples := [(''a'', 2), (''b'', 0)]\<rparr>))) (disagg_build [''a'', ''b''])) = Inr ([(''a'', 5), (''b'', 3)], q') \<and>
   target_samples q' = [(''a'', 20), (''b'', 12)]"
proof -
  let ?p = "(disagg_build [''a'', ''b''])\<lparr>next_consumer_step := 3, consumed_by_task := [(''a'', 10), (''b'', 6)],
      failed_samples := [(''a'', 2), (''b'', 0)]\<rparr>"
  let ?sizes = "[(''a'', 5), (''b'', 3 :: int)]"
  let ?q = "progress_load_state_dict (progress_state_without_replay_buffer (progress_state_dict ?p)) (disagg_build (map fst ?sizes))"
  have ok: "progress_ok (map fst ?sizes) ?p" by (simp add: progress_ok_def counters_ok_def disagg_build_def dict_const_def)
  have c: "consumed_by_task ?p = map (\<lambda>(k, n). (k, (next_consumer_step ?p - 1) * n)) ?sizes" "1 \<le> next_consumer_step ?p"
    by simp_all
  note r = progress_checkpoint [where allocate = "\<lambda>bs st. Inr ?sizes" and bs = 8 and n = 1, OF ok refl c]
  from r have "producer_future_step ?q = next_consumer_step ?p" by blast
  moreover from r obtain q' where "ensure_target_upto 8 (producer_future_step ?q + int 1) (\<lambda>bs st. Inr ?sizes) ?q = Inr (?sizes, q')"
    "target_samples q' = map (\<lambda>(k, m). (k, (next_consumer_step ?p + int 1) * m)) ?sizes" by blast
  ultimately show ?thesis by simp
qed

end
