(* ===== verification/ProduceUtils.thy ===== *)
theory ProduceUtils
  imports RLSampler Progress
begin

text \<open>
  The helpers shared by the producers, \<^verbatim>\<open>rl/agent_loop_manager/produce_utils.py\<close>: the task runners and their thresholds,
  putting a generated group into the buffer, the split of a batch over the tasks, taking a training batch with
  its token-staleness masks, and the statistics of a batch.

  The agent loop is an argument; wall-clock times are arguments too. Weights are rationals, so the split is exact.
  Logging and the progress bar are not modelled.
\<close>

subsection \<open>Task runners\<close>

datatype ProduceBatchStatus = PB_NORMAL | PB_UPDATE_WEIGHT_AND_ABORT | PB_EXPIRED_BATCH

definition default_should_continue_fn :: "int \<Rightarrow> int \<Rightarrow> bool" where
  "default_should_continue_fn completed_count batch_size \<longleftrightarrow> completed_count < batch_size"

definition calculate_stale_threshold :: "int \<Rightarrow> int \<Rightarrow> int" where
  "calculate_stale_threshold max_staleness sync_weights_interval = (max_staleness + 1) * sync_weights_interval"

text \<open>The fields of the two asynchronous strategies; \<open>max_pending_tasks\<close> is \<open>None\<close> in the disaggregated one.\<close>

record async_strategy =
  over_sample_threshold :: pyfloat
  enable_partial_rollout :: bool
  max_staleness :: int
  as_stale_threshold :: int
  as_token_stale_threshold :: "int option"
  tail_batch_trigger_size :: int
  max_pending_tasks :: "int option"

definition async_strategy_init :: "pyfloat \<Rightarrow> bool \<Rightarrow> int \<Rightarrow> int option \<Rightarrow> int \<Rightarrow> int option \<Rightarrow> int \<Rightarrow> async_strategy" where
  "async_strategy_init over partial_rollout tail max_pending staleness max_token_staleness sync_weights_interval =
     \<lparr>over_sample_threshold = over, enable_partial_rollout = partial_rollout, max_staleness = staleness,
      as_stale_threshold = calculate_stale_threshold staleness sync_weights_interval,
      as_token_stale_threshold = (case max_token_staleness of None \<Rightarrow> None
        | Some m \<Rightarrow> Some (calculate_stale_threshold m sync_weights_interval)),
      tail_batch_trigger_size = tail, max_pending_tasks = max_pending\<rparr>"

datatype produce_strategy = SyncStrategy | AsyncStrategy async_strategy

record TaskRunner =
  tr_task_name :: string
  tr_produce_strategy :: produce_strategy
  tr_weight :: pyfloat
  tr_order :: int

definition tr_stale_threshold :: "TaskRunner \<Rightarrow> int option" where
  "tr_stale_threshold t = (case tr_produce_strategy t of SyncStrategy \<Rightarrow> None | AsyncStrategy a \<Rightarrow> Some (as_stale_threshold a))"

definition tr_expired_groups_retryable :: "TaskRunner \<Rightarrow> bool" where
  "tr_expired_groups_retryable t \<longleftrightarrow>
     (case tr_produce_strategy t of SyncStrategy \<Rightarrow> -1 | AsyncStrategy a \<Rightarrow> tail_batch_trigger_size a) \<ge> 0"

definition tr_token_stale_threshold :: "TaskRunner \<Rightarrow> int option" where
  "tr_token_stale_threshold t = (case tr_produce_strategy t of SyncStrategy \<Rightarrow> None | AsyncStrategy a \<Rightarrow> as_token_stale_threshold a)"

subsection \<open>Generating and putting a group\<close>

record produce_context =
  ctx_task_name :: string
  ctx_task_batch_size :: int
  ctx_train_step :: int
  ctx_model_step :: int
  ctx_consumer_step :: int
  ctx_stale_threshold :: "int option"
  ctx_token_stale_threshold :: "int option"
  ctx_expired_groups_retryable :: bool

definition group_sources :: "bool \<Rightarrow> Status list" where
  "group_sources from_expired_pool = (if from_expired_pool then [EXPIRED, ABORTED] else [ABORTED])"

definition set_extra :: "string \<Rightarrow> pyval \<Rightarrow> RolloutState \<Rightarrow> RolloutState" where
  "set_extra k v s = s\<lparr>extra_fields := AList.update k v (extra_fields s)\<rparr>"

text \<open>\<open>generate_group\<close> up to the call of the agent loop, and the rest of it.\<close>

definition prepare_group :: "produce_context \<Rightarrow> RolloutState list \<Rightarrow> RolloutState list" where
  "prepare_group ctx = map (set_extra ''producer_future_step'' (VInt (ctx_train_step ctx)))"

definition generated_group ::
  "(RolloutState list \<Rightarrow> bool \<Rightarrow> RolloutState list) \<Rightarrow> pyfloat \<Rightarrow> bool \<Rightarrow> RolloutState list \<Rightarrow> RolloutState list" where
  "generated_group agent_loop elapsed partial_rollout g =
     map (set_extra ''group_generate_time_s'' (VFloat elapsed)) (agent_loop g partial_rollout)"

text \<open>\<open>float(x)\<close>; text goes through the parser \<open>parse_float\<close>.\<close>

fun py_float :: "(string \<Rightarrow> pyfloat option) \<Rightarrow> pyval \<Rightarrow> pyfloat res" where
  "py_float parse_float (VFloat x) = Inr x"
| "py_float parse_float (VInt i) = Inr (of_int i)"
| "py_float parse_float (VBool b) = Inr (if b then 1 else 0)"
| "py_float parse_float (VStr s) = (case parse_float s of None \<Rightarrow> Inl ValueError | Some x \<Rightarrow> Inr x)"
| "py_float parse_float _ = Inl TypeError"

fun sum_rewards :: "(string \<Rightarrow> pyfloat option) \<Rightarrow> RolloutState list \<Rightarrow> pyfloat \<Rightarrow> int \<Rightarrow> (pyfloat \<times> int) res" where
  "sum_rewards parse_float [] acc n = Inr (acc, n)"
| "sum_rewards parse_float (s # ss) acc n =
     (case (case reward s of VDict fs \<Rightarrow> map_of fs ''score'' | _ \<Rightarrow> None) of
        None \<Rightarrow> sum_rewards parse_float ss acc n
      | Some v \<Rightarrow> rbind (py_float parse_float v) (\<lambda>x. sum_rewards parse_float ss (acc + x) (n + 1)))"

definition produced_tokens_of :: "RolloutState list \<Rightarrow> int" where
  "produced_tokens_of g = sum_list (map (\<lambda>s. max 0 (int (length (or_nil (response_ids s))) - int (length (or_nil (response_model_steps s))))) g)"

definition put_generated_group ::
  "(string \<Rightarrow> pyfloat option) \<Rightarrow> produce_context \<Rightarrow> RolloutState list \<Rightarrow> 'a ProduceProgress_scheme \<Rightarrow> ReplayBuffer \<Rightarrow> trace_store option \<Rightarrow>
   (bool \<times> 'a ProduceProgress_scheme \<times> ReplayBuffer \<times> trace_store option \<times> nat list) res" where
  "put_generated_group parse_float ctx g p rb store =
     (let task = ctx_task_name ctx;
          tokens = produced_tokens_of g;
          initial_status = get_group_status g;
          allowed = {COMPLETED, FAILED, FILTERED, ABORTED, EXPIRED};
          discard = (\<lambda>st p1.
            rbind (add_produced task (int (length g)) tokens p1) (\<lambda>p2.
            rbind (add_discarded task st (int (length g)) p2) (\<lambda>p3.
            rbind (release_and_discard_rollout_groups [g] store) (\<lambda>(gs, store', refs).
              Inr (False, p3, rb, store', refs)))))
      in
      rbind (if list_all (\<lambda>s. status s \<in> allowed) g \<and> initial_status \<in> {COMPLETED, FILTERED}
             then rbind (sum_rewards parse_float g 0 0) (\<lambda>(acc, n). add_raw_rewards task acc n p)
             else Inr p) (\<lambda>p1.
      case validate_rollout_group g of
        Inl ValueError \<Rightarrow> discard FAILED p1
      | Inl e \<Rightarrow> Inl e
      | Inr u \<Rightarrow>
          if initial_status \<in> {FAILED, FILTERED} then discard initial_status p1
          else
            rbind (put_group g task (Some (ctx_model_step ctx)) (Some (ctx_consumer_step ctx)) (ctx_stale_threshold ctx)
                     (ctx_token_stale_threshold ctx) (ctx_expired_groups_retryable ctx) rb store) (\<lambda>(g', rb', store', refs).
            rbind (add_produced task (int (length g)) tokens p1) (\<lambda>p2.
              Inr (get_group_status g' = COMPLETED, p2, rb', store', refs)))))"

fun put_claimed_tasks ::
  "(string \<Rightarrow> pyfloat option) \<Rightarrow> produce_context \<Rightarrow> RolloutState list list \<Rightarrow> 'a ProduceProgress_scheme \<Rightarrow> ReplayBuffer \<Rightarrow> trace_store option \<Rightarrow>
   (nat \<times> 'a ProduceProgress_scheme \<times> ReplayBuffer \<times> trace_store option \<times> nat list) res" where
  "put_claimed_tasks parse_float ctx [] p rb store = Inr (0, p, rb, store, [])"
| "put_claimed_tasks parse_float ctx (g # gs) p rb store =
     rbind (put_generated_group parse_float ctx g p rb store) (\<lambda>(is_completed, p', rb', store', refs).
     rbind (put_claimed_tasks parse_float ctx gs p' rb' store') (\<lambda>(n, p'', rb'', store'', refs').
       Inr ((if is_completed then Suc n else n), p'', rb'', store'', refs @ refs')))"

subsection \<open>Splitting a batch over the tasks\<close>

text \<open>\<open>{k: v for k, v in pairs}\<close> and \<open>xs[:n]\<close>.\<close>

definition dict_of :: "(string \<times> 'a) list \<Rightarrow> (string \<times> 'a) list" where
  "dict_of kvs = fold (\<lambda>(k, v). AList.update k v) kvs []"

definition py_prefix :: "int \<Rightarrow> 'a list \<Rightarrow> 'a list" where
  "py_prefix n xs = (if 0 \<le> n then take (nat n) xs else take (length xs - nat (- n)) xs)"

definition raw_allocations :: "TaskRunner list \<Rightarrow> int \<Rightarrow> pyfloat list" where
  "raw_allocations runners gbs = map (\<lambda>t. of_int gbs * tr_weight t / sum_list (map tr_weight runners)) runners"

definition ranked_tasks :: "pyfloat list \<Rightarrow> int list \<Rightarrow> TaskRunner list \<Rightarrow> (nat \<times> TaskRunner) list" where
  "ranked_tasks raw floors runners =
     sort_key (\<lambda>(i, t). (- (raw ! i - of_int (floors ! i)), tr_order t)) (zip [0..<length runners] runners)"

definition allocate_task_batch_sizes :: "TaskRunner list \<Rightarrow> int \<Rightarrow> int \<Rightarrow> (string \<times> int) list res" where
  "allocate_task_batch_sizes runners gbs train_step =
     (if gbs < 0 then Inl ValueError
      else if sum_list (map tr_weight runners) \<le> 0 then Inl ValueError
      else
        let sizes =
          (if gbs = 0 then Inr (dict_of (map (\<lambda>t. (tr_task_name t, 0)) runners))
           else
             let raw = raw_allocations runners gbs;
                 floors = map floor raw;
                 remaining = gbs - sum_list floors
             in add_counts (map (\<lambda>(i, t). (tr_task_name t, 1)) (py_prefix remaining (ranked_tasks raw floors runners)))
                  (dict_of (map (\<lambda>(i, t). (tr_task_name t, floors ! i)) (zip [0..<length runners] runners))))
        in rbind sizes (\<lambda>d.
             if set (map fst d) \<noteq> set (map tr_task_name runners) then Inl ValueError
             else if \<exists>(k, n) \<in> set d. n < 0 then Inl ValueError
             else if sum_list (map snd d) \<noteq> gbs then Inl ValueError
             else Inr d))"

subsection \<open>Refreshing all tasks\<close>

definition refresh_for_all_tasks ::
  "TaskRunner list \<Rightarrow> int \<Rightarrow> Status list \<Rightarrow> ReplayBuffer \<Rightarrow> trace_store option \<Rightarrow>
   ((string \<times> nat) list \<times> ReplayBuffer \<times> trace_store option \<times> nat list) res" where
  "refresh_for_all_tasks runners train_step statuses rb store =
     refresh_staleness
       (dict_of (map (\<lambda>t. (tr_task_name t, case tr_stale_threshold t of None \<Rightarrow> 1 | Some th \<Rightarrow> th)) runners))
       (Some (dict_of (List.map_filter (\<lambda>t. map_option (Pair (tr_task_name t)) (tr_token_stale_threshold t)) runners)))
       (Some (dict_of (map (\<lambda>t. (tr_task_name t, tr_expired_groups_retryable t)) runners)))
       train_step (Some statuses) rb store"

subsection \<open>Lemmas: the split\<close>

definition share :: "TaskRunner list \<Rightarrow> int \<Rightarrow> TaskRunner \<Rightarrow> rat" where
  "share runners n t = of_int n * tr_weight t / sum_list (map tr_weight runners)"

lemma sum_shares: "sum_list (map tr_weight runners) \<noteq> 0 \<Longrightarrow> sum_list (map (share runners n) runners) = of_int n"
proof -
  have "sum_list (map (\<lambda>t. of_int n * tr_weight t / W) ts) = of_int n * sum_list (map tr_weight ts) / W" for W and ts :: "TaskRunner list"
    by (induction ts) (auto simp: algebra_simps add_divide_distrib)
  then show "sum_list (map tr_weight runners) \<noteq> 0 \<Longrightarrow> ?thesis" by (simp add: share_def [abs_def])
qed

lemma sum_fracs:
  "of_int (sum_list (map floor xs)) + sum_list (map frac xs) = (sum_list xs :: rat)"
  by (induction xs) (auto simp: frac_def)

lemma sum_fracs_bound: "sum_list (map frac xs) \<le> of_nat (length (filter (\<lambda>x. 0 < frac x) xs) :: nat)" for xs :: "rat list"
proof (induction xs)
  case (Cons x xs)
  have "0 \<le> frac x" "frac x < 1" by (simp_all add: frac_lt_1)
  then show ?case using Cons by (cases "0 < frac x") (auto simp: frac_eq_0_iff [THEN iffD2])
qed simp

lemma update_sum: "map_of d k = Some v \<Longrightarrow> sum_list (map snd (AList.update k (v + x) d)) = sum_list (map snd d) + (x :: int)"
  by (induction d) auto

lemma add_counts_sum: "add_counts ns d = Inr d' \<Longrightarrow> sum_list (map snd d') = sum_list (map snd d) + sum_list (map snd ns)"
  by (induction ns d rule: add_counts.induct) (auto simp: dict_incr_def update_sum res_simps split: option.splits)

lemma dict_of_distinct: "distinct (map fst kvs) \<Longrightarrow> dict_of kvs = kvs"
proof -
  have "distinct (map fst kvs) \<Longrightarrow> set (map fst kvs) \<inter> set (map fst acc) = {} \<Longrightarrow> fold (\<lambda>(k, v). AList.update k v) kvs acc = acc @ kvs" for kvs acc :: "(string \<times> 'a) list"
    by (induction kvs arbitrary: acc) (auto simp: update_new)
  from this [of kvs "[]"] show "distinct (map fst kvs) \<Longrightarrow> ?thesis" by (simp add: dict_of_def)
qed

lemma map_of_by: "distinct (map g xs) \<Longrightarrow> x \<in> set xs \<Longrightarrow> map_of (map (\<lambda>x. (g x, f x)) xs) (g x) = Some (f x)"
  by (induction xs) (auto simp: rev_image_eqI)

lemma length_filter_sort_key: "length (filter P (sort_key f xs)) = length (filter P xs)"
  by (simp add: size_mset [symmetric] del: size_mset)

text \<open>In a list sorted by a key that puts the elements with \<open>P\<close> first, a prefix no longer than their number has only such elements.\<close>

lemma sorted_prefix_sat:
  assumes "sorted_wrt (\<lambda>x y. P y \<longrightarrow> P x) xs" "n \<le> length (filter P xs)" "x \<in> set (take n xs)"
  shows "P x"
proof (rule ccontr)
  assume "\<not> P x"
  obtain i where i: "i < n" "i < length xs" "xs ! i = x" using assms(3) by (auto simp: in_set_conv_nth)
  have "\<not> P y" if y: "y \<in> set (drop i xs)" for y
  proof -
    obtain j where j: "j < length xs - i" "y = xs ! (i + j)" using y by (auto simp: in_set_conv_nth)
    moreover from j(1) have "i + j < length xs" by simp
    ultimately show ?thesis
      using assms(1) [unfolded sorted_wrt_iff_nth_less, rule_format, of i "i + j"] i \<open>\<not> P x\<close> by (cases "j = 0") auto
  qed
  then have "filter P xs = filter P (take i xs)"
    by (metis append_take_drop_id filter_False append_Nil2 filter_append)
  then have "length (filter P xs) \<le> i" using length_filter_le [of P "take i xs"] by simp
  then show False using assms(2) i(1) by simp
qed

text \<open>The ranking of the tasks by the fractional parts of their shares, and the number of tasks that get one group more.\<close>

definition rank_of :: "TaskRunner list \<Rightarrow> int \<Rightarrow> (nat \<times> TaskRunner) list" where
  "rank_of runners n = ranked_tasks (raw_allocations runners n) (map floor (raw_allocations runners n)) runners"

definition extra_of :: "TaskRunner list \<Rightarrow> int \<Rightarrow> int" where
  "extra_of runners n = n - sum_list (map floor (raw_allocations runners n))"

lemma raw_allocations_share: "raw_allocations runners n = map (share runners n) runners"
  by (simp add: raw_allocations_def share_def)

lemma rank_of_set: "set (rank_of runners n) = set (zip [0..<length runners] runners)"
  by (simp add: rank_of_def ranked_tasks_def)

lemma rank_of_names: "mset (map (\<lambda>(i, t). tr_task_name t) (rank_of runners n)) = mset (map tr_task_name runners)"
proof -
  let ?z = "zip [0..<length runners] runners"
  have "map (\<lambda>(i, t). tr_task_name t) ?z = map tr_task_name (map snd ?z)" unfolding map_map by (rule map_cong) auto
  also have "map snd ?z = runners" by simp
  finally have "map (\<lambda>(i, t). tr_task_name t) ?z = map tr_task_name runners" .
  then show ?thesis unfolding rank_of_def ranked_tasks_def mset_map mset_sort by (metis mset_map)
qed

lemma rank_of_sorted: "sorted_wrt (\<lambda>(i, s) (j, t). frac (share runners n t) \<le> frac (share runners n s)) (rank_of runners n)"
proof -
  let ?raw = "raw_allocations runners n"
  let ?key = "\<lambda>(i, t). (- (?raw ! i - of_int (map floor ?raw ! i)), tr_order t)"
  have key: "fst (?key (i, t)) = - frac (share runners n t)" if "(i, t) \<in> set (rank_of runners n)" for i t
    using that unfolding rank_of_set by (auto simp: in_set_zip raw_allocations_share frac_def)
  have "sorted (map ?key (rank_of runners n))" by (simp add: rank_of_def ranked_tasks_def)
  then have "sorted_wrt (\<lambda>x y. ?key x \<le> ?key y) (rank_of runners n)" by (simp only: sorted_wrt_map)
  then show ?thesis
  proof (rule sorted_wrt_mono_rel [rotated])
    fix x y assume xy: "x \<in> set (rank_of runners n)" "y \<in> set (rank_of runners n)" and le: "?key x \<le> ?key y"
    obtain i a j b where e: "x = (i, a)" "y = (j, b)" by (cases x; cases y) auto
    have "fst (?key x) \<le> fst (?key y)" using le by (auto simp: less_eq_prod_def)
    then show "(\<lambda>(i, s) (j, t). frac (share runners n t) \<le> frac (share runners n s)) x y"
      using key [of i a] key [of j b] xy e by simp
  qed
qed

lemma extra_of_bounds:
  assumes "sum_list (map tr_weight runners) \<noteq> 0"
  shows "0 \<le> extra_of runners n" and "nat (extra_of runners n) \<le> length (filter (\<lambda>(i, t). 0 < frac (share runners n t)) (rank_of runners n))"
proof -
  let ?raw = "raw_allocations runners n" and ?z = "zip [0..<length runners] runners"
  have rem: "of_int (extra_of runners n) = sum_list (map frac ?raw)"
    using sum_fracs [of ?raw] sum_shares [OF assms, of n] by (simp add: extra_of_def raw_allocations_share)
  have "0 \<le> sum_list (map frac ?raw)" by (intro sum_list_nonneg) auto
  then show pos: "0 \<le> extra_of runners n" using rem by (metis of_int_0_le_iff)
  have "?raw = map (\<lambda>(i, t). share runners n t) ?z" by (rule nth_equalityI) (auto simp: raw_allocations_share)
  then have "length (filter (\<lambda>x. 0 < frac x) ?raw) = length (filter (\<lambda>(i, t). 0 < frac (share runners n t)) ?z)"
    by (simp only: filter_map length_map) (simp add: comp_def case_prod_unfold)
  also have "\<dots> = length (filter (\<lambda>(i, t). 0 < frac (share runners n t)) (rank_of runners n))"
    unfolding rank_of_def ranked_tasks_def by (rule length_filter_sort_key [symmetric])
  finally show "nat (extra_of runners n) \<le> length (filter (\<lambda>(i, t). 0 < frac (share runners n t)) (rank_of runners n))"
    using sum_fracs_bound [of ?raw] rem pos by (metis (no_types, lifting) nat_le_iff of_int_le_iff of_int_of_nat_eq)
qed

text \<open>The tasks that get one group more than the whole part of their share; their shares are not whole.\<close>

definition lucky :: "TaskRunner list \<Rightarrow> int \<Rightarrow> string list" where
  "lucky runners n = map (\<lambda>(i, t). tr_task_name t) (take (nat (extra_of runners n)) (rank_of runners n))"

lemma lucky_spec:
  assumes names: "distinct (map tr_task_name runners)" and total: "sum_list (map tr_weight runners) \<noteq> 0"
  shows "distinct (lucky runners n)" and "set (lucky runners n) \<subseteq> set (map tr_task_name runners)"
    and "int (length (lucky runners n)) = extra_of runners n"
    and "\<And>t. t \<in> set runners \<Longrightarrow> tr_task_name t \<in> set (lucky runners n) \<Longrightarrow> \<lceil>share runners n t\<rceil> = \<lfloor>share runners n t\<rfloor> + 1"
proof -
  let ?P = "\<lambda>(i, t). 0 < frac (share runners n t)" and ?pre = "take (nat (extra_of runners n)) (rank_of runners n)"
  have "distinct (map (\<lambda>(i, t). tr_task_name t) (rank_of runners n))"
    using rank_of_names [of runners n] names mset_eq_imp_distinct_iff by blast
  then show "distinct (lucky runners n)" by (simp add: lucky_def distinct_take flip: take_map)
  show "set (lucky runners n) \<subseteq> set (map tr_task_name runners)"
    using mset_eq_setD [OF rank_of_names [of runners n]] set_take_subset [of "nat (extra_of runners n)" "rank_of runners n"]
    unfolding lucky_def set_map by blast
  note b = extra_of_bounds [OF total, of n]
  have "nat (extra_of runners n) \<le> length (rank_of runners n)" using b(2) length_filter_le [of ?P "rank_of runners n"] by linarith
  then show "int (length (lucky runners n)) = extra_of runners n" using b(1) by (simp add: lucky_def)
  have "sorted_wrt (\<lambda>x y. ?P y \<longrightarrow> ?P x) (rank_of runners n)"
    by (rule sorted_wrt_mono_rel [OF _ rank_of_sorted [of runners n]]) (auto simp del: frac_gt_0_iff)
  note pos = sorted_prefix_sat [OF this b(2)]
  fix t assume t: "t \<in> set runners" "tr_task_name t \<in> set (lucky runners n)"
  then obtain i t' where it: "(i, t') \<in> set ?pre" "tr_task_name t' = tr_task_name t" by (auto simp: lucky_def)
  have "(i, t') \<in> set (rank_of runners n)" using it(1) by (rule in_set_takeD)
  then have "t' \<in> set runners" unfolding rank_of_set by (rule set_zip_rightD)
  then have "t' = t" using it(2) t(1) names by (auto simp: distinct_map inj_on_def)
  then have "share runners n t \<notin> \<int>" using pos [OF it(1)] by simp
  then show "\<lceil>share runners n t\<rceil> = \<lfloor>share runners n t\<rfloor> + 1" using ceiling_altdef [of "share runners n t"] by (metis Ints_of_int)
qed

text \<open>The sizes: the whole part of every share, plus one for the lucky tasks.\<close>

definition fair_sizes :: "TaskRunner list \<Rightarrow> int \<Rightarrow> (string \<times> int) list" where
  "fair_sizes runners n = map (\<lambda>t. (tr_task_name t, \<lfloor>share runners n t\<rfloor> + (if tr_task_name t \<in> set (lucky runners n) then 1 else 0))) runners"

lemma allocate_positive:
  assumes names: "distinct (map tr_task_name runners)" and w: "\<forall>t \<in> set runners. 0 \<le> tr_weight t"
    and total: "0 < sum_list (map tr_weight runners)" and n: "0 < n"
  shows "allocate_task_batch_sizes runners n st = Inr (fair_sizes runners n)" and "sum_list (map snd (fair_sizes runners n)) = n"
proof -
  let ?raw = "raw_allocations runners n" and ?z = "zip [0..<length runners] runners" and ?names = "map tr_task_name runners"
  let ?fl = "\<lambda>k. the (map_of (map (\<lambda>t. (tr_task_name t, \<lfloor>share runners n t\<rfloor>)) runners) k)"
  have fl: "?fl (tr_task_name t) = \<lfloor>share runners n t\<rfloor>" if "t \<in> set runners" for t
    using map_of_by [OF names that, of "\<lambda>t. \<lfloor>share runners n t\<rfloor>"] by simp
  have "map (\<lambda>(i, t). (tr_task_name t, map floor ?raw ! i)) ?z = map (\<lambda>t. (tr_task_name t, \<lfloor>share runners n t\<rfloor>)) runners"
    by (rule nth_equalityI) (auto simp: raw_allocations_share)
  also have "\<dots> = tab ?names ?fl" using fl by (simp add: tab_def)
  finally have D0: "dict_of (map (\<lambda>(i, t). (tr_task_name t, map floor ?raw ! i)) ?z) = tab ?names ?fl"
    using dict_of_distinct [of "tab ?names ?fl"] names by (simp only: tab_keys)
  have tot: "sum_list (map tr_weight runners) \<noteq> 0" using total by simp
  note l = lucky_spec [OF names tot, where n = n] and e = extra_of_bounds(1) [OF tot, of n]
  have one: "map (\<lambda>(i, t). (tr_task_name t, 1)) (py_prefix (extra_of runners n) (rank_of runners n)) = tab (lucky runners n) (\<lambda>_. 1)"
    using e by (simp add: tab_def lucky_def comp_def case_prod_unfold py_prefix_def)
  have fair: "tab ?names (\<lambda>k. ?fl k + (if k \<in> set (lucky runners n) then 1 else 0)) = fair_sizes runners n"
    using fl by (simp add: tab_def fair_sizes_def)
  have add: "add_counts (tab (lucky runners n) (\<lambda>_. 1)) (tab ?names ?fl) = Inr (fair_sizes runners n)"
    using add_counts_tab [OF names l(1,2), of "\<lambda>_. 1" ?fl] unfolding fair .
  have "sum_list (map snd (tab ?names ?fl)) = sum_list (map floor ?raw)"
    using fl by (simp add: tab_def comp_def raw_allocations_share cong: map_cong)
  moreover have "sum_list (map snd (tab (lucky runners n) (\<lambda>_. 1 :: int))) = int (length (lucky runners n))"
    by (simp add: tab_def comp_def sum_list_triv)
  ultimately show sum: "sum_list (map snd (fair_sizes runners n)) = n"
    using add_counts_sum [OF add] l(3) by (simp add: extra_of_def)
  have "0 \<le> share runners n t" if "t \<in> set runners" for t using that w n total by (simp add: share_def)
  then have "\<not> (\<exists>(k, m) \<in> set (fair_sizes runners n). m < 0)" by (auto simp: fair_sizes_def not_less)
  moreover have "set (map fst (fair_sizes runners n)) = set ?names" by (simp add: fair_sizes_def)
  ultimately show "allocate_task_batch_sizes runners n st = Inr (fair_sizes runners n)"
    using n total sum
    by (simp add: allocate_task_batch_sizes_def Let_def one D0 add flip: rank_of_def extra_of_def)
qed

subsection \<open>Properties\<close>

text \<open>C23. The split of a global batch over the tasks: for different task names and nonnegative weights of positive sum,
  \<open>allocate_task_batch_sizes\<close> always succeeds (none of its consistency checks can fail), gives every task in order the
  whole part of its exact share or one more, more only to a share that is not whole (so a task of weight zero gets
  nothing), and the sizes add up to the batch. A negative batch and weights without a positive sum are
  rejected.\<close>

theorem allocate_fair:
  assumes names: "distinct (map tr_task_name runners)" and w: "list_all (\<lambda>t. 0 \<le> tr_weight t) runners"
    and total: "0 < sum_list (map tr_weight runners)" and n: "0 \<le> n"
  shows "\<exists>d. allocate_task_batch_sizes runners n st = Inr d \<and> sum_list (map snd d) = n \<and>
    list_all2 (\<lambda>t (k, m). k = tr_task_name t \<and> 0 \<le> m \<and>
      \<lfloor>of_int n * tr_weight t / sum_list (map tr_weight runners)\<rfloor> \<le> m \<and> m \<le> \<lceil>of_int n * tr_weight t / sum_list (map tr_weight runners)\<rceil>) runners d \<and>
    allocate_task_batch_sizes runners (- n - 1) st = Inl ValueError \<and>
    allocate_task_batch_sizes (map (\<lambda>t. t\<lparr>tr_weight := 0\<rparr>) runners) n st = Inl ValueError"
proof -
  have "sum_list (map (tr_weight \<circ> (\<lambda>t. t\<lparr>tr_weight := 0\<rparr>)) ts) = 0" for ts :: "TaskRunner list" by (induction ts) auto
  then have err: "allocate_task_batch_sizes runners (- n - 1) st = Inl ValueError"
      "allocate_task_batch_sizes (map (\<lambda>t. t\<lparr>tr_weight := 0\<rparr>) runners) n st = Inl ValueError"
    using n by (simp_all add: allocate_task_batch_sizes_def)
  show ?thesis
  proof (cases "n = 0")
    case True
    let ?d = "map (\<lambda>t. (tr_task_name t, 0 :: int)) runners"
    have "dict_of ?d = ?d" using names by (intro dict_of_distinct) (simp add: comp_def)
    then have "allocate_task_batch_sizes runners n st = Inr ?d"
      using True total by (auto simp: allocate_task_batch_sizes_def comp_def image_image sum_list_triv)
    then show ?thesis using True err by (auto simp: list_all2_conv_all_nth comp_def sum_list_triv)
  next
    case False
    then have pos: "0 < n" using n by simp
    have w': "\<forall>t \<in> set runners. 0 \<le> tr_weight t" using w by (simp add: list_all_iff)
    have tot: "sum_list (map tr_weight runners) \<noteq> 0" using total by simp
    have "0 \<le> share runners n t" if "t \<in> set runners" for t using that w' n total by (simp add: share_def)
    then have "list_all2 (\<lambda>t (k, m). k = tr_task_name t \<and> 0 \<le> m \<and> \<lfloor>share runners n t\<rfloor> \<le> m \<and> m \<le> \<lceil>share runners n t\<rceil>) runners (fair_sizes runners n)"
      using lucky_spec(4) [OF names tot, of _ n] floor_le_ceiling by (auto simp: fair_sizes_def list_all2_conv_all_nth)
    then show ?thesis using allocate_positive [OF names w' total pos] err unfolding share_def by blast
  qed
qed

theorem allocate_fair_witness:
  "\<exists>d. allocate_task_batch_sizes
     [\<lparr>tr_task_name = ''a'', tr_produce_strategy = SyncStrategy, tr_weight = 1, tr_order = 0\<rparr>,
      \<lparr>tr_task_name = ''b'', tr_produce_strategy = SyncStrategy, tr_weight = 2, tr_order = 1\<rparr>,
      \<lparr>tr_task_name = ''c'', tr_produce_strategy = SyncStrategy, tr_weight = 0, tr_order = 2\<rparr>] 10 1 = Inr d \<and> sum_list (map snd d) = 10"
proof -
  let ?r = "[\<lparr>tr_task_name = ''a'', tr_produce_strategy = SyncStrategy, tr_weight = 1, tr_order = 0\<rparr>,
      \<lparr>tr_task_name = ''b'', tr_produce_strategy = SyncStrategy, tr_weight = 2, tr_order = 1\<rparr>,
      \<lparr>tr_task_name = ''c'', tr_produce_strategy = SyncStrategy, tr_weight = 0, tr_order = 2\<rparr>]"
  have "distinct (map tr_task_name ?r)" "list_all (\<lambda>t. 0 \<le> tr_weight t) ?r" "0 < sum_list (map tr_weight ?r)" "0 \<le> (10 :: int)"
    by simp_all
  from allocate_fair [OF this, of 1] show ?thesis by blast
qed

end
