(* ===== verification/TrainBatch.thy ===== *)
theory TrainBatch
  imports ProduceUtils "HOL-Library.Char_ord" "HOL-Library.List_Lexorder"
begin

text \<open>
  The training batch of \<^verbatim>\<open>rl/agent_loop_manager/produce_utils.py\<close>: taking the groups of all tasks from the buffer, masking
  stale tokens, and the statistics of the batch (\<open>ProduceBatchResult\<close>).

  The text of log messages is not modelled; the dictionary accesses inside them are.
\<close>

subsection \<open>The result of a batch\<close>

text \<open>A ratio may be infinite.\<close>

datatype xfloat = Finite pyfloat | Infinite

record TaskResult =
  pb_rollout_states :: "RolloutState list list"
  pb_status :: ProduceBatchStatus
  pb_group_gen_count :: "int option"
  pb_group_gen_mean_s :: "pyfloat option"
  pb_group_gen_p50_s :: "pyfloat option"
  pb_group_gen_p99_s :: "pyfloat option"
  pb_group_gen_p99_p50_ratio :: "xfloat option"
  pb_group_gen_pause_time_s :: "pyfloat option"
  pb_leftover_init :: int
  pb_leftover_completed :: int
  pb_leftover_aborted :: int
  pb_leftover_expired :: int
  pb_failed_samples :: int
  pb_filtered_samples :: int
  pb_raw_rewards_sum :: pyfloat
  pb_raw_rewards_count :: int
  pb_produced_samples :: int
  pb_produced_tokens :: int
  pb_produce_time_s :: pyfloat

text \<open>The results of single tasks have neither of the last two fields.\<close>

record ProduceBatchResult = TaskResult +
  pb_task_batch_sizes :: "(string \<times> int) list option"
  pb_task_results :: "(string \<times> TaskResult) list option"

definition task_result :: "RolloutState list list \<Rightarrow> pyfloat \<times> int \<Rightarrow> int \<times> int \<Rightarrow> pyfloat \<Rightarrow> TaskResult" where
  "task_result states rewards produced time = \<lparr>pb_rollout_states = states, pb_status = PB_NORMAL, pb_group_gen_count = None,
     pb_group_gen_mean_s = None, pb_group_gen_p50_s = None, pb_group_gen_p99_s = None, pb_group_gen_p99_p50_ratio = None,
     pb_group_gen_pause_time_s = None, pb_leftover_init = 0, pb_leftover_completed = 0, pb_leftover_aborted = 0,
     pb_leftover_expired = 0, pb_failed_samples = 0, pb_filtered_samples = 0, pb_raw_rewards_sum = fst rewards,
     pb_raw_rewards_count = snd rewards, pb_produced_samples = fst produced, pb_produced_tokens = snd produced,
     pb_produce_time_s = time\<rparr>"

definition fill_produce_timing_stats :: "pyfloat list \<Rightarrow> pyfloat \<Rightarrow> 'a TaskResult_scheme \<Rightarrow> 'a TaskResult_scheme" where
  "fill_produce_timing_stats generate_times pause_time r =
     (if generate_times = [] then (if 0 < pause_time then r\<lparr>pb_group_gen_pause_time_s := Some pause_time\<rparr> else r)
      else
        let times = sort generate_times;
            n = length times;
            p50 = times ! (n div 2);
            p99 = times ! nat \<lfloor>of_nat n * (99 / 100) :: pyfloat\<rfloor>
        in r\<lparr>pb_group_gen_count := Some (int n), pb_group_gen_mean_s := Some (sum_list times / of_nat n),
             pb_group_gen_p50_s := Some p50, pb_group_gen_p99_s := Some p99,
             pb_group_gen_p99_p50_ratio := Some (if 0 < p50 then Finite (p99 / p50) else Infinite),
             pb_group_gen_pause_time_s := Some pause_time\<rparr>)"

text \<open>The time that \<open>generate_group\<close> recorded on the first sample of a group.\<close>

definition group_time :: "RolloutState list \<Rightarrow> pyfloat option" where
  "group_time g = (case g of [] \<Rightarrow> None
     | s # _ \<Rightarrow> (case dict_get (extra_fields s) ''group_generate_time_s'' of VFloat x \<Rightarrow> Some x | _ \<Rightarrow> None))"

definition fill_group_timing_stats :: "pyfloat \<Rightarrow> 'a TaskResult_scheme \<Rightarrow> 'a TaskResult_scheme" where
  "fill_group_timing_stats pause_time r =
     fill_produce_timing_stats (List.map_filter group_time (pb_rollout_states r)) pause_time r"

definition leftover_statuses :: "Status list" where
  "leftover_statuses = [INIT, COMPLETED, ABORTED, EXPIRED, FAILED, FILTERED]"

definition fill_leftover_counts :: "(Status \<times> nat) list \<Rightarrow> 'a TaskResult_scheme \<Rightarrow> 'a TaskResult_scheme" where
  "fill_leftover_counts counts r =
     (let get = (\<lambda>s. case map_of counts s of None \<Rightarrow> 0 | Some n \<Rightarrow> int n) in
      r\<lparr>pb_leftover_init := get INIT, pb_leftover_completed := get COMPLETED, pb_leftover_aborted := get ABORTED,
        pb_leftover_expired := get EXPIRED, pb_failed_samples := get FAILED, pb_filtered_samples := get FILTERED\<rparr>)"

definition merge_discarded_counts ::
  "string \<Rightarrow> 'b TaskResult_scheme \<Rightarrow> 'a ProduceProgress_scheme \<Rightarrow> ('b TaskResult_scheme \<times> 'a ProduceProgress_scheme) res" where
  "merge_discarded_counts task r p =
     rbind (consume_discarded task p) (\<lambda>((failed, filtered), p').
       Inr (r\<lparr>pb_failed_samples := pb_failed_samples r + failed, pb_filtered_samples := pb_filtered_samples r + filtered\<rparr>, p'))"

text \<open>Weighted sums over the tasks that have timing figures; \<open>x or 0.0\<close> for a missing figure.\<close>

definition or_zero :: "pyfloat option \<Rightarrow> pyfloat" where
  "or_zero x = (case x of None \<Rightarrow> 0 | Some v \<Rightarrow> v)"

definition timed_results :: "TaskResult list \<Rightarrow> TaskResult list" where
  "timed_results rs = filter (\<lambda>r. pb_group_gen_count r \<noteq> None \<and> pb_group_gen_mean_s r \<noteq> None) rs"

definition weighted_sum :: "(TaskResult \<Rightarrow> pyfloat option) \<Rightarrow> TaskResult list \<Rightarrow> pyfloat" where
  "weighted_sum f rs = sum_list (map (\<lambda>r. of_int (the (pb_group_gen_count r)) * or_zero (f r)) rs)"

definition weighted_ratio :: "TaskResult list \<Rightarrow> int \<Rightarrow> xfloat" where
  "weighted_ratio rs n =
     (if \<exists>r \<in> set rs. pb_group_gen_p99_p50_ratio r = Some Infinite then Infinite
      else Finite (weighted_sum (\<lambda>r. case pb_group_gen_p99_p50_ratio r of Some (Finite x) \<Rightarrow> Some x | _ \<Rightarrow> None) rs / of_int n))"

definition aggregate_task_results :: "TaskRunner list \<Rightarrow> (string \<times> TaskResult) list \<Rightarrow> ProduceBatchResult res" where
  "aggregate_task_results ordered_tasks task_results =
     rbind (rmap (\<lambda>t. dict_read task_results (tr_task_name t)) ordered_tasks) (\<lambda>rs.
       let total = (\<lambda>f. sum_list (map f rs));
           timed = timed_results rs;
           n = sum_list (map (\<lambda>r. the (pb_group_gen_count r)) timed);
           mean = (\<lambda>f. Some (weighted_sum f timed / of_int n));
           base = \<lparr>pb_rollout_states = concat (map pb_rollout_states rs), pb_status = PB_NORMAL, pb_group_gen_count = None,
             pb_group_gen_mean_s = None, pb_group_gen_p50_s = None, pb_group_gen_p99_s = None, pb_group_gen_p99_p50_ratio = None,
             pb_group_gen_pause_time_s = None, pb_leftover_init = total pb_leftover_init,
             pb_leftover_completed = total pb_leftover_completed, pb_leftover_aborted = total pb_leftover_aborted,
             pb_leftover_expired = total pb_leftover_expired, pb_failed_samples = total pb_failed_samples,
             pb_filtered_samples = total pb_filtered_samples, pb_raw_rewards_sum = sum_list (map pb_raw_rewards_sum rs),
             pb_raw_rewards_count = total pb_raw_rewards_count, pb_produced_samples = total pb_produced_samples,
             pb_produced_tokens = total pb_produced_tokens, pb_produce_time_s = sum_list (map pb_produce_time_s rs),
             pb_task_batch_sizes = None,
             pb_task_results = Some (dict_of (map (\<lambda>(t, r). (tr_task_name t, r)) (zip ordered_tasks rs)))\<rparr>
       in Inr (if 0 < n then base\<lparr>pb_group_gen_count := Some n, pb_group_gen_mean_s := mean pb_group_gen_mean_s,
                 pb_group_gen_p50_s := mean pb_group_gen_p50_s, pb_group_gen_p99_s := mean pb_group_gen_p99_s,
                 pb_group_gen_p99_p50_ratio := Some (weighted_ratio timed n),
                 pb_group_gen_pause_time_s := Some (sum_list (map (\<lambda>r. or_zero (pb_group_gen_pause_time_s r)) timed))\<rparr>
               else base))"

definition single_result ::
  "TaskRunner \<Rightarrow> (string \<times> RolloutState list list) list \<Rightarrow> (string \<times> (Status \<times> nat) list) list \<Rightarrow> pyfloat \<Rightarrow>
   'a ProduceProgress_scheme \<Rightarrow> (TaskResult \<times> 'a ProduceProgress_scheme) res" where
  "single_result t batch_by_task leftover_counts time p =
     (let task = tr_task_name t in
      rbind (consume_raw_rewards task p) (\<lambda>(rewards, p1).
      rbind (consume_produced task p1) (\<lambda>(produced, p2).
        merge_discarded_counts task
          (fill_leftover_counts (case map_of leftover_counts task of None \<Rightarrow> [] | Some c \<Rightarrow> c)
             (task_result (case map_of batch_by_task task of None \<Rightarrow> [] | Some gs \<Rightarrow> gs) rewards produced time)) p2)))"

fun task_results_loop ::
  "TaskRunner list \<Rightarrow> (string \<times> RolloutState list list) list \<Rightarrow> (string \<times> (Status \<times> nat) list) list \<Rightarrow>
   'a ProduceProgress_scheme \<Rightarrow> ((string \<times> TaskResult) list \<times> 'a ProduceProgress_scheme) res" where
  "task_results_loop [] batch_by_task leftover_counts p = Inr ([], p)"
| "task_results_loop (t # ts) batch_by_task leftover_counts p =
     rbind (single_result t batch_by_task leftover_counts 0 p) (\<lambda>(r, p1).
     rbind (task_results_loop ts batch_by_task leftover_counts p1) (\<lambda>(rs, p2). Inr ((tr_task_name t, r) # rs, p2)))"

definition build_produce_batch_result ::
  "TaskRunner list \<Rightarrow> (string \<times> int) list \<Rightarrow> (string \<times> RolloutState list list) list \<Rightarrow> (string \<times> (Status \<times> nat) list) list \<Rightarrow>
   pyfloat \<Rightarrow> 'a ProduceProgress_scheme \<Rightarrow> (ProduceBatchResult \<times> 'a ProduceProgress_scheme) res" where
  "build_produce_batch_result runners sizes batch_by_task leftover_counts pause_time p =
     (case runners of
        [t] \<Rightarrow>
          let (time, p1) = consume_produce_time p in
          rbind (single_result t batch_by_task leftover_counts time p1) (\<lambda>(r, p2).
            Inr (TaskResult.extend (fill_group_timing_stats pause_time r) (ProduceBatchResult.fields None None), p2))
      | _ \<Rightarrow>
          let (time, p1) = consume_produce_time p in
          rbind (task_results_loop runners batch_by_task leftover_counts p1) (\<lambda>(results, p2).
            let ordered = sort_key (\<lambda>t. (tr_task_name t, tr_order t)) runners in
            rbind (aggregate_task_results ordered (dict_of results)) (\<lambda>agg.
            rbind (rmap (\<lambda>t. rbind (dict_read sizes (tr_task_name t)) (\<lambda>n. Inr (tr_task_name t, n))) ordered) (\<lambda>task_sizes.
              Inr (fill_group_timing_stats pause_time
                     (agg\<lparr>pb_produce_time_s := time, pb_task_batch_sizes := Some (dict_of task_sizes)\<rparr>), p2)))))"

subsection \<open>Taking a training batch\<close>

definition mask_group :: "int \<Rightarrow> int \<Rightarrow> RolloutState list \<Rightarrow> RolloutState list res" where
  "mask_group current_train_step th g =
     rbind (calculate_group_effective_response_masks g current_train_step (Some th)) (\<lambda>masks.
       rmap (\<lambda>(s, m). case m of None \<Rightarrow> Inr s | Some bs \<Rightarrow> apply_response_mask s bs) (zip g masks))"

fun mask_batch :: "int \<Rightarrow> TaskRunner list \<Rightarrow> (string \<times> RolloutState list list) list \<Rightarrow> (string \<times> RolloutState list list) list res" where
  "mask_batch current_train_step [] batch = Inr batch"
| "mask_batch current_train_step (t # ts) batch =
     rbind (case tr_token_stale_threshold t of
              None \<Rightarrow> Inr batch
            | Some th \<Rightarrow> rmap (\<lambda>(k, gs). if k = tr_task_name t
                                    then rbind (rmap (mask_group current_train_step th) gs) (\<lambda>gs'. Inr (k, gs'))
                                    else Inr (k, gs)) batch)
       (mask_batch current_train_step ts)"

text \<open>\<open>mark\<close> is \<open>mark_consumed\<close> for the background progress and does nothing for a colocated window.\<close>

definition take_train_batch ::
  "((string \<times> int) list \<Rightarrow> 'a ProduceProgress_scheme \<Rightarrow> 'a ProduceProgress_scheme res) \<Rightarrow> TaskRunner list \<Rightarrow> (string \<times> int) list \<Rightarrow> int \<Rightarrow>
   pyfloat \<Rightarrow> 'a ProduceProgress_scheme \<Rightarrow> ReplayBuffer \<Rightarrow> (ProduceBatchResult \<times> 'a ProduceProgress_scheme \<times> ReplayBuffer) res" where
  "take_train_batch mark runners sizes current_train_step pause_time p rb =
     rbind (take_batch sizes COMPLETED rb) (\<lambda>(batch, counts, rb').
     rbind (mask_batch current_train_step runners
              (map (\<lambda>(k, gs). (k, map (map (\<lambda>s. s\<lparr>task_name := Some k\<rparr>)) gs)) batch)) (\<lambda>batch'.
     rbind (mark (map (\<lambda>(k, n). (k, int n)) counts) p) (\<lambda>p1.
     rbind (count_statuses (map tr_task_name runners) leftover_statuses rb') (\<lambda>leftover.
     rbind (rmap (\<lambda>t. dict_read sizes (tr_task_name t)) runners) (\<lambda>_.
     rbind (build_produce_batch_result runners sizes batch' leftover pause_time p1) (\<lambda>(r, p2).
       Inr (r, p2, rb')))))))"

subsection \<open>Lemmas: masking\<close>

text \<open>No response token that is stale at step \<open>t\<close> is supervised.\<close>

definition no_stale_label :: "int \<Rightarrow> int \<Rightarrow> RolloutState \<Rightarrow> bool" where
  "no_stale_label t th s \<longleftrightarrow>
     (case rs_labels s of
        None \<Rightarrow> True
      | Some labs \<Rightarrow>
          let resp = or_nil (response_ids s); steps = or_nil (response_model_steps s) in
          length resp \<le> length labs \<longrightarrow>
          (\<forall>i < length resp. i < length steps \<longrightarrow> th \<le> calculate_seq_staleness (steps ! i) t \<longrightarrow>
             labs ! (length labs - length resp + i) = ignore_index))"

lemma apply_effective_mask:
  assumes "apply_response_mask s (calculate_effective_response_mask s t th) = Inr s'"
    and "length (or_nil (response_ids s)) \<le> length (or_nil (rs_labels s))"
  shows "no_stale_label t th s' \<and> task_name s' = task_name s"
proof -
  let ?m = "calculate_effective_response_mask s t th" and ?resp = "or_nil (response_ids s)"
  obtain labs where labs: "rs_labels s = Some labs" and len: "length ?m = length ?resp"
    and s': "\<exists>labs' meta. mask_loop (int (length labs) - int (length ?m)) ?m labs = Inr labs' \<and> s' = s\<lparr>rs_labels := Some labs', train_meta := meta\<rparr>"
    using assms(1) by (auto simp: apply_response_mask_def rbind_Inr_iff split: option.splits if_splits)
  let ?k = "length labs - length ?resp"
  have le: "length ?m \<le> length labs" using assms(2) labs len by simp
  let ?labs' = "take ?k labs @ mask_labels ?m (drop ?k labs)"
  obtain meta where s'': "s' = s\<lparr>rs_labels := Some ?labs', train_meta := meta\<rparr>"
    using s' mask_loop_drop [OF le] len by auto
  have ll: "length ?labs' = length labs" using le len by simp
  have "?labs' ! (?k + i) = ignore_index" if i: "i < length ?resp" "i < length (or_nil (response_model_steps s))"
      "th \<le> calculate_seq_staleness (or_nil (response_model_steps s) ! i) t" for i
  proof -
    have "\<not> ?m ! i" using i len labs by (simp add: calculate_effective_response_mask_def Let_def)
    moreover have "length (take ?k labs) = ?k" by simp
    then have "?labs' ! (?k + i) = mask_labels ?m (drop ?k labs) ! i"
      using nth_append_length_plus [of "take ?k labs" "mask_labels ?m (drop ?k labs)" i] by (simp only:)
    ultimately show ?thesis using i(1) len le by (simp add: mask_labels_nth)
  qed
  moreover obtain labs' where labs': "labs' = ?labs'" by simp
  ultimately have "labs' ! (length labs' - length ?resp + i) = ignore_index" if "i < length ?resp" "i < length (or_nil (response_model_steps s))"
      "th \<le> calculate_seq_staleness (or_nil (response_model_steps s) ! i) t" for i
    using that ll by simp
  then show ?thesis unfolding s'' labs' [symmetric] no_stale_label_def Let_def by auto
qed

lemma mask_group_spec:
  assumes "mask_group t th g = Inr g'"
  shows "list_all (no_stale_label t th) g' \<and> map task_name g' = map task_name g"
proof -
  let ?f = "\<lambda>(s, m). case m of None \<Rightarrow> Inr s | Some bs \<Rightarrow> apply_response_mask s bs"
  obtain ms where ms: "calculate_group_effective_response_masks g t (Some th) = Inr ms" and ap: "rmap ?f (zip g ms) = Inr g'"
    using assms by (auto simp: mask_group_def rbind_Inr_iff)
  have len: "length ms = length g" "length g' = length g" using masks_length [OF ms] rmap_length [OF ap] by auto
  have "no_stale_label t th (g' ! i) \<and> task_name (g' ! i) = task_name (g ! i)" if i: "i < length g" for i
  proof -
    have r: "?f (g ! i, ms ! i) = Inr (g' ! i)"
      using ap i len unfolding rmap_Inr_iff by (auto simp: list_all2_conv_all_nth)
    let ?s = "g ! i"
    have m: "(if rs_labels ?s = None \<or> or_nil (response_ids ?s) = [] \<or> length (or_nil (rs_labels ?s)) < length (or_nil (response_ids ?s)) then Inr None
        else if response_model_steps ?s = None then Inl TypeError
        else Inr (Some (calculate_effective_response_mask ?s t th))) = Inr (ms ! i)"
      using ms i unfolding calculate_group_effective_response_masks_def option.case rmap_Inr_iff by (auto simp: list_all2_conv_all_nth)
    show ?thesis
    proof (cases "ms ! i")
      case None
      then have "no_stale_label t th ?s" using m by (auto simp: no_stale_label_def Let_def split: if_splits option.splits)
      then show ?thesis using r None by simp
    next
      case (Some bs)
      then have "bs = calculate_effective_response_mask ?s t th" "length (or_nil (response_ids ?s)) \<le> length (or_nil (rs_labels ?s))"
        using m by (auto split: if_splits)
      then show ?thesis using apply_effective_mask [of ?s t th "g' ! i"] r Some by simp
    qed
  qed
  then show ?thesis using len by (auto simp: list_all_length intro!: nth_equalityI)
qed

text \<open>The states of a task of the batch have no stale label.\<close>

definition masked :: "int \<Rightarrow> TaskRunner \<Rightarrow> string \<times> RolloutState list list \<Rightarrow> bool" where
  "masked t r entry \<longleftrightarrow> (\<forall>th. fst entry = tr_task_name r \<longrightarrow> tr_token_stale_threshold r = Some th \<longrightarrow>
     list_all (no_stale_label t th) (concat (snd entry)))"

lemma mask_groups_spec:
  assumes "rmap (mask_group t th) gs = Inr gs'"
  shows "list_all (no_stale_label t th) (concat gs') \<and> map (map task_name) gs' = map (map task_name) gs"
proof -
  have l2: "list_all2 (\<lambda>g g'. mask_group t th g = Inr g') gs gs'" using assms unfolding rmap_Inr_iff .
  then show ?thesis by (induction gs gs' rule: list_all2_induct) (auto dest: mask_group_spec)
qed

lemma mask_batch_spec:
  assumes "mask_batch t runners batch = Inr batch'" "distinct (map tr_task_name runners)"
  shows "list_all2 (\<lambda>e e'. fst e' = fst e \<and> map (map task_name) (snd e') = map (map task_name) (snd e) \<and>
    (\<forall>r \<in> set runners. masked t r e') \<and> (fst e \<in> tr_task_name ` set runners \<or> e' = e)) batch batch'"
  using assms
proof (induction runners arbitrary: batch)
  case Nil
  then show ?case by (auto simp: list_all2_same)
next
  case (Cons r rs)
  obtain batch1 where b1: "(case tr_token_stale_threshold r of None \<Rightarrow> Inr batch | Some th \<Rightarrow>
        rmap (\<lambda>(k, gs). if k = tr_task_name r then rbind (rmap (mask_group t th) gs) (\<lambda>gs'. Inr (k, gs')) else Inr (k, gs)) batch) = Inr batch1"
      and rest: "mask_batch t rs batch1 = Inr batch'"
    using Cons.prems(1) by (auto simp: rbind_Inr_iff)
  have step: "list_all2 (\<lambda>e e'. fst e' = fst e \<and> map (map task_name) (snd e') = map (map task_name) (snd e) \<and> masked t r e' \<and>
      (fst e = tr_task_name r \<or> e' = e)) batch batch1"
  proof (cases "tr_token_stale_threshold r")
    case None
    then show ?thesis using b1 by (auto simp: list_all2_same masked_def)
  next
    case (Some th)
    then have "list_all2 (\<lambda>e e'. (\<lambda>(k, gs). if k = tr_task_name r then rbind (rmap (mask_group t th) gs) (\<lambda>gs'. Inr (k, gs')) else Inr (k, gs)) e = Inr e') batch batch1"
      using b1 by (simp add: rmap_Inr_iff)
    then show ?thesis
      by (rule list_all2_mono) (auto simp: masked_def Some rbind_Inr_iff dest: mask_groups_spec split: if_splits)
  qed
  have IH: "list_all2 (\<lambda>e e'. fst e' = fst e \<and> map (map task_name) (snd e') = map (map task_name) (snd e) \<and>
      (\<forall>r \<in> set rs. masked t r e') \<and> (fst e \<in> tr_task_name ` set rs \<or> e' = e)) batch1 batch'"
    using Cons.IH [OF rest] Cons.prems(2) by simp
  have "masked t r e'" if "fst e' = fst e1" "masked t r e1" "fst e1 \<in> tr_task_name ` set rs \<or> e' = e1" for e1 e'
    using that Cons.prems(2) by (cases "fst e1 = tr_task_name r") (auto simp: masked_def)
  note keep = this
  show ?case
  proof (rule list_all2_trans [OF _ step IH], elim conjE, intro conjI ballI)
    fix e e1 e' x
    assume e: "fst e1 = fst e" "map (map task_name) (snd e1) = map (map task_name) (snd e)" "masked t r e1" "fst e = tr_task_name r \<or> e1 = e"
      and e': "fst e' = fst e1" "map (map task_name) (snd e') = map (map task_name) (snd e1)" "\<forall>r \<in> set rs. masked t r e'"
        "fst e1 \<in> tr_task_name ` set rs \<or> e' = e1"
    show "fst e' = fst e" using e(1) e'(1) by simp
    show "map (map task_name) (snd e') = map (map task_name) (snd e)" using e(2) e'(2) by simp
    show "masked t x e'" if "x \<in> set (r # rs)" using that keep [OF e'(1) e(3) e'(4)] e'(3) by auto
    show "fst e \<in> tr_task_name ` set (r # rs) \<or> e' = e" using e(1,4) e'(4) by auto
  qed
qed

subsection \<open>Lemmas: the result\<close>

lemma single_result_states:
  "single_result t batch left time p = Inr (r, p') \<Longrightarrow>
     pb_rollout_states r = (case map_of batch (tr_task_name t) of None \<Rightarrow> [] | Some gs \<Rightarrow> gs)"
  by (auto simp: single_result_def merge_discarded_counts_def fill_leftover_counts_def task_result_def rbind_Inr_iff Let_def)

lemma fill_timing_states: "pb_rollout_states (fill_group_timing_stats pause r) = pb_rollout_states r"
  by (simp add: fill_group_timing_stats_def fill_produce_timing_stats_def Let_def)

lemma task_results_states:
  "task_results_loop ts batch left p = Inr (rs, p') \<Longrightarrow>
     map (\<lambda>(k, r). (k, pb_rollout_states r)) rs = map (\<lambda>t. (tr_task_name t, case map_of batch (tr_task_name t) of None \<Rightarrow> [] | Some gs \<Rightarrow> gs)) ts"
  by (induction ts arbitrary: p rs p') (auto simp: rbind_Inr_iff dest!: single_result_states)

lemma mset_concat_map: "mset (concat (map f xs)) = (\<Sum>x \<in># mset xs. mset (f x))"
  by (induction xs) auto

lemma aggregate_states:
  assumes "aggregate_task_results ordered results = Inr r"
    and "\<And>t. t \<in> set ordered \<Longrightarrow> map_option pb_rollout_states (map_of results (tr_task_name t)) = Some (f t)"
  shows "pb_rollout_states r = concat (map f ordered)"
proof -
  obtain rs where rs: "rmap (\<lambda>t. dict_read results (tr_task_name t)) ordered = Inr rs" and r: "pb_rollout_states r = concat (map pb_rollout_states rs)"
    using assms(1) by (auto simp: aggregate_task_results_def rbind_Inr_iff Let_def split: if_splits)
  have one: "pb_rollout_states y = f x" if "dict_read results (tr_task_name x) = Inr y" "x \<in> set ordered" for x y
    using assms(2) [OF that(2)] that(1) by (auto simp: dict_read_def split: option.splits)
  have "map pb_rollout_states rs = map f ordered"
    using rs one unfolding rmap_Inr_iff by (auto simp: list_all2_conv_all_nth intro!: nth_equalityI)
  then show ?thesis using r by simp
qed

lemma result_states:
  assumes "build_produce_batch_result runners sizes batch left pause p = Inr (r, p')" "distinct (map tr_task_name runners)"
  shows "mset (pb_rollout_states r) = mset (concat (map (\<lambda>t. case map_of batch (tr_task_name t) of None \<Rightarrow> [] | Some gs \<Rightarrow> gs) runners))"
proof -
  let ?f = "\<lambda>t. case map_of batch (tr_task_name t) of None \<Rightarrow> [] | Some gs \<Rightarrow> gs"
  consider t where "runners = [t]" | "\<nexists>t. runners = [t]" by blast
  then show ?thesis
  proof cases
    case 1
    then obtain r1 p1 where "single_result t batch left (produce_time_s p) p1 = Inr (r1, p')"
        "pb_rollout_states r = pb_rollout_states (fill_group_timing_stats pause r1)"
      using assms(1) by (auto simp: build_produce_batch_result_def consume_produce_time_def rbind_Inr_iff TaskResult.defs ProduceBatchResult.defs)
    then show ?thesis using 1 single_result_states [of t batch left "produce_time_s p" p1 r1 p'] by (simp add: fill_timing_states)
  next
    case 2
    let ?ord = "sort_key (\<lambda>t. (tr_task_name t, tr_order t)) runners"
    have eq: "build_produce_batch_result runners sizes batch left pause p =
        (let (time, p1) = consume_produce_time p in
          rbind (task_results_loop runners batch left p1) (\<lambda>(results, p2).
            rbind (aggregate_task_results ?ord (dict_of results)) (\<lambda>agg.
            rbind (rmap (\<lambda>t. rbind (dict_read sizes (tr_task_name t)) (\<lambda>n. Inr (tr_task_name t, n))) ?ord) (\<lambda>task_sizes.
              Inr (fill_group_timing_stats pause (agg\<lparr>pb_produce_time_s := time, pb_task_batch_sizes := Some (dict_of task_sizes)\<rparr>), p2)))))"
      using 2 unfolding build_produce_batch_result_def Let_def by (auto split: list.splits)
    from assms(1) [unfolded eq] obtain results agg time ts where loop: "task_results_loop runners batch left (snd (consume_produce_time p)) = Inr (results, p')"
      and agg: "aggregate_task_results ?ord (dict_of results) = Inr agg"
      and r: "r = fill_group_timing_stats pause (agg\<lparr>pb_produce_time_s := time, pb_task_batch_sizes := ts\<rparr>)"
      by (auto simp: rbind_Inr_iff case_prod_beta Let_def)
    have rs: "map (\<lambda>(k, r). (k, pb_rollout_states r)) results = map (\<lambda>t. (tr_task_name t, ?f t)) runners"
      by (rule task_results_states [OF loop])
    then have "map fst (map (\<lambda>(k, r). (k, pb_rollout_states r)) results) = map tr_task_name runners" by simp
    then have keys: "map fst results = map tr_task_name runners" by (simp add: comp_def case_prod_unfold)
    have "map_option pb_rollout_states (map_of (dict_of results) (tr_task_name t)) = Some (?f t)" if "t \<in> set ?ord" for t
    proof -
      have "t \<in> set runners" using that by simp
      from map_of_by [OF assms(2) this, of ?f] have "map_of (map (\<lambda>(k, r). (k, pb_rollout_states r)) results) (tr_task_name t) = Some (?f t)"
        unfolding rs .
      then show ?thesis using dict_of_distinct [of results] keys assms(2) by (simp add: map_of_map)
    qed
    from aggregate_states [OF agg this] have "pb_rollout_states r = concat (map ?f ?ord)" by (simp add: r fill_timing_states)
    then show ?thesis by (simp add: mset_concat_map)
  qed
qed

lemma lookup_entries:
  assumes "map fst batch = map tr_task_name runners" "distinct (map tr_task_name runners)"
  shows "map (\<lambda>tr. case map_of batch (tr_task_name tr) of None \<Rightarrow> [] | Some gs \<Rightarrow> gs) runners = map snd batch"
proof (rule nth_equalityI)
  show "length (map (\<lambda>tr. case map_of batch (tr_task_name tr) of None \<Rightarrow> [] | Some gs \<Rightarrow> gs) runners) = length (map snd batch)"
    using map_eq_imp_length_eq [OF assms(1)] by simp
  fix i assume "i < length (map (\<lambda>tr. case map_of batch (tr_task_name tr) of None \<Rightarrow> [] | Some gs \<Rightarrow> gs) runners)"
  then have i: "i < length runners" "i < length batch" using map_eq_imp_length_eq [OF assms(1)] by simp_all
  then have "tr_task_name (runners ! i) = fst (batch ! i)" using assms(1) by (metis nth_map)
  then show "map (\<lambda>tr. case map_of batch (tr_task_name tr) of None \<Rightarrow> [] | Some gs \<Rightarrow> gs) runners ! i = map snd batch ! i"
    using i map_of_nth [of batch i, unfolded assms(1), OF assms(2) i(2)] by simp
qed

text \<open>What a returned batch consists of: one entry per size, with the task's name on its samples and its masks applied.\<close>

definition taken_entry :: "TaskRunner list \<Rightarrow> int \<Rightarrow> string \<times> RolloutState list list \<Rightarrow> string \<times> RolloutState list list \<Rightarrow> bool" where
  "taken_entry runners t e e' \<longleftrightarrow> fst e' = fst e \<and> map (map task_name) (snd e') = map (map (\<lambda>_. Some (fst e))) (snd e) \<and>
     (\<forall>tr \<in> set runners. masked t tr e')"

lemma train_batch_entries:
  assumes run: "take_train_batch mark runners sizes t pause p rb = Inr (r, p', rb')"
    and names: "distinct (map tr_task_name runners)" and keys: "map fst sizes = map tr_task_name runners"
    and ok: "storage_ok (rb_storage rb)" and ready: "is_ready sizes COMPLETED rb = Inr True"
  obtains batch batch' where "map (\<lambda>(a, g). (a, int (length g))) batch = map (\<lambda>(a, n). (a, max 0 n)) sizes"
    and "list_all2 (taken_entry runners t) batch batch'" and "map fst batch' = map tr_task_name runners"
    and "mset (pb_rollout_states r) = mset (concat (map snd batch'))"
proof -
  let ?nm = "map (\<lambda>(k, gs). (k, map (map (\<lambda>s. s\<lparr>task_name := Some k\<rparr>)) gs))"
  have dist: "distinct (map fst sizes)" using names keys by simp
  obtain batch counts batch' left p1 where tb: "take_batch sizes COMPLETED rb = Inr (batch, counts, rb')"
    and mk: "mask_batch t runners (?nm batch) = Inr batch'"
    and res: "build_produce_batch_result runners sizes batch' left pause p1 = Inr (r, p')"
    using run by (auto simp: take_train_batch_def rbind_Inr_iff)
  have be: "list_all2 (batch_entry COMPLETED (content (rb_storage rb))) sizes batch" using take_batch_ok [OF ok dist, of COMPLETED] tb by auto
  have cnt: "map (\<lambda>(a, g). (a, int (length g))) batch = map (\<lambda>(a, n). (a, max 0 n)) sizes" by (rule ready_counts [OF ready be])
  have entries: "list_all2 (taken_entry runners t) batch batch'"
    using mask_batch_spec [OF mk names] unfolding list_all2_map1 by (rule list_all2_mono) (auto simp: comp_def taken_entry_def)
  have "map fst batch' = map fst batch" using entries by (induction rule: list_all2_induct) (auto simp: taken_entry_def)
  also have "\<dots> = map tr_task_name runners" using arg_cong [OF cnt, of "map fst"] keys by (simp add: comp_def case_prod_unfold)
  finally have keys': "map fst batch' = map tr_task_name runners" .
  show thesis
    by (rule that [OF cnt entries keys']) (use result_states [OF res names] lookup_entries [OF keys' names] in simp)
qed

lemma train_batch_length:
  assumes "take_train_batch mark runners sizes t pause p rb = Inr (r, p', rb')"
    and "distinct (map tr_task_name runners)" and "map fst sizes = map tr_task_name runners"
    and "storage_ok (rb_storage rb)" and "is_ready sizes COMPLETED rb = Inr True" and nonneg: "list_all (\<lambda>(k, n). 0 \<le> n) sizes"
  shows "int (length (pb_rollout_states r)) = sum_list (map snd sizes)"
proof -
  from assms(1-5) obtain batch batch' where cnt: "map (\<lambda>(a, g). (a, int (length g))) batch = map (\<lambda>(a, n). (a, max 0 n)) sizes"
    and entries: "list_all2 (taken_entry runners t) batch batch'" and st: "mset (pb_rollout_states r) = mset (concat (map snd batch'))"
    by (rule train_batch_entries)
  have lens: "map (length \<circ> snd) batch' = map (length \<circ> snd) batch"
    using entries by (induction rule: list_all2_induct) (auto simp: taken_entry_def dest: map_eq_imp_length_eq)
  have "length (pb_rollout_states r) = sum_list (map (length \<circ> snd) batch)"
    using st by (metis size_mset length_concat map_map lens)
  moreover have "map (\<lambda>x. int (length (snd x))) batch = map snd sizes"
  proof -
    have "map (\<lambda>x. int (length (snd x))) batch = map (\<lambda>(a, n). max 0 n) sizes"
      using arg_cong [OF cnt, of "map snd"] by (simp add: comp_def case_prod_unfold)
    then show ?thesis using nonneg by (auto simp: list_all_iff)
  qed
  moreover have "int (sum_list (map f xs)) = sum_list (map (\<lambda>x. int (f x)) xs)" for f :: "string \<times> RolloutState list list \<Rightarrow> nat" and xs
    by (induction xs) auto
  ultimately show ?thesis by (simp add: comp_def)
qed

lemma train_batch_sample:
  assumes "take_train_batch mark runners sizes t pause p rb = Inr (r, p', rb')"
    and "distinct (map tr_task_name runners)" and "map fst sizes = map tr_task_name runners"
    and "storage_ok (rb_storage rb)" and "is_ready sizes COMPLETED rb = Inr True" and s: "s \<in> set (concat (pb_rollout_states r))"
  shows "\<exists>tr \<in> set runners. task_name s = Some (tr_task_name tr) \<and> (\<forall>th. tr_token_stale_threshold tr = Some th \<longrightarrow> no_stale_label t th s)"
proof -
  from assms(1-5) obtain batch batch' where entries: "list_all2 (taken_entry runners t) batch batch'" and keys': "map fst batch' = map tr_task_name runners"
    and st: "mset (pb_rollout_states r) = mset (concat (map snd batch'))"
    by (rule train_batch_entries)
  obtain e' g where e': "e' \<in> set batch'" "g \<in> set (snd e')" "s \<in> set g" using s mset_eq_setD [OF st] by auto
  from list_all2_in2 [OF entries e'(1)] obtain e :: "string \<times> RolloutState list list" where e: "fst e' = fst e" "map (map task_name) (snd e') = map (map (\<lambda>_. Some (fst e))) (snd e)"
      "\<forall>tr \<in> set runners. masked t tr e'" by (auto simp: taken_entry_def)
  have "map task_name g \<in> set (map (map (\<lambda>_. Some (fst e))) (snd e))" using e'(2) unfolding e(2) [symmetric] by simp
  then have "task_name s = Some (fst e)" using e'(3) by (auto simp: map_eq_conv map_replicate_const dest!: arg_cong [of "map task_name g" _ set])
  moreover have "fst e' \<in> set (map tr_task_name runners)" using e'(1) unfolding keys' [symmetric] by simp
  then obtain tr where tr: "tr \<in> set runners" "fst e' = tr_task_name tr" by auto
  moreover have "no_stale_label t th s" if "tr_token_stale_threshold tr = Some th" for th
    using e(3) tr that e'(2,3) by (auto simp: masked_def list_all_iff)
  ultimately show ?thesis using e(1) by auto
qed

subsection \<open>Properties\<close>

text \<open>No stale token is trained on: whenever \<open>take_train_batch\<close> returns a batch, every sample of it carries the name of
  its task, and for every task with a token threshold no response token whose staleness at the training step has
  reached the threshold is supervised. When the buffer was ready, the batch has as many groups as the sizes ask for.\<close>

theorem train_batch_no_stale_token:
  assumes run: "take_train_batch mark runners sizes t pause p rb = Inr (r, p', rb')"
    and names: "distinct (map tr_task_name runners)" and keys: "map fst sizes = map tr_task_name runners"
    and ok: "storage_ok (rb_storage rb)" and ready: "is_ready sizes COMPLETED rb = Inr True" and nonneg: "list_all (\<lambda>(k, n). 0 \<le> n) sizes"
  shows "int (length (pb_rollout_states r)) = sum_list (map snd sizes) \<and>
    list_all (\<lambda>s. \<exists>tr \<in> set runners. task_name s = Some (tr_task_name tr) \<and>
      (\<forall>th. tr_token_stale_threshold tr = Some th \<longrightarrow> no_stale_label t th s)) (concat (pb_rollout_states r))"
  using train_batch_length [OF run names keys ok ready nonneg] train_batch_sample [OF run names keys ok ready] by (simp add: list_all_iff)

definition stale_group :: "RolloutState list" where
  "stale_group = [(default_state VNone)\<lparr>status := COMPLETED, response_ids := Some [7, 8], response_model_steps := Some [1, 4],
     rs_labels := Some [-100, 7, 8],
     train_meta := Some \<lparr>prompt_length = 1, response_length = 2, supervised_tokens = 2, mrope_3d = False, has_rollout_logprobs = False,
       has_routed_experts = False, segment_index = VNone\<rparr>\<rparr>]"

definition stale_buffer :: ReplayBuffer where
  "stale_buffer = \<lparr>rb_policy = FIFOReplayPolicy, rb_storage = \<lparr>uid_gen = 2, timestamp_id_gen = 2, items =
     [(1, \<lparr>si_item = stale_group, si_uid = 1, si_timestamp_id = 1, si_task_name = ''a'', si_status = COMPLETED, si_staleness = 0\<rparr>)]\<rparr>\<rparr>"

definition masking_runner :: TaskRunner where
  "masking_runner = \<lparr>tr_task_name = ''a'', tr_produce_strategy = AsyncStrategy (async_strategy_init 0 True 0 None 4 (Some 1) 1), tr_weight = 1, tr_order = 0\<rparr>"

lemma count_statuses_total: "\<exists>left. count_statuses names sts rb = Inr left"
  unfolding count_statuses_def buffer_count_eq by (auto simp: rmap_total)

lemma stale_mask:
  "mask_batch 5 [masking_runner] [(''a'', map (map (\<lambda>s. s\<lparr>task_name := Some ''a''\<rparr>)) [stale_group])] =
     Inr [(''a'', [[(hd stale_group)\<lparr>task_name := Some ''a'', rs_labels := Some [-100, -100, 8],
       train_meta := map_option (\<lambda>m. m\<lparr>supervised_tokens := 1\<rparr>) (train_meta (hd stale_group))\<rparr>]])]"
  by (simp add: masking_runner_def stale_group_def tr_token_stale_threshold_def async_strategy_init_def calculate_stale_threshold_def mask_group_def
      calculate_group_effective_response_masks_def calculate_effective_response_mask_def calculate_seq_staleness_def default_state_def
      apply_response_mask_def ignore_index_def py_set_def count_supervised_def or_nil_def Let_def)

theorem train_batch_no_stale_token_witness:
  "\<exists>r p' rb'. take_train_batch (\<lambda>_ p. Inr p) [masking_runner] [(''a'', 1)] 5 0 (progress_build [''a''] [(''a'', 1)]) stale_buffer = Inr (r, p', rb') \<and>
     length (pb_rollout_states r) = 1"
proof -
  have ok: "storage_ok (rb_storage stale_buffer)" by (simp add: stale_buffer_def storage_ok_def content_def keyed_def)
  have c: "content (rb_storage stale_buffer) =
      [\<lparr>si_item = stale_group, si_uid = 1, si_timestamp_id = 1, si_task_name = ''a'', si_status = COMPLETED, si_staleness = 0\<rparr>]"
    by (simp add: stale_buffer_def content_def)
  obtain batch rb' where b: "take_batch [(''a'', 1)] COMPLETED stale_buffer = Inr (batch, map (\<lambda>(a, g). (a, length g)) batch, rb')"
      "list_all2 (batch_entry COMPLETED (content (rb_storage stale_buffer))) [(''a'', 1)] batch"
    using take_batch_ok [OF ok, of "[(''a'', 1)]" COMPLETED] by auto
  have "batch = [(''a'', [stale_group])]"
    using b(2) by (auto simp: c batch_entry_def of_task_def list_all2_Cons1 length_Suc_conv)
  then have tb: "take_batch [(''a'', 1)] COMPLETED stale_buffer = Inr ([(''a'', [stale_group])], [(''a'', 1)], rb')" using b(1) by simp
  obtain left where left: "count_statuses [''a''] leftover_statuses rb' = Inr left" using count_statuses_total by blast
  have nm: "tr_task_name masking_runner = ''a''" by (simp add: masking_runner_def)
  obtain r p' where r: "take_train_batch (\<lambda>_ p. Inr p) [masking_runner] [(''a'', 1)] 5 0 (progress_build [''a''] [(''a'', 1)]) stale_buffer = Inr (r, p', rb')"
    using tb stale_mask left nm
    by (simp add: take_train_batch_def dict_read_def build_produce_batch_result_def consume_produce_time_def single_result_def consume_raw_rewards_def
        consume_produced_def merge_discarded_counts_def consume_discarded_def progress_build_def dict_const_def Let_def del: mask_batch.simps take_batch.simps)
  have "is_ready [(''a'', 1)] COMPLETED stale_buffer = Inr True" by (simp add: is_ready_eq c of_task_def)
  from train_batch_no_stale_token [OF r _ _ ok this] show ?thesis using r nm by auto
qed

end
