(* ===== verification/Producer.thy ===== *)
theory Producer
  imports ProduceUtils
begin

text \<open>
  The production strategies: \<open>SyncProduceStrategy\<close> and \<open>AsyncProduceStrategy\<close> of
  \<^verbatim>\<open>rl/agent_loop_manager/producer.py\<close>, \<open>DisaggAsyncProduceStrategy\<close> of \<^verbatim>\<open>disagg_producer.py\<close>, and draining of
  pending tasks (\<open>pause_pending_tasks\<close>, \<open>_LocalPendingTasks\<close> of \<^verbatim>\<open>produce_utils.py\<close>).

  A pending task is its number and the group that its agent loop was called with; what the agent loop returns for it is an argument
  (\<open>env_agent\<close>). \<open>asyncio.wait\<close> is the environment's: a run takes a list of rounds, each the
  numbers of the tasks that have finished, and stops, unfinished, when the rounds are used up; an empty round is a
  timeout. Every call of \<open>should_abort\<close> reads the next of a list of observations \<open>abort_seen\<close> of the update event.
  One strategy is modelled at a time; the strategies of other tasks share only the buffer, where they touch the
  records of their own tasks.
\<close>

record env =
  env_det :: bool
  env_data :: "nat \<Rightarrow> RolloutState"
  env_iter :: "sampler \<Rightarrow> (nat list \<times> sampler) res"
  env_parse :: "string \<Rightarrow> pyfloat option"
  env_agent :: "nat \<Rightarrow> RolloutState list \<Rightarrow> bool \<Rightarrow> RolloutState list"
  env_elapsed :: "nat \<Rightarrow> pyfloat"

record 'p producer_state =
  pr_sampler :: dataset_sampler
  pr_progress :: 'p
  pr_buffer :: ReplayBuffer
  pr_store :: "trace_store option"
  pr_heap :: "pyval list"
  pr_freed :: "nat list"
  pr_pending :: "(nat \<times> RolloutState list) list"
  pr_next :: nat

subsection \<open>Spawning and claiming\<close>

definition spawn_one ::
  "env \<Rightarrow> produce_context \<Rightarrow> Status list option \<Rightarrow> 'p producer_state \<Rightarrow> 'p producer_state res" where
  "spawn_one env ctx group_status s =
     rbind (sampler_sample (env_det env) (env_data env) (env_iter env) (ctx_task_name ctx) group_status
              (pr_sampler s) (pr_buffer s) (pr_heap s)) (\<lambda>(g, ds, rb, heap).
       Inr (s\<lparr>pr_sampler := ds, pr_buffer := rb, pr_heap := heap, pr_pending := pr_pending s @ [(pr_next s, prepare_group ctx g)],
              pr_next := Suc (pr_next s)\<rparr>))"

fun spawn_many :: "env \<Rightarrow> produce_context \<Rightarrow> Status list option \<Rightarrow> nat \<Rightarrow> 'p producer_state \<Rightarrow> 'p producer_state res" where
  "spawn_many env ctx group_status 0 s = Inr s"
| "spawn_many env ctx group_status (Suc n) s = rbind (spawn_one env ctx group_status s) (spawn_many env ctx group_status n)"

text \<open>The result of a finished task.\<close>

definition task_output :: "env \<Rightarrow> bool \<Rightarrow> nat \<times> RolloutState list \<Rightarrow> RolloutState list" where
  "task_output env partial_rollout = (\<lambda>(i, g). generated_group (env_agent env i) (env_elapsed env i) partial_rollout g)"

text \<open>Take the finished tasks out of the pending ones and put their groups.\<close>

definition claim_done ::
  "env \<Rightarrow> produce_context \<Rightarrow> bool \<Rightarrow> nat list \<Rightarrow> 'a ProduceProgress_scheme producer_state \<Rightarrow>
   (nat \<times> 'a ProduceProgress_scheme producer_state) res" where
  "claim_done env ctx partial_rollout finished s =
     (let (ready, rest) = partition (\<lambda>(i, g). i \<in> set finished) (pr_pending s) in
      rbind (put_claimed_tasks (env_parse env) ctx (map (task_output env partial_rollout) ready) (pr_progress s) (pr_buffer s) (pr_store s))
        (\<lambda>(n, p, rb, store, refs).
          Inr (n, s\<lparr>pr_pending := rest, pr_progress := p, pr_buffer := rb, pr_store := store, pr_freed := pr_freed s @ refs\<rparr>)))"

subsection \<open>Colocated synchronous production\<close>

text \<open>The loop keeps its own count of completed groups.\<close>

fun sync_loop ::
  "env \<Rightarrow> (int \<Rightarrow> int \<Rightarrow> bool) \<Rightarrow> produce_context \<Rightarrow> nat list list \<Rightarrow> nat \<Rightarrow> 'a ProduceProgress_scheme producer_state \<Rightarrow>
   (bool \<times> nat \<times> 'a ProduceProgress_scheme producer_state) res" where
  "sync_loop env should_continue ctx rounds completed s =
     (if \<not> should_continue (int completed) (ctx_task_batch_size ctx) then Inr (True, completed, s)
      else if pr_pending s = [] then Inr (True, completed, s)
      else
        case rounds of
          [] \<Rightarrow> Inr (False, completed, s)
        | finished # rounds' \<Rightarrow>
            rbind (claim_done env ctx False finished s) (\<lambda>(n, s1).
              let completed' = completed + n;
                  missing = nat (ctx_task_batch_size ctx - int completed' - int (length (pr_pending s1)))
              in rbind (if should_continue (int completed') (ctx_task_batch_size ctx) then spawn_many env ctx None missing s1 else Inr s1)
                   (sync_loop env should_continue ctx rounds' completed')))"

declare sync_loop.simps [simp del]

definition sync_produce_batch ::
  "env \<Rightarrow> (int \<Rightarrow> int \<Rightarrow> bool) \<Rightarrow> produce_context \<Rightarrow> nat list list \<Rightarrow> 'a ProduceProgress_scheme producer_state \<Rightarrow>
   (bool \<times> nat \<times> 'a ProduceProgress_scheme producer_state) res" where
  "sync_produce_batch env should_continue ctx rounds s =
     rbind (buffer_count (ctx_task_name ctx) COMPLETED (pr_buffer s)) (\<lambda>completed.
     rbind (spawn_many env ctx None (nat (ctx_task_batch_size ctx)) (s\<lparr>pr_pending := []\<rparr>))
       (sync_loop env should_continue ctx rounds completed))"

subsection \<open>Colocated asynchronous production\<close>

definition sample_expired :: "async_strategy \<Rightarrow> int \<Rightarrow> bool" where
  "sample_expired a expired_count \<longleftrightarrow> 0 \<le> tail_batch_trigger_size a \<and> 0 < expired_count \<and> tail_batch_trigger_size a \<le> expired_count"

definition tail_batch_triggered :: "async_strategy \<Rightarrow> int \<Rightarrow> bool" where
  "tail_batch_triggered a expired_count \<longleftrightarrow> 0 < tail_batch_trigger_size a \<and> tail_batch_trigger_size a \<le> expired_count"

definition scheduled_target :: "async_strategy \<Rightarrow> int \<Rightarrow> int \<Rightarrow> int \<Rightarrow> int" where
  "scheduled_target a expired_count batch_target task_batch_size =
     batch_target + (if tail_batch_triggered a expired_count then 0 else \<lceil>over_sample_threshold a * of_int task_batch_size\<rceil>)"

definition desired_pending :: "async_strategy \<Rightarrow> int \<Rightarrow> int \<Rightarrow> int" where
  "desired_pending a target available =
     (let d = max 0 (target - available) in case max_pending_tasks a of None \<Rightarrow> d | Some m \<Rightarrow> min d m)"

text \<open>One turn of the loop up to \<open>asyncio.wait\<close>: whether to go on, and the state.\<close>

definition async_schedule ::
  "env \<Rightarrow> (int \<Rightarrow> int \<Rightarrow> bool) \<Rightarrow> async_strategy \<Rightarrow> produce_context \<Rightarrow> Status list option \<Rightarrow> int \<Rightarrow> int \<Rightarrow> 'p producer_state \<Rightarrow>
   (bool \<times> 'p producer_state) res" where
  "async_schedule env should_continue a ctx sources batch_target sched_target s =
     rbind (buffer_count (ctx_task_name ctx) COMPLETED (pr_buffer s)) (\<lambda>available.
       if \<not> should_continue (int available) batch_target then Inr (False, s)
       else
         rbind (spawn_many env ctx sources (nat (desired_pending a sched_target (int available) - int (length (pr_pending s)))) s) (\<lambda>s1.
           Inr (pr_pending s1 \<noteq> [], s1)))"

fun async_loop ::
  "env \<Rightarrow> (int \<Rightarrow> int \<Rightarrow> bool) \<Rightarrow> async_strategy \<Rightarrow> produce_context \<Rightarrow> Status list option \<Rightarrow> int \<Rightarrow> int \<Rightarrow> nat list list \<Rightarrow>
   'a ProduceProgress_scheme producer_state \<Rightarrow> (bool \<times> 'a ProduceProgress_scheme producer_state) res" where
  "async_loop env should_continue a ctx sources batch_target sched_target [] s =
     rbind (async_schedule env should_continue a ctx sources batch_target sched_target s) (\<lambda>(go, s1). Inr (\<not> go, s1))"
| "async_loop env should_continue a ctx sources batch_target sched_target (finished # rounds) s =
     rbind (async_schedule env should_continue a ctx sources batch_target sched_target s) (\<lambda>(go, s1).
       if \<not> go then Inr (True, s1)
       else rbind (claim_done env ctx (enable_partial_rollout a) finished s1) (\<lambda>(n, s2).
         async_loop env should_continue a ctx sources batch_target sched_target rounds s2))"

definition async_produce_batch ::
  "env \<Rightarrow> (int \<Rightarrow> int \<Rightarrow> bool) \<Rightarrow> async_strategy \<Rightarrow> produce_context \<Rightarrow> nat list list \<Rightarrow> 'a ProduceProgress_scheme producer_state \<Rightarrow>
   (bool \<times> 'a ProduceProgress_scheme producer_state) res" where
  "async_produce_batch env should_continue a ctx rounds s =
     (case map_of (target_samples (pr_progress s)) (ctx_task_name ctx) of
        None \<Rightarrow> Inl KeyError
      | Some batch_target \<Rightarrow>
          let s0 = s\<lparr>pr_pending := []\<rparr> in
          if batch_target \<le> 0 then Inr (True, s0)
          else rbind (buffer_count (ctx_task_name ctx) EXPIRED (pr_buffer s0)) (\<lambda>expired_count.
            async_loop env should_continue a ctx (Some (group_sources (sample_expired a (int expired_count)))) batch_target
              (scheduled_target a (int expired_count) batch_target (ctx_task_batch_size ctx)) rounds s0))"

subsection \<open>Draining\<close>

text \<open>
  Wait for the pending tasks and put what they return; \<open>timed_out\<close> tells for every round whether the time limit
  has passed, in which case the remaining tasks are cancelled and their number is returned.
\<close>

fun pause_pending_tasks ::
  "env \<Rightarrow> produce_context \<Rightarrow> bool \<Rightarrow> (bool \<times> nat list) list \<Rightarrow> 'a ProduceProgress_scheme producer_state \<Rightarrow>
   (nat option \<times> 'a ProduceProgress_scheme producer_state) res" where
  "pause_pending_tasks env ctx partial_rollout rounds s =
     (if pr_pending s = [] then Inr (Some 0, s)
      else
        case rounds of
          [] \<Rightarrow> Inr (None, s)
        | (timed_out, finished) # rounds' \<Rightarrow>
            if timed_out then Inr (Some (length (pr_pending s)), s\<lparr>pr_pending := []\<rparr>)
            else rbind (claim_done env ctx partial_rollout finished s) (\<lambda>(n, s1).
              pause_pending_tasks env ctx partial_rollout rounds' s1))"

declare pause_pending_tasks.simps [simp del]

subsection \<open>Disaggregated production\<close>

definition is_model_expired :: "async_strategy \<Rightarrow> int \<Rightarrow> int \<Rightarrow> bool" where
  "is_model_expired a train_step model_step \<longleftrightarrow> as_stale_threshold a \<le> calculate_seq_staleness model_step train_step"

text \<open>The next observation of the update event; when none is left the event is not set.\<close>

definition should_abort :: "bool list \<Rightarrow> bool \<times> bool list" where
  "should_abort abort_seen = (case abort_seen of [] \<Rightarrow> (False, []) | b # bs \<Rightarrow> (b, bs))"

text \<open>\<open>while await schedule_one(...): pass\<close>, each turn under the lock.\<close>

fun schedule_loop ::
  "env \<Rightarrow> produce_context \<Rightarrow> Status list option \<Rightarrow> nat \<Rightarrow> bool list \<Rightarrow> 'p producer_state \<Rightarrow> (bool list \<times> 'p producer_state) res" where
  "schedule_loop env ctx sources room abort_seen s =
     (let (abort, seen) = should_abort abort_seen in
      if abort \<or> room = 0 then Inr (seen, s)
      else rbind (spawn_one env ctx sources s) (schedule_loop env ctx sources (room - 1) seen))"

declare schedule_loop.simps [simp del]

definition available_count :: "produce_context \<Rightarrow> DisaggProduceProgress \<Rightarrow> ReplayBuffer \<Rightarrow> int res" where
  "available_count ctx p rb =
     rbind (buffer_count (ctx_task_name ctx) COMPLETED rb) (\<lambda>n.
     rbind (dict_read (consumed_by_task p) (ctx_task_name ctx)) (\<lambda>c. Inr (c + int n)))"

text \<open>\<open>consumer_step\<close> of the disaggregated context is the trainer's step at the time of the call.\<close>

definition disagg_context :: "produce_context \<Rightarrow> DisaggProduceProgress producer_state \<Rightarrow> produce_context" where
  "disagg_context ctx s = ctx\<lparr>ctx_consumer_step := next_consumer_step (pr_progress s)\<rparr>"

text \<open>The code checks the event twice after scheduling, with nothing in between; that is one observation.\<close>

fun disagg_loop ::
  "env \<Rightarrow> (int \<Rightarrow> int \<Rightarrow> bool) \<Rightarrow> async_strategy \<Rightarrow> produce_context \<Rightarrow> Status list option \<Rightarrow> int \<Rightarrow> int \<Rightarrow> nat list list \<Rightarrow> bool list \<Rightarrow>
   DisaggProduceProgress producer_state \<Rightarrow> (ProduceBatchStatus option \<times> DisaggProduceProgress producer_state) res" where
  "disagg_loop env should_continue a ctx sources total_target sched_target rounds abort_seen s =
     (let (abort1, seen1) = should_abort abort_seen in
      if abort1 then Inr (Some PB_UPDATE_WEIGHT_AND_ABORT, s)
      else if is_model_expired a (ctx_train_step ctx) (ctx_model_step ctx) then Inr (Some PB_EXPIRED_BATCH, s)
      else
        rbind (available_count ctx (pr_progress s) (pr_buffer s)) (\<lambda>available.
          if \<not> should_continue available total_target then Inr (Some PB_NORMAL, s)
          else
            rbind (if available + int (length (pr_pending s)) < sched_target
                   then schedule_loop env ctx sources (nat (max 0 (sched_target - available)) - length (pr_pending s)) seen1 s
                   else Inr (seen1, s)) (\<lambda>(seen2, s1).
              let (abort2, seen3) = should_abort seen2 in
              if abort2 then Inr (Some PB_UPDATE_WEIGHT_AND_ABORT, s1)
              else if pr_pending s1 = [] then Inr (Some PB_NORMAL, s1)
              else
                case rounds of
                  [] \<Rightarrow> Inr (None, s1)
                | finished # rounds' \<Rightarrow>
                    rbind (claim_done env (disagg_context ctx s1) (enable_partial_rollout a) finished s1) (\<lambda>(n, s2).
                      disagg_loop env should_continue a ctx sources total_target sched_target rounds' seen3 s2))))"

declare disagg_loop.simps [simp del]

text \<open>The second check of the event and of the model's age, and the rest of the call. \<open>ready\<close> are the tasks of earlier
  calls that have finished by now.\<close>

definition disagg_produce_batch ::
  "env \<Rightarrow> (int \<Rightarrow> int \<Rightarrow> bool) \<Rightarrow> async_strategy \<Rightarrow> produce_context \<Rightarrow> nat list \<Rightarrow> nat list list \<Rightarrow> bool list \<Rightarrow>
   DisaggProduceProgress producer_state \<Rightarrow> (ProduceBatchStatus option \<times> DisaggProduceProgress producer_state) res" where
  "disagg_produce_batch env should_continue a ctx ready rounds abort_seen s =
     (let task = ctx_task_name ctx;
          expired = is_model_expired a (ctx_train_step ctx) (ctx_model_step ctx);
          (abort1, seen1) = should_abort abort_seen
      in
      if map_of (consumed_by_task (pr_progress s)) task = None then Inl KeyError
      else if map_of (target_samples (pr_progress s)) task = None then Inl KeyError
      else if abort1 then Inr (Some PB_UPDATE_WEIGHT_AND_ABORT, s)
      else if expired then Inr (Some PB_EXPIRED_BATCH, s)
      else
        rbind (claim_done env (disagg_context ctx s) (enable_partial_rollout a) ready s) (\<lambda>(n, s1).
          let (abort2, seen2) = should_abort seen1 in
          if abort2 then Inr (Some PB_UPDATE_WEIGHT_AND_ABORT, s1)
          else
            rbind (dict_read (target_samples (pr_progress s1)) task) (\<lambda>total_target.
              if total_target \<le> 0 then Inr (Some PB_NORMAL, s1)
              else rbind (buffer_count task EXPIRED (pr_buffer s1)) (\<lambda>expired_count.
                disagg_loop env should_continue a ctx (Some (group_sources (sample_expired a (int expired_count)))) total_target
                  (scheduled_target a (int expired_count) total_target (ctx_task_batch_size ctx)) rounds seen2 s1))))"

subsection \<open>Lemmas: putting and sampling leave the other records alone\<close>

definition completed_of :: "string \<Rightarrow> ReplayBuffer \<Rightarrow> nat" where
  "completed_of task rb = length (filter (of_task task {COMPLETED}) (content (rb_storage rb)))"

lemma buffer_count_completed: "buffer_count task COMPLETED rb = Inr (completed_of task rb)"
  by (simp add: buffer_count_eq completed_of_def)

lemma expired_not_completed: "EXPIRED \<in> status ` set g \<Longrightarrow> get_group_status g \<noteq> COMPLETED"
proof -
  assume "EXPIRED \<in> status ` set g"
  then obtain s where "s \<in> set g" "status s = EXPIRED" by auto
  then have "\<not> (\<forall>s \<in> set g. status s = COMPLETED)" "\<exists>s \<in> set g. status s = EXPIRED" by force+
  then show ?thesis unfolding get_group_status_def by (simp only: if_False if_True split: if_splits) simp
qed

lemma lifecycle_completed:
  assumes "apply_staleness_lifecycle g (Some t) th tok retryable = Inr (st, g', refs)" "\<not> (st = EXPIRED \<and> \<not> retryable)"
  shows "st = COMPLETED \<longleftrightarrow> get_group_status g' = COMPLETED"
proof (cases "st = EXPIRED")
  case True
  then have "EXPIRED \<in> status ` set g'" using assms lifecycle_expired [of g t th tok g' refs] by simp
  then show ?thesis using True expired_not_completed by auto
next
  case False
  have "get_group_status (refresh_seq_staleness g t) = get_group_status g"
    by (simp add: get_group_status_def refresh_seq_staleness_def refresh_status)
  moreover have "st = get_group_status g \<and> (g' = g \<or> g' = refresh_seq_staleness g t)"
  proof (cases "get_group_status g \<in> {COMPLETED, ABORTED, EXPIRED}")
    case True
    from assms(1) show ?thesis
      unfolding lifecycle_eq [OF True] Let_def rbind_Inr_iff using False by (auto split: if_splits)
  next
    case other: False
    from lifecycle_other [OF this, of "Some t" th tok retryable] assms(1) show ?thesis by simp
  qed
  ultimately show ?thesis by auto
qed

lemma put_group_completed:
  assumes ok: "storage_ok (rb_storage rb)" and g: "g \<noteq> []"
    and put: "put_group g task v (Some t) th tok retryable rb store = Inr (g', rb', store', refs)"
  shows "storage_ok (rb_storage rb') \<and>
    completed_of k rb' = completed_of k rb + (if k = task \<and> get_group_status g' = COMPLETED then 1 else 0)"
proof -
  let ?g1 = "case v of None \<Rightarrow> g | Some v \<Rightarrow> map (update_sample_version v) g"
  obtain st g2 refs1 where lc: "apply_staleness_lifecycle ?g1 (Some t) th tok retryable = Inr (st, g2, refs1)"
    using put g by (auto simp: put_group_def rbind_Inr_iff Let_def)
  have len: "length g2 = length g" using lifecycle_length [OF lc] by (simp split: option.splits)
  show ?thesis
  proof (cases "st = EXPIRED \<and> \<not> retryable")
    case True
    then obtain rel where f: "rb' = rb" "g' = map (status_update (\<lambda>_. EXPIRED) \<circ> (\<lambda>s. fst (detach_and_discard rel s))) g2"
      using put g lc by (auto simp: put_group_def discard_non_retryable_expired_groups_def release_and_discard_rollout_groups_def rbind_Inr_iff
          simp del: map_eq_conv)
    obtain s where "s \<in> set g2" using len g by (cases g2) auto
    then have "EXPIRED \<in> status ` set g'" by (force simp: f(2) image_iff)
    then show ?thesis using f(1) ok expired_not_completed by auto
  next
    case False
    let ?it = "\<lparr>si_item = g2, si_uid = 0, si_timestamp_id = 0, si_task_name = task, si_status = st, si_staleness = group_staleness g2\<rparr>"
    have rb': "rb' = rb\<lparr>rb_storage := policy_put ?it (rb_storage rb)\<rparr>" "g' = g2"
      using put g lc False by (auto simp: put_group_def Let_def)
    have "g2 \<noteq> []" using len g by auto
    then have "policy_put ?it (rb_storage rb) = snd (storage_put ?it (rb_storage rb))" by (simp add: policy_put_def)
    moreover obtain u ts where "storage_ok (snd (storage_put ?it (rb_storage rb)))"
        "content (snd (storage_put ?it (rb_storage rb))) = content (rb_storage rb) @ [?it\<lparr>si_uid := u, si_timestamp_id := ts\<rparr>]"
      using naive.put_ok [OF ok, of ?it] by blast
    ultimately show ?thesis using lifecycle_completed [OF lc False] rb' by (auto simp: completed_of_def of_task_def)
  qed
qed

text \<open>A generated group is discarded or goes through \<open>put_group\<close>.\<close>

lemma put_generated_group_cases:
  assumes "put_generated_group parse_float ctx g p rb store = Inr (c, p', rb', store', refs)"
  shows "(rb' = rb \<and> \<not> c) \<or>
    (\<exists>g'. put_group g (ctx_task_name ctx) (Some (ctx_model_step ctx)) (Some (ctx_consumer_step ctx)) (ctx_stale_threshold ctx)
      (ctx_token_stale_threshold ctx) (ctx_expired_groups_retryable ctx) rb store = Inr (g', rb', store', refs) \<and> c = (get_group_status g' = COMPLETED))"
proof (cases "validate_rollout_group g")
  case (Inl e)
  then show ?thesis using assms unfolding put_generated_group_def Let_def rbind_Inr_iff
    by (cases e) (auto simp: rbind_Inr_iff)
next
  case (Inr u)
  then show ?thesis
    using assms unfolding put_generated_group_def Let_def rbind_Inr_iff Inr
    by (cases "get_group_status g \<in> {FAILED, FILTERED}") (auto simp: rbind_Inr_iff)
qed

text \<open>Putting one generated group adds a completed record of the task exactly when it reports so, the empty group excepted.\<close>

lemma put_generated_group_completed:
  assumes "storage_ok (rb_storage rb)" and "put_generated_group parse_float ctx g p rb store = Inr (c, p', rb', store', refs)"
  shows "storage_ok (rb_storage rb') \<and>
    completed_of k rb' = completed_of k rb + (if k = ctx_task_name ctx \<and> c \<and> g \<noteq> [] then 1 else 0)"
  using put_generated_group_cases [OF assms(2)]
proof (elim disjE exE conjE)
  fix g' assume put: "put_group g (ctx_task_name ctx) (Some (ctx_model_step ctx)) (Some (ctx_consumer_step ctx)) (ctx_stale_threshold ctx)
      (ctx_token_stale_threshold ctx) (ctx_expired_groups_retryable ctx) rb store = Inr (g', rb', store', refs)" "c = (get_group_status g' = COMPLETED)"
  show ?thesis
  proof (cases "g = []")
    case True
    then show ?thesis using put(1) assms(1) by (simp add: put_group_def)
  next
    case False
    then show ?thesis using put_group_completed [OF assms(1) False put(1), of k] put(2) by simp
  qed
qed (use assms(1) in simp)

lemma put_claimed_completed:
  assumes "put_claimed_tasks parse_float ctx gs p rb store = Inr (n, p', rb', store', refs)" "storage_ok (rb_storage rb)"
  defines "c \<equiv> completed_of (ctx_task_name ctx)"
  shows "storage_ok (rb_storage rb') \<and> completed_of k rb \<le> completed_of k rb' \<and> c rb' \<le> c rb + length gs \<and>
    ([] \<notin> set gs \<longrightarrow> c rb' = c rb + n) \<and> (k \<noteq> ctx_task_name ctx \<longrightarrow> completed_of k rb' = completed_of k rb)"
  using assms(1,2)
proof (induction gs arbitrary: p rb store n p' rb' store' refs)
  case (Cons g gs)
  obtain b p1 rb1 store1 refs1 m refs2 where g: "put_generated_group parse_float ctx g p rb store = Inr (b, p1, rb1, store1, refs1)"
    and gs: "put_claimed_tasks parse_float ctx gs p1 rb1 store1 = Inr (m, p', rb', store', refs2)" and n: "n = (if b then Suc m else m)"
    using Cons.prems(1) by (auto simp: rbind_Inr_iff)
  note c1 = put_generated_group_completed [OF Cons.prems(2) g]
  show ?case using Cons.IH [OF gs] c1 [of k] c1 [of "ctx_task_name ctx"] n by (auto simp: c_def split: if_splits)
qed auto

lemma sample_from_buffer_completed:
  assumes "sample_from_buffer task sts rb = Inr (r, rb')" "storage_ok (rb_storage rb)" "COMPLETED \<notin> set sts"
  shows "storage_ok (rb_storage rb') \<and> completed_of k rb' = completed_of k rb"
  using assms
proof (induction sts arbitrary: rb)
  case (Cons st sts)
  have "(0 :: int) < 1" by simp
  from buffer_get_conserves [OF Cons.prems(2) this, of task st]
  obtain sel :: "StorageItem list" and rb1 where get: "buffer_get 1 task st rb = Inr (map si_item sel, rb1)" "storage_ok (rb_storage rb1)"
      "set sel \<subseteq> {it. of_task task {st} it}" "content (rb_storage rb1) = filter (\<lambda>it. it \<notin> set sel) (content (rb_storage rb))"
    by blast
  have "filter (of_task k {COMPLETED}) (content (rb_storage rb1)) = filter (of_task k {COMPLETED}) (content (rb_storage rb))"
    unfolding get(4) filter_filter by (rule filter_cong [OF refl]) (use get(3) Cons.prems(3) in \<open>auto simp: of_task_def\<close>)
  then have "completed_of k rb1 = completed_of k rb" by (simp add: completed_of_def)
  then show ?case using Cons.IH [of rb1] Cons.prems(1,3) get(1,2) by (auto split: list.splits)
qed simp

text \<open>Production never takes completed groups back: it samples new prompts or groups of the other statuses.\<close>

definition no_completed :: "Status list option \<Rightarrow> bool" where
  "no_completed sources \<longleftrightarrow> (case sources of None \<Rightarrow> True | Some sts \<Rightarrow> COMPLETED \<notin> set sts)"

lemma spawn_one_spec:
  assumes "spawn_one env ctx sources s = Inr s'" "storage_ok (rb_storage (pr_buffer s))" "no_completed sources"
  shows "storage_ok (rb_storage (pr_buffer s')) \<and> completed_of k (pr_buffer s') = completed_of k (pr_buffer s) \<and>
    length (pr_pending s') = Suc (length (pr_pending s)) \<and> pr_progress s' = pr_progress s"
  using assms sample_from_buffer_completed [of "ctx_task_name ctx" "the sources" "pr_buffer s" _ _ k]
  by (auto simp: spawn_one_def sampler_sample_def rbind_Inr_iff no_completed_def split: option.splits)

lemma spawn_many_spec:
  assumes "spawn_many env ctx sources n s = Inr s'" "storage_ok (rb_storage (pr_buffer s))" "no_completed sources"
  shows "storage_ok (rb_storage (pr_buffer s')) \<and> completed_of k (pr_buffer s') = completed_of k (pr_buffer s) \<and>
    length (pr_pending s') = length (pr_pending s) + n \<and> pr_progress s' = pr_progress s"
  using assms
proof (induction n arbitrary: s)
  case (Suc n)
  then obtain s1 where s1: "spawn_one env ctx sources s = Inr s1" "spawn_many env ctx sources n s1 = Inr s'" by (auto simp: rbind_Inr_iff)
  show ?case using spawn_one_spec [OF s1(1) Suc.prems(2,3)] Suc.IH [OF s1(2)] Suc.prems(3) by simp
qed simp

lemma claim_done_spec:
  assumes "claim_done env ctx b finished s = Inr (n, s')" "storage_ok (rb_storage (pr_buffer s))"
  defines "c \<equiv> completed_of (ctx_task_name ctx)"
  shows "storage_ok (rb_storage (pr_buffer s')) \<and> length (pr_pending s') \<le> length (pr_pending s) \<and>
    completed_of k (pr_buffer s) \<le> completed_of k (pr_buffer s') \<and>
    c (pr_buffer s') + length (pr_pending s') \<le> c (pr_buffer s) + length (pr_pending s) \<and>
    ((\<forall>i g. env_agent env i g b \<noteq> []) \<longrightarrow> c (pr_buffer s') = c (pr_buffer s) + n)"
proof -
  let ?P = "\<lambda>(i, g :: RolloutState list). i \<in> set finished"
  let ?out = "map (task_output env b) (filter ?P (pr_pending s))"
  obtain p rb store refs where put: "put_claimed_tasks (env_parse env) ctx ?out (pr_progress s) (pr_buffer s) (pr_store s) = Inr (n, p, rb, store, refs)"
      and s': "pr_buffer s' = rb" "pr_pending s' = filter (Not \<circ> ?P) (pr_pending s)"
    using assms(1) by (auto simp: claim_done_def rbind_Inr_iff Let_def comp_def)
  have "[] \<notin> set ?out" if "\<forall>i g. env_agent env i g b \<noteq> []" using that by (auto simp: task_output_def generated_group_def)
  with put_claimed_completed [OF put assms(2), of k] put_claimed_completed [OF put assms(2), of "ctx_task_name ctx"] show ?thesis
    using s' sum_length_filter_compl [of ?P "pr_pending s"] by (auto simp: comp_def c_def)
qed

subsection \<open>Lemmas: the bound on what is produced\<close>

text \<open>Completed and pending groups together stay below a bound, and the pending ones below their own limit.\<close>

definition capped :: "async_strategy \<Rightarrow> string \<Rightarrow> int \<Rightarrow> 'p producer_state \<Rightarrow> bool" where
  "capped a task bound s \<longleftrightarrow> storage_ok (rb_storage (pr_buffer s)) \<and>
     int (completed_of task (pr_buffer s)) + int (length (pr_pending s)) \<le> bound \<and>
     (case max_pending_tasks a of None \<Rightarrow> True | Some m \<Rightarrow> int (length (pr_pending s)) \<le> m)"

lemma claim_done_capped:
  "claim_done env ctx b finished s = Inr (n, s') \<Longrightarrow> capped a (ctx_task_name ctx) bound s \<Longrightarrow>
     capped a (ctx_task_name ctx) bound s' \<and> completed_of (ctx_task_name ctx) (pr_buffer s) \<le> completed_of (ctx_task_name ctx) (pr_buffer s')"
  using claim_done_spec [of env ctx b finished s n s' "ctx_task_name ctx"] by (auto simp: capped_def split: option.splits)

lemma async_schedule_capped:
  assumes run: "async_schedule env default_should_continue_fn a ctx (Some sts) T target s = Inr (go, s')"
    and inv: "capped a (ctx_task_name ctx) bound s" and sts: "COMPLETED \<notin> set sts"
    and b: "target \<le> bound" "T \<le> target" and m: "case max_pending_tasks a of None \<Rightarrow> True | Some m \<Rightarrow> 0 < m"
  defines "c \<equiv> completed_of (ctx_task_name ctx)"
  shows "capped a (ctx_task_name ctx) bound s' \<and> c (pr_buffer s') = c (pr_buffer s) \<and> (\<not> go \<longrightarrow> T \<le> int (c (pr_buffer s')))"
proof (cases "int (c (pr_buffer s)) < T")
  case False
  then show ?thesis
    using run inv by (auto simp: async_schedule_def buffer_count_completed default_should_continue_fn_def c_def)
next
  case True
  let ?n = "nat (desired_pending a target (int (c (pr_buffer s))) - int (length (pr_pending s)))"
  from True run obtain sp: "spawn_many env ctx (Some sts) ?n s = Inr s'" and go: "go = (pr_pending s' \<noteq> [])"
    by (auto simp: async_schedule_def buffer_count_completed default_should_continue_fn_def c_def rbind_Inr_iff)
  have s': "storage_ok (rb_storage (pr_buffer s'))" "c (pr_buffer s') = c (pr_buffer s)" "length (pr_pending s') = length (pr_pending s) + ?n"
    using spawn_many_spec [OF sp, of "ctx_task_name ctx"] inv sts by (auto simp: capped_def c_def no_completed_def)
  have d: "0 < desired_pending a target (int (c (pr_buffer s)))" "desired_pending a target (int (c (pr_buffer s))) \<le> target - int (c (pr_buffer s))"
    using True b m by (auto simp: desired_pending_def Let_def split: option.splits)
  then have "pr_pending s' \<noteq> []" using s'(3) by auto
  moreover have "capped a (ctx_task_name ctx) bound s'"
    using inv s' d(2) b(1) by (auto simp: capped_def c_def desired_pending_def Let_def split: option.splits)
  ultimately show ?thesis using s'(2) go by simp
qed

lemma async_loop_capped:
  assumes "async_loop env default_should_continue_fn a ctx (Some sts) T target rounds s = Inr (fin, s')"
    and "capped a (ctx_task_name ctx) bound s" and "COMPLETED \<notin> set sts"
    and "target \<le> bound" "T \<le> target" and "case max_pending_tasks a of None \<Rightarrow> True | Some m \<Rightarrow> 0 < m"
  defines "c \<equiv> completed_of (ctx_task_name ctx)"
  shows "capped a (ctx_task_name ctx) bound s' \<and> c (pr_buffer s) \<le> c (pr_buffer s') \<and> (fin \<longrightarrow> T \<le> int (c (pr_buffer s')))"
  using assms(1,2)
proof (induction rounds arbitrary: s)
  case Nil
  then obtain go where go: "async_schedule env default_should_continue_fn a ctx (Some sts) T target s = Inr (go, s')" "fin = (\<not> go)"
    by (auto simp: rbind_Inr_iff)
  show ?case using async_schedule_capped [OF go(1) Nil.prems(2) assms(3-6)] go(2) by (auto simp: c_def)
next
  case (Cons finished rounds)
  obtain go s1 where sch: "async_schedule env default_should_continue_fn a ctx (Some sts) T target s = Inr (go, s1)"
      and rest: "(if \<not> go then Inr (True, s1) else rbind (claim_done env ctx (enable_partial_rollout a) finished s1) (\<lambda>(n, s2).
         async_loop env default_should_continue_fn a ctx (Some sts) T target rounds s2)) = Inr (fin, s')"
    using Cons.prems(1) by (auto simp: rbind_Inr_iff)
  note s1 = async_schedule_capped [OF sch Cons.prems(2) assms(3-6)]
  show ?case
  proof (cases go)
    case False
    then show ?thesis using rest s1 by (auto simp: c_def)
  next
    case True
    then obtain n s2 where cl: "claim_done env ctx (enable_partial_rollout a) finished s1 = Inr (n, s2)"
      and loop: "async_loop env default_should_continue_fn a ctx (Some sts) T target rounds s2 = Inr (fin, s')"
      using rest by (auto simp: rbind_Inr_iff)
    have s2: "capped a (ctx_task_name ctx) bound s2" "c (pr_buffer s1) \<le> c (pr_buffer s2)"
      using claim_done_capped [OF cl, of a bound] s1 by (auto simp: c_def)
    show ?thesis using Cons.IH [OF loop s2(1)] s2(2) s1 by (auto simp: c_def)
  qed
qed

lemma pause_capped:
  "pause_pending_tasks env ctx b rounds s = Inr (r, s') \<Longrightarrow> capped a (ctx_task_name ctx) bound s \<Longrightarrow>
     capped a (ctx_task_name ctx) bound s' \<and> completed_of (ctx_task_name ctx) (pr_buffer s) \<le> completed_of (ctx_task_name ctx) (pr_buffer s') \<and>
     (r \<noteq> None \<longrightarrow> pr_pending s' = [])"
proof (induction rounds arbitrary: s)
  case Nil
  then show ?case by (subst (asm) pause_pending_tasks.simps) (auto split: if_splits)
next
  case (Cons x rounds)
  obtain timed_out finished where x: "x = (timed_out, finished)" by (cases x)
  consider "pr_pending s = []" | "pr_pending s \<noteq> []" "timed_out" | "pr_pending s \<noteq> []" "\<not> timed_out" by blast
  then show ?case
  proof cases
    case 1
    then show ?thesis using Cons.prems by (subst (asm) pause_pending_tasks.simps) auto
  next
    case 2
    then show ?thesis
      using Cons.prems by (subst (asm) pause_pending_tasks.simps) (auto simp: x capped_def split: option.splits)
  next
    case 3
    then obtain n s1 where "claim_done env ctx b finished s = Inr (n, s1)" "pause_pending_tasks env ctx b rounds s1 = Inr (r, s')"
      using Cons.prems(1) by (subst (asm) pause_pending_tasks.simps) (auto simp: x rbind_Inr_iff)
    then show ?thesis using Cons.IH [of s1] claim_done_capped [of env ctx b finished s n s1 a bound] Cons.prems(2) by auto
  qed
qed

subsection \<open>Properties\<close>

text \<open>C24. Colocated asynchronous production, for every schedule of the agent loop and of the following drain: the call returns only
  with at least the target number of completed groups in the buffer; completed and still pending groups together never
  exceed the scheduled target (or the number that was there before, if larger), also after the drain, so over-sampling
  is limited to its budget; the pending groups never exceed \<open>max_pending_tasks\<close>; a finished drain leaves nothing
  pending; and no completed group is lost.\<close>

theorem async_production_bounded:
  assumes ok: "storage_ok (rb_storage (pr_buffer s))"
    and run: "async_produce_batch env default_should_continue_fn a ctx rounds s = Inr (fin, s1)"
    and pause: "pause_pending_tasks env ctx (enable_partial_rollout a) drain s1 = Inr (r, s2)"
    and T: "map_of (target_samples (pr_progress s)) (ctx_task_name ctx) = Some T" "0 < T"
    and cfg: "0 \<le> over_sample_threshold a" "0 \<le> ctx_task_batch_size ctx" "case max_pending_tasks a of None \<Rightarrow> True | Some m \<Rightarrow> 0 < m"
    and E: "buffer_count (ctx_task_name ctx) EXPIRED (pr_buffer s) = Inr expired_count"
  defines "c \<equiv> \<lambda>s. int (completed_of (ctx_task_name ctx) (pr_buffer s))"
    and "bound \<equiv> max (int (completed_of (ctx_task_name ctx) (pr_buffer s))) (scheduled_target a (int expired_count) T (ctx_task_batch_size ctx))"
  shows "(fin \<longrightarrow> T \<le> c s1) \<and> c s1 + int (length (pr_pending s1)) \<le> bound \<and> c s2 + int (length (pr_pending s2)) \<le> bound \<and>
    (case max_pending_tasks a of None \<Rightarrow> True | Some m \<Rightarrow> int (length (pr_pending s1)) \<le> m) \<and>
    (r \<noteq> None \<longrightarrow> pr_pending s2 = []) \<and> c s \<le> c s1 \<and> c s1 \<le> c s2"
proof -
  let ?st = "group_sources (sample_expired a (int expired_count))"
  let ?target = "scheduled_target a (int expired_count) T (ctx_task_batch_size ctx)"
  have loop: "async_loop env default_should_continue_fn a ctx (Some ?st) T ?target rounds (s\<lparr>pr_pending := []\<rparr>) = Inr (fin, s1)"
    using run T E by (simp add: async_produce_batch_def Let_def)
  have sts: "COMPLETED \<notin> set ?st" by (simp add: group_sources_def)
  have "0 \<le> over_sample_threshold a * of_int (ctx_task_batch_size ctx)" using cfg(1,2) by simp
  then have "0 \<le> \<lceil>over_sample_threshold a * of_int (ctx_task_batch_size ctx)\<rceil>" by (simp add: order.strict_trans2 [of "-1" 0])
  then have tgt: "T \<le> ?target" by (simp add: scheduled_target_def)
  have "capped a (ctx_task_name ctx) bound (s\<lparr>pr_pending := []\<rparr>)"
    using ok cfg(3) by (auto simp: capped_def bound_def split: option.splits)
  moreover have "?target \<le> bound" by (simp add: bound_def)
  ultimately have s1: "capped a (ctx_task_name ctx) bound s1" "c s \<le> c s1" "fin \<longrightarrow> T \<le> c s1"
    using async_loop_capped [OF loop _ sts _ tgt cfg(3), of bound] by (auto simp: c_def)
  from pause_capped [OF pause s1(1)] have "capped a (ctx_task_name ctx) bound s2" "c s1 \<le> c s2" "r \<noteq> None \<longrightarrow> pr_pending s2 = []"
    by (auto simp: c_def)
  then show ?thesis using s1 by (auto simp: capped_def c_def)
qed

definition demo_env :: env where
  "demo_env = \<lparr>env_det = False, env_data = (\<lambda>i. default_state (VInt (int i))), env_iter = parallel_iter (\<lambda>e n. [0..<n]) 2,
     env_parse = (\<lambda>_. None),
     env_agent = (\<lambda>i g b. map (\<lambda>s. s\<lparr>status := COMPLETED, response_ids := Some [7]\<rparr>) g), env_elapsed = (\<lambda>_. 1)\<rparr>"

definition demo_context :: produce_context where
  "demo_context = \<lparr>ctx_task_name = ''a'', ctx_task_batch_size = 1, ctx_train_step = 1, ctx_model_step = 0, ctx_consumer_step = 1,
     ctx_stale_threshold = Some 1, ctx_token_stale_threshold = None, ctx_expired_groups_retryable = True\<rparr>"

definition demo_strategy :: async_strategy where
  "demo_strategy = async_strategy_init 1 False 0 (Some 2) 0 None 1"

definition demo_state :: "ProduceProgress producer_state" where
  "demo_state = \<lparr>pr_sampler = sampler_build \<lparr>rank = 0, world_size = 1, global_batch_size = 1, epoch = 0, step = 0, shuffle = False,
       round_up = False, num_samples = 2, total_size = 2, group_batch_size = 0, group_size = 0\<rparr> 1,
     pr_progress = progress_build [''a''] [(''a'', 1)], pr_buffer = build_async_buffer, pr_store = None, pr_heap = [], pr_freed = [],
     pr_pending = [], pr_next = 0\<rparr>"

definition demo_run :: "(bool \<times> ProduceProgress producer_state) res" where
  "demo_run = async_produce_batch demo_env default_should_continue_fn demo_strategy demo_context [[1]] demo_state"

lemma demo_run_finishes: "(case demo_run of Inl e \<Rightarrow> False | Inr (fin, s1) \<Rightarrow> fin \<and> length (pr_pending s1) = 1) = True"
  by code_simp

theorem async_production_bounded_witness:
  "\<exists>s1 s2. async_produce_batch demo_env default_should_continue_fn demo_strategy demo_context [[1]] demo_state = Inr (True, s1) \<and>
     pause_pending_tasks demo_env demo_context False [(True, [])] s1 = Inr (Some 1, s2) \<and>
     1 \<le> int (completed_of ''a'' (pr_buffer s1)) \<and> int (completed_of ''a'' (pr_buffer s2)) \<le> 2"
proof -
  obtain s1 where run: "async_produce_batch demo_env default_should_continue_fn demo_strategy demo_context [[1]] demo_state = Inr (True, s1)"
      and one: "length (pr_pending s1) = 1"
    using demo_run_finishes by (auto simp: demo_run_def split: sum.splits)
  let ?s2 = "s1\<lparr>pr_pending := []\<rparr>"
  have pause: "pause_pending_tasks demo_env demo_context (enable_partial_rollout demo_strategy) [(True, [])] s1 = Inr (Some 1, ?s2)"
    using one by (subst pause_pending_tasks.simps) auto
  have task: "ctx_task_name demo_context = ''a''" by (simp add: demo_context_def)
  have empty: "content (rb_storage (pr_buffer demo_state)) = []"
    by (simp add: demo_state_def build_async_buffer_def storage_init_def content_def)
  have E: "buffer_count (ctx_task_name demo_context) EXPIRED (pr_buffer demo_state) = Inr 0" by (simp add: buffer_count_eq empty)
  have ok: "storage_ok (rb_storage (pr_buffer demo_state))"
    by (simp add: demo_state_def build_async_buffer_def storage_init_def storage_ok_def content_def keyed_def)
  have cfg: "0 \<le> over_sample_threshold demo_strategy" "0 \<le> ctx_task_batch_size demo_context"
      "case max_pending_tasks demo_strategy of None \<Rightarrow> True | Some m \<Rightarrow> 0 < m" "(0 :: int) < 1"
      "map_of (target_samples (pr_progress demo_state)) (ctx_task_name demo_context) = Some 1"
    by (simp_all add: demo_strategy_def async_strategy_init_def demo_context_def demo_state_def progress_build_def)
  have "scheduled_target demo_strategy (int 0) 1 (ctx_task_batch_size demo_context) = 2"
    by (simp add: scheduled_target_def tail_batch_triggered_def demo_strategy_def async_strategy_init_def demo_context_def)
  with async_production_bounded [OF ok run pause cfg(5,4,1,2,3) E]
  have "1 \<le> int (completed_of ''a'' (pr_buffer s1))" "int (completed_of ''a'' (pr_buffer ?s2)) \<le> 2"
    by (simp_all add: task completed_of_def empty)
  moreover have "enable_partial_rollout demo_strategy = False" by (simp add: demo_strategy_def async_strategy_init_def)
  ultimately show ?thesis using run pause by auto
qed

end
