(* ===== verification/Manager.thy ===== *)
theory Manager
  imports TrainBatch Producer
begin

text \<open>
  The colocated manager of the production, class \<open>AgentLoopManager\<close> of
  \<^verbatim>\<open>rl/agent_loop_manager/agent_loop_manager.py\<close>: one call of \<open>produce_batch\<close> splits the batch over the tasks, lets the
  strategies of all tasks produce concurrently into the shared buffer, drains what is pending and takes the training batch.

  \<open>asyncio.gather\<close> runs the strategies as coroutines. A coroutine gives up control at \<open>asyncio.wait\<close>; a turn is what it does
  from one such point to the next. A run takes a list of turns, each the name of a task and the
  numbers of its rollouts that have finished, in any interleaving; it is unfinished (\<open>None\<close>) when the list ends before every
  strategy has returned. The rollout controller's pause and continue requests have no effect on this state.
\<close>

subsection \<open>The strategies as coroutines\<close>

text \<open>Where a strategy's \<open>produce_batch\<close> is: not yet started, waiting with its local variables, or returned.\<close>

datatype coroutine =
    Created
  | SyncWaiting nat
  | AsyncWaiting "Status list" int int
  | Returned

text \<open>The loop conditions of \<open>SyncProduceStrategy.produce_batch\<close> before the next \<open>asyncio.wait\<close>.\<close>

definition sync_wait :: "(int \<Rightarrow> int \<Rightarrow> bool) \<Rightarrow> produce_context \<Rightarrow> nat \<Rightarrow> 'p producer_state \<Rightarrow> coroutine" where
  "sync_wait should_continue ctx completed s =
     (if \<not> should_continue (int completed) (ctx_task_batch_size ctx) \<or> pr_pending s = [] then Returned else SyncWaiting completed)"

definition sync_start ::
  "env \<Rightarrow> (int \<Rightarrow> int \<Rightarrow> bool) \<Rightarrow> produce_context \<Rightarrow> 'a ProduceProgress_scheme producer_state \<Rightarrow>
   (coroutine \<times> 'a ProduceProgress_scheme producer_state) res" where
  "sync_start env should_continue ctx s =
     rbind (buffer_count (ctx_task_name ctx) COMPLETED (pr_buffer s)) (\<lambda>completed.
     rbind (spawn_many env ctx None (nat (ctx_task_batch_size ctx)) (s\<lparr>pr_pending := []\<rparr>)) (\<lambda>s1.
       Inr (sync_wait should_continue ctx completed s1, s1)))"

definition sync_turn ::
  "env \<Rightarrow> (int \<Rightarrow> int \<Rightarrow> bool) \<Rightarrow> produce_context \<Rightarrow> nat \<Rightarrow> nat list \<Rightarrow> 'a ProduceProgress_scheme producer_state \<Rightarrow>
   (coroutine \<times> 'a ProduceProgress_scheme producer_state) res" where
  "sync_turn env should_continue ctx completed finished s =
     rbind (claim_done env ctx False finished s) (\<lambda>(n, s1).
       let completed' = completed + n;
           missing = nat (ctx_task_batch_size ctx - int completed' - int (length (pr_pending s1)))
       in rbind (if should_continue (int completed') (ctx_task_batch_size ctx) then spawn_many env ctx None missing s1 else Inr s1) (\<lambda>s2.
            Inr (sync_wait should_continue ctx completed' s2, s2)))"

definition async_next ::
  "env \<Rightarrow> (int \<Rightarrow> int \<Rightarrow> bool) \<Rightarrow> async_strategy \<Rightarrow> produce_context \<Rightarrow> Status list \<Rightarrow> int \<Rightarrow> int \<Rightarrow> 'p producer_state \<Rightarrow>
   (coroutine \<times> 'p producer_state) res" where
  "async_next env should_continue a ctx sources batch_target sched_target s =
     rbind (async_schedule env should_continue a ctx (Some sources) batch_target sched_target s) (\<lambda>(go, s1).
       Inr (if go then AsyncWaiting sources batch_target sched_target else Returned, s1))"

definition async_start ::
  "env \<Rightarrow> (int \<Rightarrow> int \<Rightarrow> bool) \<Rightarrow> async_strategy \<Rightarrow> produce_context \<Rightarrow> 'a ProduceProgress_scheme producer_state \<Rightarrow>
   (coroutine \<times> 'a ProduceProgress_scheme producer_state) res" where
  "async_start env should_continue a ctx s =
     (case map_of (target_samples (pr_progress s)) (ctx_task_name ctx) of
        None \<Rightarrow> Inl KeyError
      | Some batch_target \<Rightarrow>
          let s0 = s\<lparr>pr_pending := []\<rparr> in
          if batch_target \<le> 0 then Inr (Returned, s0)
          else rbind (buffer_count (ctx_task_name ctx) EXPIRED (pr_buffer s0)) (\<lambda>expired_count.
            async_next env should_continue a ctx (group_sources (sample_expired a (int expired_count))) batch_target
              (scheduled_target a (int expired_count) batch_target (ctx_task_batch_size ctx)) s0))"

definition async_turn ::
  "env \<Rightarrow> (int \<Rightarrow> int \<Rightarrow> bool) \<Rightarrow> async_strategy \<Rightarrow> produce_context \<Rightarrow> Status list \<Rightarrow> int \<Rightarrow> int \<Rightarrow> nat list \<Rightarrow>
   'a ProduceProgress_scheme producer_state \<Rightarrow> (coroutine \<times> 'a ProduceProgress_scheme producer_state) res" where
  "async_turn env should_continue a ctx sources batch_target sched_target finished s =
     rbind (claim_done env ctx (enable_partial_rollout a) finished s) (\<lambda>(n, s1).
       async_next env should_continue a ctx sources batch_target sched_target s1)"

fun coroutine_turn ::
  "env \<Rightarrow> (int \<Rightarrow> int \<Rightarrow> bool) \<Rightarrow> produce_strategy \<Rightarrow> produce_context \<Rightarrow> nat list \<Rightarrow> coroutine \<Rightarrow> 'a ProduceProgress_scheme producer_state \<Rightarrow>
   (coroutine \<times> 'a ProduceProgress_scheme producer_state) res" where
  "coroutine_turn env should_continue SyncStrategy ctx finished Created s = sync_start env should_continue ctx s"
| "coroutine_turn env should_continue SyncStrategy ctx finished (SyncWaiting completed) s = sync_turn env should_continue ctx completed finished s"
| "coroutine_turn env should_continue (AsyncStrategy a) ctx finished Created s = async_start env should_continue a ctx s"
| "coroutine_turn env should_continue (AsyncStrategy a) ctx finished (AsyncWaiting sources batch_target sched_target) s =
     async_turn env should_continue a ctx sources batch_target sched_target finished s"
| "coroutine_turn env should_continue strategy ctx finished co s = Inr (co, s)"

text \<open>A strategy that runs alone: started, then one turn per round.\<close>

fun coroutine_run ::
  "env \<Rightarrow> (int \<Rightarrow> int \<Rightarrow> bool) \<Rightarrow> produce_strategy \<Rightarrow> produce_context \<Rightarrow> nat list list \<Rightarrow> coroutine \<Rightarrow> 'a ProduceProgress_scheme producer_state \<Rightarrow>
   (coroutine \<times> 'a ProduceProgress_scheme producer_state) res" where
  "coroutine_run env should_continue strategy ctx [] co s = Inr (co, s)"
| "coroutine_run env should_continue strategy ctx (finished # rounds) co s =
     rbind (coroutine_turn env should_continue strategy ctx finished co s) (\<lambda>(co', s').
       coroutine_run env should_continue strategy ctx rounds co' s')"

subsection \<open>The manager\<close>

text \<open>
  \<open>mg_progress\<close> is the progress of the running call. Every task has its own sampler and pending rollouts; the buffer, the trace
  store and the object store are shared.
\<close>

record 'p manager =
  mg_progress :: 'p
  mg_buffer :: ReplayBuffer
  mg_store :: "trace_store option"
  mg_heap :: "pyval list"
  mg_freed :: "nat list"
  mg_samplers :: "string \<Rightarrow> dataset_sampler"
  mg_pending :: "string \<Rightarrow> (nat \<times> RolloutState list) list"
  mg_next :: nat

definition task_view :: "string \<Rightarrow> 'p manager \<Rightarrow> 'p producer_state" where
  "task_view task m = \<lparr>pr_sampler = mg_samplers m task, pr_progress = mg_progress m, pr_buffer = mg_buffer m, pr_store = mg_store m,
     pr_heap = mg_heap m, pr_freed = mg_freed m, pr_pending = mg_pending m task, pr_next = mg_next m\<rparr>"

definition task_write :: "string \<Rightarrow> 'p producer_state \<Rightarrow> 'p manager \<Rightarrow> 'p manager" where
  "task_write task s m = \<lparr>mg_progress = pr_progress s, mg_buffer = pr_buffer s, mg_store = pr_store s, mg_heap = pr_heap s,
     mg_freed = pr_freed s, mg_samplers = (mg_samplers m)(task := pr_sampler s), mg_pending = (mg_pending m)(task := pr_pending s),
     mg_next = pr_next s\<rparr>"

text \<open>\<open>ProduceContext(...)\<close> of a task.\<close>

definition produce_context_of :: "TaskRunner \<Rightarrow> int \<Rightarrow> int \<Rightarrow> int \<Rightarrow> produce_context" where
  "produce_context_of t task_batch_size train_step model_step =
     \<lparr>ctx_task_name = tr_task_name t, ctx_task_batch_size = task_batch_size, ctx_train_step = train_step, ctx_model_step = model_step,
      ctx_consumer_step = train_step, ctx_stale_threshold = tr_stale_threshold t, ctx_token_stale_threshold = tr_token_stale_threshold t,
      ctx_expired_groups_retryable = tr_expired_groups_retryable t\<rparr>"

text \<open>The part of the program that a run does not change: what the environment does for every task, its condition to go on, and the
  contexts of the running call.\<close>

record run_config =
  rc_env :: "string \<Rightarrow> env"
  rc_should_continue :: "string \<Rightarrow> int \<Rightarrow> int \<Rightarrow> bool"

fun gather ::
  "run_config \<Rightarrow> (TaskRunner \<times> produce_context) list \<Rightarrow> (string \<times> nat list) list \<Rightarrow> (string \<Rightarrow> coroutine) \<Rightarrow> 'a ProduceProgress_scheme manager \<Rightarrow>
   ((string \<Rightarrow> coroutine) \<times> 'a ProduceProgress_scheme manager) res" where
  "gather rc active [] cor m = Inr (cor, m)"
| "gather rc active ((task, finished) # turns) cor m =
     (case find (\<lambda>(t, ctx). tr_task_name t = task) active of
        None \<Rightarrow> gather rc active turns cor m
      | Some (t, ctx) \<Rightarrow>
          rbind (coroutine_turn (rc_env rc task) (rc_should_continue rc task) (tr_produce_strategy t) ctx finished (cor task) (task_view task m)) (\<lambda>(co, s).
            gather rc active turns (cor(task := co)) (task_write task s m)))"

text \<open>\<open>pause_produce\<close> of the strategies, one after the other; \<open>drains\<close> has the rounds of every task and the time its drain took.\<close>

fun pause_all ::
  "run_config \<Rightarrow> (string \<Rightarrow> (bool \<times> nat list) list) \<Rightarrow> (string \<Rightarrow> pyfloat) \<Rightarrow> (TaskRunner \<times> produce_context) list \<Rightarrow>
   'a ProduceProgress_scheme manager \<Rightarrow> (pyfloat option \<times> 'a ProduceProgress_scheme manager) res" where
  "pause_all rc drains pause_s [] m = Inr (Some 0, m)"
| "pause_all rc drains pause_s ((t, ctx) # ts) m =
     (case tr_produce_strategy t of
        SyncStrategy \<Rightarrow> pause_all rc drains pause_s ts m
      | AsyncStrategy a \<Rightarrow>
          let task = tr_task_name t; idle = mg_pending m task = [] in
          rbind (pause_pending_tasks (rc_env rc task) ctx (enable_partial_rollout a) (drains task) (task_view task m)) (\<lambda>(r, s).
            case r of
              None \<Rightarrow> Inr (None, task_write task s m)
            | Some cancelled \<Rightarrow>
                rbind (pause_all rc drains pause_s ts (task_write task s m)) (\<lambda>(time, m').
                  Inr (map_option ((+) (if idle then 0 else pause_s task)) time, m'))))"

definition active_tasks :: "TaskRunner list \<Rightarrow> (string \<times> int) list \<Rightarrow> TaskRunner list res" where
  "active_tasks runners sizes =
     rbind (rmap (\<lambda>t. dict_read sizes (tr_task_name t)) runners) (\<lambda>ns.
       Inr (map fst (filter (\<lambda>(t, n). 0 < n) (zip runners ns))))"

definition refreshed_statuses :: "Status list" where
  "refreshed_statuses = [COMPLETED, ABORTED, EXPIRED]"

text \<open>\<open>produce_batch\<close> up to its last assertion.\<close>

definition produce_and_take ::
  "run_config \<Rightarrow> TaskRunner list \<Rightarrow> int \<Rightarrow> int \<Rightarrow> int \<Rightarrow> (string \<times> nat list) list \<Rightarrow> pyfloat \<Rightarrow> (string \<Rightarrow> (bool \<times> nat list) list) \<Rightarrow> (string \<Rightarrow> pyfloat) \<Rightarrow>
   ProduceProgress manager \<Rightarrow> (ProduceBatchResult option \<times> ProduceProgress manager) res" where
  "produce_and_take rc runners batch_size train_step model_step turns elapsed drains pause_s m =
     (if batch_size \<le> 0 then Inl ValueError
      else
        rbind (allocate_task_batch_sizes runners batch_size train_step) (\<lambda>sizes.
        rbind (active_tasks runners sizes) (\<lambda>active.
        if active = [] then Inl AssertionError
        else
          rbind (refresh_for_all_tasks runners train_step refreshed_statuses (mg_buffer m) (mg_store m)) (\<lambda>(expired, rb, store, refs).
          let m0 = m\<lparr>mg_progress := progress_build (map tr_task_name runners) sizes, mg_buffer := rb, mg_store := store,
                     mg_freed := mg_freed m @ refs\<rparr>;
              jobs = map (\<lambda>t. (t, produce_context_of t (the (map_of sizes (tr_task_name t))) train_step model_step)) active
          in
          rbind (gather rc jobs turns (\<lambda>_. Created) m0) (\<lambda>(cor, m1).
          if \<exists>t \<in> set active. cor (tr_task_name t) \<noteq> Returned then Inr (None, m1)
          else
            rbind (pause_all rc drains pause_s (map (\<lambda>t. (t, produce_context_of t 0 train_step model_step)) active)
                     (m1\<lparr>mg_progress := add_produce_time elapsed (mg_progress m1)\<rparr>)) (\<lambda>(pause_time, m2).
            case pause_time of
              None \<Rightarrow> Inr (None, m2)
            | Some pause \<Rightarrow>
                rbind (take_train_batch (\<lambda>_ p. Inr p) runners sizes train_step pause (mg_progress m2) (mg_buffer m2)) (\<lambda>(r, p, rb').
                  Inr (Some r, m2\<lparr>mg_progress := p, mg_buffer := rb'\<rparr>))))))))"

definition produce_batch ::
  "run_config \<Rightarrow> TaskRunner list \<Rightarrow> int \<Rightarrow> int \<Rightarrow> int \<Rightarrow> (string \<times> nat list) list \<Rightarrow> pyfloat \<Rightarrow> (string \<Rightarrow> (bool \<times> nat list) list) \<Rightarrow> (string \<Rightarrow> pyfloat) \<Rightarrow>
   ProduceProgress manager \<Rightarrow> (ProduceBatchResult option \<times> ProduceProgress manager) res" where
  "produce_batch rc runners batch_size train_step model_step turns elapsed drains pause_s m =
     rbind (produce_and_take rc runners batch_size train_step model_step turns elapsed drains pause_s m) (\<lambda>(r, m').
       case r of
         None \<Rightarrow> Inr (None, m')
       | Some b \<Rightarrow> if pb_rollout_states b = [] then Inl AssertionError else Inr (Some b, m'))"

subsection \<open>Lemmas: a strategy alone\<close>

text \<open>The turns of one coroutine are the loop of its strategy.\<close>

lemma sync_alone:
  "rbind (sync_loop env sc ctx rounds c s) (\<lambda>(fin, n, s'). Inr (fin, s')) =
   rbind (coroutine_run env sc SyncStrategy ctx rounds (sync_wait sc ctx c s) s) (\<lambda>(co, s'). Inr (co = Returned, s'))"
proof (induction rounds arbitrary: c s)
  case Nil
  then show ?case by (subst sync_loop.simps) (auto simp: sync_wait_def)
next
  case (Cons finished rounds)
  have ret: "coroutine_run env sc SyncStrategy ctx rs Returned s = Inr (Returned, s)" for rs by (induction rs) auto
  show ?case
  proof (cases "sync_wait sc ctx c s")
    case Returned
    then show ?thesis by (subst sync_loop.simps) (auto simp: sync_wait_def ret split: if_splits)
  next
    case (SyncWaiting d)
    then have w: "d = c" "sc (int c) (ctx_task_batch_size ctx)" "pr_pending s \<noteq> []" by (auto simp: sync_wait_def split: if_splits)
    show ?thesis
    proof (cases "claim_done env ctx False finished s")
      case (Inr ns)
      obtain n s1 where ns: "ns = (n, s1)" by (cases ns)
      let ?m = "if sc (int (c + n)) (ctx_task_batch_size ctx)
        then spawn_many env ctx None (nat (ctx_task_batch_size ctx - int (c + n) - int (length (pr_pending s1)))) s1 else Inr s1"
      show ?thesis
        by (subst sync_loop.simps, cases ?m) (simp_all add: SyncWaiting w Inr ns sync_turn_def Let_def Cons.IH del: of_nat_add)
    qed (subst sync_loop.simps, simp add: SyncWaiting w sync_turn_def)
  qed (auto simp: sync_wait_def split: if_splits)
qed

lemma returned_run: "coroutine_run env sc st ctx rounds Returned s = Inr (Returned, s)"
  by (induction rounds) (cases st; auto)+

lemma async_alone:
  "async_loop env sc a ctx (Some sources) T target rounds s =
   rbind (async_next env sc a ctx sources T target s) (\<lambda>(co, s1).
     rbind (coroutine_run env sc (AsyncStrategy a) ctx rounds co s1) (\<lambda>(co', s'). Inr (co' = Returned, s')))"
proof (induction rounds arbitrary: s)
  case Nil
  then show ?case by (auto simp: async_next_def rbind_def split: sum.splits)
next
  case (Cons finished rounds)
  then show ?case by (auto simp: async_next_def async_turn_def rbind_def returned_run split: sum.splits)
qed

subsection \<open>Lemmas: turns never lose completed groups\<close>

text \<open>What every turn keeps: the storage invariant, the planned targets, and all completed groups of all tasks.\<close>

definition keeps :: "'a ProduceProgress_scheme producer_state \<Rightarrow> 'a ProduceProgress_scheme producer_state \<Rightarrow> bool" where
  "keeps s s' \<longleftrightarrow> storage_ok (rb_storage (pr_buffer s')) \<and> target_samples (pr_progress s') = target_samples (pr_progress s) \<and>
     (\<forall>k. completed_of k (pr_buffer s) \<le> completed_of k (pr_buffer s'))"

lemma keeps_trans [trans]: "keeps s1 s2 \<Longrightarrow> keeps s2 s3 \<Longrightarrow> keeps s1 s3"
  by (auto simp: keeps_def intro: order_trans)

lemma progress_targets:
  "add_produced task n k p = Inr p' \<Longrightarrow> target_samples p' = target_samples p"
  "add_discarded task st n p = Inr p' \<Longrightarrow> target_samples p' = target_samples p"
  "add_raw_rewards task x n p = Inr p' \<Longrightarrow> target_samples p' = target_samples p"
  by (auto simp: add_produced_def add_discarded_def add_raw_rewards_def rbind_Inr_iff split: if_splits)

text \<open>How putting a group changes the progress: rewards perhaps, then what was produced, then what was discarded perhaps.\<close>

lemma put_generated_progress:
  assumes "put_generated_group parse_float ctx g p rb store = Inr (c, p', rb', store', refs)"
  obtains p1 p2 n k where "p1 = p \<or> (\<exists>x m. add_raw_rewards (ctx_task_name ctx) x m p = Inr p1)"
    and "add_produced (ctx_task_name ctx) n k p1 = Inr p2" and "p' = p2 \<or> (\<exists>st m. add_discarded (ctx_task_name ctx) st m p2 = Inr p')"
proof -
  let ?task = "ctx_task_name ctx" and ?n = "int (length g)" and ?k = "produced_tokens_of g"
  define rewards where "rewards = (if list_all (\<lambda>s. status s \<in> {COMPLETED, FAILED, FILTERED, ABORTED, EXPIRED}) g \<and> get_group_status g \<in> {COMPLETED, FILTERED}
    then rbind (sum_rewards parse_float g 0 0) (\<lambda>(acc, n). add_raw_rewards ?task acc n p) else Inr p)"
  obtain p1 where r: "rewards = Inr p1"
    using assms unfolding put_generated_group_def Let_def rewards_def [symmetric] rbind_Inr_iff by blast
  then have p1: "p1 = p \<or> (\<exists>x m. add_raw_rewards ?task x m p = Inr p1)"
    by (auto simp: rewards_def rbind_Inr_iff split: if_splits)
  have "(\<exists>p2. add_produced ?task ?n ?k p1 = Inr p2 \<and> (p' = p2 \<or> (\<exists>st. add_discarded ?task st ?n p2 = Inr p')))"
  proof (cases "validate_rollout_group g")
    case (Inl e)
    then show ?thesis using assms unfolding put_generated_group_def Let_def rewards_def [symmetric] r
      by (cases e) (auto simp: rbind_Inr_iff)
  next
    case (Inr u)
    then show ?thesis using assms unfolding put_generated_group_def Let_def rewards_def [symmetric] r
      by (cases "get_group_status g \<in> {FAILED, FILTERED}") (auto simp: rbind_Inr_iff)
  qed
  then show thesis using p1 that by blast
qed

lemma put_generated_targets:
  "put_generated_group parse_float ctx g p rb store = Inr (c, p', rb', store', refs) \<Longrightarrow> target_samples p' = target_samples p"
  by (erule put_generated_progress) (metis progress_targets)

lemma put_claimed_targets:
  "put_claimed_tasks parse_float ctx gs p rb store = Inr (n, p', rb', store', refs) \<Longrightarrow> target_samples p' = target_samples p"
  by (induction gs arbitrary: p rb store n p' rb' store' refs) (auto simp: rbind_Inr_iff dest: put_generated_targets)

lemma claim_done_keeps:
  assumes "claim_done env ctx b finished s = Inr (n, s')" "storage_ok (rb_storage (pr_buffer s))"
  shows "keeps s s'"
proof -
  have "target_samples (pr_progress s') = target_samples (pr_progress s)"
    using assms(1) by (auto simp: claim_done_def rbind_Inr_iff Let_def dest: put_claimed_targets)
  then show ?thesis using claim_done_spec [OF assms] by (simp add: keeps_def)
qed

lemma spawn_many_keeps:
  "spawn_many env ctx sources n s = Inr s' \<Longrightarrow> storage_ok (rb_storage (pr_buffer s)) \<Longrightarrow> no_completed sources \<Longrightarrow>
     keeps s s' \<and> length (pr_pending s') = length (pr_pending s) + n"
  using spawn_many_spec [of env ctx sources n s s'] by (simp add: keeps_def)

lemma keeps_clear: "storage_ok (rb_storage (pr_buffer s)) \<Longrightarrow> keeps s (s\<lparr>pr_pending := xs\<rparr>)"
  by (simp add: keeps_def)

text \<open>An asynchronous strategy stops only when the target is reached.\<close>

lemma async_schedule_keeps:
  assumes run: "async_schedule env default_should_continue_fn a ctx (Some sts) T target s = Inr (go, s')"
    and ok: "storage_ok (rb_storage (pr_buffer s))" and sts: "COMPLETED \<notin> set sts"
    and b: "T \<le> target" and m: "case max_pending_tasks a of None \<Rightarrow> True | Some m \<Rightarrow> 0 < m"
  shows "keeps s s' \<and> (\<not> go \<longrightarrow> T \<le> int (completed_of (ctx_task_name ctx) (pr_buffer s')))"
proof (cases "int (completed_of (ctx_task_name ctx) (pr_buffer s)) < T")
  case False
  then show ?thesis using run ok by (auto simp: async_schedule_def buffer_count_completed default_should_continue_fn_def keeps_def)
next
  case True
  let ?c = "int (completed_of (ctx_task_name ctx) (pr_buffer s))"
  let ?n = "nat (desired_pending a target ?c - int (length (pr_pending s)))"
  from True run obtain sp: "spawn_many env ctx (Some sts) ?n s = Inr s'" and go: "go = (pr_pending s' \<noteq> [])"
    by (auto simp: async_schedule_def buffer_count_completed default_should_continue_fn_def rbind_Inr_iff)
  have s': "keeps s s'" "length (pr_pending s') = length (pr_pending s) + ?n"
    using spawn_many_keeps [OF sp ok] sts by (auto simp: no_completed_def)
  have "0 < desired_pending a target ?c" using True b m by (auto simp: desired_pending_def Let_def split: option.splits)
  then have "pr_pending s' \<noteq> []" using s'(2) by auto
  then show ?thesis using s'(1) go by simp
qed

subsection \<open>Lemmas: a strategy returns with enough groups\<close>

definition strategy_ok :: "produce_strategy \<Rightarrow> bool" where
  "strategy_ok st \<longleftrightarrow> (case st of SyncStrategy \<Rightarrow> True
     | AsyncStrategy a \<Rightarrow> 0 \<le> over_sample_threshold a \<and> (case max_pending_tasks a of None \<Rightarrow> True | Some m \<Rightarrow> 0 < m))"

text \<open>What the local variables of a coroutine say about the buffer.\<close>

fun co_ok :: "produce_strategy \<Rightarrow> string \<Rightarrow> int \<Rightarrow> coroutine \<Rightarrow> nat \<Rightarrow> ReplayBuffer \<Rightarrow> bool" where
  "co_ok st task B Created pending rb \<longleftrightarrow> True"
| "co_ok st task B (SyncWaiting c) pending rb \<longleftrightarrow> st = SyncStrategy \<and> c \<le> completed_of task rb \<and> B \<le> int c + int pending"
| "co_ok st task B (AsyncWaiting sources T target) pending rb \<longleftrightarrow> st \<noteq> SyncStrategy \<and> COMPLETED \<notin> set sources \<and> T = B \<and> B \<le> target"
| "co_ok st task B Returned pending rb \<longleftrightarrow> B \<le> int (completed_of task rb)"

lemma co_ok_mono: "co_ok st task B co n rb \<Longrightarrow> completed_of task rb \<le> completed_of task rb' \<Longrightarrow> co_ok st task B co n rb'"
  by (cases co) auto

lemma sync_wait_ok:
  "c \<le> completed_of task (pr_buffer s) \<Longrightarrow> ctx_task_batch_size ctx \<le> int c + int (length (pr_pending s)) \<Longrightarrow>
     co_ok SyncStrategy task (ctx_task_batch_size ctx) (sync_wait default_should_continue_fn ctx c s) (length (pr_pending s)) (pr_buffer s)"
  by (auto simp: sync_wait_def default_should_continue_fn_def)

lemma async_next_ok:
  assumes "async_next env default_should_continue_fn a ctx sources T target s = Inr (co, s')"
    and "storage_ok (rb_storage (pr_buffer s))" "COMPLETED \<notin> set sources" "T \<le> target" "strategy_ok (AsyncStrategy a)"
  shows "keeps s s' \<and> co_ok (AsyncStrategy a) (ctx_task_name ctx) T co n (pr_buffer s')"
  using assms async_schedule_keeps [of env a ctx sources T target s _ s']
  by (auto simp: async_next_def rbind_Inr_iff strategy_ok_def split: if_splits)

lemma sync_start_ok:
  assumes run: "sync_start env default_should_continue_fn ctx s = Inr (co', s')" and ok: "storage_ok (rb_storage (pr_buffer s))"
  shows "keeps s s' \<and> co_ok SyncStrategy (ctx_task_name ctx) (ctx_task_batch_size ctx) co' (length (pr_pending s')) (pr_buffer s')"
proof -
  let ?c = "completed_of (ctx_task_name ctx) (pr_buffer s)"
  have sp: "spawn_many env ctx None (nat (ctx_task_batch_size ctx)) (s\<lparr>pr_pending := []\<rparr>) = Inr s'"
      and co': "co' = sync_wait default_should_continue_fn ctx ?c s'"
    using run by (auto simp: sync_start_def buffer_count_completed rbind_Inr_iff)
  have k: "keeps (s\<lparr>pr_pending := []\<rparr>) s'" "length (pr_pending s') = nat (ctx_task_batch_size ctx)"
    using spawn_many_keeps [OF sp] ok by (auto simp: no_completed_def)
  have "co_ok SyncStrategy (ctx_task_name ctx) (ctx_task_batch_size ctx) co' (length (pr_pending s')) (pr_buffer s')"
    unfolding co' by (rule sync_wait_ok) (use k in \<open>simp_all add: keeps_def\<close>)
  then show ?thesis using keeps_trans [OF keeps_clear [OF ok] k(1)] by simp
qed

lemma sync_turn_ok:
  assumes run: "sync_turn env default_should_continue_fn ctx c finished s = Inr (co', s')" and ok: "storage_ok (rb_storage (pr_buffer s))"
    and c: "c \<le> completed_of (ctx_task_name ctx) (pr_buffer s)" and agent: "\<And>i g b. env_agent env i g b \<noteq> []"
  shows "keeps s s' \<and> co_ok SyncStrategy (ctx_task_name ctx) (ctx_task_batch_size ctx) co' (length (pr_pending s')) (pr_buffer s')"
proof -
  let ?B = "ctx_task_batch_size ctx" and ?t = "ctx_task_name ctx"
  obtain n s1 where cl: "claim_done env ctx False finished s = Inr (n, s1)"
      and sp: "(if default_should_continue_fn (int (c + n)) ?B then spawn_many env ctx None (nat (?B - int (c + n) - int (length (pr_pending s1)))) s1 else Inr s1) = Inr s'"
      and co': "co' = sync_wait default_should_continue_fn ctx (c + n) s'"
    using run by (auto simp: sync_turn_def rbind_Inr_iff Let_def)
  note k1 = claim_done_keeps [OF cl ok]
  have c1: "c + n \<le> completed_of ?t (pr_buffer s1)" using claim_done_spec [OF cl ok] agent c by simp
  have k2: "keeps s1 s'" "?B \<le> int (c + n) + int (length (pr_pending s'))"
    using sp k1 spawn_many_keeps [of env ctx None _ s1 s'] by (auto simp: keeps_def no_completed_def default_should_continue_fn_def split: if_splits)
  have "c + n \<le> completed_of ?t (pr_buffer s')" using c1 k2(1) by (meson keeps_def order_trans)
  then show ?thesis unfolding co' using keeps_trans [OF k1 k2(1)] sync_wait_ok k2(2) by blast
qed

lemma async_start_ok:
  assumes run: "async_start env default_should_continue_fn a ctx s = Inr (co', s')"
    and ok: "storage_ok (rb_storage (pr_buffer s))" and st: "strategy_ok (AsyncStrategy a)"
    and B: "0 < ctx_task_batch_size ctx" "map_of (target_samples (pr_progress s)) (ctx_task_name ctx) = Some (ctx_task_batch_size ctx)"
  shows "keeps s s' \<and> co_ok (AsyncStrategy a) (ctx_task_name ctx) (ctx_task_batch_size ctx) co' n (pr_buffer s')"
proof -
  let ?B = "ctx_task_batch_size ctx"
  obtain e where nx: "async_next env default_should_continue_fn a ctx (group_sources (sample_expired a e)) ?B (scheduled_target a e ?B ?B) (s\<lparr>pr_pending := []\<rparr>) = Inr (co', s')"
    using run B by (auto simp: async_start_def rbind_Inr_iff Let_def)
  have "0 \<le> \<lceil>over_sample_threshold a * of_int ?B\<rceil>" using st B(1) by (simp add: strategy_ok_def order.strict_trans2 [of "-1" 0])
  then have tg: "?B \<le> scheduled_target a e ?B ?B" by (simp add: scheduled_target_def)
  have sts: "COMPLETED \<notin> set (group_sources (sample_expired a e))" by (simp add: group_sources_def)
  have ok0: "storage_ok (rb_storage (pr_buffer (s\<lparr>pr_pending := []\<rparr>)))" using ok by simp
  from async_next_ok [OF nx ok0 sts tg st, of n] show ?thesis using keeps_trans [OF keeps_clear [OF ok]] by blast
qed

lemma async_turn_ok:
  assumes run: "async_turn env default_should_continue_fn a ctx sources T target finished s = Inr (co', s')"
    and ok: "storage_ok (rb_storage (pr_buffer s))" and st: "strategy_ok (AsyncStrategy a)" and b: "COMPLETED \<notin> set sources" "T \<le> target"
  shows "keeps s s' \<and> co_ok (AsyncStrategy a) (ctx_task_name ctx) T co' n (pr_buffer s')"
proof -
  obtain m s1 where cl: "claim_done env ctx (enable_partial_rollout a) finished s = Inr (m, s1)"
      and nx: "async_next env default_should_continue_fn a ctx sources T target s1 = Inr (co', s')"
    using run by (auto simp: async_turn_def rbind_Inr_iff)
  note k1 = claim_done_keeps [OF cl ok]
  then have "storage_ok (rb_storage (pr_buffer s1))" by (simp add: keeps_def)
  from async_next_ok [OF nx this b st, of n] show ?thesis using keeps_trans [OF k1] by blast
qed

lemma coroutine_turn_ok:
  assumes run: "coroutine_turn env default_should_continue_fn st ctx finished co s = Inr (co', s')"
    and ok: "storage_ok (rb_storage (pr_buffer s))" and st: "strategy_ok st"
    and co: "co_ok st (ctx_task_name ctx) (ctx_task_batch_size ctx) co (length (pr_pending s)) (pr_buffer s)"
    and B: "0 < ctx_task_batch_size ctx" "map_of (target_samples (pr_progress s)) (ctx_task_name ctx) = Some (ctx_task_batch_size ctx)"
    and agent: "\<And>i g b. env_agent env i g b \<noteq> []"
  shows "keeps s s' \<and> co_ok st (ctx_task_name ctx) (ctx_task_batch_size ctx) co' (length (pr_pending s')) (pr_buffer s')"
proof (cases co)
  case Created
  show ?thesis
    using run sync_start_ok [OF _ ok] async_start_ok [OF _ ok _ B] st by (cases st) (auto simp: Created)
next
  case (SyncWaiting c)
  then show ?thesis using run sync_turn_ok [OF _ ok _ agent] co by auto
next
  case (AsyncWaiting sources T target)
  then show ?thesis using run async_turn_ok [OF _ ok] co st by (cases st) auto
next
  case Returned
  then have "co' = Returned" "s' = s" using run by (cases st; auto)+
  then show ?thesis using co ok Returned by (simp add: keeps_def)
qed

subsection \<open>Lemmas: all strategies together\<close>

lemma task_view_write [simp]:
  "pr_buffer (task_view task m) = mg_buffer m" "pr_progress (task_view task m) = mg_progress m" "pr_pending (task_view task m) = mg_pending m task"
  "mg_buffer (task_write task s m) = pr_buffer s" "mg_progress (task_write task s m) = pr_progress s"
  "mg_pending (task_write task s m) = (mg_pending m)(task := pr_pending s)"
  by (simp_all add: task_view_def task_write_def)

definition job_ok :: "TaskRunner \<times> produce_context \<Rightarrow> bool" where
  "job_ok = (\<lambda>(t, ctx). ctx_task_name ctx = tr_task_name t \<and> strategy_ok (tr_produce_strategy t) \<and> 0 < ctx_task_batch_size ctx)"

definition gather_inv :: "(TaskRunner \<times> produce_context) list \<Rightarrow> (string \<Rightarrow> coroutine) \<Rightarrow> 'a ProduceProgress_scheme manager \<Rightarrow> bool" where
  "gather_inv active cor m \<longleftrightarrow> storage_ok (rb_storage (mg_buffer m)) \<and>
     (\<forall>(t, ctx) \<in> set active. map_of (target_samples (mg_progress m)) (tr_task_name t) = Some (ctx_task_batch_size ctx) \<and>
        co_ok (tr_produce_strategy t) (tr_task_name t) (ctx_task_batch_size ctx) (cor (tr_task_name t)) (length (mg_pending m (tr_task_name t))) (mg_buffer m))"

lemma find_job: "find (\<lambda>(t, ctx). tr_task_name t = task) active = Some (t, ctx) \<Longrightarrow> (t, ctx) \<in> set active \<and> tr_task_name t = task"
  by (induction active) (auto split: if_splits)

lemma gather_inv_write:
  assumes inv: "gather_inv active cor m" and k: "keeps (task_view task m) s"
    and me: "\<And>t ctx. (t, ctx) \<in> set active \<Longrightarrow> tr_task_name t = task \<Longrightarrow>
      co_ok (tr_produce_strategy t) task (ctx_task_batch_size ctx) co (length (pr_pending s)) (pr_buffer s)"
  shows "gather_inv active (cor(task := co)) (task_write task s m)"
proof -
  have "co_ok (tr_produce_strategy t) (tr_task_name t) (ctx_task_batch_size ctx) ((cor(task := co)) (tr_task_name t))
      (length (mg_pending (task_write task s m) (tr_task_name t))) (pr_buffer s)" if "(t, ctx) \<in> set active" for t ctx
  proof (cases "tr_task_name t = task")
    case False
    then show ?thesis using inv that k by (auto simp: gather_inv_def keeps_def elim!: co_ok_mono)
  qed (use me that in simp)
  then show ?thesis using inv k by (auto simp: gather_inv_def keeps_def)
qed

lemma gather_ok:
  assumes "gather rc active turns cor m = Inr (cor', m')" and "gather_inv active cor m"
    and active: "distinct (map (tr_task_name \<circ> fst) active)" "list_all job_ok active"
    and rc: "\<And>task. rc_should_continue rc task = default_should_continue_fn" "\<And>task i g b. env_agent (rc_env rc task) i g b \<noteq> []"
  shows "gather_inv active cor' m'"
  using assms(1,2)
proof (induction turns arbitrary: cor m)
  case (Cons turn turns)
  obtain task finished where turn: "turn = (task, finished)" by (cases turn)
  show ?case
  proof (cases "find (\<lambda>(t, ctx). tr_task_name t = task) active")
    case None
    then show ?thesis using Cons by (simp add: turn)
  next
    case (Some job)
    obtain t ctx where job: "job = (t, ctx)" by (cases job)
    have t: "(t, ctx) \<in> set active" "tr_task_name t = task" using find_job [of task active t ctx] Some job by auto
    obtain co s where step: "coroutine_turn (rc_env rc task) default_should_continue_fn (tr_produce_strategy t) ctx finished (cor task) (task_view task m) = Inr (co, s)"
        and rest: "gather rc active turns (cor(task := co)) (task_write task s m) = Inr (cor', m')"
      using Cons.prems(1) by (auto simp: turn Some job rc rbind_Inr_iff)
    have ctx: "ctx_task_name ctx = task" "strategy_ok (tr_produce_strategy t)" "0 < ctx_task_batch_size ctx"
      using active(2) t by (auto simp: list_all_iff job_ok_def)
    have pre: "map_of (target_samples (mg_progress m)) task = Some (ctx_task_batch_size ctx)" "storage_ok (rb_storage (mg_buffer m))"
        "co_ok (tr_produce_strategy t) task (ctx_task_batch_size ctx) (cor task) (length (mg_pending m task)) (mg_buffer m)"
      using Cons.prems(2) t by (auto simp: gather_inv_def)
    have post: "keeps (task_view task m) s \<and> co_ok (tr_produce_strategy t) task (ctx_task_batch_size ctx) co (length (pr_pending s)) (pr_buffer s)"
      using coroutine_turn_ok [OF step, unfolded ctx(1)] ctx pre rc(2) by simp
    have uniq: "u = t \<and> c = ctx" if "(u, c) \<in> set active" "tr_task_name u = task" for u c
      using that t active(1) by (force simp: distinct_map inj_on_def)
    have "gather_inv active (cor(task := co)) (task_write task s m)"
      by (rule gather_inv_write [OF Cons.prems(2)]) (use post uniq in auto)
    then show ?thesis using Cons.IH rest by blast
  qed
qed simp

lemma pause_keeps:
  "pause_pending_tasks env ctx b rounds s = Inr (r, s') \<Longrightarrow> storage_ok (rb_storage (pr_buffer s)) \<Longrightarrow> keeps s s'"
proof (induction rounds arbitrary: s)
  case Nil
  then show ?case by (subst (asm) pause_pending_tasks.simps) (auto simp: keeps_def split: if_splits)
next
  case (Cons x rounds)
  obtain timed_out finished where x: "x = (timed_out, finished)" by (cases x)
  show ?case
  proof (cases "pr_pending s = [] \<or> timed_out")
    case True
    then show ?thesis using Cons.prems by (subst (asm) pause_pending_tasks.simps) (auto simp: x keeps_def split: if_splits)
  next
    case False
    then obtain n s1 where cl: "claim_done env ctx b finished s = Inr (n, s1)" and rest: "pause_pending_tasks env ctx b rounds s1 = Inr (r, s')"
      using Cons.prems(1) by (subst (asm) pause_pending_tasks.simps) (auto simp: x rbind_Inr_iff)
    have k: "keeps s s1" by (rule claim_done_keeps [OF cl Cons.prems(2)])
    then have "storage_ok (rb_storage (pr_buffer s1))" by (simp add: keeps_def)
    then show ?thesis using keeps_trans [OF k Cons.IH [OF rest]] by blast
  qed
qed

lemma pause_all_keeps:
  assumes "pause_all rc drains pause_s jobs m = Inr (r, m')" "storage_ok (rb_storage (mg_buffer m))"
  shows "storage_ok (rb_storage (mg_buffer m')) \<and> completed_of k (mg_buffer m) \<le> completed_of k (mg_buffer m')"
  using assms
proof (induction jobs arbitrary: m r)
  case (Cons job jobs)
  obtain t ctx where job: "job = (t, ctx)" by (cases job)
  show ?case
  proof (cases "tr_produce_strategy t")
    case SyncStrategy
    then show ?thesis using Cons by (auto simp: job)
  next
    case (AsyncStrategy a)
    let ?task = "tr_task_name t"
    obtain q s where p: "pause_pending_tasks (rc_env rc ?task) ctx (enable_partial_rollout a) (drains ?task) (task_view ?task m) = Inr (q, s)"
        and rest: "case q of None \<Rightarrow> m' = task_write ?task s m | Some n \<Rightarrow> \<exists>r. pause_all rc drains pause_s jobs (task_write ?task s m) = Inr (r, m')"
      using Cons.prems(1) by (auto simp: job AsyncStrategy rbind_Inr_iff Let_def split: option.splits)
    have k: "keeps (task_view ?task m) s" using pause_keeps [OF p] Cons.prems(2) by simp
    then have k': "storage_ok (rb_storage (pr_buffer s))" "completed_of k (mg_buffer m) \<le> completed_of k (pr_buffer s)" by (auto simp: keeps_def)
    show ?thesis using rest Cons.IH [of "task_write ?task s m"] k' by (auto split: option.splits)
  qed
qed simp

lemma refresh_ok:
  "refresh_for_all_tasks runners t sts rb store = Inr (c, rb', store', refs) \<Longrightarrow> storage_ok (rb_storage rb) \<Longrightarrow> storage_ok (rb_storage rb')"
  by (auto simp: refresh_for_all_tasks_def refresh_staleness_def rbind_Inr_iff Let_def naive.del_ok naive.upd_ok)

lemma active_tasks_eq:
  assumes "map fst sizes = map tr_task_name runners" "distinct (map tr_task_name runners)"
  shows "active_tasks runners sizes = Inr (filter (\<lambda>t. 0 < the (map_of sizes (tr_task_name t))) runners)"
proof -
  have "dict_read sizes (tr_task_name t) = Inr (the (map_of sizes (tr_task_name t)))" if "t \<in> set runners" for t
  proof -
    have "tr_task_name t \<in> set (map fst sizes)" using that by (simp add: assms(1))
    then obtain n where "map_of sizes (tr_task_name t) = Some n" by (metis list.set_map map_of_eq_None_iff not_None_eq)
    then show ?thesis by (simp add: dict_read_def)
  qed
  then have "rmap (\<lambda>t. dict_read sizes (tr_task_name t)) runners = Inr (map (\<lambda>t. the (map_of sizes (tr_task_name t))) runners)"
    by (simp add: rmap_Inr_iff list_all2_conv_all_nth)
  moreover have "map fst (filter (\<lambda>(t, n). 0 < n) (zip ts (map f ts))) = filter (\<lambda>t. 0 < f t) ts" for f :: "TaskRunner \<Rightarrow> int" and ts
    by (induction ts) auto
  ultimately show ?thesis by (simp add: active_tasks_def)
qed

lemma fair_keys: "map fst (fair_sizes runners n) = map tr_task_name runners"
  by (simp add: fair_sizes_def comp_def)

lemma fair_lookup:
  "t \<in> set runners \<Longrightarrow> map_of (fair_sizes runners n) (tr_task_name t) = Some (the (map_of (fair_sizes runners n) (tr_task_name t)))"
  using fair_keys [of runners n] by (metis image_eqI list.set_map map_of_eq_None_iff option.collapse)

definition fair_active :: "TaskRunner list \<Rightarrow> int \<Rightarrow> TaskRunner list" where
  "fair_active runners n = filter (\<lambda>t. 0 < the (map_of (fair_sizes runners n) (tr_task_name t))) runners"

definition jobs_of :: "TaskRunner list \<Rightarrow> int \<Rightarrow> int \<Rightarrow> int \<Rightarrow> (TaskRunner \<times> produce_context) list" where
  "jobs_of runners n train_step model_step =
     map (\<lambda>t. (t, produce_context_of t (the (map_of (fair_sizes runners n) (tr_task_name t))) train_step model_step)) (fair_active runners n)"

lemma jobs_start:
  assumes "distinct (map tr_task_name runners)" "\<forall>t \<in> set runners. strategy_ok (tr_produce_strategy t)"
  shows "distinct (map (tr_task_name \<circ> fst) (jobs_of runners n t v))" and "list_all job_ok (jobs_of runners n t v)"
    and "storage_ok (rb_storage (mg_buffer m)) \<Longrightarrow> target_samples (mg_progress m) = fair_sizes runners n \<Longrightarrow> gather_inv (jobs_of runners n t v) (\<lambda>_. Created) m"
  using assms fair_lookup [of _ runners n]
  by (auto simp: jobs_of_def fair_active_def comp_def distinct_map_filter list_all_iff job_ok_def produce_context_of_def gather_inv_def)

lemma ready_if_enough:
  assumes "distinct (map tr_task_name runners)"
    and "\<And>t. t \<in> set (fair_active runners n) \<Longrightarrow> the (map_of (fair_sizes runners n) (tr_task_name t)) \<le> int (completed_of (tr_task_name t) rb)"
  shows "is_ready (fair_sizes runners n) COMPLETED rb = Inr True"
proof -
  have "x \<le> int (completed_of k rb) \<or> x \<le> 0" if kx: "(k, x) \<in> set (fair_sizes runners n)" for k x
  proof -
    have "k \<in> set (map tr_task_name runners)" using kx unfolding fair_keys [of runners n, symmetric] by force
    then obtain t where t: "t \<in> set runners" "k = tr_task_name t" by auto
    have "map_of (fair_sizes runners n) k = Some x" using kx assms(1) by (simp add: map_of_is_SomeI fair_keys)
    then show ?thesis using assms(2) [of t] t by (force simp: fair_active_def)
  qed
  then show ?thesis by (auto simp: is_ready_eq completed_of_def list_all_iff)
qed

text \<open>What \<open>produce_and_take\<close> has reached when it takes the batch: the sizes are fair, and the buffer has enough for all of them.\<close>

lemma produce_reaches_ready:
  assumes run: "produce_and_take rc runners batch_size train_step model_step turns elapsed drains pause_s m = Inr (Some r, m')"
    and ok: "storage_ok (rb_storage (mg_buffer m))" and names: "distinct (map tr_task_name runners)"
    and w: "\<forall>t \<in> set runners. 0 \<le> tr_weight t" "0 < sum_list (map tr_weight runners)"
    and st: "\<forall>t \<in> set runners. strategy_ok (tr_produce_strategy t)"
    and rc: "\<And>task. rc_should_continue rc task = default_should_continue_fn" "\<And>task i g b. env_agent (rc_env rc task) i g b \<noteq> []"
  obtains pause and p p' :: ProduceProgress and rb where
    "take_train_batch (\<lambda>_ p. Inr p) runners (fair_sizes runners batch_size) train_step pause p rb = Inr (r, p', mg_buffer m')"
    and "storage_ok (rb_storage rb)" and "is_ready (fair_sizes runners batch_size) COMPLETED rb = Inr True"
proof -
  let ?sizes = "fair_sizes runners batch_size" and ?active = "fair_active runners batch_size"
  let ?jobs = "jobs_of runners batch_size train_step model_step"
  have pos: "0 < batch_size" using run by (auto simp: produce_and_take_def split: if_splits)
  have at: "active_tasks runners ?sizes = Inr ?active" using active_tasks_eq [OF fair_keys names] by (simp add: fair_active_def)
  from run pos allocate_positive(1) [OF names w pos, of train_step] at
  obtain rb0 store refs c cor m1 pause m2 p' where
    rf: "refresh_for_all_tasks runners train_step refreshed_statuses (mg_buffer m) (mg_store m) = Inr (c, rb0, store, refs)" and
    ga: "gather rc ?jobs turns (\<lambda>_. Created) (m\<lparr>mg_progress := progress_build (map tr_task_name runners) ?sizes, mg_buffer := rb0, mg_store := store,
       mg_freed := mg_freed m @ refs\<rparr>) = Inr (cor, m1)" and
    ret: "\<forall>t \<in> set ?active. cor (tr_task_name t) = Returned" and
    pa: "pause_all rc drains pause_s (map (\<lambda>t. (t, produce_context_of t 0 train_step model_step)) ?active)
       (m1\<lparr>mg_progress := add_produce_time elapsed (mg_progress m1)\<rparr>) = Inr (Some pause, m2)" and
    tk: "take_train_batch (\<lambda>_ p. Inr p) runners ?sizes train_step pause (mg_progress m2) (mg_buffer m2) = Inr (r, p', mg_buffer m')"
    unfolding produce_and_take_def jobs_of_def by (auto simp: rbind_Inr_iff Let_def split: if_splits option.splits)
  have "gather_inv ?jobs cor m1"
    by (rule gather_ok [OF ga jobs_start(3) jobs_start(1,2)]) (use refresh_ok [OF rf ok] names st rc in \<open>auto simp: progress_build_def\<close>)
  then have m1: "storage_ok (rb_storage (mg_buffer m1))"
      and enough: "t \<in> set ?active \<Longrightarrow> the (map_of ?sizes (tr_task_name t)) \<le> int (completed_of (tr_task_name t) (mg_buffer m1))" for t
    using ret by (auto simp: gather_inv_def jobs_of_def produce_context_of_def)
  have m2: "storage_ok (rb_storage (mg_buffer m2))" "completed_of k (mg_buffer m1) \<le> completed_of k (mg_buffer m2)" for k
    using pause_all_keeps [OF pa] m1 by auto
  have "is_ready ?sizes COMPLETED (mg_buffer m2) = Inr True"
    by (rule ready_if_enough [OF names]) (use enough m2(2) in \<open>force intro: order_trans\<close>)
  then show thesis using that [OF tk m2(1)] by simp
qed

subsection \<open>Properties\<close>

text \<open>A strategy that runs alone does what its own loop does: started and then given one turn per round, the coroutine
  view of the synchronous and of the asynchronous strategy returns exactly when \<open>produce_batch\<close> of the strategy
  returns on these rounds, in the same state and with the same exceptions.\<close>

theorem coroutines_are_strategies:
  "rbind (coroutine_run env sc SyncStrategy ctx ([] # rounds) Created s) (\<lambda>(co, s'). Inr (co = Returned, s')) =
     rbind (sync_produce_batch env sc ctx rounds s) (\<lambda>(fin, n, s'). Inr (fin, s')) \<and>
   rbind (coroutine_run env sc (AsyncStrategy a) ctx ([] # rounds) Created s) (\<lambda>(co, s'). Inr (co = Returned, s')) =
     async_produce_batch env sc a ctx rounds s"
proof (rule conjI)
  let ?sp = "spawn_many env ctx None (nat (ctx_task_batch_size ctx)) (s\<lparr>pr_pending := []\<rparr>)"
  show "rbind (coroutine_run env sc SyncStrategy ctx ([] # rounds) Created s) (\<lambda>(co, s'). Inr (co = Returned, s')) =
     rbind (sync_produce_batch env sc ctx rounds s) (\<lambda>(fin, n, s'). Inr (fin, s'))"
    by (cases ?sp) (simp_all add: sync_start_def sync_produce_batch_def buffer_count_completed sync_alone)
  show "rbind (coroutine_run env sc (AsyncStrategy a) ctx ([] # rounds) Created s) (\<lambda>(co, s'). Inr (co = Returned, s')) =
     async_produce_batch env sc a ctx rounds s"
  proof (cases "map_of (target_samples (pr_progress s)) (ctx_task_name ctx)")
    case (Some T)
    show ?thesis
    proof (cases "0 < T")
      case True
      obtain e where e: "buffer_count (ctx_task_name ctx) EXPIRED (pr_buffer s) = Inr e" by (simp add: buffer_count_eq)
      let ?nx = "async_next env sc a ctx (group_sources (sample_expired a (int e))) T (scheduled_target a (int e) T (ctx_task_batch_size ctx)) (s\<lparr>pr_pending := []\<rparr>)"
      show ?thesis using True e by (cases ?nx) (auto simp: async_start_def async_produce_batch_def Some async_alone Let_def)
    qed (auto simp: async_start_def async_produce_batch_def Some Let_def returned_run)
  qed (simp add: async_start_def async_produce_batch_def)
qed

text \<open>C26. The colocated step is exact. However the tasks' strategies, their agent loops and the drains interleave: if \<open>produce_batch\<close>
  comes to take its batch, the batch has exactly \<open>batch_size\<close> groups, so the closing assertion holds; every sample carries
  the name of its task; and no token that has reached its task's token threshold is supervised. Agent loops are only asked to
  return at least one sample per group.\<close>

theorem produce_batch_exact:
  assumes run: "produce_and_take rc runners batch_size train_step model_step turns elapsed drains pause_s m = Inr (Some r, m')"
    and ok: "storage_ok (rb_storage (mg_buffer m))" and names: "distinct (map tr_task_name runners)"
    and w: "list_all (\<lambda>t. 0 \<le> tr_weight t) runners" "0 < sum_list (map tr_weight runners)"
    and st: "list_all (\<lambda>t. strategy_ok (tr_produce_strategy t)) runners"
    and rc: "\<And>task. rc_should_continue rc task = default_should_continue_fn" "\<And>task i g b. env_agent (rc_env rc task) i g b \<noteq> []"
  shows "produce_batch rc runners batch_size train_step model_step turns elapsed drains pause_s m = Inr (Some r, m') \<and>
    int (length (pb_rollout_states r)) = batch_size \<and>
    list_all (\<lambda>s. \<exists>tr \<in> set runners. task_name s = Some (tr_task_name tr) \<and>
      (\<forall>th. tr_token_stale_threshold tr = Some th \<longrightarrow> no_stale_label train_step th s)) (concat (pb_rollout_states r))"
proof -
  have pos: "0 < batch_size" using run by (auto simp: produce_and_take_def split: if_splits)
  have w': "\<forall>t \<in> set runners. 0 \<le> tr_weight t" and st': "\<forall>t \<in> set runners. strategy_ok (tr_produce_strategy t)"
    using w(1) st by (simp_all add: list_all_iff)
  from run ok names w' w(2) st' rc obtain pause and p p' :: ProduceProgress and rb where
    tk: "take_train_batch (\<lambda>_ p. Inr p) runners (fair_sizes runners batch_size) train_step pause p rb = Inr (r, p', mg_buffer m')"
    and rb: "storage_ok (rb_storage rb)" "is_ready (fair_sizes runners batch_size) COMPLETED rb = Inr True"
    by (rule produce_reaches_ready)
  have "\<not> (\<exists>(k, x) \<in> set (fair_sizes runners batch_size). x < 0)"
    using allocate_positive(1) [OF names w' w(2) pos, of 0] by (auto simp: allocate_task_batch_sizes_def rbind_Inr_iff split: if_splits)
  then have "list_all (\<lambda>(k, x). 0 \<le> x) (fair_sizes runners batch_size)" by (auto simp: list_all_iff not_less)
  then have "int (length (pb_rollout_states r)) = batch_size"
    using train_batch_length [OF tk names fair_keys rb] allocate_positive(2) [OF names w' w(2) pos] by simp
  moreover from this have "produce_batch rc runners batch_size train_step model_step turns elapsed drains pause_s m = Inr (Some r, m')"
    using pos by (auto simp: produce_batch_def run)
  ultimately show ?thesis using train_batch_sample [OF tk names fair_keys rb] by (simp add: list_all_iff)
qed

definition two_runners :: "TaskRunner list" where
  "two_runners = [\<lparr>tr_task_name = ''a'', tr_produce_strategy = SyncStrategy, tr_weight = 1, tr_order = 0\<rparr>,
     \<lparr>tr_task_name = ''b'', tr_produce_strategy = AsyncStrategy demo_strategy, tr_weight = 1, tr_order = 1\<rparr>]"

definition two_config :: run_config where
  "two_config = \<lparr>rc_env = (\<lambda>_. demo_env\<lparr>env_agent := (\<lambda>i g b. if g = [] then [default_state VNone]
       else map (\<lambda>s. s\<lparr>status := COMPLETED, response_ids := Some [7]\<rparr>) g)\<rparr>), rc_should_continue = (\<lambda>_. default_should_continue_fn)\<rparr>"

definition two_manager :: "ProduceProgress manager" where
  "two_manager = \<lparr>mg_progress = progress_build [] [], mg_buffer = build_async_buffer, mg_store = None, mg_heap = [], mg_freed = [],
     mg_samplers = (\<lambda>_. pr_sampler demo_state), mg_pending = (\<lambda>_. []), mg_next = 0\<rparr>"

definition two_run :: "(ProduceBatchResult option \<times> ProduceProgress manager) res" where
  "two_run = produce_and_take two_config two_runners 2 1 0 [(''b'', []), (''a'', []), (''a'', [2]), (''b'', [0])] 1 (\<lambda>_. [(True, [])]) (\<lambda>_. 1) two_manager"

lemma two_run_finishes: "(case two_run of Inl e \<Rightarrow> False | Inr (r, m') \<Rightarrow> r \<noteq> None) = True"
  by code_simp

theorem produce_batch_exact_witness:
  "\<exists>r m'. produce_batch two_config two_runners 2 1 0 [(''b'', []), (''a'', []), (''a'', [2]), (''b'', [0])] 1 (\<lambda>_. [(True, [])]) (\<lambda>_. 1) two_manager =
     Inr (Some r, m') \<and> length (pb_rollout_states r) = 2"
proof -
  obtain r m' where run: "produce_and_take two_config two_runners 2 1 0 [(''b'', []), (''a'', []), (''a'', [2]), (''b'', [0])] 1 (\<lambda>_. [(True, [])]) (\<lambda>_. 1) two_manager =
      Inr (Some r, m')"
    using two_run_finishes by (auto simp: two_run_def split: sum.splits)
  have ok: "storage_ok (rb_storage (mg_buffer two_manager))"
    by (simp add: two_manager_def build_async_buffer_def storage_init_def storage_ok_def content_def keyed_def)
  have cfg: "distinct (map tr_task_name two_runners)" "list_all (\<lambda>t. 0 \<le> tr_weight t) two_runners" "0 < sum_list (map tr_weight two_runners)"
      "list_all (\<lambda>t. strategy_ok (tr_produce_strategy t)) two_runners"
    by (simp_all add: two_runners_def strategy_ok_def demo_strategy_def async_strategy_init_def)
  have rc: "rc_should_continue two_config task = default_should_continue_fn" "env_agent (rc_env two_config task) i g b \<noteq> []" for task i g b
    by (simp_all add: two_config_def)
  from produce_batch_exact [OF run ok cfg rc] show ?thesis by auto
qed

end
