(* ===== verification/ManagerState.thy ===== *)
theory ManagerState
  imports Manager
begin

text \<open>
  Building a manager from its configuration, and the checkpoint of the colocated manager: \<open>AgentLoopManagerConfig.build\<close>,
  \<open>AgentLoopManager.__init__\<close>, \<open>save\<close> and \<open>resume\<close> of \<^verbatim>\<open>rl/agent_loop_manager/agent_loop_manager.py\<close>, whose twins in
  \<^verbatim>\<open>disagg_agent_loop_manager.py\<close> have the same code, and \<open>get_pending_task_counts\<close> of \<^verbatim>\<open>produce_utils.py\<close>.

  A checkpoint directory is a record of the files in it. Agent loops, judgers and samplers are built by other code; a task's
  specification here has the parts that the manager itself looks at.
\<close>

subsection \<open>Building\<close>

record task_spec =
  ts_task_name :: string
  ts_weight :: pyfloat
  ts_strategy :: produce_strategy

fun build_runners :: "string list \<Rightarrow> int \<Rightarrow> task_spec list \<Rightarrow> TaskRunner list res" where
  "build_runners seen order [] = Inr []"
| "build_runners seen order (cfg # cfgs) =
     (if ts_task_name cfg \<in> set seen then Inl ValueError
      else rbind (build_runners (ts_task_name cfg # seen) (order + 1) cfgs) (\<lambda>rs.
        Inr (\<lparr>tr_task_name = ts_task_name cfg, tr_produce_strategy = ts_strategy cfg, tr_weight = ts_weight cfg, tr_order = order\<rparr> # rs)))"

text \<open>The constructor's checks and the two names it derives.\<close>

definition manager_init :: "TaskRunner list \<Rightarrow> (string \<times> string list) res" where
  "manager_init runners =
     (if runners = [] then Inl ValueError
      else if sum_list (map tr_weight runners) \<le> 0 then Inl ValueError
      else Inr (if length runners = 1 then tr_task_name (hd runners) else ''multi_task'', map tr_task_name runners))"

definition manager_build :: "task_spec list \<Rightarrow> (TaskRunner list \<times> string \<times> string list) res" where
  "manager_build cfgs =
     (if cfgs = [] then Inl ValueError
      else rbind (build_runners [] 0 cfgs) (\<lambda>runners. rbind (manager_init runners) (\<lambda>(name, names). Inr (runners, name, names))))"

subsection \<open>Checkpoints\<close>

definition pending_task_count :: "TaskRunner \<Rightarrow> 'p manager \<Rightarrow> nat" where
  "pending_task_count t m = (case tr_produce_strategy t of SyncStrategy \<Rightarrow> 0 | AsyncStrategy a \<Rightarrow> length (mg_pending m (tr_task_name t)))"

definition get_pending_task_counts :: "TaskRunner list \<Rightarrow> 'p manager \<Rightarrow> (string \<times> nat) list" where
  "get_pending_task_counts runners m =
     dict_of (map (\<lambda>t. (tr_task_name t, pending_task_count t m)) (filter (\<lambda>t. 0 < pending_task_count t m) runners))"

text \<open>The files of a checkpoint directory: one sampler state per task, the replay buffer, and the manager's JSON file, in which
  \<open>replay_buffer_saved\<close> may be missing.\<close>

record manager_checkpoint =
  ck_samplers :: "(string \<times> dataloader_state) list"
  ck_buffer :: "buffer_state option"
  ck_model_step :: int
  ck_replay_buffer_saved :: "bool option"

definition save_samplers :: "TaskRunner list \<Rightarrow> 'p manager \<Rightarrow> (string \<times> dataloader_state) list res" where
  "save_samplers runners m = rmap (\<lambda>t. rbind (sampler_save (mg_samplers m (tr_task_name t))) (\<lambda>st. Inr (tr_task_name t, st))) runners"

definition manager_save :: "TaskRunner list \<Rightarrow> int \<Rightarrow> bool \<Rightarrow> 'p manager \<Rightarrow> manager_checkpoint res" where
  "manager_save runners model_step no_save_replay_buffer m =
     (if get_pending_task_counts runners m \<noteq> [] then Inl RuntimeError
      else
        rbind (save_samplers runners m) (\<lambda>samplers.
        rbind (if no_save_replay_buffer then Inr None else rbind (buffer_save (mg_heap m) (mg_buffer m)) (\<lambda>b. Inr (Some b))) (\<lambda>buffer.
          Inr \<lparr>ck_samplers = samplers, ck_buffer = buffer, ck_model_step = model_step,
               ck_replay_buffer_saved = Some (\<not> no_save_replay_buffer)\<rparr>)))"

fun resume_samplers :: "(string \<times> dataloader_state) list \<Rightarrow> TaskRunner list \<Rightarrow> 'p manager \<Rightarrow> 'p manager res" where
  "resume_samplers files [] m = Inr m"
| "resume_samplers files (t # ts) m =
     rbind (sampler_resume (map_of files (tr_task_name t)) (mg_samplers m (tr_task_name t))) (\<lambda>ds.
       resume_samplers files ts (m\<lparr>mg_samplers := (mg_samplers m)(tr_task_name t := ds)\<rparr>))"

definition resume_buffer :: "manager_checkpoint \<Rightarrow> 'p manager \<Rightarrow> 'p manager res" where
  "resume_buffer ck m =
     (if ck_replay_buffer_saved ck \<noteq> Some False then
        if 0 < buffer_len (mg_buffer m) then Inl RuntimeError
        else
          case ck_buffer ck of
            None \<Rightarrow> Inl FileNotFoundError
          | Some b \<Rightarrow> rbind (buffer_resume b (mg_heap m) (mg_buffer m)) (\<lambda>(rb, heap). Inr (m\<lparr>mg_buffer := rb, mg_heap := heap\<rparr>))
      else if 0 < buffer_len (mg_buffer m) then Inl RuntimeError
      else Inr m)"

definition manager_resume :: "manager_checkpoint \<Rightarrow> TaskRunner list \<Rightarrow> 'p manager \<Rightarrow> (int \<times> 'p manager) res" where
  "manager_resume ck runners m =
     rbind (resume_samplers (ck_samplers ck) runners m) (\<lambda>m1. rbind (resume_buffer ck m1) (\<lambda>m2. Inr (ck_model_step ck, m2)))"

subsection \<open>Lemmas\<close>

lemma build_runners_eq:
  "build_runners seen order cfgs =
     (if distinct (map ts_task_name cfgs) \<and> set (map ts_task_name cfgs) \<inter> set seen = {}
      then Inr (map (\<lambda>(i, cfg). \<lparr>tr_task_name = ts_task_name cfg, tr_produce_strategy = ts_strategy cfg, tr_weight = ts_weight cfg,
                                 tr_order = order + int i\<rparr>) (enumerate 0 cfgs))
      else Inl ValueError)"
proof (induction cfgs arbitrary: seen order)
  case (Cons cfg cfgs)
  have shift: "map (\<lambda>(i, c). f (order + 1 + int i) c) (enumerate 0 cfgs) = map (\<lambda>(i, c). f (order + int i) c) (enumerate (Suc 0) cfgs)" for f :: "int \<Rightarrow> task_spec \<Rightarrow> TaskRunner"
    by (rule nth_equalityI) (auto simp: nth_enumerate_eq algebra_simps)
  show ?case using shift [of "\<lambda>o' c. \<lparr>tr_task_name = ts_task_name c, tr_produce_strategy = ts_strategy c, tr_weight = ts_weight c, tr_order = o'\<rparr>"]
    by (auto simp: Cons)
qed simp

lemma resume_samplers_eq:
  assumes "distinct (map tr_task_name runners)"
    and "\<And>t. t \<in> set runners \<Longrightarrow> sampler_resume (map_of files (tr_task_name t)) (mg_samplers m (tr_task_name t)) = Inr (f (tr_task_name t))"
  shows "resume_samplers files runners m =
    Inr (m\<lparr>mg_samplers := (\<lambda>k. if k \<in> tr_task_name ` set runners then f k else mg_samplers m k)\<rparr>)"
  using assms
proof (induction runners arbitrary: m)
  case (Cons t ts)
  have r: "sampler_resume (map_of files (tr_task_name t)) (mg_samplers m (tr_task_name t)) = Inr (f (tr_task_name t))" using Cons.prems(2) by simp
  let ?m = "m\<lparr>mg_samplers := (mg_samplers m)(tr_task_name t := f (tr_task_name t))\<rparr>"
  have "resume_samplers files ts ?m = Inr (?m\<lparr>mg_samplers := (\<lambda>k. if k \<in> tr_task_name ` set ts then f k else mg_samplers ?m k)\<rparr>)"
    by (rule Cons.IH) (use Cons.prems in \<open>auto simp: image_iff\<close>)
  moreover have "(\<lambda>k. if k \<in> tr_task_name ` set ts then f k else mg_samplers ?m k) =
      (\<lambda>k. if k \<in> tr_task_name ` set (t # ts) then f k else mg_samplers m k)"
    by auto
  ultimately show ?case using r by simp
qed simp

lemma resume_buffer_saved:
  assumes ok: "storage_ok (rb_storage (mg_buffer m))" and heap: "heap_ok (mg_heap m)"
    and live: "list_all (item_live (length (mg_heap m))) (content (rb_storage (mg_buffer m)))"
    and target: "buffer_len (mg_buffer m2) = 0" "rb_policy (mg_buffer m2) = rb_policy (mg_buffer m)"
  shows "\<exists>b m'. buffer_save (mg_heap m) (mg_buffer m) = Inr b \<and>
    resume_buffer \<lparr>ck_samplers = files, ck_buffer = Some b, ck_model_step = v, ck_replay_buffer_saved = Some True\<rparr> m2 = Inr m' \<and>
    mg_samplers m' = mg_samplers m2 \<and> storage_ok (rb_storage (mg_buffer m')) \<and>
    map record_head (content (rb_storage (mg_buffer m'))) = map record_head (content (rb_storage (mg_buffer m))) \<and>
    rmap (snapshot_item (length (mg_heap m)) (mg_heap m')) (content (rb_storage (mg_buffer m'))) =
      rmap (snapshot_item (length (mg_heap m)) (mg_heap m)) (content (rb_storage (mg_buffer m)))"
proof -
  obtain state where state: "storage_state_dict (mg_heap m) (rb_storage (mg_buffer m)) = Inr state"
    "case storage_load_state_dict state (mg_heap m2) of (st', heap') \<Rightarrow>
       storage_ok st' \<and> map record_head (content st') = map record_head (content (rb_storage (mg_buffer m))) \<and>
       rmap (snapshot_item (length (mg_heap m)) heap') (content st') = rmap (snapshot_item (length (mg_heap m)) (mg_heap m)) (content (rb_storage (mg_buffer m)))"
    using storage_roundtrip [OF ok heap live, of "mg_heap m2"] by (auto simp: Let_def case_prod_beta)
  show ?thesis
    by (rule exI [of _ "\<lparr>saved_policy = rb_policy (mg_buffer m), saved_storage = ''NaiveStorage'', saved_state = state\<rparr>"])
       (use state target in \<open>auto simp: buffer_save_def resume_buffer_def buffer_resume_def case_prod_beta Let_def\<close>)
qed

subsection \<open>Properties\<close>


text \<open>C30. The checkpoint of a manager. Saving is refused with \<open>RuntimeError\<close> while an asynchronous task has pending rollouts. Otherwise,
  when the samplers can be saved and resumed, loading the checkpoint into a manager with an empty buffer of the same
  kind returns the saved model step, gives every task the sampler that its own \<open>resume\<close> gives, and restores all records
  of the buffer in order with the contents behind their references.\<close>

theorem manager_checkpoint_roundtrip:
  assumes names: "distinct (map tr_task_name runners)" and ok: "storage_ok (rb_storage (mg_buffer m))" and heap: "heap_ok (mg_heap m)"
    and live: "list_all (item_live (length (mg_heap m))) (content (rb_storage (mg_buffer m)))"
    and target: "buffer_len (mg_buffer m2) = 0" "rb_policy (mg_buffer m2) = rb_policy (mg_buffer m)"
    and samplers: "list_all (\<lambda>t. sampler_save (mg_samplers m (tr_task_name t)) = Inr (sv (tr_task_name t)) \<and>
      sampler_resume (Some (sv (tr_task_name t))) (mg_samplers m2 (tr_task_name t)) = Inr (ds (tr_task_name t))) runners"
  shows "if get_pending_task_counts runners m \<noteq> [] then manager_save runners v False m = Inl RuntimeError
    else \<exists>ck m'. manager_save runners v False m = Inr ck \<and> manager_resume ck runners m2 = Inr (v, m') \<and>
      list_all (\<lambda>t. mg_samplers m' (tr_task_name t) = ds (tr_task_name t)) runners \<and>
      map record_head (content (rb_storage (mg_buffer m'))) = map record_head (content (rb_storage (mg_buffer m))) \<and>
      rmap (snapshot_item (length (mg_heap m)) (mg_heap m')) (content (rb_storage (mg_buffer m'))) =
        rmap (snapshot_item (length (mg_heap m)) (mg_heap m)) (content (rb_storage (mg_buffer m)))"
proof (cases "get_pending_task_counts runners m = []")
  case True
  let ?files = "map (\<lambda>t. (tr_task_name t, sv (tr_task_name t))) runners"
  have files: "save_samplers runners m = Inr ?files"
    using samplers by (auto simp: save_samplers_def rmap_Inr_iff list_all2_conv_all_nth list_all_length)
  let ?m3 = "m2\<lparr>mg_samplers := (\<lambda>k. if k \<in> tr_task_name ` set runners then ds k else mg_samplers m2 k)\<rparr>"
  have "sampler_resume (map_of ?files (tr_task_name t)) (mg_samplers m2 (tr_task_name t)) = Inr (ds (tr_task_name t))" if "t \<in> set runners" for t
    using samplers that map_of_by [OF names that, of "\<lambda>t. sv (tr_task_name t)"] by (simp add: list_all_iff)
  then have m3: "resume_samplers ?files runners m2 = Inr ?m3" by (rule resume_samplers_eq [OF names])
  have "buffer_len (mg_buffer ?m3) = 0" "rb_policy (mg_buffer ?m3) = rb_policy (mg_buffer m)" using target by simp_all
  from resume_buffer_saved [OF ok heap live this, of ?files v] obtain b m' where b: "buffer_save (mg_heap m) (mg_buffer m) = Inr b"
    "resume_buffer \<lparr>ck_samplers = ?files, ck_buffer = Some b, ck_model_step = v, ck_replay_buffer_saved = Some True\<rparr> ?m3 = Inr m'"
    "mg_samplers m' = mg_samplers ?m3"
    "map record_head (content (rb_storage (mg_buffer m'))) = map record_head (content (rb_storage (mg_buffer m)))"
    "rmap (snapshot_item (length (mg_heap m)) (mg_heap m')) (content (rb_storage (mg_buffer m'))) =
      rmap (snapshot_item (length (mg_heap m)) (mg_heap m)) (content (rb_storage (mg_buffer m)))" by blast
  have "list_all (\<lambda>t. mg_samplers m' (tr_task_name t) = ds (tr_task_name t)) runners" by (simp add: b(3) list_all_iff)
  moreover have "manager_save runners v False m = Inr \<lparr>ck_samplers = ?files, ck_buffer = Some b, ck_model_step = v, ck_replay_buffer_saved = Some True\<rparr>"
    using True files b(1) by (simp add: manager_save_def)
  ultimately show ?thesis using True m3 b(2,4,5) by (simp add: manager_resume_def)
qed (simp add: manager_save_def)

definition saved_sampler :: dataset_sampler where
  "saved_sampler = (pr_sampler demo_state)\<lparr>sampler_dataloader := (sampler_dataloader (pr_sampler demo_state))\<lparr>local_samples := 1\<rparr>\<rparr>"

definition saved_dl_state :: dataloader_state where
  "saved_dl_state = (case sampler_save saved_sampler of Inl e \<Rightarrow> undefined | Inr st \<Rightarrow> st)"

definition resumed_sampler :: dataset_sampler where
  "resumed_sampler = (case sampler_resume (Some saved_dl_state) (pr_sampler demo_state) of Inl e \<Rightarrow> undefined | Inr ds \<Rightarrow> ds)"

lemma saved_sampler_roundtrip:
  "sampler_save saved_sampler = Inr saved_dl_state \<and> sampler_resume (Some saved_dl_state) (pr_sampler demo_state) = Inr resumed_sampler"
  by (simp add: saved_dl_state_def resumed_sampler_def saved_sampler_def demo_state_def sampler_build_def sampler_save_def sampler_resume_def dl_get_state_dict_def
      dl_load_state_dict_def sampler_get_state_dict_def parallel_load_state_dict_def reduce_sum_across_dp_group_def Let_def)

definition saved_manager :: "ProduceProgress manager" where
  "saved_manager = two_manager\<lparr>mg_buffer := sample_buffer, mg_samplers := (\<lambda>_. saved_sampler)\<rparr>"

theorem manager_checkpoint_roundtrip_witness:
  "\<exists>ck m'. manager_save two_runners 7 False saved_manager = Inr ck \<and> manager_resume ck two_runners two_manager = Inr (7, m') \<and>
     mg_samplers m' ''a'' = resumed_sampler \<and> map si_uid (content (rb_storage (mg_buffer m'))) = [1]"
proof -
  have c: "content (rb_storage sample_buffer) =
      [\<lparr>si_item = sample_group, si_uid = 1, si_timestamp_id = 1, si_task_name = ''a'', si_status = COMPLETED, si_staleness = 0\<rparr>]"
    by (simp add: sample_buffer_def content_def)
  have names: "distinct (map tr_task_name two_runners)" by (simp add: two_runners_def)
  have ok: "storage_ok (rb_storage (mg_buffer saved_manager))" using sample_buffer_ok by (simp add: saved_manager_def)
  have heap: "heap_ok (mg_heap saved_manager)" by (simp add: saved_manager_def two_manager_def heap_ok_def)
  have live: "list_all (item_live (length (mg_heap saved_manager))) (content (rb_storage (mg_buffer saved_manager)))"
    by (simp add: saved_manager_def two_manager_def c item_live_def sample_group_def state_live_def heavy_fields_def default_state_def live_below_def)
  have target: "buffer_len (mg_buffer two_manager) = 0" "rb_policy (mg_buffer two_manager) = rb_policy (mg_buffer saved_manager)"
    by (simp_all add: two_manager_def saved_manager_def build_async_buffer_def storage_init_def sample_buffer_def buffer_len_def storage_len_def)
  have samplers: "list_all (\<lambda>t. sampler_save (mg_samplers saved_manager (tr_task_name t)) = Inr ((\<lambda>_. saved_dl_state) (tr_task_name t)) \<and>
      sampler_resume (Some ((\<lambda>_. saved_dl_state) (tr_task_name t))) (mg_samplers two_manager (tr_task_name t)) = Inr ((\<lambda>_. resumed_sampler) (tr_task_name t))) two_runners"
    using saved_sampler_roundtrip by (simp add: saved_manager_def two_manager_def list_all_iff)
  have idle: "get_pending_task_counts two_runners saved_manager = []"
    by (simp add: get_pending_task_counts_def pending_task_count_def two_runners_def saved_manager_def two_manager_def dict_of_def)
  from manager_checkpoint_roundtrip [OF names ok heap live target samplers, of 7] idle
  obtain ck m' where r: "manager_save two_runners 7 False saved_manager = Inr ck" "manager_resume ck two_runners two_manager = Inr (7, m')"
    "list_all (\<lambda>t. mg_samplers m' (tr_task_name t) = resumed_sampler) two_runners"
    "map record_head (content (rb_storage (mg_buffer m'))) = map record_head (content (rb_storage (mg_buffer saved_manager)))"
    by auto
  have "map si_uid (content (rb_storage (mg_buffer m'))) = [1]"
    using arg_cong [OF r(4), of "map fst"] by (simp add: record_head_def comp_def saved_manager_def c)
  then show ?thesis using r by (auto simp: two_runners_def)
qed

end
