(* ===== verification/DisaggManager.thy ===== *)
theory DisaggManager
  imports ManagerState
begin

text \<open>
  The disaggregated manager, class \<open>DisaggAgentLoopManager\<close> of \<^verbatim>\<open>rl/agent_loop_manager/disagg_agent_loop_manager.py\<close>, with the
  protocol of its trainer, \<open>RLDisaggregatedTrainer._fit\<close> of \<^verbatim>\<open>train/rl_trainer.py\<close>: a background producer fills the
  replay buffer while the trainer consumes it, pauses the producer to exchange the weights, and resumes it.

  Producer and trainer are coroutines of one event loop. A step of the system is what one of them does between two points
  where it waits; all interleavings are runs of the step relation. Sampling a prompt does not wait, so scheduling
  rollouts is part of one step. The update event is read in the state the step starts in.
  An exception ends the program and has no step.
\<close>

subsection \<open>State\<close>

datatype AgentLoopManagerStatus = AM_NORMAL | AM_UPDATE_WEIGHT_AND_ABORT | AM_EXPIRED_BATCH | AM_FINISH

definition aggregate_status :: "ProduceBatchStatus list \<Rightarrow> ProduceBatchStatus" where
  "aggregate_status statuses =
     (if list_ex (\<lambda>st. st = PB_UPDATE_WEIGHT_AND_ABORT) statuses then PB_UPDATE_WEIGHT_AND_ABORT
      else if list_ex (\<lambda>st. st = PB_EXPIRED_BATCH) statuses then PB_EXPIRED_BATCH
      else PB_NORMAL)"

record disagg_manager =
  dm_core :: "DisaggProduceProgress manager"
  dm_status :: AgentLoopManagerStatus
  dm_update_event :: bool
  dm_finish_event :: bool
  dm_model_step :: int
  dm_pause_time_s :: pyfloat

definition disagg_init :: "TaskRunner list \<Rightarrow> DisaggProduceProgress manager \<Rightarrow> (string \<times> disagg_manager) res" where
  "disagg_init runners core =
     rbind (manager_init runners) (\<lambda>(name, names).
       Inr (name, \<lparr>dm_core = core\<lparr>mg_progress := disagg_build names\<rparr>, dm_status = AM_NORMAL, dm_update_event = False, dm_finish_event = False,
                   dm_model_step = 0, dm_pause_time_s = 0\<rparr>))"

definition consume_pause_time :: "disagg_manager \<Rightarrow> pyfloat \<times> disagg_manager" where
  "consume_pause_time d = (dm_pause_time_s d, d\<lparr>dm_pause_time_s := 0\<rparr>)"

abbreviation dm_progress :: "disagg_manager \<Rightarrow> DisaggProduceProgress" where
  "dm_progress d \<equiv> mg_progress (dm_core d)"

definition set_progress :: "DisaggProduceProgress \<Rightarrow> disagg_manager \<Rightarrow> disagg_manager" where
  "set_progress p d = d\<lparr>dm_core := (dm_core d)\<lparr>mg_progress := p\<rparr>\<rparr>"

subsection \<open>The strategies of the background producer\<close>

datatype disagg_coroutine = DCreated | DWaiting "Status list" int int | DReturned ProduceBatchStatus

text \<open>One value of the update event for all its reads in a step.\<close>

definition seen_of :: "bool \<Rightarrow> bool list" where
  "seen_of event = (if event then [True] else [])"

text \<open>From the top of the strategy's loop to the next \<open>wait_and_claim\<close>.\<close>

definition disagg_next ::
  "env \<Rightarrow> (int \<Rightarrow> int \<Rightarrow> bool) \<Rightarrow> async_strategy \<Rightarrow> produce_context \<Rightarrow> Status list \<Rightarrow> int \<Rightarrow> int \<Rightarrow> bool \<Rightarrow> DisaggProduceProgress producer_state \<Rightarrow>
   (disagg_coroutine \<times> DisaggProduceProgress producer_state) res" where
  "disagg_next env should_continue a ctx sources total_target sched_target event s =
     rbind (disagg_loop env should_continue a ctx (Some sources) total_target sched_target [] (seen_of event) s) (\<lambda>(r, s1).
       Inr (case r of None \<Rightarrow> DWaiting sources total_target sched_target | Some st \<Rightarrow> DReturned st, s1))"

definition disagg_start ::
  "env \<Rightarrow> (int \<Rightarrow> int \<Rightarrow> bool) \<Rightarrow> async_strategy \<Rightarrow> produce_context \<Rightarrow> nat list \<Rightarrow> bool \<Rightarrow> DisaggProduceProgress producer_state \<Rightarrow>
   (disagg_coroutine \<times> DisaggProduceProgress producer_state) res" where
  "disagg_start env should_continue a ctx ready event s =
     (let task = ctx_task_name ctx in
      if map_of (consumed_by_task (pr_progress s)) task = None then Inl KeyError
      else if map_of (target_samples (pr_progress s)) task = None then Inl KeyError
      else if event then Inr (DReturned PB_UPDATE_WEIGHT_AND_ABORT, s)
      else if is_model_expired a (ctx_train_step ctx) (ctx_model_step ctx) then Inr (DReturned PB_EXPIRED_BATCH, s)
      else
        rbind (claim_done env (disagg_context ctx s) (enable_partial_rollout a) ready s) (\<lambda>(n, s1).
        rbind (dict_read (target_samples (pr_progress s1)) task) (\<lambda>total_target.
          if total_target \<le> 0 then Inr (DReturned PB_NORMAL, s1)
          else rbind (buffer_count task EXPIRED (pr_buffer s1)) (\<lambda>expired_count.
            disagg_next env should_continue a ctx (group_sources (sample_expired a (int expired_count))) total_target
              (scheduled_target a (int expired_count) total_target (ctx_task_batch_size ctx)) event s1))))"

definition disagg_turn ::
  "env \<Rightarrow> (int \<Rightarrow> int \<Rightarrow> bool) \<Rightarrow> async_strategy \<Rightarrow> produce_context \<Rightarrow> Status list \<Rightarrow> int \<Rightarrow> int \<Rightarrow> nat list \<Rightarrow> bool \<Rightarrow>
   DisaggProduceProgress producer_state \<Rightarrow> (disagg_coroutine \<times> DisaggProduceProgress producer_state) res" where
  "disagg_turn env should_continue a ctx sources total_target sched_target finished event s =
     rbind (claim_done env (disagg_context ctx s) (enable_partial_rollout a) finished s) (\<lambda>(n, s1).
       disagg_next env should_continue a ctx sources total_target sched_target event s1)"

text \<open>Only the asynchronous strategy exists in a disaggregated manager; the base class is abstract.\<close>

fun disagg_coroutine_turn ::
  "env \<Rightarrow> (int \<Rightarrow> int \<Rightarrow> bool) \<Rightarrow> produce_strategy \<Rightarrow> produce_context \<Rightarrow> nat list \<Rightarrow> bool \<Rightarrow> disagg_coroutine \<Rightarrow> DisaggProduceProgress producer_state \<Rightarrow>
   (disagg_coroutine \<times> DisaggProduceProgress producer_state) res" where
  "disagg_coroutine_turn env should_continue SyncStrategy ctx finished event co s = Inl NotImplementedError"
| "disagg_coroutine_turn env should_continue (AsyncStrategy a) ctx finished event DCreated s = disagg_start env should_continue a ctx finished event s"
| "disagg_coroutine_turn env should_continue (AsyncStrategy a) ctx finished event (DWaiting sources T target) s =
     disagg_turn env should_continue a ctx sources T target finished event s"
| "disagg_coroutine_turn env should_continue (AsyncStrategy a) ctx finished event (DReturned st) s = Inr (DReturned st, s)"

subsection \<open>The background loop\<close>

text \<open>Where \<open>produce_loop\<close> is: before its checks, waiting for \<open>asyncio.gather\<close>, or over.\<close>

datatype loop_at = LoopTop | Gathering "(TaskRunner \<times> produce_context) list" "string \<Rightarrow> disagg_coroutine" | LoopEnded

definition runner_expired :: "int \<Rightarrow> int \<Rightarrow> TaskRunner \<Rightarrow> bool" where
  "runner_expired train_step model_step t =
     (case tr_produce_strategy t of SyncStrategy \<Rightarrow> False | AsyncStrategy a \<Rightarrow> is_model_expired a train_step model_step)"

text \<open>\<open>_produce_batch_to_buffer\<close> up to \<open>asyncio.gather\<close>: \<open>None\<close> when the model has expired for some task.\<close>

definition produce_batch_to_buffer ::
  "TaskRunner list \<Rightarrow> (string \<times> int) list \<Rightarrow> disagg_manager \<Rightarrow> (TaskRunner \<times> produce_context) list option res" where
  "produce_batch_to_buffer runners task_batch_sizes d =
     (let train_step = producer_future_step (dm_progress d) in
      if list_ex (runner_expired train_step (dm_model_step d)) runners then Inr None
      else
        rbind (active_tasks runners (target_samples (dm_progress d))) (\<lambda>active.
          if active = [] then Inl AssertionError
          else rbind (rmap (\<lambda>t. rbind (dict_read task_batch_sizes (tr_task_name t)) (\<lambda>n.
                       Inr (t, produce_context_of t n train_step (dm_model_step d)))) active) (\<lambda>jobs. Inr (Some jobs))))"

text \<open>One pass of \<open>produce_loop\<close> from its top.\<close>

definition loop_top :: "TaskRunner list \<Rightarrow> int \<Rightarrow> disagg_manager \<Rightarrow> (loop_at \<times> disagg_manager) res" where
  "loop_top runners batch_size d =
     (if dm_finish_event d \<or> dm_status d = AM_FINISH then Inr (LoopEnded, d)
      else if dm_status d \<in> {AM_UPDATE_WEIGHT_AND_ABORT, AM_EXPIRED_BATCH} then Inr (LoopTop, d)
      else
        rbind (ensure_target_upto batch_size (producer_future_step (dm_progress d)) (allocate_task_batch_sizes runners) (dm_progress d)) (\<lambda>(sizes, p).
        let d1 = set_progress p d in
        rbind (produce_batch_to_buffer runners sizes d1) (\<lambda>jobs.
          Inr (case jobs of
                 None \<Rightarrow> (LoopTop, d1\<lparr>dm_status := AM_EXPIRED_BATCH\<rparr>)
               | Some js \<Rightarrow> (Gathering js (\<lambda>_. DCreated), d1)))))"

text \<open>One turn of a task's strategy.\<close>

definition gather_turn ::
  "run_config \<Rightarrow> TaskRunner \<Rightarrow> produce_context \<Rightarrow> nat list \<Rightarrow> disagg_coroutine \<Rightarrow> disagg_manager \<Rightarrow> (disagg_coroutine \<times> disagg_manager) res" where
  "gather_turn rc t ctx finished co d =
     (let task = tr_task_name t in
      rbind (disagg_coroutine_turn (rc_env rc task) (rc_should_continue rc task) (tr_produce_strategy t) ctx finished (dm_update_event d) co (task_view task (dm_core d)))
        (\<lambda>(co', s). Inr (co', d\<lparr>dm_core := task_write task s (dm_core d)\<rparr>)))"

text \<open>The rest of the pass when all strategies have returned.\<close>

definition loop_gathered :: "pyfloat \<Rightarrow> ProduceBatchStatus list \<Rightarrow> disagg_manager \<Rightarrow> disagg_manager" where
  "loop_gathered elapsed statuses d =
     (let d1 = set_progress (add_produce_time elapsed (dm_progress d)) d in
      case aggregate_status statuses of
        PB_EXPIRED_BATCH \<Rightarrow> d1\<lparr>dm_status := AM_EXPIRED_BATCH\<rparr>
      | PB_NORMAL \<Rightarrow> set_progress (advance_future_step (dm_progress d1)) d1
      | PB_UPDATE_WEIGHT_AND_ABORT \<Rightarrow> d1)"

subsection \<open>The trainer's calls\<close>

text \<open>\<open>pause_produce\<close>: the brake, then one drain per task, each claiming what has finished until nothing is pending or the time is up.\<close>

definition pause_begin :: "disagg_manager \<Rightarrow> disagg_manager" where
  "pause_begin d = d\<lparr>dm_status := AM_UPDATE_WEIGHT_AND_ABORT, dm_update_event := True\<rparr>"

definition drain_claim :: "run_config \<Rightarrow> TaskRunner \<Rightarrow> nat list \<Rightarrow> disagg_manager \<Rightarrow> disagg_manager res" where
  "drain_claim rc t finished d =
     (let task = tr_task_name t;
          s = task_view task (dm_core d);
          ctx = disagg_context (produce_context_of t 0 (producer_future_step (dm_progress d)) (dm_model_step d)) s
      in case tr_produce_strategy t of
           SyncStrategy \<Rightarrow> Inr d
         | AsyncStrategy a \<Rightarrow> rbind (claim_done (rc_env rc task) ctx (enable_partial_rollout a) finished s) (\<lambda>(n, s').
             Inr (d\<lparr>dm_core := task_write task s' (dm_core d)\<rparr>)))"

definition drain_cancel :: "TaskRunner \<Rightarrow> disagg_manager \<Rightarrow> disagg_manager" where
  "drain_cancel t d = d\<lparr>dm_core := (dm_core d)\<lparr>mg_pending := (mg_pending (dm_core d))(tr_task_name t := [])\<rparr>\<rparr>"

definition pause_end :: "pyfloat \<Rightarrow> disagg_manager \<Rightarrow> disagg_manager" where
  "pause_end pause_time d = d\<lparr>dm_pause_time_s := pause_time\<rparr>"

definition continue_produce :: "int \<Rightarrow> disagg_manager \<Rightarrow> disagg_manager" where
  "continue_produce model_step d = d\<lparr>dm_model_step := model_step, dm_status := AM_NORMAL, dm_update_event := False\<rparr>"

definition shutdown :: "disagg_manager \<Rightarrow> disagg_manager" where
  "shutdown d = d\<lparr>dm_status := AM_FINISH, dm_update_event := True, dm_finish_event := True\<rparr>"

text \<open>\<open>get_batch\<close> up to its loop, and one pass of the loop: \<open>None\<close> when it sleeps and polls again.\<close>

definition refresh_manager :: "TaskRunner list \<Rightarrow> int \<Rightarrow> disagg_manager \<Rightarrow> disagg_manager res" where
  "refresh_manager runners train_step d =
     rbind (refresh_for_all_tasks runners train_step refreshed_statuses (mg_buffer (dm_core d)) (mg_store (dm_core d))) (\<lambda>(expired, rb, store, refs).
       Inr (d\<lparr>dm_core := (dm_core d)\<lparr>mg_buffer := rb, mg_store := store, mg_freed := mg_freed (dm_core d) @ refs\<rparr>\<rparr>))"

definition get_batch_begin :: "TaskRunner list \<Rightarrow> int \<Rightarrow> int \<Rightarrow> disagg_manager \<Rightarrow> ((string \<times> int) list \<times> disagg_manager) res" where
  "get_batch_begin runners batch_size train_step d =
     rbind (refresh_manager runners train_step (set_progress (begin_consume train_step (dm_progress d)) d)) (\<lambda>d1.
     rbind (allocate_task_batch_sizes runners batch_size train_step) (\<lambda>sizes. Inr (sizes, d1)))"

definition empty_result :: "ProduceBatchStatus \<Rightarrow> ProduceBatchResult" where
  "empty_result st = TaskResult.extend ((task_result [] (0, 0) (0, 0) 0)\<lparr>pb_status := st\<rparr>) (ProduceBatchResult.fields None None)"

definition take_ready ::
  "TaskRunner list \<Rightarrow> (string \<times> int) list \<Rightarrow> int \<Rightarrow> disagg_manager \<Rightarrow> (ProduceBatchResult option \<times> disagg_manager) res" where
  "take_ready runners sizes train_step d =
     (let (pause, d1) = consume_pause_time d in
      rbind (take_train_batch mark_consumed runners sizes train_step pause (dm_progress d1) (mg_buffer (dm_core d1))) (\<lambda>(r, p, rb).
      let r' = (if dm_status d1 = AM_EXPIRED_BATCH then r\<lparr>pb_status := PB_EXPIRED_BATCH\<rparr> else r);
          d2 = d1\<lparr>dm_core := (dm_core d1)\<lparr>mg_progress := p, mg_buffer := rb\<rparr>\<rparr>
      in if pb_rollout_states r' = [] then Inr (None, d2)
         else rbind (refresh_manager runners (train_step + 1) (set_progress (finish_consume train_step (dm_progress d2)) d2)) (\<lambda>d3.
                Inr (Some r', d3))))"

definition get_batch_poll ::
  "TaskRunner list \<Rightarrow> (string \<times> int) list \<Rightarrow> int \<Rightarrow> disagg_manager \<Rightarrow> (ProduceBatchResult option \<times> disagg_manager) res" where
  "get_batch_poll runners sizes train_step d =
     (if dm_finish_event d then Inr (Some (empty_result PB_NORMAL), d)
      else if dm_status d = AM_EXPIRED_BATCH \<and> dm_model_step d < train_step - 1 then
        let (pause, d1) = consume_pause_time d; r = empty_result PB_EXPIRED_BATCH
        in Inr (Some (if 0 < pause then r\<lparr>pb_group_gen_pause_time_s := Some pause\<rparr> else r), d1)
      else
        rbind (is_ready sizes COMPLETED (mg_buffer (dm_core d))) (\<lambda>ready.
          if dm_status d = AM_EXPIRED_BATCH \<and> \<not> ready then Inl RuntimeError
          else if ready then take_ready runners sizes train_step d
          else Inr (None, d)))"

text \<open>What \<open>_fit\<close> does with the batch of step \<open>train_step\<close>: an empty expired batch is not trained; the model step that is synchronised, and whether.\<close>

definition empty_expired_batch :: "ProduceBatchResult \<Rightarrow> bool" where
  "empty_expired_batch r \<longleftrightarrow> pb_status r = PB_EXPIRED_BATCH \<and> pb_rollout_states r = []"

definition sync_model_step :: "ProduceBatchResult \<Rightarrow> int \<Rightarrow> int" where
  "sync_model_step r train_step = (if empty_expired_batch r then train_step - 1 else train_step)"

definition need_sync :: "int \<Rightarrow> int \<Rightarrow> ProduceBatchResult \<Rightarrow> int \<Rightarrow> bool" where
  "need_sync sync_weights_interval total_train_steps r train_step \<longleftrightarrow>
     empty_expired_batch r \<or> pb_status r = PB_EXPIRED_BATCH \<or> sync_model_step r train_step mod sync_weights_interval = 0 \<or>
     sync_model_step r train_step = total_train_steps"

subsection \<open>Checkpoints\<close>

record disagg_checkpoint = manager_checkpoint +
  ck_status :: AgentLoopManagerStatus
  ck_progress :: progress_state

definition disagg_save :: "TaskRunner list \<Rightarrow> int \<Rightarrow> bool \<Rightarrow> disagg_manager \<Rightarrow> (disagg_checkpoint \<times> disagg_manager) res" where
  "disagg_save runners model_step no_save_replay_buffer d =
     rbind (manager_save runners model_step no_save_replay_buffer (dm_core d)) (\<lambda>ck.
       let st = progress_state_dict (dm_progress d)
       in Inr (manager_checkpoint.extend ck (disagg_checkpoint.fields (dm_status d)
                 (if no_save_replay_buffer then progress_state_without_replay_buffer st else st)),
               d\<lparr>dm_model_step := model_step\<rparr>))"

definition disagg_resume :: "disagg_checkpoint \<Rightarrow> TaskRunner list \<Rightarrow> disagg_manager \<Rightarrow> (int \<times> disagg_manager) res" where
  "disagg_resume ck runners d =
     rbind (manager_resume (manager_checkpoint.truncate ck) runners (dm_core d)) (\<lambda>(v, core).
       Inr (v, d\<lparr>dm_core := core\<lparr>mg_progress := progress_load_state_dict (ck_progress ck) (mg_progress core)\<rparr>,
                 dm_status := AM_UPDATE_WEIGHT_AND_ABORT, dm_update_event := True, dm_finish_event := False,
                 dm_model_step := v, dm_pause_time_s := 0\<rparr>))"

subsection \<open>The system\<close>

text \<open>Where the trainer is: between its calls, draining the remaining tasks of a pause, paused, polling in \<open>get_batch\<close>, or over.\<close>

datatype trainer_at = TIdle | TPausing "TaskRunner list" pyfloat | TPaused | TGetting int "(string \<times> int) list" | TDone

record disagg_system =
  sys_manager :: disagg_manager
  sys_loop :: loop_at
  sys_trainer :: trainer_at

inductive disagg_step :: "run_config \<Rightarrow> TaskRunner list \<Rightarrow> int \<Rightarrow> disagg_system \<Rightarrow> disagg_system \<Rightarrow> bool"
  for rc :: run_config and runners :: "TaskRunner list" and batch_size :: int where
  top: "sys_loop x = LoopTop \<Longrightarrow> loop_top runners batch_size (sys_manager x) = Inr (l, d) \<Longrightarrow>
    disagg_step rc runners batch_size x (x\<lparr>sys_manager := d, sys_loop := l\<rparr>)"
| turn: "sys_loop x = Gathering jobs cor \<Longrightarrow> (t, ctx) \<in> set jobs \<Longrightarrow>
    gather_turn rc t ctx finished (cor (tr_task_name t)) (sys_manager x) = Inr (co, d) \<Longrightarrow>
    disagg_step rc runners batch_size x (x\<lparr>sys_manager := d, sys_loop := Gathering jobs (cor(tr_task_name t := co))\<rparr>)"
| gathered: "sys_loop x = Gathering jobs cor \<Longrightarrow> map (\<lambda>(t, ctx). cor (tr_task_name t)) jobs = map DReturned statuses \<Longrightarrow>
    disagg_step rc runners batch_size x (x\<lparr>sys_manager := loop_gathered elapsed statuses (sys_manager x), sys_loop := LoopTop\<rparr>)"
| pause: "sys_trainer x = TIdle \<Longrightarrow>
    disagg_step rc runners batch_size x (x\<lparr>sys_manager := pause_begin (sys_manager x), sys_trainer := TPausing runners 0\<rparr>)"
| drain: "sys_trainer x = TPausing (t # ts) acc \<Longrightarrow> drain_claim rc t finished (sys_manager x) = Inr d \<Longrightarrow>
    disagg_step rc runners batch_size x (x\<lparr>sys_manager := d\<rparr>)"
| cancel: "sys_trainer x = TPausing (t # ts) acc \<Longrightarrow>
    disagg_step rc runners batch_size x (x\<lparr>sys_manager := drain_cancel t (sys_manager x), sys_trainer := TPausing ts (acc + time)\<rparr>)"
| drained: "sys_trainer x = TPausing (t # ts) acc \<Longrightarrow> mg_pending (dm_core (sys_manager x)) (tr_task_name t) = [] \<Longrightarrow>
    disagg_step rc runners batch_size x (x\<lparr>sys_trainer := TPausing ts (acc + time)\<rparr>)"
| paused: "sys_trainer x = TPausing [] acc \<Longrightarrow>
    disagg_step rc runners batch_size x (x\<lparr>sys_manager := pause_end acc (sys_manager x), sys_trainer := TPaused\<rparr>)"
| save: "sys_trainer x = TPaused \<Longrightarrow> disagg_save runners model_step no_save (sys_manager x) = Inr (ck, d) \<Longrightarrow>
    disagg_step rc runners batch_size x (x\<lparr>sys_manager := d\<rparr>)"
| continue: "sys_trainer x = TPaused \<Longrightarrow>
    disagg_step rc runners batch_size x (x\<lparr>sys_manager := continue_produce model_step (sys_manager x), sys_trainer := TIdle\<rparr>)"
| get: "sys_trainer x = TIdle \<Longrightarrow> get_batch_begin runners batch_size train_step (sys_manager x) = Inr (sizes, d) \<Longrightarrow>
    disagg_step rc runners batch_size x (x\<lparr>sys_manager := d, sys_trainer := TGetting train_step sizes\<rparr>)"
| poll: "sys_trainer x = TGetting train_step sizes \<Longrightarrow> get_batch_poll runners sizes train_step (sys_manager x) = Inr (r, d) \<Longrightarrow>
    disagg_step rc runners batch_size x (x\<lparr>sys_manager := d, sys_trainer := (if r = None then TGetting train_step sizes else TIdle)\<rparr>)"
| shutdown: "disagg_step rc runners batch_size x (x\<lparr>sys_manager := shutdown (sys_manager x), sys_trainer := TDone\<rparr>)"

inductive_cases disagg_stepE: "disagg_step rc runners batch_size x y"

subsection \<open>Lemmas: what the steps leave alone\<close>

text \<open>The planning part of the progress.\<close>

definition plan_of :: "DisaggProduceProgress \<Rightarrow> (string \<times> int) list \<times> int \<times> int" where
  "plan_of p = (target_samples p, target_upto_future_step p, producer_future_step p)"

lemma progress_plan:
  "add_produced task n k p = Inr p' \<Longrightarrow> plan_of p' = plan_of p"
  "add_discarded task st n p = Inr p' \<Longrightarrow> plan_of p' = plan_of p"
  "add_raw_rewards task x n p = Inr p' \<Longrightarrow> plan_of p' = plan_of p"
  "consume_raw_rewards task p = Inr (y, p') \<Longrightarrow> plan_of p' = plan_of p"
  "consume_produced task p = Inr (z, p') \<Longrightarrow> plan_of p' = plan_of p"
  "consume_discarded task p = Inr (z, p') \<Longrightarrow> plan_of p' = plan_of p"
  "mark_consumed counts p = Inr p' \<Longrightarrow> plan_of p' = plan_of p"
  "plan_of (snd (consume_produce_time p)) = plan_of p"
  "plan_of (begin_consume t p) = plan_of p"
  "plan_of (finish_consume t p) = plan_of p"
  "plan_of (add_produce_time w p) = plan_of p"
  by (auto simp: plan_of_def add_produced_def add_discarded_def add_raw_rewards_def consume_raw_rewards_def consume_produced_def consume_discarded_def
      mark_consumed_def consume_produce_time_def begin_consume_def finish_consume_def add_produce_time_def rbind_Inr_iff split: if_splits)

lemma put_generated_plan:
  "put_generated_group parse_float ctx g p rb store = Inr (c, p', rb', store', refs) \<Longrightarrow> plan_of p' = plan_of p"
  by (erule put_generated_progress) (metis progress_plan(1,2,3))

lemma put_claimed_plan:
  "put_claimed_tasks parse_float ctx gs p rb store = Inr (n, p', rb', store', refs) \<Longrightarrow> plan_of p' = plan_of p"
  by (induction gs arbitrary: p rb store n p' rb' store' refs) (auto simp: rbind_Inr_iff dest: put_generated_plan)

text \<open>A turn keeps the plan, and while the update event is set it starts no rollout.\<close>

definition braked :: "bool \<Rightarrow> DisaggProduceProgress producer_state \<Rightarrow> DisaggProduceProgress producer_state \<Rightarrow> bool" where
  "braked event s s' \<longleftrightarrow> plan_of (pr_progress s') = plan_of (pr_progress s) \<and> (event \<and> pr_pending s = [] \<longrightarrow> pr_pending s' = [])"

lemma braked_trans: "braked e s1 s2 \<Longrightarrow> braked e s2 s3 \<Longrightarrow> braked e s1 s3"
  by (auto simp: braked_def)

lemma claim_done_braked: "claim_done env ctx b finished s = Inr (n, s') \<Longrightarrow> braked event s s'"
  by (auto simp: braked_def claim_done_def rbind_Inr_iff Let_def dest: put_claimed_plan)

lemma schedule_loop_progress: "schedule_loop env ctx sources room seen s = Inr (seen', s') \<Longrightarrow> pr_progress s' = pr_progress s"
proof (induction room arbitrary: seen s)
  case 0
  then show ?case by (subst (asm) schedule_loop.simps) (auto simp: Let_def case_prod_beta)
next
  case (Suc room)
  obtain ab sn where sn: "should_abort seen = (ab, sn)" by fastforce
  show ?case
  proof (cases ab)
    case False
    then obtain s1 where s1: "spawn_one env ctx sources s = Inr s1" "schedule_loop env ctx sources room sn s1 = Inr (seen', s')"
      using Suc.prems by (subst (asm) schedule_loop.simps) (auto simp: sn rbind_Inr_iff)
    have "pr_progress s1 = pr_progress s" using s1(1) by (auto simp: spawn_one_def rbind_Inr_iff)
    then show ?thesis using Suc.IH [OF s1(2)] by simp
  qed (use Suc.prems in \<open>subst (asm) schedule_loop.simps, auto simp: sn\<close>)
qed

lemma disagg_next_spec:
  assumes "disagg_next env sc a ctx sources T target event s = Inr (co, s')"
  shows "braked event s s' \<and> (co = DReturned PB_EXPIRED_BATCH \<longrightarrow> is_model_expired a (ctx_train_step ctx) (ctx_model_step ctx))"
proof -
  obtain r where r: "disagg_loop env sc a ctx (Some sources) T target [] (seen_of event) s = Inr (r, s')"
      "co = (case r of None \<Rightarrow> DWaiting sources T target | Some st \<Rightarrow> DReturned st)"
    using assms by (auto simp: disagg_next_def rbind_Inr_iff)
  show ?thesis
  proof (cases event)
    case True
    then show ?thesis using r by (subst (asm) disagg_loop.simps) (auto simp: seen_of_def should_abort_def braked_def)
  next
    case False
    show ?thesis using r False
      by (subst (asm) disagg_loop.simps)
         (auto simp: seen_of_def should_abort_def braked_def rbind_Inr_iff Let_def case_prod_beta dest!: schedule_loop_progress split: if_splits)
  qed
qed

lemma disagg_start_spec:
  assumes run: "disagg_start env sc a ctx ready event s = Inr (co, s')" and fresh: "\<not> is_model_expired a (ctx_train_step ctx) (ctx_model_step ctx)"
  shows "braked event s s' \<and> co \<noteq> DReturned PB_EXPIRED_BATCH"
proof (cases event)
  case True
  then show ?thesis using run by (auto simp: disagg_start_def Let_def braked_def split: if_splits)
next
  case False
  then obtain n s1 where cl: "claim_done env (disagg_context ctx s) (enable_partial_rollout a) ready s = Inr (n, s1)"
      and rest: "s' = s1 \<and> co = DReturned PB_NORMAL \<or> (\<exists>src T tg. disagg_next env sc a ctx src T tg event s1 = Inr (co, s'))"
    using run fresh by (auto simp: disagg_start_def Let_def rbind_Inr_iff split: if_splits)
  have b: "braked event s s1" by (rule claim_done_braked [OF cl])
  from rest show ?thesis using b fresh braked_trans [OF b] by (auto dest: disagg_next_spec)
qed

lemma disagg_turn_spec:
  assumes "disagg_turn env sc a ctx sources T target finished event s = Inr (co, s')" and fresh: "\<not> is_model_expired a (ctx_train_step ctx) (ctx_model_step ctx)"
  shows "braked event s s' \<and> co \<noteq> DReturned PB_EXPIRED_BATCH"
proof -
  obtain n s1 where cl: "claim_done env (disagg_context ctx s) (enable_partial_rollout a) finished s = Inr (n, s1)"
      and nx: "disagg_next env sc a ctx sources T target event s1 = Inr (co, s')"
    using assms(1) by (auto simp: disagg_turn_def rbind_Inr_iff)
  show ?thesis using disagg_next_spec [OF nx] fresh braked_trans [OF claim_done_braked [OF cl]] by auto
qed

text \<open>A step of the producer keeps what the trainer controls; \<open>quiet\<close> collects it for all steps inside a call.\<close>

definition quiet :: "disagg_manager \<Rightarrow> disagg_manager \<Rightarrow> bool" where
  "quiet d d' \<longleftrightarrow> dm_status d' = dm_status d \<and> dm_update_event d' = dm_update_event d \<and> dm_finish_event d' = dm_finish_event d \<and>
     plan_of (dm_progress d') = plan_of (dm_progress d) \<and>
     (dm_update_event d \<longrightarrow> (\<forall>k. mg_pending (dm_core d) k = [] \<longrightarrow> mg_pending (dm_core d') k = []))"

lemma quiet_write: "braked (dm_update_event d) (task_view task (dm_core d)) s \<Longrightarrow> quiet d (d\<lparr>dm_core := task_write task s (dm_core d)\<rparr>)"
  by (auto simp: quiet_def braked_def)

lemma gather_turn_spec:
  assumes "gather_turn rc t ctx finished co d = Inr (co', d')" and "\<not> runner_expired (ctx_train_step ctx) (ctx_model_step ctx) t"
    and "co \<noteq> DReturned PB_EXPIRED_BATCH"
  shows "quiet d d' \<and> co' \<noteq> DReturned PB_EXPIRED_BATCH"
proof -
  obtain s where s: "disagg_coroutine_turn (rc_env rc (tr_task_name t)) (rc_should_continue rc (tr_task_name t)) (tr_produce_strategy t) ctx finished
        (dm_update_event d) co (task_view (tr_task_name t) (dm_core d)) = Inr (co', s)"
      and d': "d' = d\<lparr>dm_core := task_write (tr_task_name t) s (dm_core d)\<rparr>"
    using assms(1) by (auto simp: gather_turn_def Let_def rbind_Inr_iff)
  obtain a where a: "tr_produce_strategy t = AsyncStrategy a" using s by (cases "tr_produce_strategy t") auto
  have fresh: "\<not> is_model_expired a (ctx_train_step ctx) (ctx_model_step ctx)" using assms(2) a by (simp add: runner_expired_def)
  have "braked (dm_update_event d) (task_view (tr_task_name t) (dm_core d)) s \<and> co' \<noteq> DReturned PB_EXPIRED_BATCH"
  proof (cases co)
    case DCreated
    then show ?thesis using disagg_start_spec [OF _ fresh] s a by auto
  next
    case (DWaiting sources T target)
    then show ?thesis using disagg_turn_spec [OF _ fresh] s a by auto
  next
    case (DReturned st)
    then show ?thesis using s a assms(3) by (auto simp: braked_def)
  qed
  then show ?thesis unfolding d' using quiet_write by blast
qed

lemma drain_claim_spec: "drain_claim rc t finished d = Inr d' \<Longrightarrow> quiet d d'"
  by (auto simp: drain_claim_def Let_def rbind_Inr_iff intro: quiet_write claim_done_braked split: produce_strategy.splits) (simp add: quiet_def)

lemma quiet_refl [simp]: "quiet d d"
  by (simp add: quiet_def)

lemma quiet_trans: "quiet d1 d2 \<Longrightarrow> quiet d2 d3 \<Longrightarrow> quiet d1 d3"
  by (auto simp: quiet_def)

lemma quiet_progress: "plan_of p = plan_of (dm_progress d) \<Longrightarrow> quiet d (set_progress p d)"
  by (simp add: quiet_def set_progress_def)

lemma single_result_plan: "single_result t batch left time p = Inr (r, p') \<Longrightarrow> plan_of p' = plan_of p"
  by (auto simp: single_result_def merge_discarded_counts_def rbind_Inr_iff Let_def progress_plan(4-6))

lemma task_results_plan: "task_results_loop ts batch left p = Inr (rs, p') \<Longrightarrow> plan_of p' = plan_of p"
  by (induction ts arbitrary: p rs p') (auto simp: rbind_Inr_iff dest!: single_result_plan)

lemma take_train_batch_plan:
  assumes "take_train_batch mark_consumed runners sizes t pause p rb = Inr (r, p', rb')"
  shows "plan_of p' = plan_of p"
proof -
  obtain batch counts left p1 where mk: "mark_consumed counts p = Inr p1"
      and res: "build_produce_batch_result runners sizes batch left pause p1 = Inr (r, p')"
    using assms by (auto simp: take_train_batch_def rbind_Inr_iff)
  have "plan_of p' = plan_of (snd (consume_produce_time p1))"
    using res by (auto simp: build_produce_batch_result_def case_prod_beta rbind_Inr_iff Let_def dest!: single_result_plan task_results_plan split: list.splits)
  then show ?thesis using progress_plan(7) [OF mk] by (simp add: progress_plan(8))
qed

lemma refresh_manager_quiet: "refresh_manager runners t d = Inr d' \<Longrightarrow> quiet d d'"
  by (auto simp: refresh_manager_def rbind_Inr_iff quiet_def)

lemma get_batch_begin_quiet:
  assumes "get_batch_begin runners B t d = Inr (sizes, d')"
  shows "quiet d d'"
proof -
  have "quiet (set_progress (begin_consume t (dm_progress d)) d) d'"
    using assms by (auto simp: get_batch_begin_def rbind_Inr_iff dest: refresh_manager_quiet)
  then show ?thesis using quiet_trans quiet_progress [of "begin_consume t (dm_progress d)" d] by (simp add: progress_plan(9))
qed

lemma take_ready_quiet:
  assumes "take_ready runners sizes t d = Inr (r, d')"
  shows "quiet d d'"
proof -
  let ?d1 = "d\<lparr>dm_pause_time_s := 0\<rparr>"
  obtain q p rb where tk: "take_train_batch mark_consumed runners sizes t (dm_pause_time_s d) (dm_progress d) (mg_buffer (dm_core d)) = Inr (q, p, rb)"
      and rest: "let d2 = ?d1\<lparr>dm_core := (dm_core d)\<lparr>mg_progress := p, mg_buffer := rb\<rparr>\<rparr> in
        d' = d2 \<or> refresh_manager runners (t + 1) (set_progress (finish_consume t (dm_progress d2)) d2) = Inr d'"
    using assms by (auto simp: take_ready_def consume_pause_time_def rbind_Inr_iff Let_def split: if_splits)
  let ?d2 = "?d1\<lparr>dm_core := (dm_core d)\<lparr>mg_progress := p, mg_buffer := rb\<rparr>\<rparr>"
  have q2: "quiet d ?d2" using take_train_batch_plan [OF tk] by (simp add: quiet_def)
  have q3: "quiet ?d2 (set_progress (finish_consume t (dm_progress ?d2)) ?d2)" by (rule quiet_progress) (rule progress_plan(10))
  from rest consider "d' = ?d2" | "refresh_manager runners (t + 1) (set_progress (finish_consume t (dm_progress ?d2)) ?d2) = Inr d'"
    unfolding Let_def by blast
  then show ?thesis
  proof cases
    case 2
    show ?thesis by (rule quiet_trans [OF q2 quiet_trans [OF q3 refresh_manager_quiet [OF 2]]])
  qed (use q2 in simp)
qed

lemma get_batch_poll_quiet: "get_batch_poll runners sizes t d = Inr (r, d') \<Longrightarrow> quiet d d'"
  by (auto simp: get_batch_poll_def consume_pause_time_def rbind_Inr_iff Let_def dest: take_ready_quiet split: if_splits)
     (simp_all add: quiet_def)

subsection \<open>Lemmas: the invariant\<close>

definition plan_ok :: "(string \<times> int) list \<Rightarrow> DisaggProduceProgress \<Rightarrow> bool" where
  "plan_ok sizes p \<longleftrightarrow> targets_linear sizes p \<and> producer_future_step p - 1 \<le> target_upto_future_step p \<and> target_upto_future_step p \<le> producer_future_step p"

lemma plan_ok_plan: "plan_of p' = plan_of p \<Longrightarrow> plan_ok sizes p' = plan_ok sizes p"
  by (auto simp: plan_ok_def plan_of_def targets_linear_def)

definition loop_ok :: "loop_at \<Rightarrow> DisaggProduceProgress \<Rightarrow> bool" where
  "loop_ok l p \<longleftrightarrow> (case l of
     Gathering jobs cor \<Rightarrow> (\<forall>(t, ctx) \<in> set jobs. \<not> runner_expired (ctx_train_step ctx) (ctx_model_step ctx) t) \<and>
       (\<forall>k. cor k \<noteq> DReturned PB_EXPIRED_BATCH) \<and> target_upto_future_step p = producer_future_step p
   | _ \<Rightarrow> True)"

definition events_ok :: "disagg_manager \<Rightarrow> bool" where
  "events_ok d \<longleftrightarrow> (dm_update_event d \<longleftrightarrow> dm_status d \<in> {AM_UPDATE_WEIGHT_AND_ABORT, AM_FINISH}) \<and> (dm_finish_event d \<longleftrightarrow> dm_status d = AM_FINISH)"

text \<open>When the trainer is pausing, the tasks it has passed have nothing pending.\<close>

definition trainer_ok :: "TaskRunner list \<Rightarrow> trainer_at \<Rightarrow> disagg_manager \<Rightarrow> bool" where
  "trainer_ok runners tr d \<longleftrightarrow> (case tr of
     TPausing ts acc \<Rightarrow> dm_status d = AM_UPDATE_WEIGHT_AND_ABORT \<and> (\<forall>t \<in> set runners. t \<in> set ts \<or> mg_pending (dm_core d) (tr_task_name t) = [])
   | TPaused \<Rightarrow> dm_status d = AM_UPDATE_WEIGHT_AND_ABORT \<and> (\<forall>t \<in> set runners. mg_pending (dm_core d) (tr_task_name t) = [])
   | TDone \<Rightarrow> dm_status d = AM_FINISH
   | _ \<Rightarrow> dm_status d \<in> {AM_NORMAL, AM_EXPIRED_BATCH})"

definition sys_ok :: "TaskRunner list \<Rightarrow> int \<Rightarrow> disagg_system \<Rightarrow> bool" where
  "sys_ok runners B x \<longleftrightarrow> events_ok (sys_manager x) \<and> trainer_ok runners (sys_trainer x) (sys_manager x) \<and>
     loop_ok (sys_loop x) (dm_progress (sys_manager x)) \<and> plan_ok (fair_sizes runners B) (dm_progress (sys_manager x))"

lemma loop_ok_plan: "plan_of p' = plan_of p \<Longrightarrow> loop_ok l p' = loop_ok l p"
  by (auto simp: loop_ok_def plan_of_def split: loop_at.splits)

lemma quiet_ok: "quiet d d' \<Longrightarrow> events_ok d \<Longrightarrow> trainer_ok runners tr d \<Longrightarrow> events_ok d' \<and> trainer_ok runners tr d'"
  by (auto simp: quiet_def events_ok_def trainer_ok_def split: trainer_at.splits)

lemma sys_ok_quiet:
  assumes "sys_ok runners B x" and "quiet (sys_manager x) d"
  shows "sys_ok runners B (x\<lparr>sys_manager := d\<rparr>)"
proof -
  have p: "plan_of (dm_progress d) = plan_of (dm_progress (sys_manager x))" using assms(2) by (simp add: quiet_def)
  show ?thesis using assms(1) quiet_ok [OF assms(2), of runners "sys_trainer x"] plan_ok_plan [OF p] loop_ok_plan [OF p] by (simp add: sys_ok_def)
qed

text \<open>The pass of the loop from its top: what it plans, and when it declares the batch expired.\<close>

lemma jobs_fresh:
  assumes "produce_batch_to_buffer runners sizes d = Inr (Some jobs)" "(t, ctx) \<in> set jobs"
  shows "\<not> runner_expired (ctx_train_step ctx) (ctx_model_step ctx) t"
proof -
  let ?f = "producer_future_step (dm_progress d)"
  obtain active where ex: "\<not> list_ex (runner_expired ?f (dm_model_step d)) runners" and ac: "active_tasks runners (target_samples (dm_progress d)) = Inr active"
      and js: "rmap (\<lambda>t. rbind (dict_read sizes (tr_task_name t)) (\<lambda>n. Inr (t, produce_context_of t n ?f (dm_model_step d)))) active = Inr jobs"
    using assms(1) by (auto simp: produce_batch_to_buffer_def Let_def rbind_Inr_iff split: if_splits)
  have "set active \<subseteq> set runners" using ac by (auto simp: active_tasks_def rbind_Inr_iff) (metis set_zip_leftD)
  moreover obtain n where "t \<in> set active" "ctx = produce_context_of t n ?f (dm_model_step d)"
    using list_all2_in2 [OF js [unfolded rmap_Inr_iff] assms(2)] by (auto simp: rbind_Inr_iff)
  ultimately show ?thesis using ex by (auto simp: produce_context_of_def list_ex_iff)
qed

lemma loop_top_ok:
  assumes run: "loop_top runners B d = Inr (l, d')" and ev: "events_ok d" and plan: "plan_ok (fair_sizes runners B) (dm_progress d)"
    and names: "distinct (map tr_task_name runners)" and w: "\<forall>t \<in> set runners. 0 \<le> tr_weight t" "0 < sum_list (map tr_weight runners)" and B: "0 < B"
  shows "loop_ok l (dm_progress d') \<and> plan_ok (fair_sizes runners B) (dm_progress d') \<and> events_ok d' \<and>
    (dm_status d' = dm_status d \<or> dm_status d = AM_NORMAL \<and> dm_status d' = AM_EXPIRED_BATCH) \<and> mg_pending (dm_core d') = mg_pending (dm_core d)"
proof (cases "dm_status d = AM_NORMAL")
  case False
  then have "d' = d \<and> (l = LoopEnded \<or> l = LoopTop)"
    using run ev by (cases "dm_status d") (auto simp: loop_top_def events_ok_def)
  then show ?thesis using ev plan by (auto simp: loop_ok_def)
next
  case True
  let ?sizes = "fair_sizes runners B" and ?p = "dm_progress d"
  let ?f = "producer_future_step ?p"
  have lin: "targets_linear ?sizes ?p" "max (target_upto_future_step ?p) ?f = ?f" using plan by (auto simp: plan_ok_def)
  have "distinct (map fst ?sizes)" using names by (simp add: fair_keys)
  from ensure_target_static [OF lin(1) this, of "allocate_task_batch_sizes runners" B ?f] allocate_positive(1) [OF names w B] lin(2)
  have en: "ensure_target_upto B ?f (allocate_task_batch_sizes runners) ?p =
      Inr (?sizes, ?p\<lparr>target_samples := map (\<lambda>(k, n). (k, ?f * n)) ?sizes, target_upto_future_step := ?f\<rparr>)" by simp
  let ?d1 = "set_progress (?p\<lparr>target_samples := map (\<lambda>(k, n). (k, ?f * n)) ?sizes, target_upto_future_step := ?f\<rparr>) d"
  have p1: "plan_ok ?sizes (dm_progress ?d1)" by (simp add: plan_ok_def targets_linear_def set_progress_def)
  have "\<not> dm_finish_event d" using True ev by (simp add: events_ok_def)
  then obtain jobs where jobs: "produce_batch_to_buffer runners ?sizes ?d1 = Inr jobs"
      "(l, d') = (case jobs of None \<Rightarrow> (LoopTop, ?d1\<lparr>dm_status := AM_EXPIRED_BATCH\<rparr>) | Some js \<Rightarrow> (Gathering js (\<lambda>_. DCreated), ?d1))"
    using run True en by (auto simp: loop_top_def rbind_Inr_iff Let_def)
  have "loop_ok (Gathering js (\<lambda>_. DCreated)) (dm_progress ?d1)" if "jobs = Some js" for js
    using jobs_fresh jobs(1) that by (fastforce simp: loop_ok_def set_progress_def)
  then show ?thesis using jobs(2) p1 ev True
    by (cases jobs) (auto simp: loop_ok_def events_ok_def set_progress_def)
qed

lemma loop_gathered_ok:
  assumes "PB_EXPIRED_BATCH \<notin> set statuses" and "plan_ok sizes (dm_progress d)" and up: "target_upto_future_step (dm_progress d) = producer_future_step (dm_progress d)"
  shows "plan_ok sizes (dm_progress (loop_gathered elapsed statuses d)) \<and> dm_status (loop_gathered elapsed statuses d) = dm_status d \<and>
    dm_update_event (loop_gathered elapsed statuses d) = dm_update_event d \<and> dm_finish_event (loop_gathered elapsed statuses d) = dm_finish_event d \<and>
    mg_pending (dm_core (loop_gathered elapsed statuses d)) = mg_pending (dm_core d)"
proof -
  have "aggregate_status statuses \<noteq> PB_EXPIRED_BATCH" using assms(1) by (auto simp: aggregate_status_def list_ex_iff)
  then show ?thesis using assms(2) up
    by (cases "aggregate_status statuses")
       (auto simp: loop_gathered_def Let_def set_progress_def plan_ok_def targets_linear_def add_produce_time_def advance_future_step_def)
qed

lemma loop_ok_update: "loop_ok (Gathering jobs cor) p \<Longrightarrow> co \<noteq> DReturned PB_EXPIRED_BATCH \<Longrightarrow> loop_ok (Gathering jobs (cor(k := co))) p"
  by (auto simp: loop_ok_def)

lemma save_quiet: "disagg_save runners v no_save d = Inr (ck, d') \<Longrightarrow> quiet d d'"
  by (auto simp: disagg_save_def Let_def rbind_Inr_iff quiet_def)

text \<open>The status changes that the documentation of \<open>AgentLoopManagerStatus\<close> lists.\<close>

definition documented :: "AgentLoopManagerStatus \<Rightarrow> AgentLoopManagerStatus \<Rightarrow> bool" where
  "documented a b \<longleftrightarrow> a = b \<or> b = AM_FINISH \<or>
     (a, b) \<in> {(AM_NORMAL, AM_UPDATE_WEIGHT_AND_ABORT), (AM_UPDATE_WEIGHT_AND_ABORT, AM_NORMAL), (AM_NORMAL, AM_EXPIRED_BATCH),
               (AM_EXPIRED_BATCH, AM_UPDATE_WEIGHT_AND_ABORT)}"

lemma documented_same [simp]: "documented a a"
  by (simp add: documented_def)

lemma sys_step_ok:
  assumes "disagg_step rc runners B x y" and inv: "sys_ok runners B x"
    and names: "distinct (map tr_task_name runners)" and w: "\<forall>t \<in> set runners. 0 \<le> tr_weight t" "0 < sum_list (map tr_weight runners)" and B: "0 < B"
  shows "sys_ok runners B y \<and> documented (dm_status (sys_manager x)) (dm_status (sys_manager y))"
  using assms(1)
proof cases
  case (top l d)
  then show ?thesis using loop_top_ok [OF top(3) _ _ names w B] inv
    by (auto simp: sys_ok_def trainer_ok_def documented_def split: trainer_at.splits)
next
  case (turn jobs cor t ctx finished co d)
  have "quiet (sys_manager x) d \<and> co \<noteq> DReturned PB_EXPIRED_BATCH"
    by (rule gather_turn_spec [OF turn(4)]) (use inv turn(2,3) in \<open>auto simp: sys_ok_def loop_ok_def\<close>)
  then show ?thesis using sys_ok_quiet [OF inv, of d] turn(1,2) loop_ok_update [of jobs cor _ co "tr_task_name t"]
    by (auto simp: sys_ok_def quiet_def)
next
  case (gathered jobs cor statuses elapsed)
  have "PB_EXPIRED_BATCH \<notin> set statuses"
  proof
    assume "PB_EXPIRED_BATCH \<in> set statuses"
    then have "DReturned PB_EXPIRED_BATCH \<in> set (map (\<lambda>(t, ctx). cor (tr_task_name t)) jobs)" by (simp add: gathered(3))
    then show False using inv gathered(2) by (auto simp: sys_ok_def loop_ok_def)
  qed
  from loop_gathered_ok [OF this, of "fair_sizes runners B" "sys_manager x" elapsed] show ?thesis
    using inv gathered(1,2) by (auto simp: sys_ok_def loop_ok_def events_ok_def trainer_ok_def split: trainer_at.splits)
next
  case pause
  then show ?thesis using inv
    by (auto simp: sys_ok_def pause_begin_def events_ok_def trainer_ok_def documented_def)
next
  case (drain t ts acc finished d)
  then show ?thesis using sys_ok_quiet [OF inv drain_claim_spec [OF drain(3)]] drain_claim_spec [OF drain(3)] by (simp add: quiet_def)
next
  case (cancel t ts acc time)
  then show ?thesis using inv by (auto simp: sys_ok_def drain_cancel_def events_ok_def trainer_ok_def)
next
  case (drained t ts acc time)
  then show ?thesis using inv by (auto simp: sys_ok_def trainer_ok_def)
next
  case (paused acc)
  then show ?thesis using inv by (auto simp: sys_ok_def pause_end_def events_ok_def trainer_ok_def)
next
  case (save model_step no_save ck d)
  then show ?thesis using sys_ok_quiet [OF inv save_quiet [OF save(3)]] save_quiet [OF save(3)] by (simp add: quiet_def)
next
  case (continue model_step)
  then show ?thesis using inv by (auto simp: sys_ok_def continue_produce_def events_ok_def trainer_ok_def documented_def)
next
  case (get train_step sizes d)
  note q = get_batch_begin_quiet [OF get(3)]
  show ?thesis using sys_ok_quiet [OF inv q] q get(1,2) inv by (auto simp: sys_ok_def quiet_def trainer_ok_def)
next
  case (poll train_step sizes r d)
  note q = get_batch_poll_quiet [OF poll(3)]
  show ?thesis using sys_ok_quiet [OF inv q] q poll(1,2) inv by (auto simp: sys_ok_def quiet_def trainer_ok_def)
next
  case shutdown
  then show ?thesis using inv by (auto simp: sys_ok_def shutdown_def events_ok_def trainer_ok_def documented_def)
qed

definition start_system :: "disagg_manager \<Rightarrow> disagg_system" where
  "start_system d = \<lparr>sys_manager = d, sys_loop = LoopTop, sys_trainer = TIdle\<rparr>"

lemma start_ok:
  assumes "disagg_init runners core = Inr (name, d)" and names: "distinct (map tr_task_name runners)"
  shows "sys_ok runners B (start_system d)"
proof -
  have d: "d = \<lparr>dm_core = core\<lparr>mg_progress := disagg_build (map tr_task_name runners)\<rparr>, dm_status = AM_NORMAL, dm_update_event = False,
      dm_finish_event = False, dm_model_step = 0, dm_pause_time_s = 0\<rparr>"
    using assms(1) by (auto simp: disagg_init_def manager_init_def split: if_splits)
  have "dict_const (map tr_task_name runners) 0 = map (\<lambda>(k, n). (k, 0 * n)) (fair_sizes runners B)"
    using dict_const_tab [OF names, of "0 :: int"] by (simp add: tab_def fair_sizes_def comp_def)
  then show ?thesis
    by (simp add: sys_ok_def start_system_def d events_ok_def trainer_ok_def loop_ok_def plan_ok_def targets_linear_def disagg_build_def)
qed

text \<open>The states a manager can be in.\<close>

definition reachable :: "run_config \<Rightarrow> TaskRunner list \<Rightarrow> int \<Rightarrow> DisaggProduceProgress manager \<Rightarrow> disagg_system \<Rightarrow> bool" where
  "reachable rc runners B core x \<longleftrightarrow> (\<exists>name d. disagg_init runners core = Inr (name, d) \<and> (disagg_step rc runners B)\<^sup>*\<^sup>* (start_system d) x)"

lemma reachable_ok:
  assumes "reachable rc runners B core x" and "distinct (map tr_task_name runners)" and "\<forall>t \<in> set runners. 0 \<le> tr_weight t" and "0 < B"
  shows "sys_ok runners B x \<and> 0 < sum_list (map tr_weight runners)"
proof -
  obtain name d where d: "disagg_init runners core = Inr (name, d)" and run: "(disagg_step rc runners B)\<^sup>*\<^sup>* (start_system d) x"
    using assms(1) by (auto simp: reachable_def)
  have w: "0 < sum_list (map tr_weight runners)" using d by (auto simp: disagg_init_def manager_init_def split: if_splits)
  from run have "sys_ok runners B x"
    by (induction rule: rtranclp_induct) (use start_ok [OF d assms(2)] sys_step_ok assms(2-4) w in blast)+
  then show ?thesis using w by simp
qed

text \<open>Which calls set the model step.\<close>

lemma model_step_kept [simp]:
  "dm_model_step (loop_gathered elapsed statuses d) = dm_model_step d" "dm_model_step (pause_begin d) = dm_model_step d"
  "dm_model_step (drain_cancel t d) = dm_model_step d" "dm_model_step (pause_end acc d) = dm_model_step d"
  "dm_model_step (set_progress p d) = dm_model_step d" "dm_model_step (shutdown d) = dm_model_step d"
  by (simp_all add: loop_gathered_def pause_begin_def drain_cancel_def pause_end_def set_progress_def shutdown_def Let_def split: ProduceBatchStatus.splits)

lemma gather_turn_model_step: "gather_turn rc t ctx finished co d = Inr (co', d') \<Longrightarrow> dm_model_step d' = dm_model_step d"
  by (auto simp: gather_turn_def Let_def rbind_Inr_iff)

lemma drain_claim_model_step: "drain_claim rc t finished d = Inr d' \<Longrightarrow> dm_model_step d' = dm_model_step d"
  by (auto simp: drain_claim_def Let_def rbind_Inr_iff split: produce_strategy.splits)

lemma refresh_model_step: "refresh_manager runners t d = Inr d' \<Longrightarrow> dm_model_step d' = dm_model_step d"
  by (auto simp: refresh_manager_def rbind_Inr_iff)

lemma loop_top_model_step:
  assumes "loop_top runners B d = Inr (l, d')"
  shows "dm_model_step d' = dm_model_step d"
proof -
  have "d' = d \<or> (\<exists>p. d' = set_progress p d \<or> d' = (set_progress p d)\<lparr>dm_status := AM_EXPIRED_BATCH\<rparr>)"
    using assms unfolding loop_top_def Let_def rbind_Inr_iff
    by (simp only: split: if_splits) (auto simp: rbind_Inr_iff split: option.splits)
  then show ?thesis by auto
qed

lemma get_batch_model_step:
  "get_batch_begin runners B t d = Inr (sizes, d') \<Longrightarrow> dm_model_step d' = dm_model_step d"
  "take_ready runners sizes t d = Inr (r, d') \<Longrightarrow> dm_model_step d' = dm_model_step d"
  "get_batch_poll runners sizes t d = Inr (r, d') \<Longrightarrow> dm_model_step d' = dm_model_step d"
proof -
  show "get_batch_begin runners B t d = Inr (sizes, d') \<Longrightarrow> dm_model_step d' = dm_model_step d"
    by (auto simp: get_batch_begin_def rbind_Inr_iff dest!: refresh_model_step)
  show tk: "take_ready runners sizes t d = Inr (r, d') \<Longrightarrow> dm_model_step d' = dm_model_step d" for r d'
    by (auto simp: take_ready_def consume_pause_time_def rbind_Inr_iff Let_def dest!: refresh_model_step split: if_splits)
  show "get_batch_poll runners sizes t d = Inr (r, d') \<Longrightarrow> dm_model_step d' = dm_model_step d"
    by (auto simp: get_batch_poll_def consume_pause_time_def rbind_Inr_iff Let_def dest: tk split: if_splits)
qed

lemmas model_step_dests = gather_turn_model_step drain_claim_model_step loop_top_model_step get_batch_model_step(1,3)

subsection \<open>Lemmas: the batch\<close>

lemma empty_result_states [simp]: "pb_rollout_states (empty_result st) = []" "pb_status (empty_result st) = st"
  by (simp_all add: empty_result_def TaskResult.defs ProduceBatchResult.defs task_result_def)

lemma take_ready_spec:
  assumes "take_ready runners sizes t d = Inr (Some r, d')"
  obtains pause p rb q where "take_train_batch mark_consumed runners sizes t pause (dm_progress d) (mg_buffer (dm_core d)) = Inr (q, p, rb)"
    and "pb_rollout_states r = pb_rollout_states q" and "dm_status d = AM_EXPIRED_BATCH \<Longrightarrow> pb_status r = PB_EXPIRED_BATCH"
  using assms by (auto simp: take_ready_def consume_pause_time_def rbind_Inr_iff Let_def split: if_splits)

lemma allocated:
  assumes "allocate_task_batch_sizes runners B st = Inr sizes" and "distinct (map tr_task_name runners)" and "\<forall>t \<in> set runners. 0 \<le> tr_weight t" and "0 < B"
  shows "sizes = fair_sizes runners B \<and> sum_list (map snd sizes) = B \<and> list_all (\<lambda>(k, n). 0 \<le> n) sizes"
proof -
  have w: "0 < sum_list (map tr_weight runners)" using assms(1) by (auto simp: allocate_task_batch_sizes_def split: if_splits)
  have eq: "sizes = fair_sizes runners B" using allocate_positive(1) [OF assms(2,3) w assms(4), of st] assms(1) by simp
  moreover have "\<not> (\<exists>(k, x) \<in> set sizes. x < 0)"
    using assms(1) by (auto simp: allocate_task_batch_sizes_def rbind_Inr_iff Let_def split: if_splits)
  ultimately show ?thesis using allocate_positive(2) [OF assms(2,3) w assms(4)] by (auto simp: list_all_iff not_less)
qed

subsection \<open>Properties\<close>

definition one_runner :: "TaskRunner list" where
  "one_runner = [\<lparr>tr_task_name = ''b'', tr_produce_strategy = AsyncStrategy demo_strategy, tr_weight = 1, tr_order = 0\<rparr>]"

definition one_core :: "DisaggProduceProgress manager" where
  "one_core = \<lparr>mg_progress = disagg_build [''b''], mg_buffer = build_async_buffer, mg_store = None, mg_heap = [], mg_freed = [],
     mg_samplers = (\<lambda>_. pr_sampler demo_state), mg_pending = (\<lambda>_. []), mg_next = 0\<rparr>"

definition one_manager :: disagg_manager where
  "one_manager = \<lparr>dm_core = one_core, dm_status = AM_NORMAL, dm_update_event = False, dm_finish_event = False, dm_model_step = 0, dm_pause_time_s = 0\<rparr>"

lemma one_init: "disagg_init one_runner one_core = Inr (''b'', one_manager)"
  by (simp add: disagg_init_def manager_init_def one_runner_def one_core_def one_manager_def)

lemma one_config: "distinct (map tr_task_name one_runner)" "list_all (\<lambda>t. 0 \<le> tr_weight t) one_runner" "(0 :: int) < 1"
  by (simp_all add: one_runner_def)

text \<open>The producer has started two rollouts when the trainer pauses it and cancels them.\<close>

definition one_turn :: "((TaskRunner \<times> produce_context) list \<times> (string \<Rightarrow> disagg_coroutine) \<times> disagg_manager) option" where
  "one_turn = (case loop_top one_runner 1 one_manager of
     Inr (Gathering [(t, ctx)] cor, d) \<Rightarrow> (case gather_turn two_config t ctx [] (cor ''b'') d of
        Inr (co, d') \<Rightarrow> if tr_task_name t = ''b'' \<and> length (mg_pending (dm_core d') ''b'') = 2 then Some ([(t, ctx)], cor(''b'' := co), d') else None
      | Inl e \<Rightarrow> None)
   | _ \<Rightarrow> None)"

lemma one_turn_runs: "(case one_turn of None \<Rightarrow> False | Some (jobs, cor, d) \<Rightarrow> True) = True"
  by code_simp

lemma one_run:
  "\<exists>jobs cor d. length (mg_pending (dm_core d) ''b'') = 2 \<and>
     reachable two_config one_runner 1 one_core \<lparr>sys_manager = d, sys_loop = Gathering jobs cor, sys_trainer = TIdle\<rparr>"
proof -
  obtain jobs cor d where "one_turn = Some (jobs, cor, d)" using one_turn_runs by (auto split: option.splits)
  then obtain t ctx cor0 co d0 where top: "loop_top one_runner 1 one_manager = Inr (Gathering [(t, ctx)] cor0, d0)"
      and turn: "gather_turn two_config t ctx [] (cor0 ''b'') d0 = Inr (co, d)" and t: "tr_task_name t = ''b''" "length (mg_pending (dm_core d) ''b'') = 2"
      and r: "jobs = [(t, ctx)]" "cor = cor0(''b'' := co)"
    by (auto simp: one_turn_def split: sum.splits prod.splits loop_at.splits list.splits if_splits)
  let ?x1 = "\<lparr>sys_manager = d0, sys_loop = Gathering [(t, ctx)] cor0, sys_trainer = TIdle\<rparr>"
  let ?x2 = "\<lparr>sys_manager = d, sys_loop = Gathering jobs cor, sys_trainer = TIdle\<rparr>"
  have "disagg_step two_config one_runner 1 (start_system one_manager) ?x1"
    using disagg_step.top [of "start_system one_manager" one_runner 1 "Gathering [(t, ctx)] cor0" d0 two_config] top by (simp add: start_system_def)
  moreover have "disagg_step two_config one_runner 1 ?x1 ?x2"
    using disagg_step.turn [of ?x1 "[(t, ctx)]" cor0 t ctx two_config "[]" co d one_runner 1] turn t r by simp
  ultimately have "(disagg_step two_config one_runner 1)\<^sup>*\<^sup>* (start_system one_manager) ?x2" by (meson rtranclp.intros)
  then show ?thesis using one_init t(2) unfolding reachable_def by blast
qed

lemma reachable_step: "reachable rc runners B core x \<Longrightarrow> disagg_step rc runners B x y \<Longrightarrow> reachable rc runners B core y"
  by (auto simp: reachable_def intro: rtranclp.rtrancl_into_rtrancl)

lemma one_pause:
  "\<exists>x. reachable two_config one_runner 1 one_core x \<and> sys_trainer x = TPaused \<and>
     disagg_step two_config one_runner 1 x (x\<lparr>sys_manager := continue_produce 5 (sys_manager x), sys_trainer := TIdle\<rparr>)"
proof -
  obtain jobs cor d where "reachable two_config one_runner 1 one_core \<lparr>sys_manager = d, sys_loop = Gathering jobs cor, sys_trainer = TIdle\<rparr>"
    using one_run by blast
  note r = this reachable_step [OF this disagg_step.pause] reachable_step [OF _ disagg_step.cancel] reachable_step [OF _ disagg_step.paused]
  let ?d1 = "drain_cancel (hd one_runner) (pause_begin d)"
  have "reachable two_config one_runner 1 one_core \<lparr>sys_manager = pause_begin d, sys_loop = Gathering jobs cor, sys_trainer = TPausing one_runner 0\<rparr>"
    using r(2) by simp
  then have "reachable two_config one_runner 1 one_core \<lparr>sys_manager = ?d1, sys_loop = Gathering jobs cor, sys_trainer = TPausing [] (0 + 1)\<rparr>"
    using r(3) [of two_config one_runner 1 one_core _ "hd one_runner" "[]" 0 1] by (force simp: one_runner_def)
  then have "reachable two_config one_runner 1 one_core \<lparr>sys_manager = pause_end (0 + 1) ?d1, sys_loop = Gathering jobs cor, sys_trainer = TPaused\<rparr>"
    using r(4) by force
  moreover have "disagg_step rc runners B x (x\<lparr>sys_manager := continue_produce 5 (sys_manager x), sys_trainer := TIdle\<rparr>)"
    if "sys_trainer x = TPaused" for rc runners B x using that by (rule disagg_step.continue)
  ultimately show ?thesis by (meson disagg_system.select_convs(3))
qed

text \<open>C27. The status machine. In every interleaving of the background producer with the trainer, every step changes the manager's status
  only along the documented transitions, the update event is set exactly while weights are exchanged or after the end, and the finish event
  exactly after the end.\<close>

theorem disagg_status_machine:
  assumes "reachable rc runners B core x" and "disagg_step rc runners B x y"
    and "distinct (map tr_task_name runners)" and "list_all (\<lambda>t. 0 \<le> tr_weight t) runners" and "0 < B"
  shows "documented (dm_status (sys_manager x)) (dm_status (sys_manager y)) \<and>
    (dm_update_event (sys_manager y) \<longleftrightarrow> dm_status (sys_manager y) \<in> {AM_UPDATE_WEIGHT_AND_ABORT, AM_FINISH}) \<and>
    (dm_finish_event (sys_manager y) \<longleftrightarrow> dm_status (sys_manager y) = AM_FINISH)"
proof -
  have w: "\<forall>t \<in> set runners. 0 \<le> tr_weight t" using assms(4) by (simp add: list_all_iff)
  have inv: "sys_ok runners B x" "0 < sum_list (map tr_weight runners)" using reachable_ok [OF assms(1,3) w assms(5)] by auto
  show ?thesis using sys_step_ok [OF assms(2) inv(1) assms(3) w inv(2) assms(5)] by (simp add: sys_ok_def events_ok_def)
qed

theorem disagg_status_machine_witness:
  "\<exists>x y. disagg_step two_config one_runner 1 x y \<and> dm_status (sys_manager y) = AM_NORMAL \<and>
     documented (dm_status (sys_manager x)) (dm_status (sys_manager y)) \<and> \<not> dm_update_event (sys_manager y)"
proof -
  obtain x where x: "reachable two_config one_runner 1 one_core x"
      "disagg_step two_config one_runner 1 x (x\<lparr>sys_manager := continue_produce 5 (sys_manager x), sys_trainer := TIdle\<rparr>)"
    using one_pause by blast
  from disagg_status_machine [OF x one_config] show ?thesis using x(2)
    by (intro exI [of _ x] exI [of _ "x\<lparr>sys_manager := continue_produce 5 (sys_manager x), sys_trainer := TIdle\<rparr>"]) (simp add: continue_produce_def)
qed

text \<open>C28. Weights are exchanged only when nothing is in flight: once \<open>pause_produce\<close> has returned, no task has a pending rollout, whatever
  the producer did meanwhile, so a checkpoint is not refused; and the model step of the producer changes only there.\<close>

theorem disagg_pause_drains:
  assumes "reachable rc runners B core x" and "disagg_step rc runners B x y"
    and "distinct (map tr_task_name runners)" and "list_all (\<lambda>t. 0 \<le> tr_weight t) runners" and "0 < B"
  shows "(sys_trainer x = TPaused \<longrightarrow> get_pending_task_counts runners (dm_core (sys_manager x)) = []) \<and>
    (dm_model_step (sys_manager y) \<noteq> dm_model_step (sys_manager x) \<longrightarrow>
       sys_trainer x = TPaused \<and> get_pending_task_counts runners (dm_core (sys_manager x)) = [])"
proof -
  have w: "\<forall>t \<in> set runners. 0 \<le> tr_weight t" using assms(4) by (simp add: list_all_iff)
  have "trainer_ok runners (sys_trainer x) (sys_manager x)" using reachable_ok [OF assms(1,3) w assms(5)] by (simp add: sys_ok_def)
  then have idle: "get_pending_task_counts runners (dm_core (sys_manager x)) = []" if "sys_trainer x = TPaused"
    using that by (auto simp: trainer_ok_def get_pending_task_counts_def pending_task_count_def dict_of_def filter_empty_conv split: produce_strategy.splits)
  moreover have "sys_trainer x = TPaused" if "dm_model_step (sys_manager y) \<noteq> dm_model_step (sys_manager x)"
    using assms(2) that by cases (auto dest: model_step_dests)
  ultimately show ?thesis by blast
qed

theorem disagg_pause_drains_witness:
  "\<exists>x y. reachable two_config one_runner 1 one_core x \<and> disagg_step two_config one_runner 1 x y \<and> sys_trainer x = TPaused \<and>
     dm_model_step (sys_manager y) = 5 \<and> get_pending_task_counts one_runner (dm_core (sys_manager x)) = []"
proof -
  obtain x where x: "reachable two_config one_runner 1 one_core x"
      "disagg_step two_config one_runner 1 x (x\<lparr>sys_manager := continue_produce 5 (sys_manager x), sys_trainer := TIdle\<rparr>)"
      and p: "sys_trainer x = TPaused"
    using one_pause by blast
  from disagg_pause_drains [OF x one_config] p x show ?thesis
    by (intro exI [of _ x] exI [of _ "x\<lparr>sys_manager := continue_produce 5 (sys_manager x), sys_trainer := TIdle\<rparr>"]) (simp add: continue_produce_def)
qed

text \<open>The background plan never drifts: in every reachable state the target of every task is the number of planned steps times its share of
  a batch, the planned steps are those up to the producer's step or up to the one before it, so the targets together are that
  many full batches.\<close>

theorem disagg_targets_exact:
  assumes "reachable rc runners B core x" and "allocate_task_batch_sizes runners B st = Inr sizes"
    and "distinct (map tr_task_name runners)" and "list_all (\<lambda>t. 0 \<le> tr_weight t) runners" and "0 < B"
  shows "let p = dm_progress (sys_manager x); k = target_upto_future_step p in
    target_samples p = map (\<lambda>(a, n). (a, k * n)) sizes \<and> k \<in> {producer_future_step p - 1, producer_future_step p} \<and>
    sum_list (map snd (target_samples p)) = k * B"
proof -
  have w: "\<forall>t \<in> set runners. 0 \<le> tr_weight t" using assms(4) by (simp add: list_all_iff)
  have sz: "sizes = fair_sizes runners B" "sum_list (map snd sizes) = B" using allocated [OF assms(2,3) w assms(5)] by auto
  have "plan_ok sizes (dm_progress (sys_manager x))" using reachable_ok [OF assms(1,3) w assms(5)] sz by (simp add: sys_ok_def)
  moreover have "sum_list (map snd (map (\<lambda>(a, n). (a, k * n)) xs)) = k * sum_list (map snd xs)" for k and xs :: "(string \<times> int) list"
    by (induction xs) (auto simp: algebra_simps)
  ultimately show ?thesis using sz by (auto simp: plan_ok_def targets_linear_def Let_def)
qed

theorem disagg_targets_exact_witness:
  "\<exists>x. reachable two_config one_runner 1 one_core x \<and> length (mg_pending (dm_core (sys_manager x)) ''b'') = 2 \<and>
     sum_list (map snd (target_samples (dm_progress (sys_manager x)))) = target_upto_future_step (dm_progress (sys_manager x))"
proof -
  obtain jobs cor d where r: "reachable two_config one_runner 1 one_core \<lparr>sys_manager = d, sys_loop = Gathering jobs cor, sys_trainer = TIdle\<rparr>"
      and n: "length (mg_pending (dm_core d) ''b'') = 2"
    using one_run by blast
  have "\<forall>t \<in> set one_runner. 0 \<le> tr_weight t" "0 < sum_list (map tr_weight one_runner)" by (simp_all add: one_runner_def)
  from allocate_positive(1) [OF one_config(1) this one_config(3)]
  have a: "allocate_task_batch_sizes one_runner 1 0 = Inr (fair_sizes one_runner 1)" .
  from disagg_targets_exact [OF r a one_config] have "sum_list (map snd (target_samples (dm_progress d))) = target_upto_future_step (dm_progress d)"
    unfolding Let_def disagg_system.select_convs by (elim conjE) linarith
  then show ?thesis using r n by (intro exI conjI) (assumption, simp_all)
qed

text \<open>C29. What the trainer gets, exactly. When a poll of \<open>get_batch\<close> returns, the batch has exactly \<open>batch_size\<close> groups without a supervised stale
  token, or it is empty because training ends or because the rollout model has expired and a newer one exists. A batch
  from an expired producer always makes the trainer synchronise the weights, which restarts the producer; and an expired
  producer with neither a batch nor a newer model is reported as an error.\<close>

theorem get_batch_exact:
  assumes sizes: "allocate_task_batch_sizes runners B st = Inr sizes" and ok: "storage_ok (rb_storage (mg_buffer (dm_core d)))"
    and names: "distinct (map tr_task_name runners)" and w: "list_all (\<lambda>t. 0 \<le> tr_weight t) runners" and B: "0 < B"
    and run: "get_batch_poll runners sizes t d = Inr (Some r, d')"
  shows "(if pb_rollout_states r \<noteq> []
      then int (length (pb_rollout_states r)) = B \<and>
        list_all (\<lambda>s. \<exists>tr \<in> set runners. task_name s = Some (tr_task_name tr) \<and>
          (\<forall>th. tr_token_stale_threshold tr = Some th \<longrightarrow> no_stale_label t th s)) (concat (pb_rollout_states r))
      else dm_finish_event d \<or> dm_status d = AM_EXPIRED_BATCH \<and> dm_model_step d < t - 1 \<and> empty_expired_batch r) \<and>
    (dm_status d = AM_EXPIRED_BATCH \<and> \<not> dm_finish_event d \<longrightarrow> need_sync interval steps r t)"
proof -
  have w': "\<forall>t \<in> set runners. 0 \<le> tr_weight t" using w by (simp add: list_all_iff)
  have sz: "sizes = fair_sizes runners B" "sum_list (map snd sizes) = B" "list_all (\<lambda>(k, n). 0 \<le> n) sizes"
    using allocated [OF sizes names w' B] by auto
  consider (over) "dm_finish_event d" "r = empty_result PB_NORMAL"
    | (expired) "\<not> dm_finish_event d" "dm_status d = AM_EXPIRED_BATCH" "dm_model_step d < t - 1" "pb_rollout_states r = []" "pb_status r = PB_EXPIRED_BATCH"
    | (ready) "\<not> dm_finish_event d" "is_ready sizes COMPLETED (mg_buffer (dm_core d)) = Inr True" "take_ready runners sizes t d = Inr (Some r, d')"
    using run by (auto simp: get_batch_poll_def consume_pause_time_def rbind_Inr_iff Let_def split: if_splits)
  then show ?thesis
  proof cases
    case ready
    obtain pause p rb q where tk: "take_train_batch mark_consumed runners sizes t pause (dm_progress d) (mg_buffer (dm_core d)) = Inr (q, p, rb)"
        and q: "pb_rollout_states r = pb_rollout_states q" "dm_status d = AM_EXPIRED_BATCH \<Longrightarrow> pb_status r = PB_EXPIRED_BATCH"
      using ready(3) by (elim take_ready_spec) blast
    have keys: "map fst sizes = map tr_task_name runners" by (simp add: sz(1) fair_keys)
    have "int (length (pb_rollout_states r)) = B" using train_batch_length [OF tk names keys ok ready(2) sz(3)] sz(2) q(1) by simp
    then show ?thesis using train_batch_sample [OF tk names keys ok ready(2)] q B by (auto simp: list_all_iff need_sync_def)
  qed (simp_all add: empty_expired_batch_def need_sync_def)
qed

definition polled_manager :: disagg_manager where
  "polled_manager = one_manager\<lparr>dm_core := one_core\<lparr>mg_progress := disagg_build [''a''], mg_buffer := stale_buffer\<rparr>, dm_status := AM_EXPIRED_BATCH, dm_model_step := 4\<rparr>"

lemma polled_batch: "(case get_batch_poll [masking_runner] [(''a'', 1)] 5 polled_manager of Inr (Some r, d') \<Rightarrow> pb_rollout_states r \<noteq> [] | _ \<Rightarrow> False) = True"
  by code_simp

theorem get_batch_exact_witness:
  "\<exists>r d'. get_batch_poll [masking_runner] [(''a'', 1)] 5 polled_manager = Inr (Some r, d') \<and> length (pb_rollout_states r) = 1 \<and> need_sync 8 100 r 5"
proof -
  obtain r d' where run: "get_batch_poll [masking_runner] [(''a'', 1)] 5 polled_manager = Inr (Some r, d')" and ne: "pb_rollout_states r \<noteq> []"
    using polled_batch by (auto split: sum.splits option.splits)
  have sizes: "allocate_task_batch_sizes [masking_runner] 1 0 = Inr [(''a'', 1)]" by code_simp
  have ok: "storage_ok (rb_storage (mg_buffer (dm_core polled_manager)))"
    by (simp add: polled_manager_def stale_buffer_def storage_ok_def content_def keyed_def)
  have cfg: "distinct (map tr_task_name [masking_runner])" "list_all (\<lambda>t. 0 \<le> tr_weight t) [masking_runner]" "(0 :: int) < 1"
    by (simp_all add: masking_runner_def)
  have st: "dm_status polled_manager = AM_EXPIRED_BATCH" "\<not> dm_finish_event polled_manager" by (simp_all add: polled_manager_def one_manager_def)
  show ?thesis using get_batch_exact [OF sizes ok cfg run, of 8 100] run ne st by auto
qed

text \<open>A resumed manager waits for its trainer: \<open>resume\<close> returns the saved model step, the progress is the saved one, the status is that of a
  paused manager, and the background loop does nothing until \<open>continue_produce\<close> is called.\<close>

theorem disagg_resume_waits:
  assumes "disagg_save runners v False d = Inr (ck, d1)" and "disagg_resume ck runners d2 = Inr (u, d3)"
    and "progress_ok names (dm_progress d)" and "progress_task_names (dm_progress d2) = progress_task_names (dm_progress d)"
  shows "u = v \<and> dm_model_step d1 = v \<and> dm_model_step d3 = v \<and> dm_progress d3 = dm_progress d \<and>
    dm_status d3 = AM_UPDATE_WEIGHT_AND_ABORT \<and> dm_update_event d3 \<and> loop_top runners B d3 = Inr (LoopTop, d3) \<and>
    dm_status (continue_produce w d3) = AM_NORMAL"
proof -
  have keep: "resume_samplers fs ts m = Inr m' \<Longrightarrow> mg_progress m' = mg_progress m" for fs ts and m m' :: "DisaggProduceProgress manager"
    by (induction ts arbitrary: m) (auto simp: rbind_Inr_iff)
  have keep2: "resume_buffer c m = Inr m' \<Longrightarrow> mg_progress m' = mg_progress m" for c and m m' :: "DisaggProduceProgress manager"
    by (auto simp: resume_buffer_def rbind_Inr_iff split: if_splits option.splits)
  obtain mck where mck: "manager_save runners v False (dm_core d) = Inr mck" and ck: "ck = manager_checkpoint.extend mck (disagg_checkpoint.fields (dm_status d) (progress_state_dict (dm_progress d)))"
      and d1: "d1 = d\<lparr>dm_model_step := v\<rparr>"
    using assms(1) by (auto simp: disagg_save_def Let_def rbind_Inr_iff)
  have v: "ck_model_step mck = v" using mck by (auto simp: manager_save_def rbind_Inr_iff split: if_splits)
  have tr: "manager_checkpoint.truncate ck = mck" "ck_progress ck = progress_state_dict (dm_progress d)"
    by (simp_all add: ck manager_checkpoint.defs disagg_checkpoint.defs)
  obtain core where re: "manager_resume mck runners (dm_core d2) = Inr (u, core)"
      and d3: "d3 = d2\<lparr>dm_core := core\<lparr>mg_progress := progress_load_state_dict (progress_state_dict (dm_progress d)) (mg_progress core)\<rparr>,
        dm_status := AM_UPDATE_WEIGHT_AND_ABORT, dm_update_event := True, dm_finish_event := False, dm_model_step := u, dm_pause_time_s := 0\<rparr>"
    using assms(2) by (auto simp: disagg_resume_def tr rbind_Inr_iff)
  have "u = v" "mg_progress core = dm_progress d2" using re v keep keep2 by (auto simp: manager_resume_def rbind_Inr_iff)
  moreover have "progress_load_state_dict (progress_state_dict (dm_progress d)) (dm_progress d2) = dm_progress d"
    using progress_roundtrip [OF assms(3), of "dm_progress d2"] assms(4) by simp
  ultimately show ?thesis by (simp add: d3 d1 loop_top_def continue_produce_def)
qed

lemma one_resume:
  "(case disagg_save one_runner 7 False one_manager of Inl e \<Rightarrow> False
    | Inr (ck, d1) \<Rightarrow> (case disagg_resume ck one_runner one_manager of Inl e \<Rightarrow> False | Inr (u, d3) \<Rightarrow> True)) = True"
  by code_simp

theorem disagg_resume_waits_witness:
  "\<exists>ck d1 d3. disagg_save one_runner 7 False one_manager = Inr (ck, d1) \<and> disagg_resume ck one_runner one_manager = Inr (7, d3) \<and>
     loop_top one_runner 1 d3 = Inr (LoopTop, d3)"
proof -
  obtain ck d1 u d3 where r: "disagg_save one_runner 7 False one_manager = Inr (ck, d1)" "disagg_resume ck one_runner one_manager = Inr (u, d3)"
    using one_resume by (auto split: sum.splits)
  have p: "progress_ok [''b''] (dm_progress one_manager)" "progress_task_names (dm_progress one_manager) = progress_task_names (dm_progress one_manager)"
    using disagg_build_ok [of "[''b'']"] by (simp_all add: one_manager_def one_core_def)
  from disagg_resume_waits [OF r p, of 1 0] show ?thesis using r by auto
qed

end
