(* ===== verification/Topology.thy ===== *)
theory Topology
  imports RolloutData "HOL-Library.AList"
begin

text \<open>
  The static layout of the rollout servers (\<open>rl/rollout/rollout_topology.py\<close>) and the three
  backend constructors that build it from the placement of the workers
  (\<open>build_rollout_topology\<close> of \<open>lmdeploy.py\<close>, \<open>vllm.py\<close> and \<open>sglang.py\<close>).

  Dictionaries are association lists in insertion order, \<open>AList.update\<close> being Python's item
  assignment; sets of ranks are sets. The dataclass validation is the loop of
  \<open>__post_init__\<close>, and it is proved to accept exactly the layouts in which every rollout rank
  belongs to one engine, receives its weights through one server process, and no placement
  group bundle is used twice. The three builders are proved to produce such layouts.
\<close>

section \<open>Data\<close>

record RolloutServerProcess =
  worker_rank :: int
  placement_group_bundle_idxs :: "int list"
  weight_update_ranks :: "int list"
  inference_engine_ranks :: "int list"
  accepts_rollout_requests :: bool
  node_rank :: int
  nnodes :: int

definition is_weight_update_endpoint :: "RolloutServerProcess \<Rightarrow> bool" where
  "is_weight_update_endpoint s = (weight_update_ranks s \<noteq> [])"

record RolloutEngine =
  engine_ranks :: "int list"
  dist_init_addr :: string
  server_processes :: "RolloutServerProcess list"

record ServerLaunchSpec =
  spec_worker_rank :: int
  spec_placement_group_bundle_idxs :: "int list"
  spec_dist_init_addr :: string
  spec_engine_rank :: int
  spec_accepts_rollout_requests :: bool
  spec_node_rank :: int
  spec_nnodes :: int

record RolloutTopology =
  engines :: "RolloutEngine list"
  server_process_by_rank :: "(int \<times> RolloutServerProcess) list"
  lifecycle_group_by_rank :: "(int \<times> int list) list"

section \<open>Validation at construction\<close>

text \<open>
  The inner loop of \<open>__post_init__\<close> over the server processes of one engine: \<open>er\<close> is
  \<open>engine_rank_set\<close>, \<open>seen\<close> is \<open>seen_bundle_idxs\<close> and \<open>cov\<close> is \<open>covered_update_ranks\<close>.
\<close>

fun check_servers :: "int set \<Rightarrow> int set \<Rightarrow> int set \<Rightarrow> RolloutServerProcess list \<Rightarrow> (int set \<times> int set) res" where
  "check_servers er seen cov [] = Inr (seen, cov)"
| "check_servers er seen cov (s # ss) =
    (if set (placement_group_bundle_idxs s) \<inter> seen \<noteq> {} then Inl ValueError
     else if worker_rank s \<notin> er then Inl ValueError
     else if \<not> set (weight_update_ranks s) \<subseteq> er then Inl ValueError
     else if set (weight_update_ranks s) \<inter> cov \<noteq> {} then Inl ValueError
     else check_servers er (seen \<union> set (placement_group_bundle_idxs s))
            (cov \<union> set (weight_update_ranks s)) ss)"

definition lifecycle_group :: "RolloutEngine \<Rightarrow> int list" where
  "lifecycle_group e = map worker_rank (server_processes e)"

fun check_engines ::
  "int set \<Rightarrow> int set \<Rightarrow> (int \<times> RolloutServerProcess) list \<Rightarrow> (int \<times> int list) list \<Rightarrow> RolloutEngine list \<Rightarrow>
    ((int \<times> RolloutServerProcess) list \<times> (int \<times> int list) list) res" where
  "check_engines seen_ranks seen_bundles sp lg [] = Inr (sp, lg)"
| "check_engines seen_ranks seen_bundles sp lg (e # es) =
    (if engine_ranks e = [] then Inl ValueError
     else if \<not> distinct (engine_ranks e) then Inl ValueError
     else if set (engine_ranks e) \<inter> seen_ranks \<noteq> {} then Inl ValueError
     else if server_processes e = [] then Inl ValueError
     else if \<not> list_ex accepts_rollout_requests (server_processes e) then Inl ValueError
     else rbind (check_servers (set (engine_ranks e)) seen_bundles {} (server_processes e))
       (\<lambda>(seen_bundles', covered).
         if covered \<noteq> set (engine_ranks e) then Inl ValueError
         else check_engines (seen_ranks \<union> set (engine_ranks e)) seen_bundles'
           (fold (\<lambda>s. AList.update (worker_rank s) s) (server_processes e) sp)
           (fold (\<lambda>s. AList.update (worker_rank s) (lifecycle_group e)) (server_processes e) lg) es))"

definition make_topology :: "RolloutEngine list \<Rightarrow> RolloutTopology res" where
  "make_topology es =
    (if es = [] then Inl ValueError
     else rbind (check_engines {} {} [] [] es)
       (\<lambda>(sp, lg). Inr \<lparr>engines = es, server_process_by_rank = sp, lifecycle_group_by_rank = lg\<rparr>))"

section \<open>Queries\<close>

text \<open>\<open>engine.engine_ranks.index(server.worker_rank)\<close>.\<close>

fun py_index :: "'a list \<Rightarrow> 'a \<Rightarrow> int res" where
  "py_index [] x = Inl ValueError"
| "py_index (y # ys) x = (if y = x then Inr 0 else rbind (py_index ys x) (\<lambda>i. Inr (i + 1)))"

definition server_launch_spec :: "RolloutEngine \<Rightarrow> RolloutServerProcess \<Rightarrow> ServerLaunchSpec res" where
  "server_launch_spec e s =
    rbind (py_index (engine_ranks e) (worker_rank s)) (\<lambda>i. Inr
      \<lparr>spec_worker_rank = worker_rank s,
       spec_placement_group_bundle_idxs = placement_group_bundle_idxs s,
       spec_dist_init_addr = dist_init_addr e,
       spec_engine_rank = i,
       spec_accepts_rollout_requests = accepts_rollout_requests s,
       spec_node_rank = node_rank s,
       spec_nnodes = nnodes s\<rparr>)"

definition server_launch_specs :: "RolloutTopology \<Rightarrow> ServerLaunchSpec list res" where
  "server_launch_specs t =
    rmap (\<lambda>(e, s). server_launch_spec e s)
      (concat (map (\<lambda>e. map (Pair e) (server_processes e)) (engines t)))"

definition lifecycle_groups :: "RolloutTopology \<Rightarrow> int list list" where
  "lifecycle_groups t = dedup [] (map snd (lifecycle_group_by_rank t))"

definition all_servers :: "RolloutEngine list \<Rightarrow> RolloutServerProcess list" where
  "all_servers es = concat (map server_processes es)"

definition weight_update_endpoint_processes :: "RolloutTopology \<Rightarrow> RolloutServerProcess list" where
  "weight_update_endpoint_processes t = filter is_weight_update_endpoint (all_servers (engines t))"

definition is_request_entrypoint_rank :: "RolloutTopology \<Rightarrow> int \<Rightarrow> bool" where
  "is_request_entrypoint_rank t r =
    (case map_of (server_process_by_rank t) r of None \<Rightarrow> False | Some s \<Rightarrow> accepts_rollout_requests s)"

definition lifecycle_group_for_server_rank :: "RolloutTopology \<Rightarrow> int \<Rightarrow> int list res" where
  "lifecycle_group_for_server_rank t r =
    (case map_of (lifecycle_group_by_rank t) r of None \<Rightarrow> Inl KeyError | Some g \<Rightarrow> Inr g)"

section \<open>Backend builders\<close>

datatype rollout_backend = LMDeploy | VLLM | SGLang

record rollout_config =
  rollout_backend_of :: rollout_backend
  tensor_parallel_size :: int
  expert_parallel_size :: int
  gpus_per_node :: int

definition num_gpus_per_engine :: "rollout_config \<Rightarrow> int" where
  "num_gpus_per_engine cfg =
    (if expert_parallel_size cfg > 1 then expert_parallel_size cfg else tensor_parallel_size cfg)"

text \<open>
  The slices \<open>rank_bundle_idx_list[start : start + k]\<close> for \<open>start\<close> in \<open>range(0, num_workers, k)\<close>; a
  negative stride makes the range empty. The remainder test before the loop raises for
  \<open>k = 0\<close>.
\<close>

definition engine_metas :: "int \<Rightarrow> 'a list \<Rightarrow> 'a list list" where
  "engine_metas k xs =
    (if 0 < k then map (\<lambda>s. take (nat k) (drop (s * nat k) xs)) [0..<ceil_div (length xs) (nat k)] else [])"

definition check_divisible :: "nat \<Rightarrow> int \<Rightarrow> unit res" where
  "check_divisible n k =
    (if k = 0 then Inl ZeroDivisionError else if int n mod k \<noteq> 0 then Inl ValueError else Inr ())"

definition dict_get :: "('k \<Rightarrow> 'v option) \<Rightarrow> 'k \<Rightarrow> 'v res" where
  "dict_get d k = (case d k of None \<Rightarrow> Inl KeyError | Some v \<Rightarrow> Inr v)"

definition one_server_engine :: "(int \<Rightarrow> string option) \<Rightarrow> (int \<times> int) list \<Rightarrow> RolloutEngine res" where
  "one_server_engine addrs meta =
    rbind (dict_get addrs (fst (hd meta))) (\<lambda>a. Inr
      \<lparr>engine_ranks = map fst meta, dist_init_addr = a,
       server_processes = [
         \<lparr>worker_rank = fst (hd meta), placement_group_bundle_idxs = map snd meta,
          weight_update_ranks = map fst meta, inference_engine_ranks = map fst meta,
          accepts_rollout_requests = True, node_rank = 0, nnodes = 1\<rparr>]\<rparr>)"

definition ep_engine :: "(int \<Rightarrow> string option) \<Rightarrow> (int \<times> int) list \<Rightarrow> RolloutEngine res" where
  "ep_engine addrs meta =
    rbind (dict_get addrs (fst (hd meta))) (\<lambda>a. Inr
      \<lparr>engine_ranks = map fst meta, dist_init_addr = a,
       server_processes = map (\<lambda>(server_rank, bundle_idx).
         \<lparr>worker_rank = server_rank, placement_group_bundle_idxs = [bundle_idx],
          weight_update_ranks = [server_rank], inference_engine_ranks = map fst meta,
          accepts_rollout_requests = True, node_rank = 0, nnodes = 1\<rparr>) meta\<rparr>)"

definition lmdeploy_build_rollout_topology ::
  "rollout_config \<Rightarrow> (int \<times> int) list \<Rightarrow> (int \<Rightarrow> string option) \<Rightarrow> RolloutTopology res" where
  "lmdeploy_build_rollout_topology cfg rank_bundle_idx_list addrs =
    (if expert_parallel_size cfg \<le> 1 then
       rbind (check_divisible (length rank_bundle_idx_list) (num_gpus_per_engine cfg)) (\<lambda>_.
       rbind (rmap (one_server_engine addrs)
         (engine_metas (num_gpus_per_engine cfg) rank_bundle_idx_list)) make_topology)
     else
       rbind (check_divisible (length rank_bundle_idx_list) (expert_parallel_size cfg)) (\<lambda>_.
       rbind (rmap (ep_engine addrs)
         (engine_metas (expert_parallel_size cfg) rank_bundle_idx_list)) make_topology))"

definition vllm_build_rollout_topology ::
  "rollout_config \<Rightarrow> (int \<times> int) list \<Rightarrow> (int \<Rightarrow> string option) \<Rightarrow> RolloutTopology res" where
  "vllm_build_rollout_topology cfg rank_bundle_idx_list addrs =
    (if expert_parallel_size cfg > 1 then Inl ValueError
     else
       rbind (check_divisible (length rank_bundle_idx_list) (tensor_parallel_size cfg)) (\<lambda>_.
       rbind (rmap (one_server_engine addrs)
         (engine_metas (tensor_parallel_size cfg) rank_bundle_idx_list)) make_topology))"

text \<open>
  \<open>engine_ranks[:: gpus_per_node]\<close>; a negative step reads from the end. A zero step cannot
  reach the slice, since the division before it raises.
\<close>

definition step_slice :: "int \<Rightarrow> 'a list \<Rightarrow> 'a list" where
  "step_slice k xs = (if 0 < k then stride 0 (nat k) xs else stride 0 (nat (- k)) (rev xs))"

definition sglang_server ::
  "int \<Rightarrow> int \<Rightarrow> (int \<times> int) list \<Rightarrow> nat \<Rightarrow> int \<Rightarrow> RolloutServerProcess" where
  "sglang_server gpn nn meta node_idx server_rank =
    \<lparr>worker_rank = server_rank,
     placement_group_bundle_idxs =
       py_slice (map snd meta) (int node_idx * gpn) (int node_idx * gpn + gpn),
     weight_update_ranks = (if node_idx = 0 then map fst meta else []),
     inference_engine_ranks = map fst meta,
     accepts_rollout_requests = (node_idx = 0),
     node_rank = int node_idx, nnodes = nn\<rparr>"

definition sglang_engine :: "int \<Rightarrow> int \<Rightarrow> (int \<Rightarrow> string option) \<Rightarrow> (int \<times> int) list \<Rightarrow> RolloutEngine res" where
  "sglang_engine gpn nn addrs meta =
    (let server_ranks = step_slice gpn (map fst meta) in
     rbind (dict_get addrs (hd server_ranks)) (\<lambda>a. Inr
       \<lparr>engine_ranks = map fst meta, dist_init_addr = a,
        server_processes =
          map (\<lambda>(i, r). sglang_server gpn nn meta i r) (enumerate 0 server_ranks)\<rparr>))"

definition sglang_build_rollout_topology ::
  "rollout_config \<Rightarrow> (int \<times> int) list \<Rightarrow> (int \<Rightarrow> string option) \<Rightarrow> RolloutTopology res" where
  "sglang_build_rollout_topology cfg rank_bundle_idx_list addrs =
    (let k = num_gpus_per_engine cfg; gpn = gpus_per_node cfg in
     rbind (check_divisible (length rank_bundle_idx_list) k) (\<lambda>_.
     if k > gpn \<and> gpn = 0 then Inl ZeroDivisionError
     else if k > gpn \<and> k mod gpn \<noteq> 0 then Inl ValueError
     else if gpn = 0 then Inl ZeroDivisionError
     else
       rbind (rmap (sglang_engine gpn (max 1 (k div gpn)) addrs)
         (engine_metas k rank_bundle_idx_list)) make_topology))"

text \<open>
  The backend named by the three environment variables; \<open>rollout_backend\<close> fails unless one of them
  is set, so the last branch of \<open>get_rollout_worker_base_cls\<close> is never reached.
\<close>

definition rollout_backend_of_env :: "bool \<Rightarrow> bool \<Rightarrow> bool \<Rightarrow> rollout_backend res" where
  "rollout_backend_of_env use_sglang use_vllm use_lmdeploy =
    (if use_sglang then Inr SGLang else if use_vllm then Inr VLLM else if use_lmdeploy then Inr LMDeploy
     else Inl AssertionError)"

definition build_rollout_topology ::
  "rollout_config \<Rightarrow> (int \<times> int) list \<Rightarrow> (int \<Rightarrow> string option) \<Rightarrow> RolloutTopology res" where
  "build_rollout_topology cfg =
    (case rollout_backend_of cfg of
       LMDeploy \<Rightarrow> lmdeploy_build_rollout_topology cfg
     | VLLM \<Rightarrow> vllm_build_rollout_topology cfg
     | SGLang \<Rightarrow> sglang_build_rollout_topology cfg)"

section \<open>What the validation accepts\<close>

definition bundles_disjoint :: "RolloutServerProcess list \<Rightarrow> bool" where
  "bundles_disjoint = sorted_wrt (\<lambda>s s'. set (placement_group_bundle_idxs s) \<inter> set (placement_group_bundle_idxs s') = {})"

definition engine_ok :: "RolloutEngine \<Rightarrow> bool" where
  "engine_ok e =
    (engine_ranks e \<noteq> [] \<and> distinct (engine_ranks e) \<and> server_processes e \<noteq> [] \<and>
     (\<exists>s \<in> set (server_processes e). accepts_rollout_requests s) \<and>
     (\<forall>s \<in> set (server_processes e). worker_rank s \<in> set (engine_ranks e)) \<and>
     (\<Union>s \<in> set (server_processes e). set (weight_update_ranks s)) = set (engine_ranks e) \<and>
     sorted_wrt (\<lambda>s s'. set (weight_update_ranks s) \<inter> set (weight_update_ranks s') = {}) (server_processes e))"

definition topology_ok :: "RolloutEngine list \<Rightarrow> bool" where
  "topology_ok es =
    (es \<noteq> [] \<and> (\<forall>e \<in> set es. engine_ok e) \<and>
     sorted_wrt (\<lambda>e e'. set (engine_ranks e) \<inter> set (engine_ranks e') = {}) es \<and>
     bundles_disjoint (all_servers es))"

abbreviation server_bundles :: "RolloutServerProcess list \<Rightarrow> int set" where
  "server_bundles ss \<equiv> (\<Union>s \<in> set ss. set (placement_group_bundle_idxs s))"

lemma check_servers_iff:
  "check_servers er seen cov ss = Inr (seen', cov') \<longleftrightarrow>
    (\<forall>s \<in> set ss. worker_rank s \<in> er \<and> set (weight_update_ranks s) \<subseteq> er \<and>
       set (placement_group_bundle_idxs s) \<inter> seen = {} \<and> set (weight_update_ranks s) \<inter> cov = {}) \<and>
    bundles_disjoint ss \<and>
    sorted_wrt (\<lambda>s s'. set (weight_update_ranks s) \<inter> set (weight_update_ranks s') = {}) ss \<and>
    seen' = seen \<union> server_bundles ss \<and> cov' = cov \<union> (\<Union>s \<in> set ss. set (weight_update_ranks s))"
  unfolding bundles_disjoint_def
  by (induction ss arbitrary: seen cov) (auto simp: Int_Un_distrib Int_Un_distrib2)

lemma check_servers_error: "check_servers er seen cov ss = Inl err \<Longrightarrow> err = ValueError"
  by (induction ss arbitrary: seen cov) (auto split: if_splits)

lemma check_engines_error: "check_engines sr sb sp lg es = Inl err \<Longrightarrow> err = ValueError"
  by (induction es arbitrary: sr sb sp lg)
    (auto simp: res_simps dest: check_servers_error split: if_splits)

lemma bundles_disjoint_append:
  "bundles_disjoint (xs @ ys) \<longleftrightarrow> bundles_disjoint xs \<and> bundles_disjoint ys \<and> server_bundles xs \<inter> server_bundles ys = {}"
  unfolding bundles_disjoint_def by (auto simp: sorted_wrt_append)

abbreviation add_servers where
  "add_servers e sp \<equiv> fold (\<lambda>s. AList.update (worker_rank s) s) (server_processes e) sp"

abbreviation add_groups where
  "add_groups e lg \<equiv> fold (\<lambda>s. AList.update (worker_rank s) (lifecycle_group e)) (server_processes e) lg"

lemma check_engines_Cons:
  "check_engines sr sb sp lg (e # es) =
    (if engine_ok e \<and> set (engine_ranks e) \<inter> sr = {} \<and> bundles_disjoint (server_processes e) \<and>
        server_bundles (server_processes e) \<inter> sb = {}
     then check_engines (sr \<union> set (engine_ranks e)) (sb \<union> server_bundles (server_processes e))
            (add_servers e sp) (add_groups e lg) es
     else Inl ValueError)"
proof (cases "check_servers (set (engine_ranks e)) sb {} (server_processes e)")
  case (Inl err)
  have "\<not> (engine_ok e \<and> bundles_disjoint (server_processes e) \<and> server_bundles (server_processes e) \<inter> sb = {})"
  proof (rule notI)
    assume ok: "engine_ok e \<and> bundles_disjoint (server_processes e) \<and> server_bundles (server_processes e) \<inter> sb = {}"
    have "check_servers (set (engine_ranks e)) sb {} (server_processes e) =
        Inr (sb \<union> server_bundles (server_processes e), {} \<union> (\<Union>s \<in> set (server_processes e). set (weight_update_ranks s)))"
      unfolding check_servers_iff using ok by (auto simp: engine_ok_def)
    with Inl show False by simp
  qed
  then show ?thesis using Inl check_servers_error [OF Inl] by auto
next
  case (Inr p)
  obtain sb' cov where p: "p = (sb', cov)" by (cases p)
  note ok = Inr [unfolded p check_servers_iff]
  have "engine_ok e \<longleftrightarrow> engine_ranks e \<noteq> [] \<and> distinct (engine_ranks e) \<and> server_processes e \<noteq> [] \<and>
      list_ex accepts_rollout_requests (server_processes e) \<and> cov = set (engine_ranks e)"
    using ok by (auto simp: engine_ok_def list_ex_iff)
  moreover have "server_bundles (server_processes e) \<inter> sb = {}" using ok by blast
  ultimately show ?thesis using ok Inr p by auto
qed

lemma check_engines_iff:
  "check_engines sr sb sp lg es = Inr (sp', lg') \<longleftrightarrow>
    (\<forall>e \<in> set es. engine_ok e \<and> set (engine_ranks e) \<inter> sr = {}) \<and>
    sorted_wrt (\<lambda>e e'. set (engine_ranks e) \<inter> set (engine_ranks e') = {}) es \<and>
    bundles_disjoint (all_servers es) \<and> server_bundles (all_servers es) \<inter> sb = {} \<and>
    sp' = fold add_servers es sp \<and> lg' = fold add_groups es lg"
proof (induction es arbitrary: sr sb sp lg)
  case Nil
  show ?case by (auto simp: all_servers_def bundles_disjoint_def)
next
  case (Cons e es)
  have all: "all_servers (e # es) = server_processes e @ all_servers es" by (simp add: all_servers_def)
  have "server_bundles (all_servers (e # es)) = server_bundles (server_processes e) \<union> server_bundles (all_servers es)"
    by (simp add: all)
  then show ?case
    unfolding check_engines_Cons
    by (auto simp: Cons.IH all bundles_disjoint_append Int_Un_distrib Int_Un_distrib2 Int_commute simp del: UN_simps UN_iff)
qed

lemma make_topology_iff:
  "make_topology es = Inr t \<longleftrightarrow> topology_ok es \<and>
    t = \<lparr>engines = es, server_process_by_rank = fold add_servers es [], lifecycle_group_by_rank = fold add_groups es []\<rparr>"
  unfolding make_topology_def topology_ok_def
  by (auto simp: res_simps check_engines_iff)

lemma make_topology_error: "make_topology es = Inl err \<Longrightarrow> err = ValueError"
  unfolding make_topology_def by (auto simp: res_simps dest: check_engines_error split: if_splits)

section \<open>Lookups\<close>

definition built :: "RolloutTopology \<Rightarrow> bool" where
  "built t = (make_topology (engines t) = Inr t)"

lemma make_topology_built: "make_topology es = Inr t \<Longrightarrow> built t \<and> engines t = es \<and> topology_ok es"
  by (auto simp: built_def make_topology_iff)

lemma built_ok: "built t \<Longrightarrow> topology_ok (engines t)"
  by (auto simp: built_def make_topology_iff)

lemma make_topology_lookup:
  "make_topology es = Inr t \<Longrightarrow>
    server_process_by_rank t = fold add_servers es [] \<and> lifecycle_group_by_rank t = fold add_groups es []"
  by (simp add: make_topology_iff)

lemma built_lookup:
  "built t \<Longrightarrow> server_process_by_rank t = fold add_servers (engines t) []"
  "built t \<Longrightarrow> lifecycle_group_by_rank t = fold add_groups (engines t) []"
  unfolding built_def using make_topology_lookup by blast+

lemma map_of_fold_update:
  "map_of (fold (\<lambda>s. AList.update (f s) v) ss d) r = (if r \<in> f ` set ss then Some v else map_of d r)"
  by (induction ss arbitrary: d) (auto simp: AList.update_conv')

lemma engine_groups_disjoint:
  assumes "topology_ok es" "e \<in> set es" "e' \<in> set es" "r \<in> set (lifecycle_group e)" "r \<in> set (lifecycle_group e')"
  shows "e = e'"
proof (rule ccontr)
  assume ne: "e \<noteq> e'"
  have "distinct (concat (map engine_ranks es))"
    using assms(1) by (intro distinct_concat_sorted_wrt) (auto simp: topology_ok_def engine_ok_def)
  then have "set (engine_ranks e) \<inter> set (engine_ranks e') = {}"
    using assms(2,3) ne by (rule distinct_concat_mapD)
  moreover have "r \<in> set (engine_ranks e)" "r \<in> set (engine_ranks e')"
    using assms by (auto simp: topology_ok_def engine_ok_def lifecycle_group_def)
  ultimately show False by blast
qed

lemma map_of_fold_groups:
  assumes "\<And>e e'. e \<in> set es \<Longrightarrow> e' \<in> set es \<Longrightarrow> r \<in> set (lifecycle_group e) \<Longrightarrow> r \<in> set (lifecycle_group e') \<Longrightarrow> e = e'"
  shows "map_of (fold add_groups es lg) r = Some g \<longleftrightarrow>
    (\<exists>e \<in> set es. r \<in> set (lifecycle_group e) \<and> g = lifecycle_group e) \<or>
    (\<forall>e \<in> set es. r \<notin> set (lifecycle_group e)) \<and> map_of lg r = Some g"
  using assms
proof (induction es arbitrary: lg)
  case (Cons e es)
  have IH: "map_of (fold add_groups es (add_groups e lg)) r = Some g \<longleftrightarrow>
    (\<exists>e \<in> set es. r \<in> set (lifecycle_group e) \<and> g = lifecycle_group e) \<or>
    (\<forall>e \<in> set es. r \<notin> set (lifecycle_group e)) \<and> map_of (add_groups e lg) r = Some g"
    by (rule Cons.IH) (use Cons.prems in auto)
  have "e' = e" if "r \<in> set (lifecycle_group e)" "e' \<in> set es" "r \<in> set (lifecycle_group e')" for e'
    using Cons.prems that by auto
  then show ?case unfolding fold_simps comp_apply IH map_of_fold_update
    by (auto simp: lifecycle_group_def)
qed simp

lemma lookup_group_iff:
  assumes "built t"
  shows "map_of (lifecycle_group_by_rank t) r = Some g \<longleftrightarrow>
    (\<exists>e \<in> set (engines t). r \<in> set (lifecycle_group e) \<and> g = lifecycle_group e)"
  unfolding built_lookup(2) [OF assms]
  by (subst map_of_fold_groups) (auto intro: engine_groups_disjoint [OF built_ok [OF assms]])

lemma distinct_fold_groups: "distinct (map fst lg) \<Longrightarrow> distinct (map fst (fold add_groups es lg))"
proof (induction es arbitrary: lg)
  case (Cons e es)
  have "distinct (map fst (fold (\<lambda>s. AList.update (worker_rank s) v) ss lg))" if "distinct (map fst lg)" for ss lg and v :: "int list"
    using that by (induction ss arbitrary: lg) (auto simp: AList.distinct_update)
  then show ?case unfolding fold_simps comp_apply by (intro Cons.IH) (use Cons.prems in blast)
qed simp

lemma set_lifecycle_groups:
  assumes "built t"
  shows "set (lifecycle_groups t) = lifecycle_group ` set (engines t)"
proof -
  have "distinct (map fst (lifecycle_group_by_rank t))"
    unfolding built_lookup(2) [OF assms] by (rule distinct_fold_groups) simp
  then have "snd ` set (lifecycle_group_by_rank t) = {g. \<exists>r. map_of (lifecycle_group_by_rank t) r = Some g}"
    by (force dest: map_of_SomeD intro: map_of_is_SomeI)
  also have "\<dots> = lifecycle_group ` set (engines t)"
    unfolding lookup_group_iff [OF assms]
    using built_ok [OF assms] by (fastforce simp: topology_ok_def engine_ok_def lifecycle_group_def)
  finally show ?thesis by (simp add: lifecycle_groups_def dedup_set)
qed

text \<open>The lifecycle groups partition the ranks that own a server process.\<close>

lemma group_for_rank_iff:
  assumes "built t"
  shows "lifecycle_group_for_server_rank t r = Inr g \<longleftrightarrow> g \<in> set (lifecycle_groups t) \<and> r \<in> set g"
  unfolding lifecycle_group_for_server_rank_def set_lifecycle_groups [OF assms]
  using lookup_group_iff [OF assms, of r]
  by (cases "map_of (lifecycle_group_by_rank t) r") auto

lemma map_of_fold_servers:
  "map_of (fold (\<lambda>s. AList.update (worker_rank s) s) ss d) r = Some s \<Longrightarrow>
    s \<in> set ss \<and> worker_rank s = r \<or> map_of d r = Some s"
proof (induction ss arbitrary: d)
  case (Cons a ss)
  have "s \<in> set ss \<and> worker_rank s = r \<or> map_of (AList.update (worker_rank a) a d) r = Some s"
    by (rule Cons.IH) (use Cons.prems in simp)
  then show ?case by (auto simp: AList.update_conv' split: if_splits)
qed simp

lemma server_by_rank_some:
  "built t \<Longrightarrow> map_of (server_process_by_rank t) r = Some s \<Longrightarrow> s \<in> set (all_servers (engines t)) \<and> worker_rank s = r"
proof -
  have "map_of (fold add_servers es d) r = Some s \<Longrightarrow> s \<in> set (all_servers es) \<and> worker_rank s = r \<or> map_of d r = Some s" for es d
    by (induction es arbitrary: d) (auto simp: all_servers_def dest: map_of_fold_servers)
  from this [of "engines t" "[]"] show "built t \<Longrightarrow> map_of (server_process_by_rank t) r = Some s \<Longrightarrow> ?thesis"
    by (simp add: built_lookup)
qed

section \<open>The interface of the worker registry\<close>

text \<open>
  What the registry relies on: looking a rank up yields the one lifecycle group that contains
  it, and an unknown rank raises \<open>KeyError\<close>.
\<close>

locale grouping =
  fixes ok :: "'t \<Rightarrow> bool"
    and groups :: "'t \<Rightarrow> int list list"
    and lookup :: "'t \<Rightarrow> int \<Rightarrow> int list res"
  assumes lookup_iff: "ok t \<Longrightarrow> lookup t r = Inr g \<longleftrightarrow> g \<in> set (groups t) \<and> r \<in> set g"
    and lookup_error: "lookup t r = Inl err \<Longrightarrow> err = KeyError"
begin

lemma same_group:
  "ok t \<Longrightarrow> g \<in> set (groups t) \<Longrightarrow> g' \<in> set (groups t) \<Longrightarrow> r \<in> set g \<Longrightarrow> r \<in> set g' \<Longrightarrow> g = g'"
  using lookup_iff [of t r g] lookup_iff [of t r g'] by simp

lemma lookup_member: "ok t \<Longrightarrow> lookup t r = Inr g \<Longrightarrow> r' \<in> set g \<Longrightarrow> lookup t r' = Inr g"
  by (simp add: lookup_iff)

lemma lookup_all:
  "ok t \<Longrightarrow> (\<And>r. r \<in> set rs \<Longrightarrow> r \<in> \<Union> (set ` set (groups t))) \<Longrightarrow>
    \<exists>gs. rmap (lookup t) rs = Inr gs \<and> list_all2 (\<lambda>r g. g \<in> set (groups t) \<and> r \<in> set g) rs gs"
proof (induction rs)
  case (Cons r rs)
  from Cons.prems(2) [of r] obtain g where g: "g \<in> set (groups t)" "r \<in> set g" by auto
  have "\<exists>gs. rmap (lookup t) rs = Inr gs \<and> list_all2 (\<lambda>r g. g \<in> set (groups t) \<and> r \<in> set g) rs gs"
    by (rule Cons.IH) (use Cons.prems in simp_all)
  then obtain gs where "rmap (lookup t) rs = Inr gs" "list_all2 (\<lambda>r g. g \<in> set (groups t) \<and> r \<in> set g) rs gs"
    by blast
  then show ?case using g lookup_iff [OF Cons.prems(1), of r g] by (intro exI [of _ "g # gs"]) simp
qed simp

end

interpretation topo: grouping built lifecycle_groups lifecycle_group_for_server_rank
  by unfold_locales
    (simp add: group_for_rank_iff, simp add: lifecycle_group_for_server_rank_def split: option.splits)

section \<open>Properties of a constructed topology\<close>

lemma count_disjoint:
  "sorted_wrt (\<lambda>x y. set (f x) \<inter> set (f y) = {}) xs \<Longrightarrow> x \<in> set xs \<Longrightarrow> r \<in> set (f x) \<Longrightarrow>
    length (filter (\<lambda>x. r \<in> set (f x)) xs) = 1"
proof (induction xs)
  case (Cons a xs)
  show ?case
  proof (cases "r \<in> set (f a)")
    case True
    then have "filter (\<lambda>x. r \<in> set (f x)) xs = []" using Cons.prems(1) by (auto simp: filter_empty_conv)
    with True show ?thesis by simp
  next
    case False
    with Cons show ?thesis by auto
  qed
qed simp

lemma update_ranks_disjoint:
  assumes "\<forall>e \<in> set es. engine_ok e"
    and "sorted_wrt (\<lambda>e e'. set (engine_ranks e) \<inter> set (engine_ranks e') = {}) es"
  shows "sorted_wrt (\<lambda>s s'. set (weight_update_ranks s) \<inter> set (weight_update_ranks s') = {}) (all_servers es)"
  using assms
proof (induction es)
  case (Cons e es)
  have within: "set (weight_update_ranks s) \<subseteq> set (engine_ranks e')" if "e' \<in> set (e # es)" "s \<in> set (server_processes e')" for e' s
  proof -
    have "(\<Union>s \<in> set (server_processes e'). set (weight_update_ranks s)) = set (engine_ranks e')"
      using Cons.prems(1) that(1) unfolding engine_ok_def by blast
    then show ?thesis using that(2) by blast
  qed
  have "set (weight_update_ranks s) \<inter> set (weight_update_ranks s') = {}"
    if "s \<in> set (server_processes e)" "s' \<in> set (all_servers es)" for s s'
  proof -
    from that(2) obtain e' where e': "e' \<in> set es" "s' \<in> set (server_processes e')" by (auto simp: all_servers_def)
    then have "set (engine_ranks e) \<inter> set (engine_ranks e') = {}" using Cons.prems(2) by simp
    then show ?thesis using within [of e s] within [of e' s'] e' that(1) by auto
  qed
  moreover have "sorted_wrt (\<lambda>s s'. set (weight_update_ranks s) \<inter> set (weight_update_ranks s') = {}) (server_processes e)"
    using Cons.prems(1) by (simp add: engine_ok_def)
  ultimately show ?case using Cons by (simp add: all_servers_def sorted_wrt_append)
qed (simp add: all_servers_def)

text \<open>C38. 
  Constructing a \<open>RolloutTopology\<close> succeeds exactly on the layouts in which there is at least
  one engine, every engine has its own distinct ranks, a request entrypoint and server
  processes owned by its ranks whose weight-update ranks split the engine's ranks, and no
  bundle is used twice; every other layout is rejected with \<open>ValueError\<close>.
\<close>

theorem topology_validation_exact:
  "make_topology es =
    (if topology_ok es
     then Inr \<lparr>engines = es, server_process_by_rank = fold add_servers es [],
               lifecycle_group_by_rank = fold add_groups es []\<rparr>
     else Inl ValueError)"
proof (cases "make_topology es")
  case (Inl err)
  then show ?thesis using make_topology_error [OF Inl] make_topology_iff [of es] by auto
next
  case (Inr t)
  then show ?thesis by (simp add: make_topology_iff)
qed

lemma update_rank_once:
  assumes "built t" "r \<in> set (concat (map engine_ranks (engines t)))"
  shows "length (filter (\<lambda>s. r \<in> set (weight_update_ranks s)) (all_servers (engines t))) = 1"
proof -
  note ok = built_ok [OF assms(1), unfolded topology_ok_def]
  from assms(2) obtain e where e: "e \<in> set (engines t)" "r \<in> set (engine_ranks e)" by auto
  then have "r \<in> (\<Union>s \<in> set (server_processes e). set (weight_update_ranks s))" using ok by (simp add: engine_ok_def)
  with e(1) obtain s where "s \<in> set (all_servers (engines t))" "r \<in> set (weight_update_ranks s)"
    by (auto simp: all_servers_def)
  then show ?thesis using update_ranks_disjoint ok by (intro count_disjoint) auto
qed

lemma update_rank_endpoints:
  "filter (\<lambda>s. r \<in> set (weight_update_ranks s)) (weight_update_endpoint_processes t) =
    filter (\<lambda>s. r \<in> set (weight_update_ranks s)) (all_servers (engines t))"
  by (auto simp: weight_update_endpoint_processes_def is_weight_update_endpoint_def intro!: filter_cong)

lemma distinct_singleton: "distinct xs \<Longrightarrow> set xs = {x} \<Longrightarrow> xs = [x]"
proof (cases xs)
  case (Cons a ys)
  then show "distinct xs \<Longrightarrow> set xs = {x} \<Longrightarrow> xs = [x]" by (cases ys) auto
qed simp

text \<open>
  In a constructed topology every rollout rank belongs to exactly one engine and receives its
  weights through exactly one of the weight-update endpoints, and looking up the lifecycle
  group of a rank returns the unique group that contains it.
\<close>

theorem topology_routes_once:
  assumes "make_topology es = Inr t" and "r \<in> set (concat (map engine_ranks es))"
  shows "length (filter (\<lambda>e. r \<in> set (engine_ranks e)) es) = 1 \<and>
    length (filter (\<lambda>s. r \<in> set (weight_update_ranks s)) (weight_update_endpoint_processes t)) = 1 \<and>
    lifecycle_group_for_server_rank t r =
      (case filter (\<lambda>g. r \<in> set g) (lifecycle_groups t) of [g] \<Rightarrow> Inr g | _ \<Rightarrow> Inl KeyError)"
proof (intro conjI)
  have b: "built t" and es: "engines t = es" and ok: "topology_ok es" using make_topology_built [OF assms(1)] by auto
  show "length (filter (\<lambda>e. r \<in> set (engine_ranks e)) es) = 1"
    using ok assms(2) unfolding topology_ok_def by (auto simp del: One_nat_def intro!: count_disjoint)
  show "length (filter (\<lambda>s. r \<in> set (weight_update_ranks s)) (weight_update_endpoint_processes t)) = 1"
    using update_rank_once [OF b] assms(2) es by (simp add: update_rank_endpoints)
  show "lifecycle_group_for_server_rank t r =
      (case filter (\<lambda>g. r \<in> set g) (lifecycle_groups t) of [g] \<Rightarrow> Inr g | _ \<Rightarrow> Inl KeyError)"
  proof (cases "lifecycle_group_for_server_rank t r")
    case (Inl err)
    then have "filter (\<lambda>g. r \<in> set g) (lifecycle_groups t) = []"
      using topo.lookup_iff [OF b, of r] by (auto simp: filter_empty_conv)
    then show ?thesis using Inl topo.lookup_error [OF Inl] by simp
  next
    case (Inr g)
    have "distinct (filter (\<lambda>g. r \<in> set g) (lifecycle_groups t))" by (simp add: lifecycle_groups_def dedup_distinct)
    moreover have "set (filter (\<lambda>g. r \<in> set g) (lifecycle_groups t)) = {g}"
      using Inr topo.lookup_iff [OF b, of r g] topo.same_group [OF b, of g _ r] by auto
    ultimately have "filter (\<lambda>g. r \<in> set g) (lifecycle_groups t) = [g]" by (rule distinct_singleton)
    then show ?thesis using Inr by simp
  qed
qed

section \<open>The builders produce valid topologies\<close>

definition engine_from :: "(int \<Rightarrow> string option) \<Rightarrow> (int \<times> int) list \<Rightarrow> RolloutEngine \<Rightarrow> bool" where
  "engine_from addrs meta e =
    (engine_ranks e = map fst meta \<and> engine_ok e \<and>
     concat (map placement_group_bundle_idxs (server_processes e)) = map snd meta \<and>
     addrs (fst (hd meta)) = Some (dist_init_addr e))"

lemma dict_get_Inr: "dict_get d k = Inr v \<longleftrightarrow> d k = Some v"
  by (simp add: dict_get_def split: option.split)

lemma one_server_engine_ok:
  "meta \<noteq> [] \<Longrightarrow> distinct (map fst meta) \<Longrightarrow> addrs (fst (hd meta)) = Some a \<Longrightarrow>
    \<exists>e. one_server_engine addrs meta = Inr e \<and> engine_from addrs meta e"
  by (simp add: one_server_engine_def dict_get_def engine_from_def engine_ok_def)

lemma concat_map_single [simp]: "concat (map (\<lambda>x. [f x]) xs) = map f xs"
  by (induction xs) auto

lemma ep_engine_ok:
  assumes "meta \<noteq> []" "distinct (map fst meta)" "addrs (fst (hd meta)) = Some a"
  shows "\<exists>e. ep_engine addrs meta = Inr e \<and> engine_from addrs meta e"
proof -
  have "sorted_wrt (\<lambda>x y. fst x \<noteq> fst y) meta" using assms(2) by (induction meta) auto
  moreover have "\<exists>a b. (a, b) \<in> set meta" using assms(1) by (cases meta) auto
  ultimately show ?thesis using assms
    by (auto simp: ep_engine_def dict_get_def engine_from_def engine_ok_def comp_def case_prod_beta
        sorted_wrt_map elim!: sorted_wrt_mono_rel [rotated])
qed

lemma py_slice_block: "py_slice xs (int a) (int a + int k) = take k (drop a xs)"
proof -
  have "slice_pos (length xs) (int a + int k) = min (a + k) (length xs)" "slice_pos (length xs) (int a) = min a (length xs)"
    by (auto simp: slice_pos_def min_def)
  then show ?thesis by (simp add: py_slice_def Let_def min_def)
qed

lemma block_start_less:
  assumes "0 < k" "i < ceil_div n k"
  shows "i * k < n"
proof -
  have "i * k \<le> (ceil_div n k - 1) * k" using assms(2) by (intro mult_le_mono1) simp
  also have "\<dots> < n" using assms by (intro ceil_div_less) (auto intro: gr0I)
  finally show ?thesis .
qed

lemma sglang_servers:
  assumes "0 < gpn"
  shows "map (\<lambda>(i, r). sglang_server gpn nn meta i r) (enumerate 0 (step_slice gpn (map fst meta))) =
    map (\<lambda>i. sglang_server gpn nn meta i (fst (meta ! (i * nat gpn)))) [0..<ceil_div (length meta) (nat gpn)]"
proof (rule nth_equalityI)
  fix i
  assume "i < length (map (\<lambda>(i, r). sglang_server gpn nn meta i r) (enumerate 0 (step_slice gpn (map fst meta))))"
  then have i: "i < ceil_div (length meta) (nat gpn)" using assms by (simp add: step_slice_def length_stride)
  then have "i * nat gpn < length meta" using assms by (intro block_start_less) auto
  then show "map (\<lambda>(i, r). sglang_server gpn nn meta i r) (enumerate 0 (step_slice gpn (map fst meta))) ! i =
      map (\<lambda>i. sglang_server gpn nn meta i (fst (meta ! (i * nat gpn)))) [0..<ceil_div (length meta) (nat gpn)] ! i"
    using i assms by (simp add: step_slice_def stride_eq_map nth_enumerate_eq)
qed (use assms in \<open>simp add: step_slice_def length_stride\<close>)

lemma sglang_engine_ok:
  assumes g: "0 < gpn" and m: "meta \<noteq> []" "distinct (map fst meta)" and a: "addrs (fst (hd meta)) = Some a"
  shows "\<exists>e. sglang_engine gpn nn addrs meta = Inr e \<and> engine_from addrs meta e"
proof -
  define n where "n = ceil_div (length meta) (nat gpn)"
  have n: "0 < n" using g m by (simp add: n_def ceil_div_pos)
  define mk where "mk i = sglang_server gpn nn meta i (fst (meta ! (i * nat gpn)))" for i
  have srv: "map (\<lambda>(i, r). sglang_server gpn nn meta i r) (enumerate 0 (step_slice gpn (map fst meta))) = map mk [0..<n]"
    using sglang_servers [OF g] by (simp add: n_def mk_def)
  have hd: "hd (step_slice gpn (map fst meta)) = fst (hd meta)"
    using g m n by (simp add: step_slice_def stride_eq_map n_def hd_map hd_conv_nth)
  have upd: "weight_update_ranks (mk i) = (if i = 0 then map fst meta else [])"
    and acc: "accepts_rollout_requests (mk i) = (i = 0)" for i by (simp_all add: mk_def sglang_server_def)
  have mem: "worker_rank (mk i) \<in> set (map fst meta)" if "i < n" for i
    using block_start_less [of "nat gpn" i "length meta"] that g by (simp add: mk_def sglang_server_def n_def)
  have "placement_group_bundle_idxs (mk i) = take (nat gpn) (drop (i * nat gpn) (map snd meta))" for i
    using py_slice_block [of "map snd meta" "i * nat gpn" "nat gpn"] g by (simp add: mk_def sglang_server_def)
  then have bundles: "concat (map placement_group_bundle_idxs (map mk [0..<n])) = map snd meta"
    using blocks_eq_chunks [of "nat gpn" "map snd meta"] g by (simp add: comp_def n_def)
  have disj: "sorted_wrt (\<lambda>s s'. set (weight_update_ranks s) \<inter> set (weight_update_ranks s') = {}) (map mk [0..<n])"
    by (auto simp: sorted_wrt_iff_nth_less upd)
  have "engine_ok \<lparr>engine_ranks = map fst meta, dist_init_addr = a, server_processes = map mk [0..<n]\<rparr>"
    unfolding engine_ok_def RolloutEngine.select_convs
    using m mem n disj by (auto simp: acc upd split: if_splits)
  then show ?thesis
    using a bundles by (simp add: sglang_engine_def Let_def hd dict_get_def srv engine_from_def)
qed

lemma sorted_wrt_distinct_concat:
  "distinct (concat (map f xs)) \<Longrightarrow> sorted_wrt (\<lambda>x y. set (f x) \<inter> set (f y) = {}) xs"
  by (induction xs) auto

lemma chunks_map: "chunks n (map f xs) = map (map f) (chunks n xs)"
  by (induction n xs rule: chunks.induct) (simp add: chunks.simps take_map drop_map)

lemma engine_metas_chunks: "0 < k \<Longrightarrow> engine_metas k xs = chunks (nat k) xs"
  by (simp add: engine_metas_def blocks_eq_chunks)

lemma engines_from:
  assumes "list_all2 (engine_from addrs) metas es"
  shows "map engine_ranks es = map (map fst) metas \<and>
    concat (map placement_group_bundle_idxs (all_servers es)) = map snd (concat metas) \<and>
    (\<forall>e \<in> set es. engine_ok e \<and> addrs (hd (engine_ranks e)) = Some (dist_init_addr e))"
  using assms
proof (induction rule: list_all2_induct)
  case (Cons m ms e es)
  have "m \<noteq> []" using Cons(1) by (auto simp: engine_from_def engine_ok_def)
  then have "addrs (hd (engine_ranks e)) = Some (dist_init_addr e)" using Cons(1) by (simp add: engine_from_def hd_map)
  with Cons show ?case by (auto simp: all_servers_def engine_from_def)
qed (simp add: all_servers_def)

lemma build_valid:
  assumes k: "0 < k" and xs: "xs \<noteq> []" "distinct (map fst xs)" "distinct (map snd xs)"
    and step: "\<And>meta. meta \<noteq> [] \<Longrightarrow> distinct (map fst meta) \<Longrightarrow> set meta \<subseteq> set xs \<Longrightarrow>
      \<exists>e. mk meta = Inr e \<and> engine_from addrs meta e"
  shows "\<exists>t. rbind (rmap mk (engine_metas k xs)) make_topology = Inr t \<and> built t \<and>
    map engine_ranks (engines t) = chunks (nat k) (map fst xs) \<and>
    concat (map placement_group_bundle_idxs (all_servers (engines t))) = map snd xs \<and>
    (\<forall>e \<in> set (engines t). addrs (hd (engine_ranks e)) = Some (dist_init_addr e))"
proof -
  have cc: "concat (chunks (nat k) xs) = xs" using k by simp
  have "\<exists>e. mk meta = Inr e \<and> engine_from addrs meta e" if "meta \<in> set (chunks (nat k) xs)" for meta
  proof (rule step)
    show "meta \<noteq> []" using k that by (auto dest: chunks_nonempty [rotated])
    show "set meta \<subseteq> set xs" using that cc by (metis UN_upper set_concat)
    have "distinct (concat (map (map fst) (chunks (nat k) xs)))" by (simp only: map_concat [symmetric] cc xs)
    with that show "distinct (map fst meta)" by (induction "chunks (nat k) xs") (auto simp: distinct_concat_iff)
  qed
  then obtain f where f: "\<And>m. m \<in> set (chunks (nat k) xs) \<Longrightarrow> mk m = Inr (f m) \<and> engine_from addrs m (f m)"
    by metis
  define es where "es = map f (chunks (nat k) xs)"
  have r: "rmap mk (engine_metas k xs) = Inr es" unfolding es_def engine_metas_chunks [OF k]
    by (rule rmap_total) (use f in blast)
  have "list_all2 (engine_from addrs) (chunks (nat k) xs) es" unfolding es_def using f by (simp add: list_all2_conv_all_nth)
  note es = engines_from [OF this, unfolded cc]
  have "map engine_ranks es = chunks (nat k) (map fst xs)" using es by (simp add: chunks_map)
  moreover from this have "distinct (concat (map engine_ranks es))" using k xs(2) by (simp only: concat_chunks zero_less_nat_eq)
  then have "sorted_wrt (\<lambda>e e'. set (engine_ranks e) \<inter> set (engine_ranks e') = {}) es" by (rule sorted_wrt_distinct_concat)
  moreover have "bundles_disjoint (all_servers es)" unfolding bundles_disjoint_def
    using es xs(3) by (intro sorted_wrt_distinct_concat) simp
  moreover have "es \<noteq> []" using xs(1) k by (simp add: es_def chunks.simps)
  ultimately show ?thesis using es r by (auto simp: topology_ok_def make_topology_iff built_def)
qed

text \<open>C39. 
  Each backend's \<open>build_rollout_topology\<close> returns a valid topology whenever the engine size is
  positive and divides the number of workers, the worker ranks and the bundles are distinct
  and every rank has a rendezvous address: the engines are the consecutive blocks of workers,
  every bundle is given to exactly one server, in order, and every engine's rendezvous address
  is the one of its first rank.
\<close>

theorem rollout_builders_valid:
  assumes "0 < num_gpus_per_engine cfg" and "int (length xs) mod num_gpus_per_engine cfg = 0" and "xs \<noteq> []"
    and "distinct (map fst xs)" and "distinct (map snd xs)" and "\<And>r. r \<in> set (map fst xs) \<Longrightarrow> addrs r \<noteq> None"
    and "rollout_backend_of cfg = VLLM \<Longrightarrow> expert_parallel_size cfg \<le> 1"
    and "rollout_backend_of cfg = SGLang \<Longrightarrow>
      0 < gpus_per_node cfg \<and> (num_gpus_per_engine cfg \<le> gpus_per_node cfg \<or> num_gpus_per_engine cfg mod gpus_per_node cfg = 0)"
  shows "\<exists>t. build_rollout_topology cfg xs addrs = Inr t \<and> built t \<and>
    map engine_ranks (engines t) = chunks (nat (num_gpus_per_engine cfg)) (map fst xs) \<and>
    concat (map placement_group_bundle_idxs (all_servers (engines t))) = map snd xs \<and>
    (\<forall>e \<in> set (engines t). addrs (hd (engine_ranks e)) = Some (dist_init_addr e))"
proof -
  have addr: "\<exists>a. addrs (fst (hd meta)) = Some a" if "meta \<noteq> []" "set meta \<subseteq> set xs" for meta
  proof -
    have "hd meta \<in> set xs" using that by (auto dest: hd_in_set)
    then show ?thesis using assms(6) [of "fst (hd meta)"] by auto
  qed
  note valid = build_valid [OF assms(1,3,4,5)]
  have div: "check_divisible (length xs) (num_gpus_per_engine cfg) = Inr ()"
    using assms(1,2) by (simp add: check_divisible_def)
  show ?thesis
  proof (cases "rollout_backend_of cfg")
    case LMDeploy
    then have "build_rollout_topology cfg xs addrs =
        rbind (rmap (if expert_parallel_size cfg \<le> 1 then one_server_engine addrs else ep_engine addrs)
          (engine_metas (num_gpus_per_engine cfg) xs)) make_topology"
      using div by (auto simp: build_rollout_topology_def lmdeploy_build_rollout_topology_def num_gpus_per_engine_def)
    then show ?thesis
      by (simp only:) (rule valid, use addr one_server_engine_ok ep_engine_ok in \<open>auto, blast+\<close>)
  next
    case VLLM
    with assms(7) have "expert_parallel_size cfg \<le> 1" by simp
    then have "build_rollout_topology cfg xs addrs =
        rbind (rmap (one_server_engine addrs) (engine_metas (num_gpus_per_engine cfg) xs)) make_topology"
      using VLLM div by (simp add: build_rollout_topology_def vllm_build_rollout_topology_def num_gpus_per_engine_def)
    then show ?thesis by (simp only:) (rule valid, use addr one_server_engine_ok in blast)
  next
    case SGLang
    note g = assms(8) [OF SGLang]
    then have "build_rollout_topology cfg xs addrs =
        rbind (rmap (sglang_engine (gpus_per_node cfg) (max 1 (num_gpus_per_engine cfg div gpus_per_node cfg)) addrs)
          (engine_metas (num_gpus_per_engine cfg) xs)) make_topology"
      using SGLang div by (auto simp: build_rollout_topology_def sglang_build_rollout_topology_def Let_def)
    then show ?thesis by (simp only:) (rule valid, use addr sglang_engine_ok g in blast)
  qed
qed

definition example_config :: rollout_config where
  "example_config = \<lparr>rollout_backend_of = SGLang, tensor_parallel_size = 4, expert_parallel_size = 1, gpus_per_node = 2\<rparr>"

theorem rollout_builders_valid_witness:
  "\<exists>t. build_rollout_topology example_config (map (\<lambda>i. (i, i + 10)) [0..7]) (\<lambda>r. Some ''addr'') = Inr t \<and> built t \<and>
    map engine_ranks (engines t) = [[0, 1, 2, 3], [4, 5, 6, 7]]"
proof -
  have "0 < num_gpus_per_engine example_config" "int (length (map (\<lambda>i. (i, i + 10 :: int)) [0..7])) mod num_gpus_per_engine example_config = 0"
    "map (\<lambda>i. (i, i + 10 :: int)) [0..7] \<noteq> []" "distinct (map fst (map (\<lambda>i. (i, i + 10 :: int)) [0..7]))"
    "distinct (map snd (map (\<lambda>i. (i, i + 10 :: int)) [0..7]))"
    "0 < gpus_per_node example_config \<and> (num_gpus_per_engine example_config \<le> gpus_per_node example_config \<or> num_gpus_per_engine example_config mod gpus_per_node example_config = 0)"
    by code_simp+
  moreover have "rollout_backend_of example_config = VLLM \<Longrightarrow> expert_parallel_size example_config \<le> 1"
    by (simp add: example_config_def)
  moreover have "chunks (nat (num_gpus_per_engine example_config)) (map fst (map (\<lambda>i. (i, i + 10 :: int)) [0..7])) = [[0, 1, 2, 3], [4, 5, 6, 7]]"
    by code_simp
  ultimately show ?thesis
    using rollout_builders_valid [of example_config "map (\<lambda>i. (i, i + 10 :: int)) [0..7]" "\<lambda>r. Some ''addr''"] by auto
qed

definition example_engines :: "RolloutEngine list" where
  "example_engines = (case sglang_engine 2 2 (\<lambda>r. Some ''addr'') [(0, 10), (1, 11), (2, 12), (3, 13)] of Inr e \<Rightarrow> [e] | Inl _ \<Rightarrow> [])"

theorem topology_routes_once_witness:
  "case make_topology example_engines of Inl _ \<Rightarrow> False
   | Inr t \<Rightarrow> length (filter (\<lambda>s. 3 \<in> set (weight_update_ranks s)) (weight_update_endpoint_processes t)) = 1 \<and>
       lifecycle_group_for_server_rank t 3 = Inl KeyError \<and> lifecycle_group_for_server_rank t 2 = Inr [0, 2]"
proof (cases "make_topology example_engines")
  case (Inl err)
  have "(case make_topology example_engines of Inl _ \<Rightarrow> False | Inr _ \<Rightarrow> True)" by code_simp
  with Inl show ?thesis by simp
next
  case (Inr t)
  have in_ranks: "3 \<in> set (concat (map engine_ranks example_engines))" "2 \<in> set (concat (map engine_ranks example_engines))"
    by code_simp+
  have "(case make_topology example_engines of Inl _ \<Rightarrow> False | Inr t \<Rightarrow> lifecycle_groups t = [[0, 2]])" by code_simp
  then have g: "lifecycle_groups t = [[0, 2]]" using Inr by simp
  show ?thesis
    using topology_routes_once [OF Inr in_ranks(1)] topology_routes_once [OF Inr in_ranks(2)] Inr
    by (simp add: g)
qed

section \<open>Launch specifications\<close>

lemma py_index_Inr: "x \<in> set xs \<Longrightarrow> \<exists>i. py_index xs x = Inr (int i) \<and> i < length xs \<and> xs ! i = x"
proof (induction xs)
  case (Cons y ys)
  show ?case
  proof (cases "y = x")
    case False
    with Cons obtain i where "py_index ys x = Inr (int i)" "i < length ys" "ys ! i = x" by auto
    with False show ?thesis by (intro exI [of _ "Suc i"]) simp
  qed auto
qed simp

lemma launch_specs_ok:
  assumes "built t"
  shows "\<exists>specs. server_launch_specs t = Inr specs \<and>
    map spec_worker_rank specs = map worker_rank (all_servers (engines t)) \<and>
    (\<forall>sp \<in> set specs. \<exists>e \<in> set (engines t). 0 \<le> spec_engine_rank sp \<and>
      nat (spec_engine_rank sp) < length (engine_ranks e) \<and> engine_ranks e ! nat (spec_engine_rank sp) = spec_worker_rank sp)"
proof -
  define ps where "ps = concat (map (\<lambda>e. map (Pair e) (server_processes e)) (engines t))"
  have mem: "e \<in> set (engines t) \<and> worker_rank s \<in> set (engine_ranks e)" if "(e, s) \<in> set ps" for e s
    using that built_ok [OF assms] by (auto simp: ps_def topology_ok_def engine_ok_def)
  have "\<exists>sp. server_launch_spec e s = Inr sp \<and> spec_worker_rank sp = worker_rank s \<and> 0 \<le> spec_engine_rank sp \<and>
      nat (spec_engine_rank sp) < length (engine_ranks e) \<and> engine_ranks e ! nat (spec_engine_rank sp) = worker_rank s"
    if "(e, s) \<in> set ps" for e s
  proof -
    from py_index_Inr mem [OF that] obtain i where
      "py_index (engine_ranks e) (worker_rank s) = Inr (int i)" "i < length (engine_ranks e)" "engine_ranks e ! i = worker_rank s"
      by meson
    then show ?thesis by (simp add: server_launch_spec_def)
  qed
  then obtain f where f: "\<And>e s. (e, s) \<in> set ps \<Longrightarrow> server_launch_spec e s = Inr (f e s) \<and> spec_worker_rank (f e s) = worker_rank s \<and>
      0 \<le> spec_engine_rank (f e s) \<and> nat (spec_engine_rank (f e s)) < length (engine_ranks e) \<and>
      engine_ranks e ! nat (spec_engine_rank (f e s)) = worker_rank s"
    by metis
  have "server_launch_specs t = Inr (map (\<lambda>(e, s). f e s) ps)"
    unfolding server_launch_specs_def ps_def [symmetric] by (rule rmap_total) (use f in auto)
  moreover have "map spec_worker_rank (map (\<lambda>(e, s). f e s) ps) = map (\<lambda>(e, s). worker_rank s) ps"
    using f by auto
  moreover have "map (\<lambda>(e, s). worker_rank s) ps = map worker_rank (all_servers (engines t))"
    by (simp add: ps_def all_servers_def map_concat comp_def)
  ultimately show ?thesis using f mem by fastforce
qed

text \<open>
  Launching never fails on a constructed topology: every server process receives one launch
  specification, in order, carrying the rank of its worker inside its engine.
\<close>

theorem launch_specs_total:
  assumes "built t"
  shows "\<exists>specs. server_launch_specs t = Inr specs \<and>
    map spec_worker_rank specs = map worker_rank (all_servers (engines t)) \<and>
    (\<forall>sp \<in> set specs. \<exists>e \<in> set (engines t). 0 \<le> spec_engine_rank sp \<and>
      nat (spec_engine_rank sp) < length (engine_ranks e) \<and> engine_ranks e ! nat (spec_engine_rank sp) = spec_worker_rank sp)"
  by (rule launch_specs_ok [OF assms])

end
