(* ===== verification/Registry.thy ===== *)
theory Registry
  imports Topology "HOL-Library.List_Lexorder"
begin

text \<open>
  The runtime registry of the rollout server workers (\<open>rl/rollout/worker_registry.py\<close>): one
  snapshot per registered rank, its lifecycle state, and the operations that move whole
  lifecycle groups between states. Every method takes the registry's lock for its whole body,
  so each is one atomic operation here.

  The iteration order of Python's sets of groups does not influence a result: the groups are
  disjoint and every returned sequence is sorted, so a set is modelled by the list of its
  elements in first-seen order.
\<close>

section \<open>Data\<close>

datatype WorkerLifecycleState = ACTIVE | INACTIVE | PENDING_WEIGHTS

record 'a WorkerSnapshot =
  snapshot_rank :: int
  actor :: "'a option"
  url :: string
  session_url :: "string option"
  is_request_entrypoint :: bool
  lifecycle_state :: WorkerLifecycleState

definition is_active :: "'a WorkerSnapshot \<Rightarrow> bool" where
  "is_active w = (lifecycle_state w = ACTIVE)"

record 'a WorkerGroup =
  group_ranks :: "int list"
  group_workers :: "'a WorkerSnapshot list"

record 'a registry =
  rollout_topology :: RolloutTopology
  workers :: "(int \<times> 'a WorkerSnapshot) list"

record init_result =
  init_rank :: int
  server_url :: string
  init_session_url :: "string option"

definition new_registry :: "RolloutTopology \<Rightarrow> 'a registry" where
  "new_registry t = \<lparr>rollout_topology = t, workers = []\<rparr>"

section \<open>Registration and queries\<close>

fun register_started_servers ::
  "init_result list \<Rightarrow> 'a list \<Rightarrow> WorkerLifecycleState \<Rightarrow> 'a registry \<Rightarrow> 'a registry res" where
  "register_started_servers [] workers_by_rank st reg = Inr reg"
| "register_started_servers (i # is) workers_by_rank st reg =
    rbind (py_get workers_by_rank (init_rank i)) (\<lambda>a.
      register_started_servers is workers_by_rank st
        (reg\<lparr>workers := AList.update (init_rank i)
           \<lparr>snapshot_rank = init_rank i, actor = Some a, url = server_url i,
            session_url = init_session_url i,
            is_request_entrypoint = is_request_entrypoint_rank (rollout_topology reg) (init_rank i),
            lifecycle_state = st\<rparr> (workers reg)\<rparr>))"

definition worker_at :: "'a registry \<Rightarrow> int \<Rightarrow> 'a WorkerSnapshot option" where
  "worker_at reg = map_of (workers reg)"

definition all_workers :: "'a registry \<Rightarrow> 'a WorkerSnapshot list" where
  "all_workers reg = map (\<lambda>r. the (worker_at reg r)) (sort (map fst (workers reg)))"

definition inactive_workers :: "'a registry \<Rightarrow> 'a WorkerSnapshot list" where
  "inactive_workers reg = filter (\<lambda>w. \<not> is_active w) (all_workers reg)"

definition all_actors :: "'a registry \<Rightarrow> 'a option list" where
  "all_actors reg = map (actor \<circ> snd) (workers reg)"

definition get_target_state_workers :: "WorkerLifecycleState \<Rightarrow> 'a registry \<Rightarrow> 'a WorkerSnapshot list" where
  "get_target_state_workers target reg = filter (\<lambda>w. lifecycle_state w = target) (map snd (workers reg))"

definition active_workers :: "'a registry \<Rightarrow> 'a WorkerSnapshot list" where
  "active_workers = get_target_state_workers ACTIVE"

definition active_entrypoints :: "'a registry \<Rightarrow> 'a WorkerSnapshot list" where
  "active_entrypoints reg = filter (\<lambda>w. is_active w \<and> is_request_entrypoint w) (map snd (workers reg))"

definition active_entrypoint_by_rank :: "'a registry \<Rightarrow> int \<Rightarrow> 'a WorkerSnapshot option" where
  "active_entrypoint_by_rank reg r =
    (case worker_at reg r of
       None \<Rightarrow> None
     | Some w \<Rightarrow> if \<not> is_active w \<or> \<not> is_request_entrypoint w then None else Some w)"

definition registry_lifecycle_groups :: "'a registry \<Rightarrow> int list list" where
  "registry_lifecycle_groups reg = sort (lifecycle_groups (rollout_topology reg))"

definition registry_group :: "'a registry \<Rightarrow> int list \<Rightarrow> 'a WorkerGroup" where
  "registry_group reg g = \<lparr>group_ranks = g, group_workers = List.map_filter (worker_at reg) g\<rparr>"

definition build_worker_groups :: "'a registry \<Rightarrow> (int list \<times> 'a WorkerGroup) list res" where
  "build_worker_groups reg =
    rbind (rmap (\<lambda>w. lifecycle_group_for_server_rank (rollout_topology reg) (snapshot_rank w)) (map snd (workers reg)))
      (\<lambda>gs. Inr (map (\<lambda>g. (g, registry_group reg g)) (dedup [] gs)))"

definition get_target_state_worker_groups ::
  "WorkerLifecycleState \<Rightarrow> 'a registry \<Rightarrow> 'a WorkerGroup list res" where
  "get_target_state_worker_groups target reg =
    rbind (build_worker_groups reg) (\<lambda>groups. Inr (sort_key group_ranks
      (filter (\<lambda>g. list_ex (\<lambda>w. lifecycle_state w = target) (group_workers g)) (map snd groups))))"

definition inactive_worker_groups :: "'a registry \<Rightarrow> 'a WorkerGroup list res" where
  "inactive_worker_groups = get_target_state_worker_groups INACTIVE"

definition get_inactive_groups_for_recovery :: "'a registry \<Rightarrow> 'a WorkerGroup list res" where
  "get_inactive_groups_for_recovery reg =
    rbind (build_worker_groups reg) (\<lambda>groups. Inr (sort_key group_ranks
      (filter (\<lambda>g. list_ex (\<lambda>w. lifecycle_state w = INACTIVE) (group_workers g)) (map snd groups))))"

section \<open>State changes\<close>

definition set_rank_state ::
  "WorkerLifecycleState \<Rightarrow> WorkerLifecycleState option \<Rightarrow> int \<Rightarrow> 'a registry \<Rightarrow> 'a registry" where
  "set_rank_state target source r reg =
    (case worker_at reg r of
       None \<Rightarrow> reg
     | Some w \<Rightarrow>
         if source = None \<or> source = Some (lifecycle_state w)
         then reg\<lparr>workers := AList.update r (w\<lparr>lifecycle_state := target\<rparr>) (workers reg)\<rparr>
         else reg)"

definition mark_unhealthy_ranks :: "int list \<Rightarrow> 'a registry \<Rightarrow> ('a registry \<times> 'a WorkerGroup list) res" where
  "mark_unhealthy_ranks ranks reg =
    rbind (rmap (lifecycle_group_for_server_rank (rollout_topology reg))
        (filter (\<lambda>r. worker_at reg r \<noteq> None) ranks)) (\<lambda>gs.
      let failed_group_ranks = dedup [] gs;
          reg' = fold (fold (set_rank_state INACTIVE None)) failed_group_ranks reg
      in rbind (build_worker_groups reg') (\<lambda>groups.
        Inr (reg', List.map_filter (map_of groups) (sort failed_group_ranks))))"

definition set_group_recovery_result ::
  "'a WorkerGroup \<Rightarrow> bool \<Rightarrow> 'a registry \<Rightarrow> 'a registry \<times> 'a WorkerGroup res" where
  "set_group_recovery_result grp recovered reg =
    (let reg' = fold (set_rank_state (if recovered then ACTIVE else INACTIVE) None) (group_ranks grp) reg in
     (reg', rbind (build_worker_groups reg') (\<lambda>groups.
        case map_of groups (group_ranks grp) of None \<Rightarrow> Inl RuntimeError | Some g \<Rightarrow> Inr g)))"

definition set_groups_state ::
  "'a WorkerGroup list \<Rightarrow> WorkerLifecycleState \<Rightarrow> WorkerLifecycleState option \<Rightarrow> 'a registry \<Rightarrow>
    'a registry \<times> 'a WorkerGroup list res" where
  "set_groups_state groups target source reg =
    (let reg' = fold (\<lambda>g. fold (set_rank_state target source) (group_ranks g)) groups reg in
     (reg', rbind (build_worker_groups reg') (\<lambda>recorded.
        Inr (List.map_filter (\<lambda>g. map_of recorded (group_ranks g)) groups))))"

record weight_update_target =
  endpoint_rank :: int
  update_ranks :: "int list"
  target_engine_ranks :: "int list"
  target_server_url :: string
  target_lifecycle_state :: WorkerLifecycleState

definition weight_update_target_of :: "'a registry \<Rightarrow> RolloutServerProcess \<Rightarrow> weight_update_target res" where
  "weight_update_target_of reg s =
    (case worker_at reg (worker_rank s) of
       None \<Rightarrow> Inl RuntimeError
     | Some w \<Rightarrow> Inr \<lparr>endpoint_rank = worker_rank s, update_ranks = weight_update_ranks s,
         target_engine_ranks = inference_engine_ranks s, target_server_url = url w,
         target_lifecycle_state = lifecycle_state w\<rparr>)"

definition weight_update_targets :: "'a registry \<Rightarrow> (weight_update_target list \<times> int list list) res" where
  "weight_update_targets reg =
    rbind (rmap (weight_update_target_of reg) (weight_update_endpoint_processes (rollout_topology reg))) (\<lambda>targets.
      let sorted_targets = sort_key endpoint_rank targets in
      rbind (rmap (\<lambda>x. lifecycle_group_for_server_rank (rollout_topology reg) (endpoint_rank x)) sorted_targets) (\<lambda>gs.
        Inr (sorted_targets, dedup [] gs)))"

section \<open>Well-formedness and group states\<close>

definition server_ranks_of :: "RolloutTopology \<Rightarrow> int set" where
  "server_ranks_of t = \<Union> (set ` set (lifecycle_groups t))"

text \<open>
  The registry after start-up: one snapshot for every rank that owns a server process, and for
  no other rank.
\<close>

definition registry_wf :: "'a registry \<Rightarrow> bool" where
  "registry_wf reg =
    (built (rollout_topology reg) \<and> distinct (map fst (workers reg)) \<and>
     fst ` set (workers reg) = server_ranks_of (rollout_topology reg) \<and>
     (\<forall>(r, w) \<in> set (workers reg). snapshot_rank w = r \<and>
       is_request_entrypoint w = is_request_entrypoint_rank (rollout_topology reg) r))"

abbreviation reg_groups :: "'a registry \<Rightarrow> int list set" where
  "reg_groups reg \<equiv> set (lifecycle_groups (rollout_topology reg))"

definition groups_uniform :: "'a registry \<Rightarrow> bool" where
  "groups_uniform reg =
    (\<forall>g \<in> reg_groups reg. \<forall>r \<in> set g. \<forall>r' \<in> set g.
      map_option lifecycle_state (worker_at reg r) = map_option lifecycle_state (worker_at reg r'))"

definition registry_ok :: "'a registry \<Rightarrow> bool" where
  "registry_ok reg = (registry_wf reg \<and> groups_uniform reg)"

text \<open>The abstract registry: the state of every lifecycle group.\<close>

definition group_state :: "'a registry \<Rightarrow> int list \<Rightarrow> WorkerLifecycleState option" where
  "group_state reg g =
    (if g \<in> reg_groups reg then map_option lifecycle_state (worker_at reg (hd g)) else None)"

lemma registry_wfD:
  assumes "registry_wf reg"
  shows "built (rollout_topology reg)" "distinct (map fst (workers reg))"
    "worker_at reg r \<noteq> None \<longleftrightarrow> r \<in> server_ranks_of (rollout_topology reg)"
    "worker_at reg r = Some w \<Longrightarrow> snapshot_rank w = r"
proof -
  show "built (rollout_topology reg)" "distinct (map fst (workers reg))" using assms by (simp_all add: registry_wf_def)
  show "worker_at reg r \<noteq> None \<longleftrightarrow> r \<in> server_ranks_of (rollout_topology reg)"
    using assms by (simp add: registry_wf_def worker_at_def map_of_eq_None_iff)
  show "snapshot_rank w = r" if "worker_at reg r = Some w"
    using assms map_of_SomeD [OF that [unfolded worker_at_def]] by (auto simp: registry_wf_def)
qed

lemma group_nonempty: "built t \<Longrightarrow> g \<in> set (lifecycle_groups t) \<Longrightarrow> g \<noteq> []"
  using built_ok by (fastforce simp: set_lifecycle_groups topology_ok_def engine_ok_def lifecycle_group_def)

lemma group_registered:
  "registry_wf reg \<Longrightarrow> g \<in> reg_groups reg \<Longrightarrow> r \<in> set g \<Longrightarrow> \<exists>w. worker_at reg r = Some w"
  using registry_wfD(3) [of reg r] by (auto simp: server_ranks_of_def)

lemma group_state_member:
  assumes "registry_ok reg" "g \<in> reg_groups reg" "r \<in> set g" "worker_at reg r = Some w"
  shows "group_state reg g = Some (lifecycle_state w)"
proof -
  have "hd g \<in> set g" using assms(3) by (cases g) auto
  then have "map_option lifecycle_state (worker_at reg (hd g)) = map_option lifecycle_state (worker_at reg r)"
    using assms(1-3) unfolding registry_ok_def groups_uniform_def by blast
  then show ?thesis using assms(2,4) by (simp add: group_state_def)
qed

lemma group_state_Some_iff: "registry_ok reg \<Longrightarrow> group_state reg g \<noteq> None \<longleftrightarrow> g \<in> reg_groups reg"
proof
  assume ok: "registry_ok reg" and g: "g \<in> reg_groups reg"
  then have "built (rollout_topology reg)" by (simp add: registry_ok_def registry_wf_def)
  from group_nonempty [OF this g] have "hd g \<in> set g" by simp
  then show "group_state reg g \<noteq> None"
    using group_registered [of reg g "hd g"] ok g by (auto simp: registry_ok_def group_state_def)
qed (auto simp: group_state_def split: if_splits)

subsection \<open>Changing the state of ranks\<close>

definition move_state ::
  "WorkerLifecycleState \<Rightarrow> WorkerLifecycleState option \<Rightarrow> 'a WorkerSnapshot \<Rightarrow> 'a WorkerSnapshot" where
  "move_state target source w =
    (if source = None \<or> source = Some (lifecycle_state w) then w\<lparr>lifecycle_state := target\<rparr> else w)"

lemma move_state_idem [simp]: "move_state target source (move_state target source w) = move_state target source w"
  by (simp add: move_state_def)

lemma move_state_simps [simp]:
  "snapshot_rank (move_state target source w) = snapshot_rank w"
  "is_request_entrypoint (move_state target source w) = is_request_entrypoint w"
  "actor (move_state target source w) = actor w"
  "url (move_state target source w) = url w"
  "session_url (move_state target source w) = session_url w"
  "lifecycle_state (move_state target source w) =
    (if source = None \<or> source = Some (lifecycle_state w) then target else lifecycle_state w)"
  by (simp_all add: move_state_def)

lemma set_rank_state_eq:
  "set_rank_state target source r reg =
    (case worker_at reg r of None \<Rightarrow> reg
     | Some w \<Rightarrow> reg\<lparr>workers := AList.update r (move_state target source w) (workers reg)\<rparr>)"
  by (auto simp: set_rank_state_def move_state_def worker_at_def update_nonempty split: option.split
      intro!: registry.equality AList.update_triv [symmetric])

lemma worker_at_set_rank_state:
  "worker_at (set_rank_state target source r reg) r' =
    (if r' = r then map_option (move_state target source) (worker_at reg r') else worker_at reg r')"
  by (auto simp: set_rank_state_eq worker_at_def AList.update_conv' split: option.split)

lemma set_rank_state_topology [simp]: "rollout_topology (set_rank_state target source r reg) = rollout_topology reg"
  by (simp add: set_rank_state_eq split: option.split)

lemma fold_set_rank_topology [simp]: "rollout_topology (fold (set_rank_state target source) rs reg) = rollout_topology reg"
  by (induction rs arbitrary: reg) auto

lemma worker_at_fold:
  "worker_at (fold (set_rank_state target source) rs reg) r =
    (if r \<in> set rs then map_option (move_state target source) (worker_at reg r) else worker_at reg r)"
  by (induction rs arbitrary: reg)
    (auto simp: worker_at_set_rank_state option.map_comp comp_def)

lemma set_rank_state_keys: "map fst (workers (set_rank_state target source r reg)) = map fst (workers reg)"
proof (cases "worker_at reg r")
  case (Some w)
  then have "r \<in> fst ` set (workers reg)" by (auto simp: worker_at_def dest!: map_of_SomeD intro: rev_image_eqI)
  then show ?thesis using Some by (simp add: set_rank_state_eq AList.update_keys)
qed (simp add: set_rank_state_eq)

lemma fold_set_rank_keys: "map fst (workers (fold (set_rank_state target source) rs reg)) = map fst (workers reg)"
  by (induction rs arbitrary: reg) (auto simp: set_rank_state_keys simp del: map_map)

lemma fold_set_rank_wf:
  assumes "registry_wf reg"
  shows "registry_wf (fold (set_rank_state target source) rs reg)"
proof -
  let ?reg = "fold (set_rank_state target source) rs reg"
  have keys: "map fst (workers ?reg) = map fst (workers reg)" by (rule fold_set_rank_keys)
  then have dist: "distinct (map fst (workers ?reg))" and dom: "fst ` set (workers ?reg) = fst ` set (workers reg)"
    using registry_wfD(2) [OF assms] by (simp, metis set_map)
  have "snapshot_rank w = r \<and> is_request_entrypoint w = is_request_entrypoint_rank (rollout_topology reg) r"
    if "(r, w) \<in> set (workers ?reg)" for r w
  proof -
    have "worker_at ?reg r = Some w" unfolding worker_at_def using dist that by (rule map_of_is_SomeI)
    then obtain w0 where w0: "worker_at reg r = Some w0"
      "snapshot_rank w = snapshot_rank w0" "is_request_entrypoint w = is_request_entrypoint w0"
      by (auto simp: worker_at_fold split: if_splits)
    then have "(r, w0) \<in> set (workers reg)" by (simp add: worker_at_def map_of_SomeD)
    then show ?thesis using assms w0 by (auto simp: registry_wf_def)
  qed
  then show ?thesis using assms dist dom by (auto simp: registry_wf_def)
qed

text \<open>Moving the ranks of whole groups keeps the groups uniform.\<close>

lemma fold_groups_concat:
  "fold (\<lambda>g. fold (set_rank_state target source) (f g)) gs reg = fold (set_rank_state target source) (concat (map f gs)) reg"
  by (induction gs arbitrary: reg) simp_all

lemma in_group_list_iff:
  assumes "built t" "set gs \<subseteq> set (lifecycle_groups t)" "g \<in> set (lifecycle_groups t)" "r \<in> set g"
  shows "r \<in> set (concat gs) \<longleftrightarrow> g \<in> set gs"
proof
  assume "r \<in> set (concat gs)"
  then obtain g' where g': "g' \<in> set gs" "r \<in> set g'" by auto
  then have "g' = g" using topo.same_group [OF assms(1), of g' g r] assms by auto
  then show "g \<in> set gs" using g' by simp
qed (use assms(4) in auto)

lemma move_groups_ok:
  fixes reg :: "'a registry" and target source gs
  assumes ok: "registry_ok reg" and gs: "set gs \<subseteq> reg_groups reg"
  defines "reg' \<equiv> fold (set_rank_state target source) (concat gs) reg"
  shows "registry_ok reg' \<and>
    (\<forall>g. group_state reg' g =
      (if g \<in> set gs \<and> (source = None \<or> source = group_state reg g) then Some target else group_state reg g))"
proof -
  note wf = ok [unfolded registry_ok_def, THEN conjunct1]
  note b = registry_wfD(1) [OF wf]
  have top [simp]: "rollout_topology reg' = rollout_topology reg" by (simp add: reg'_def)
  have state: "map_option lifecycle_state (worker_at reg' r) =
      (if g \<in> set gs \<and> (source = None \<or> source = group_state reg g) then Some target else group_state reg g)"
    if g: "g \<in> reg_groups reg" "r \<in> set g" for g r
  proof -
    obtain w where w: "worker_at reg r = Some w" using group_registered [OF wf g] by auto
    then have gs_w: "group_state reg g = Some (lifecycle_state w)" by (rule group_state_member [OF ok g])
    show ?thesis unfolding reg'_def worker_at_fold in_group_list_iff [OF b gs g] using w gs_w by auto
  qed
  have "groups_uniform reg'" unfolding groups_uniform_def top using state by simp
  moreover have "registry_wf reg'" unfolding reg'_def using wf by (rule fold_set_rank_wf)
  moreover have "group_state reg' g =
      (if g \<in> set gs \<and> (source = None \<or> source = group_state reg g) then Some target else group_state reg g)" for g
  proof (cases "g \<in> reg_groups reg")
    case True
    then have "hd g \<in> set g" using group_nonempty [OF b] by simp
    from state [OF True this] show ?thesis using True by (simp add: group_state_def [of reg'])
  next
    case False
    then show ?thesis using gs by (auto simp: group_state_def)
  qed
  ultimately show ?thesis by (simp add: registry_ok_def)
qed

subsection \<open>Group snapshots\<close>

lemma rmap_lookup_ranks:
  "registry_wf reg \<Longrightarrow> (\<And>r. r \<in> set rs \<Longrightarrow> worker_at reg r \<noteq> None) \<Longrightarrow>
    \<exists>gs. rmap (lifecycle_group_for_server_rank (rollout_topology reg)) rs = Inr gs \<and>
      set gs = {g \<in> reg_groups reg. set g \<inter> set rs \<noteq> {}}"
proof -
  assume wf: "registry_wf reg" and reg: "\<And>r. r \<in> set rs \<Longrightarrow> worker_at reg r \<noteq> None"
  note b = registry_wfD(1) [OF wf]
  obtain gs where gs: "rmap (lifecycle_group_for_server_rank (rollout_topology reg)) rs = Inr gs"
    "list_all2 (\<lambda>r g. g \<in> reg_groups reg \<and> r \<in> set g) rs gs"
    using topo.lookup_all [OF b, of rs] reg registry_wfD(3) [OF wf] by (auto simp: server_ranks_of_def)
  have "g \<in> set gs" if "g \<in> reg_groups reg" "r \<in> set g" "r \<in> set rs" for g r
    using list_all2_in1 [OF gs(2) that(3)] topo.same_group [OF b that(1) _ that(2)] by blast
  moreover have "g \<in> reg_groups reg \<and> set g \<inter> set rs \<noteq> {}" if "g \<in> set gs" for g
    using list_all2_in2 [OF gs(2) that] by auto
  ultimately have "set gs = {g \<in> reg_groups reg. set g \<inter> set rs \<noteq> {}}" by blast
  with gs(1) show ?thesis by blast
qed

lemma build_worker_groups_ok:
  assumes wf: "registry_wf reg"
  shows "\<exists>gs. build_worker_groups reg = Inr (map (\<lambda>g. (g, registry_group reg g)) gs) \<and>
    distinct gs \<and> set gs = reg_groups reg"
proof -
  let ?ranks = "map fst (workers reg)"
  have names: "map (snapshot_rank \<circ> snd) (workers reg) = ?ranks" using wf by (auto simp: registry_wf_def)
  have ranks: "set ?ranks = server_ranks_of (rollout_topology reg)" using wf by (simp add: registry_wf_def)
  obtain gs where gs: "rmap (lifecycle_group_for_server_rank (rollout_topology reg)) ?ranks = Inr gs"
    "set gs = {g \<in> reg_groups reg. set g \<inter> set ?ranks \<noteq> {}}"
    using rmap_lookup_ranks [OF wf, of ?ranks] registry_wfD(3) [OF wf] ranks by blast
  have "set g \<inter> set ?ranks \<noteq> {}" if "g \<in> reg_groups reg" for g
  proof -
    have "hd g \<in> set g" using group_nonempty [OF registry_wfD(1) [OF wf] that] by simp
    then show ?thesis unfolding ranks server_ranks_of_def using that by blast
  qed
  with gs(2) have all: "set gs = reg_groups reg" by blast
  have "rmap (\<lambda>w. lifecycle_group_for_server_rank (rollout_topology reg) (snapshot_rank w)) (map snd (workers reg)) = Inr gs"
    using gs(1) unfolding names [symmetric] by (simp add: rmap_map comp_def)
  then show ?thesis using all
    by (intro exI [of _ "dedup [] gs"]) (simp add: build_worker_groups_def dedup_set dedup_distinct)
qed

lemma map_of_group_list: "map_of (map (\<lambda>g. (g, f g)) gs) g = (if g \<in> set gs then Some (f g) else None)"
  by (induction gs) auto

lemma build_worker_groups_lookup:
  assumes "registry_wf reg"
  shows "\<exists>groups. build_worker_groups reg = Inr groups \<and>
    map_of groups = (\<lambda>g. if g \<in> reg_groups reg then Some (registry_group reg g) else None)"
  using build_worker_groups_ok [OF assms] by (auto simp: map_of_group_list fun_eq_iff)

lemma registry_group_simps [simp]: "group_ranks (registry_group reg g) = g"
  by (simp add: registry_group_def)

lemma map_filter_all: "(\<And>x. x \<in> set xs \<Longrightarrow> f x = Some (h x)) \<Longrightarrow> List.map_filter f xs = map h xs"
  by (induction xs) (auto simp: List.map_filter_simps)

lemma group_has_state:
  assumes ok: "registry_ok reg" and g: "g \<in> reg_groups reg"
  shows "list_ex (\<lambda>w. lifecycle_state w = st) (group_workers (registry_group reg g)) \<longleftrightarrow> group_state reg g = Some st"
proof -
  have wf: "registry_wf reg" using ok by (simp add: registry_ok_def)
  have all: "\<exists>w. worker_at reg r = Some w \<and> group_state reg g = Some (lifecycle_state w)" if "r \<in> set g" for r
    using group_registered [OF wf g that] group_state_member [OF ok g that] by blast
  have "hd g \<in> set g" using group_nonempty [OF registry_wfD(1) [OF wf] g] by simp
  then show ?thesis using all
    by (fastforce simp: registry_group_def list_ex_iff List.map_filter_def)
qed

lemma insort_key_map: "insort_key k (f x) (map f xs) = map f (insort_key (\<lambda>x. k (f x)) x xs)"
  by (induction xs) auto

lemma sort_key_map: "sort_key k (map f xs) = map f (sort_key (\<lambda>x. k (f x)) xs)"
  by (induction xs) (auto simp: insort_key_map)

lemma target_state_groups_ok:
  assumes ok: "registry_ok reg"
  shows "\<exists>gs. get_target_state_worker_groups st reg = Inr (map (registry_group reg) gs) \<and> sorted gs \<and> distinct gs \<and>
    set gs = {g. group_state reg g = Some st}"
proof -
  have wf: "registry_wf reg" using ok by (simp add: registry_ok_def)
  obtain gs where gs: "build_worker_groups reg = Inr (map (\<lambda>g. (g, registry_group reg g)) gs)" "distinct gs" "set gs = reg_groups reg"
    using build_worker_groups_ok [OF wf] by blast
  let ?ks = "sort (filter (\<lambda>g. group_state reg g = Some st) gs)"
  have "filter (\<lambda>g. list_ex (\<lambda>w. lifecycle_state w = st) (group_workers g)) (map (registry_group reg) gs) =
      map (registry_group reg) (filter (\<lambda>g. group_state reg g = Some st) gs)"
  proof -
    have "filter (\<lambda>g. list_ex (\<lambda>w. lifecycle_state w = st) (group_workers (registry_group reg g))) gs =
        filter (\<lambda>g. group_state reg g = Some st) gs"
      using gs(3) group_has_state [OF ok] by (intro filter_cong) auto
    then show ?thesis by (simp add: filter_map comp_def)
  qed
  moreover have "sort_key group_ranks (map (registry_group reg) xs) = map (registry_group reg) (sort xs)" for xs
    by (simp add: sort_key_map)
  ultimately have "get_target_state_worker_groups st reg = Inr (map (registry_group reg) ?ks)"
    by (simp add: get_target_state_worker_groups_def gs(1) comp_def)
  moreover have "set ?ks = {g. group_state reg g = Some st}"
    using gs(3) group_state_Some_iff [OF ok] by auto
  ultimately show ?thesis using gs(2) by (intro exI [of _ ?ks]) simp
qed

section \<open>The registry implements a machine on groups\<close>

lemma mark_unhealthy_ok:
  fixes reg :: "'a registry" and ranks
  assumes ok: "registry_ok reg"
  defines "failed \<equiv> {g \<in> reg_groups reg. set g \<inter> set ranks \<noteq> {}}"
  shows "\<exists>reg' gs. mark_unhealthy_ranks ranks reg = Inr (reg', map (registry_group reg') gs) \<and> registry_ok reg' \<and>
    sorted gs \<and> distinct gs \<and> set gs = failed \<and> rollout_topology reg' = rollout_topology reg \<and>
    (\<forall>g. group_state reg' g = (if g \<in> failed then Some INACTIVE else group_state reg g))"
proof -
  have wf: "registry_wf reg" using ok by (simp add: registry_ok_def)
  let ?rs = "filter (\<lambda>r. worker_at reg r \<noteq> None) ranks"
  obtain gs where gs: "rmap (lifecycle_group_for_server_rank (rollout_topology reg)) ?rs = Inr gs"
    "set gs = {g \<in> reg_groups reg. set g \<inter> set ?rs \<noteq> {}}"
    using rmap_lookup_ranks [OF wf, of ?rs] by auto
  have failed: "set gs = failed"
    using gs(2) group_registered [OF wf] by (auto simp: failed_def)
  define ds where "ds = dedup [] gs"
  have ds: "set ds = failed" "distinct ds" by (simp_all add: ds_def dedup_set dedup_distinct failed)
  define reg' where "reg' = fold (set_rank_state INACTIVE None) (concat ds) reg"
  have fold: "fold (fold (set_rank_state INACTIVE None)) ds reg = reg'"
    using fold_groups_concat [of INACTIVE None "\<lambda>g. g" ds reg] by (simp add: reg'_def)
  have "set ds \<subseteq> reg_groups reg" using ds by (auto simp: failed_def)
  note moved = move_groups_ok [OF ok this, of INACTIVE None, folded reg'_def]
  have top: "rollout_topology reg' = rollout_topology reg" by (simp add: reg'_def)
  obtain groups where groups: "build_worker_groups reg' = Inr groups"
    "map_of groups = (\<lambda>g. if g \<in> reg_groups reg' then Some (registry_group reg' g) else None)"
    using build_worker_groups_lookup moved unfolding registry_ok_def by blast
  have "List.map_filter (map_of groups) (sort ds) = map (registry_group reg') (sort ds)"
    by (rule map_filter_all) (use ds top groups(2) in \<open>auto simp: failed_def\<close>)
  then have "mark_unhealthy_ranks ranks reg = Inr (reg', map (registry_group reg') (sort ds))"
    unfolding mark_unhealthy_ranks_def gs(1) by (simp add: Let_def ds_def [symmetric] fold groups(1))
  then show ?thesis using moved ds top by (intro exI [of _ reg'] exI [of _ "sort ds"]) auto
qed

lemma set_groups_state_ok:
  assumes ok: "registry_ok reg" and gs: "group_ranks ` set groups \<subseteq> reg_groups reg"
  shows "\<exists>reg'. set_groups_state groups target source reg = (reg', Inr (map (\<lambda>g. registry_group reg' (group_ranks g)) groups)) \<and>
    registry_ok reg' \<and> rollout_topology reg' = rollout_topology reg \<and>
    (\<forall>g. group_state reg' g =
      (if g \<in> group_ranks ` set groups \<and> (source = None \<or> source = group_state reg g) then Some target else group_state reg g))"
proof -
  let ?gs = "map group_ranks groups"
  define reg' where "reg' = fold (set_rank_state target source) (concat ?gs) reg"
  have "set ?gs \<subseteq> reg_groups reg" using gs by simp
  note moved = move_groups_ok [OF ok this, of target source, folded reg'_def]
  have top: "rollout_topology reg' = rollout_topology reg" by (simp add: reg'_def)
  obtain recorded where r: "build_worker_groups reg' = Inr recorded"
    "map_of recorded = (\<lambda>g. if g \<in> reg_groups reg' then Some (registry_group reg' g) else None)"
    using build_worker_groups_lookup moved unfolding registry_ok_def by blast
  have "List.map_filter (\<lambda>g. map_of recorded (group_ranks g)) groups = map (\<lambda>g. registry_group reg' (group_ranks g)) groups"
    by (rule map_filter_all) (use gs top r(2) in auto)
  then have "set_groups_state groups target source reg = (reg', Inr (map (\<lambda>g. registry_group reg' (group_ranks g)) groups))"
    by (simp add: set_groups_state_def fold_groups_concat reg'_def [symmetric] r(1))
  then show ?thesis using moved top by auto
qed

lemma set_group_recovery_result_ok:
  assumes ok: "registry_ok reg" and g: "group_ranks grp \<in> reg_groups reg"
  shows "\<exists>reg'. set_group_recovery_result grp recovered reg = (reg', Inr (registry_group reg' (group_ranks grp))) \<and>
    registry_ok reg' \<and> rollout_topology reg' = rollout_topology reg \<and>
    group_state reg' = (group_state reg)(group_ranks grp \<mapsto> if recovered then ACTIVE else INACTIVE)"
proof -
  define st where "st = (if recovered then ACTIVE else INACTIVE)"
  define reg' where "reg' = fold (set_rank_state st None) (group_ranks grp) reg"
  have "set [group_ranks grp] \<subseteq> reg_groups reg" using g by simp
  note moved = move_groups_ok [OF ok this, of st None, unfolded concat.simps append_Nil2, folded reg'_def]
  have top: "rollout_topology reg' = rollout_topology reg" by (simp add: reg'_def)
  obtain recorded where r: "build_worker_groups reg' = Inr recorded"
    "map_of recorded = (\<lambda>g. if g \<in> reg_groups reg' then Some (registry_group reg' g) else None)"
    using build_worker_groups_lookup moved unfolding registry_ok_def by blast
  have "set_group_recovery_result grp recovered reg = (reg', Inr (registry_group reg' (group_ranks grp)))"
    using g top r by (simp add: set_group_recovery_result_def st_def [symmetric] reg'_def [symmetric] Let_def)
  then show ?thesis using moved top by (auto simp: fun_eq_iff st_def)
qed

text \<open>The abstract machine: one state per lifecycle group.\<close>

type_synonym group_machine = "int list \<Rightarrow> WorkerLifecycleState option"

definition abs_mark :: "int list \<Rightarrow> group_machine \<Rightarrow> group_machine" where
  "abs_mark ranks m = (\<lambda>g. if m g \<noteq> None \<and> set g \<inter> set ranks \<noteq> {} then Some INACTIVE else m g)"

definition abs_move :: "int list set \<Rightarrow> WorkerLifecycleState \<Rightarrow> WorkerLifecycleState option \<Rightarrow> group_machine \<Rightarrow> group_machine" where
  "abs_move gs target source m =
    (\<lambda>g. if g \<in> gs \<and> m g \<noteq> None \<and> (source = None \<or> source = m g) then Some target else m g)"

lemma abs_mark_ok:
  assumes "registry_ok reg"
  shows "\<exists>reg' gs. mark_unhealthy_ranks ranks reg = Inr (reg', map (registry_group reg') gs) \<and> registry_ok reg' \<and>
    rollout_topology reg' = rollout_topology reg \<and> group_state reg' = abs_mark ranks (group_state reg) \<and>
    set gs = {g \<in> reg_groups reg. set g \<inter> set ranks \<noteq> {}}"
proof -
  obtain reg' gs where r: "mark_unhealthy_ranks ranks reg = Inr (reg', map (registry_group reg') gs)" "registry_ok reg'"
    "set gs = {g \<in> reg_groups reg. set g \<inter> set ranks \<noteq> {}}" "rollout_topology reg' = rollout_topology reg"
    "\<forall>g. group_state reg' g = (if g \<in> {g \<in> reg_groups reg. set g \<inter> set ranks \<noteq> {}} then Some INACTIVE else group_state reg g)"
    using mark_unhealthy_ok [OF assms, of ranks] by blast
  have "group_state reg' g = abs_mark ranks (group_state reg) g" for g
    using r(5) group_state_Some_iff [OF assms, of g] by (simp add: abs_mark_def)
  then show ?thesis using r(1-4) by (intro exI [of _ reg'] exI [of _ gs]) (simp add: fun_eq_iff)
qed

lemma abs_move_ok:
  assumes ok: "registry_ok reg" and gs: "group_ranks ` set groups \<subseteq> reg_groups reg"
  shows "\<exists>reg'. set_groups_state groups target source reg = (reg', Inr (map (\<lambda>g. registry_group reg' (group_ranks g)) groups)) \<and>
    registry_ok reg' \<and> rollout_topology reg' = rollout_topology reg \<and>
    group_state reg' = abs_move (group_ranks ` set groups) target source (group_state reg)"
proof -
  obtain reg' where r: "set_groups_state groups target source reg = (reg', Inr (map (\<lambda>g. registry_group reg' (group_ranks g)) groups))"
    "registry_ok reg'" "rollout_topology reg' = rollout_topology reg"
    "\<And>g. group_state reg' g =
      (if g \<in> group_ranks ` set groups \<and> (source = None \<or> source = group_state reg g) then Some target else group_state reg g)"
    using set_groups_state_ok [OF assms, of target source] by blast
  have "g \<in> group_ranks ` set groups \<Longrightarrow> group_state reg g \<noteq> None" for g
    unfolding group_state_Some_iff [OF ok] using gs by blast
  then have "group_state reg' = abs_move (group_ranks ` set groups) target source (group_state reg)"
    by (auto simp: fun_eq_iff r(4) abs_move_def)
  with r(1-3) show ?thesis by blast
qed

lemma abs_recovery_ok:
  assumes ok: "registry_ok reg" and g: "group_ranks grp \<in> reg_groups reg"
  shows "\<exists>reg'. set_group_recovery_result grp recovered reg = (reg', Inr (registry_group reg' (group_ranks grp))) \<and>
    registry_ok reg' \<and> rollout_topology reg' = rollout_topology reg \<and>
    group_state reg' = abs_move {group_ranks grp} (if recovered then ACTIVE else INACTIVE) None (group_state reg)"
  using set_group_recovery_result_ok [OF assms, of recovered] group_state_Some_iff [OF ok, of "group_ranks grp"] g
  by (auto simp: abs_move_def fun_eq_iff)

text \<open>C37. 
  On a well-formed registry whose groups are uniform, every state-changing method succeeds,
  keeps the groups uniform, and acts on the per-group states exactly as the abstract machine
  does: a failed rank takes its whole lifecycle group down, a recovery result and a conditional
  move touch exactly the named groups, and the returned snapshots are those of the new state.
\<close>

theorem registry_refines_groups:
  assumes ok: "registry_ok reg" and gs: "group_ranks ` set groups \<subseteq> reg_groups reg" and g: "group_ranks grp \<in> reg_groups reg"
  shows "(case mark_unhealthy_ranks ranks reg of Inl _ \<Rightarrow> False | Inr (reg', marked) \<Rightarrow>
      registry_ok reg' \<and> group_state reg' = abs_mark ranks (group_state reg) \<and>
      group_ranks ` set marked = {g \<in> reg_groups reg. set g \<inter> set ranks \<noteq> {}}) \<and>
    (case set_groups_state groups target source reg of (reg', recorded) \<Rightarrow>
      registry_ok reg' \<and> group_state reg' = abs_move (group_ranks ` set groups) target source (group_state reg) \<and>
      recorded = Inr (map (\<lambda>g. registry_group reg' (group_ranks g)) groups)) \<and>
    (case set_group_recovery_result grp recovered reg of (reg', recorded) \<Rightarrow>
      registry_ok reg' \<and>
      group_state reg' = abs_move {group_ranks grp} (if recovered then ACTIVE else INACTIVE) None (group_state reg) \<and>
      recorded = Inr (registry_group reg' (group_ranks grp)))"
proof (intro conjI)
  obtain reg' gs' where m: "mark_unhealthy_ranks ranks reg = Inr (reg', map (registry_group reg') gs')" "registry_ok reg'"
    "group_state reg' = abs_mark ranks (group_state reg)" "set gs' = {g \<in> reg_groups reg. set g \<inter> set ranks \<noteq> {}}"
    using abs_mark_ok [OF ok, of ranks] by blast
  then show "case mark_unhealthy_ranks ranks reg of Inl _ \<Rightarrow> False | Inr (reg', marked) \<Rightarrow>
      registry_ok reg' \<and> group_state reg' = abs_mark ranks (group_state reg) \<and>
      group_ranks ` set marked = {g \<in> reg_groups reg. set g \<inter> set ranks \<noteq> {}}"
    by (simp add: image_image)
  show "case set_groups_state groups target source reg of (reg', recorded) \<Rightarrow>
      registry_ok reg' \<and> group_state reg' = abs_move (group_ranks ` set groups) target source (group_state reg) \<and>
      recorded = Inr (map (\<lambda>g. registry_group reg' (group_ranks g)) groups)"
    using abs_move_ok [OF ok gs, of target source] by auto
  show "case set_group_recovery_result grp recovered reg of (reg', recorded) \<Rightarrow>
      registry_ok reg' \<and>
      group_state reg' = abs_move {group_ranks grp} (if recovered then ACTIVE else INACTIVE) None (group_state reg) \<and>
      recorded = Inr (registry_group reg' (group_ranks grp))"
    using abs_recovery_ok [OF ok g, of recovered] by auto
qed

section \<open>Start-up\<close>

definition snapshot_of :: "RolloutTopology \<Rightarrow> 'a list \<Rightarrow> WorkerLifecycleState \<Rightarrow> init_result \<Rightarrow> 'a WorkerSnapshot" where
  "snapshot_of t actors st i =
    \<lparr>snapshot_rank = init_rank i, actor = Some (actors ! nat (init_rank i)), url = server_url i,
     session_url = init_session_url i, is_request_entrypoint = is_request_entrypoint_rank t (init_rank i),
     lifecycle_state = st\<rparr>"

lemma register_eq:
  "(\<And>i. i \<in> set is \<Longrightarrow> 0 \<le> init_rank i \<and> init_rank i < int (length actors)) \<Longrightarrow>
    register_started_servers is actors st reg =
      Inr (reg\<lparr>workers := fold (\<lambda>i. AList.update (init_rank i) (snapshot_of (rollout_topology reg) actors st i)) is (workers reg)\<rparr>)"
proof (induction "is" arbitrary: reg)
  case (Cons i "is")
  have "py_get actors (init_rank i) = Inr (actors ! nat (init_rank i))"
    using Cons.prems [of i] by (simp add: py_get_def)
  then show ?case using Cons by (simp add: snapshot_of_def)
qed simp

lemma fold_update_distinct:
  "distinct (map fst d) \<Longrightarrow> distinct (map fst (fold (\<lambda>i. AList.update (k i) (v i)) xs d))"
proof (induction xs arbitrary: d)
  case (Cons x xs)
  show ?case unfolding fold_simps comp_apply by (rule Cons.IH) (rule AList.distinct_update [OF Cons.prems])
qed simp

lemma keys_fold_update: "fst ` set (fold (\<lambda>i. AList.update (k i) (v i)) xs d) = k ` set xs \<union> fst ` set d"
proof (induction xs arbitrary: d)
  case (Cons x xs)
  have "fst ` set (AList.update (k x) (v x) d) = insert (k x) (fst ` set d)"
    by (simp flip: dom_map_of_conv_image_fst add: AList.update_conv' dom_fun_upd)
  then show ?case unfolding fold_simps comp_apply Cons.IH by auto
qed simp

lemma fold_update_values:
  "(r, w) \<in> set (fold (\<lambda>i. AList.update (k i) (v i)) xs d) \<Longrightarrow> distinct (map fst d) \<Longrightarrow>
    (\<exists>i \<in> set xs. r = k i \<and> w = v i) \<or> (r, w) \<in> set d"
proof (induction xs arbitrary: d)
  case (Cons x xs)
  have d: "distinct (map fst (AList.update (k x) (v x) d))" by (rule AList.distinct_update [OF Cons.prems(2)])
  consider "\<exists>i \<in> set xs. r = k i \<and> w = v i" | "(r, w) \<in> set (AList.update (k x) (v x) d)"
    using Cons.IH [OF _ d] Cons.prems(1) by auto
  then show ?case
  proof cases
    case 2
    then have "map_of (AList.update (k x) (v x) d) r = Some w" using d by (simp add: map_of_is_SomeI)
    then show ?thesis by (auto simp: AList.update_conv' split: if_splits dest: map_of_SomeD)
  qed auto
qed simp

lemma register_ok:
  assumes b: "built t" and ranks: "init_rank ` set is = server_ranks_of t"
    and bound: "\<And>i. i \<in> set is \<Longrightarrow> 0 \<le> init_rank i \<and> init_rank i < int (length actors)"
  shows "\<exists>reg. register_started_servers is actors st (new_registry t) = Inr reg \<and> rollout_topology reg = t \<and>
    registry_ok reg \<and> group_state reg = (\<lambda>g. if g \<in> set (lifecycle_groups t) then Some st else None)"
proof -
  let ?d = "fold (\<lambda>i. AList.update (init_rank i) (snapshot_of t actors st i)) is []"
  define reg where "reg = \<lparr>rollout_topology = t, workers = ?d\<rparr>"
  have reg: "register_started_servers is actors st (new_registry t) = Inr reg"
    using register_eq [OF bound, where reg = "new_registry t" and st = st] by (simp add: new_registry_def reg_def)
  have dist: "distinct (map fst (workers reg))" unfolding reg_def by (simp add: fold_update_distinct)
  have dom: "fst ` set (workers reg) = server_ranks_of t" unfolding reg_def by (simp add: keys_fold_update ranks)
  have val: "snapshot_rank w = r \<and> is_request_entrypoint w = is_request_entrypoint_rank t r \<and> lifecycle_state w = st"
    if "(r, w) \<in> set (workers reg)" for r w
    using fold_update_values [OF that [unfolded reg_def, simplified]] by (auto simp: snapshot_of_def)
  have top: "rollout_topology reg = t" by (simp add: reg_def)
  have wf: "registry_wf reg" unfolding registry_wf_def top using b dist dom val by auto
  have st: "map_option lifecycle_state (worker_at reg r) = Some st" if "g \<in> set (lifecycle_groups t)" "r \<in> set g" for g r
  proof -
    have "\<exists>w. worker_at reg r = Some w" by (rule group_registered [OF wf]) (use that top in simp_all)
    then obtain w where w: "worker_at reg r = Some w" ..
    with val [of r w] show ?thesis by (simp add: worker_at_def map_of_SomeD)
  qed
  have uni: "groups_uniform reg" unfolding groups_uniform_def top by (intro ballI) (metis st)
  have "group_state reg g = (if g \<in> set (lifecycle_groups t) then Some st else None)" for g
    using st [of g "hd g"] group_nonempty [OF b, of g] unfolding group_state_def top by auto
  then show ?thesis using reg wf uni top by (intro exI [of _ reg]) (simp add: registry_ok_def fun_eq_iff)
qed

section \<open>Weight-update targets\<close>

lemma server_rank_in_groups:
  "built t \<Longrightarrow> s \<in> set (all_servers (engines t)) \<Longrightarrow> worker_rank s \<in> server_ranks_of t"
  by (auto simp: server_ranks_of_def set_lifecycle_groups all_servers_def lifecycle_group_def)

lemma length_filter_sort: "length (filter P (sort_key k xs)) = length (filter P xs)"
  by (metis mset_eq_length mset_filter mset_sort)

lemma group_has_endpoint:
  assumes "built t" "g \<in> set (lifecycle_groups t)"
  shows "\<exists>s \<in> set (weight_update_endpoint_processes t). worker_rank s \<in> set g"
proof -
  obtain e where e: "e \<in> set (engines t)" "g = lifecycle_group e" using assms by (auto simp: set_lifecycle_groups)
  then have "engine_ok e" using built_ok [OF assms(1)] by (simp add: topology_ok_def)
  then have "(\<Union>s \<in> set (server_processes e). set (weight_update_ranks s)) \<noteq> {}" unfolding engine_ok_def by simp
  then obtain s where s: "s \<in> set (server_processes e)" "weight_update_ranks s \<noteq> []" by auto
  then have "s \<in> set (weight_update_endpoint_processes t)" "worker_rank s \<in> set g"
    using e by (auto simp: weight_update_endpoint_processes_def all_servers_def is_weight_update_endpoint_def lifecycle_group_def)
  then show ?thesis by blast
qed

lemma weight_update_targets_ok:
  assumes ok: "registry_ok reg"
  shows "\<exists>targets gs. weight_update_targets reg = Inr (targets, gs) \<and> sorted (map endpoint_rank targets) \<and>
    (\<forall>r \<in> set (concat (map engine_ranks (engines (rollout_topology reg)))).
       length (filter (\<lambda>x. r \<in> set (update_ranks x)) targets) = 1) \<and>
    (\<forall>x \<in> set targets. \<exists>g \<in> set gs. endpoint_rank x \<in> set g \<and> group_state reg g = Some (target_lifecycle_state x)) \<and>
    (\<forall>g \<in> set gs. \<exists>x \<in> set targets. endpoint_rank x \<in> set g) \<and>
    set gs = reg_groups reg \<and> distinct gs"
proof -
  have wf: "registry_wf reg" using ok by (simp add: registry_ok_def)
  note b = registry_wfD(1) [OF wf]
  let ?t = "rollout_topology reg" and ?eps = "weight_update_endpoint_processes (rollout_topology reg)"
  have in_groups: "worker_rank s \<in> server_ranks_of ?t" if "s \<in> set ?eps" for s
    using server_rank_in_groups [OF b] that by (auto simp: weight_update_endpoint_processes_def)
  have "\<exists>w. worker_at reg (worker_rank s) = Some w" if "s \<in> set ?eps" for s
    using in_groups [OF that] registry_wfD(3) [OF wf, of "worker_rank s"] by auto
  then obtain f where f: "\<And>s. s \<in> set ?eps \<Longrightarrow> worker_at reg (worker_rank s) = Some (f s)" by metis
  define mk where "mk s = \<lparr>endpoint_rank = worker_rank s, update_ranks = weight_update_ranks s,
      target_engine_ranks = inference_engine_ranks s, target_server_url = url (f s),
      target_lifecycle_state = lifecycle_state (f s)\<rparr>" for s
  have targets: "rmap (weight_update_target_of reg) ?eps = Inr (map mk ?eps)"
    by (rule rmap_total) (simp add: weight_update_target_of_def f mk_def)
  define ts where "ts = sort_key endpoint_rank (map mk ?eps)"
  have set_ts: "set ts = mk ` set ?eps" by (simp add: ts_def)
  have eps_ranks: "set (map endpoint_rank ts) = worker_rank ` set ?eps"
    unfolding set_map set_ts image_image by (simp add: mk_def)
  have registered: "worker_at reg r \<noteq> None" if "r \<in> set (map endpoint_rank ts)" for r
    using that f by (auto simp: set_ts mk_def)
  obtain gs0 where gs0: "rmap (lifecycle_group_for_server_rank ?t) (map endpoint_rank ts) = Inr gs0"
    "set gs0 = {g \<in> reg_groups reg. set g \<inter> set (map endpoint_rank ts) \<noteq> {}}"
    using rmap_lookup_ranks [OF wf registered] by blast
  define gs where "gs = dedup [] gs0"
  have every: "set g \<inter> set (map endpoint_rank ts) \<noteq> {}" if "g \<in> reg_groups reg" for g
    using group_has_endpoint [OF b that] unfolding eps_ranks by blast
  have gs: "set gs = reg_groups reg" "distinct gs"
    using gs0(2) every by (auto simp: gs_def dedup_set dedup_distinct)
  have result: "weight_update_targets reg = Inr (ts, gs)"
    using gs0(1) by (simp add: weight_update_targets_def targets Let_def ts_def [symmetric] gs_def [symmetric] rmap_map)
  have once: "length (filter (\<lambda>x. r \<in> set (update_ranks x)) ts) = 1"
    if "r \<in> set (concat (map engine_ranks (engines ?t)))" for r
  proof -
    have "length (filter (\<lambda>x. r \<in> set (update_ranks x)) ts) = length (filter (\<lambda>s. r \<in> set (weight_update_ranks s)) ?eps)"
      unfolding ts_def length_filter_sort by (simp add: filter_map comp_def mk_def)
    then show ?thesis using update_rank_once [OF b that] by (simp add: update_rank_endpoints)
  qed
  have states: "\<exists>g \<in> set gs. endpoint_rank x \<in> set g \<and> group_state reg g = Some (target_lifecycle_state x)" if "x \<in> set ts" for x
  proof -
    from that obtain s where s: "s \<in> set ?eps" "x = mk s" by (auto simp: set_ts)
    from in_groups [OF s(1)] obtain g where g: "g \<in> reg_groups reg" "worker_rank s \<in> set g" by (auto simp: server_ranks_of_def)
    from group_state_member [OF ok g f [OF s(1)]] show ?thesis using g s gs by (auto simp: mk_def)
  qed
  have "\<exists>x \<in> set ts. endpoint_rank x \<in> set g" if "g \<in> set gs" for g
    using every [of g] that gs(1) by auto
  then show ?thesis using result once states gs by (intro exI [of _ ts] exI [of _ gs]) (simp add: ts_def)
qed

text \<open>
  On a well-formed registry \<open>weight_update_targets\<close> succeeds; the targets are sorted by endpoint
  rank, every rollout rank of every engine is updated by exactly one target, every target
  carries the state of its lifecycle group, and the returned groups are all lifecycle groups.
\<close>

theorem weight_update_targets_cover:
  assumes "registry_ok reg"
  shows "\<exists>targets gs. weight_update_targets reg = Inr (targets, gs) \<and> sorted (map endpoint_rank targets) \<and>
    (\<forall>r \<in> set (concat (map engine_ranks (engines (rollout_topology reg)))).
       length (filter (\<lambda>x. r \<in> set (update_ranks x)) targets) = 1) \<and>
    (\<forall>x \<in> set targets. \<exists>g \<in> set gs. endpoint_rank x \<in> set g \<and> group_state reg g = Some (target_lifecycle_state x)) \<and>
    set gs = reg_groups reg \<and> distinct gs"
  using weight_update_targets_ok [OF assms] by blast

subsection \<open>A concrete registry\<close>

definition example_registry :: "nat registry" where
  "example_registry =
    (case make_topology example_engines of Inl _ \<Rightarrow> new_registry \<lparr>engines = [], server_process_by_rank = [], lifecycle_group_by_rank = []\<rparr>
     | Inr t \<Rightarrow> (case register_started_servers [\<lparr>init_rank = 0, server_url = ''u0'', init_session_url = None\<rparr>,
           \<lparr>init_rank = 2, server_url = ''u2'', init_session_url = None\<rparr>] [100, 101, 102, 103] ACTIVE (new_registry t) of
         Inl _ \<Rightarrow> new_registry t | Inr reg \<Rightarrow> reg))"

lemma example_registry_ok: "registry_ok example_registry" "lifecycle_groups (rollout_topology example_registry) = [[0, 2]]"
proof -
  have "case make_topology example_engines of Inl _ \<Rightarrow> False | Inr t \<Rightarrow> lifecycle_groups t = [[0, 2]]" by code_simp
  then obtain t where t: "make_topology example_engines = Inr t" "lifecycle_groups t = [[0, 2]]"
    by (auto split: sum.splits)
  let ?is = "[\<lparr>init_rank = 0, server_url = ''u0'', init_session_url = None\<rparr>, \<lparr>init_rank = 2, server_url = ''u2'', init_session_url = None\<rparr>]"
  have "built t" using make_topology_built [OF t(1)] by simp
  moreover have "init_rank ` set ?is = server_ranks_of t" by (simp add: server_ranks_of_def t(2))
  ultimately have "\<exists>reg. register_started_servers ?is [100, 101, 102, 103 :: nat] ACTIVE (new_registry t) = Inr reg \<and>
      rollout_topology reg = t \<and> registry_ok reg \<and>
      group_state reg = (\<lambda>g. if g \<in> set (lifecycle_groups t) then Some ACTIVE else None)"
    by (rule register_ok) auto
  then obtain reg where reg: "register_started_servers ?is [100, 101, 102, 103 :: nat] ACTIVE (new_registry t) = Inr reg"
    "rollout_topology reg = t" "registry_ok reg" by blast
  have "example_registry = reg" unfolding example_registry_def t(1) sum.case reg(1) ..
  then show "registry_ok example_registry" "lifecycle_groups (rollout_topology example_registry) = [[0, 2]]"
    using reg(2,3) t(2) by simp_all
qed

theorem registry_refines_groups_witness:
  "case mark_unhealthy_ranks [2] example_registry of Inl _ \<Rightarrow> False
   | Inr (reg', marked) \<Rightarrow> group_state reg' [0, 2] = abs_mark [2] (group_state example_registry) [0, 2]"
  using registry_refines_groups [OF example_registry_ok(1), of "[]" "registry_group example_registry [0, 2]" "[2]"]
  by (auto simp: example_registry_ok(2) split: sum.splits)

theorem weight_update_targets_cover_witness:
  "\<exists>targets gs. weight_update_targets example_registry = Inr (targets, gs) \<and> set gs = {[0, 2]}"
  using weight_update_targets_cover [OF example_registry_ok(1)] by (auto simp: example_registry_ok(2))

end
