(* ===== verification/Health.thy ===== *)
theory Health
  imports Registry
begin

text \<open>
  Health checks and recovery of the rollout workers (\<open>rl/rollout/health_manager.py\<close>), up to the
  threads: the failure tracker, the restart of one lifecycle group over arbitrary worker
  behaviour, and the bookkeeping of a recovery in the registry. The threads and their locks
  are the subject of the theory \<open>HealthThreads\<close>.

  Calls to the worker actors cross a process boundary. The model is a \<open>world\<close>: a function from
  the whole history of calls, the current one included, to the reply of the current call. A
  reply is a boolean or an exception (a timeout is one). The read of the stop event, which
  another thread may set at any time, is a call of the same kind.
\<close>

section \<open>The failure tracker\<close>

record failure_tracker =
  threshold :: int
  failure_counts :: "(int \<times> int) list"

definition tracker_clear :: "int list \<Rightarrow> failure_tracker \<Rightarrow> failure_tracker" where
  "tracker_clear ranks tr = tr\<lparr>failure_counts := fold AList.delete ranks (failure_counts tr)\<rparr>"

definition failure_count :: "failure_tracker \<Rightarrow> int \<Rightarrow> int" where
  "failure_count tr r = (case map_of (failure_counts tr) r of None \<Rightarrow> 0 | Some n \<Rightarrow> n)"

definition record_failure :: "int \<Rightarrow> failure_tracker \<Rightarrow> int \<times> failure_tracker" where
  "record_failure r tr =
    (let n = failure_count tr r + 1 in (n, tr\<lparr>failure_counts := AList.update r n (failure_counts tr)\<rparr>))"

fun update_failed_ranks :: "(int \<times> bool) list \<Rightarrow> failure_tracker \<Rightarrow> int list \<times> failure_tracker" where
  "update_failed_ranks [] tr = ([], tr)"
| "update_failed_ranks ((r, is_healthy) # results) tr =
    (if is_healthy then
       update_failed_ranks results (tr\<lparr>failure_counts := AList.delete r (failure_counts tr)\<rparr>)
     else
       (case record_failure r tr of
          (n, tr') \<Rightarrow>
            (case update_failed_ranks results tr' of
               (failed, tr'') \<Rightarrow> (if n \<ge> threshold tr then r # failed else failed, tr''))))"

section \<open>Remote calls\<close>

datatype remote_call =
    Shutdown int
  | CheckHealth int
  | SetSkipLoadWeights int
  | Reinit int
  | Offload int
  | RestoreSkipLoadWeights int
  | ReadStopEvent

datatype reply = Reply bool | Raised

type_synonym world = "remote_call list \<Rightarrow> reply"

definition remote :: "world \<Rightarrow> remote_call \<Rightarrow> remote_call list \<Rightarrow> reply \<times> remote_call list" where
  "remote w c h = (w (h @ [c]), h @ [c])"

text \<open>
  \<open>ray.get([worker.actor.f.remote() for worker in workers])\<close>: every call is issued, and the
  whole raises when one of them does.
\<close>

fun remote_all :: "world \<Rightarrow> remote_call list \<Rightarrow> remote_call list \<Rightarrow> bool \<times> remote_call list" where
  "remote_all w [] h = (True, h)"
| "remote_all w (c # cs) h =
    (case remote w c h of (rep, h') \<Rightarrow>
      (case remote_all w cs h' of (ok, h'') \<Rightarrow> (rep \<noteq> Raised \<and> ok, h'')))"

definition stopping :: "world \<Rightarrow> remote_call list \<Rightarrow> bool \<times> remote_call list" where
  "stopping w h = (case remote w ReadStopEvent h of (rep, h') \<Rightarrow> (rep = Reply True, h'))"

section \<open>Shutting a group down\<close>

definition SHUTDOWN_SERVER_DOWN_MAX_ATTEMPTS :: nat where
  "SHUTDOWN_SERVER_DOWN_MAX_ATTEMPTS = 60"

fun wait_worker_server_down :: "world \<Rightarrow> int \<Rightarrow> nat \<Rightarrow> remote_call list \<Rightarrow> bool \<times> remote_call list" where
  "wait_worker_server_down w r 0 h = (False, h)"
| "wait_worker_server_down w r (Suc n) h =
    (case remote w (CheckHealth r) h of (rep, h') \<Rightarrow>
      (if rep = Reply True then wait_worker_server_down w r n h' else (True, h')))"

fun shutdown_workers :: "world \<Rightarrow> bool \<Rightarrow> 'a WorkerSnapshot list \<Rightarrow> bool \<Rightarrow> remote_call list \<Rightarrow> bool \<times> remote_call list" where
  "shutdown_workers w wait_down [] ok h = (ok, h)"
| "shutdown_workers w wait_down (x # xs) ok h =
    (case remote w (Shutdown (snapshot_rank x)) h of (rep, h') \<Rightarrow>
      (if rep = Raised then shutdown_workers w wait_down xs False h'
       else if \<not> wait_down then shutdown_workers w wait_down xs ok h'
       else (case wait_worker_server_down w (snapshot_rank x) SHUTDOWN_SERVER_DOWN_MAX_ATTEMPTS h' of
               (down, h'') \<Rightarrow> shutdown_workers w wait_down xs (if down then ok else False) h'')))"

definition shutdown_worker_group :: "world \<Rightarrow> bool \<Rightarrow> 'a WorkerGroup \<Rightarrow> remote_call list \<Rightarrow> bool \<times> remote_call list" where
  "shutdown_worker_group w wait_down grp h = shutdown_workers w wait_down (group_workers grp) True h"

section \<open>Checking workers\<close>

fun probe_workers :: "world \<Rightarrow> 'a WorkerSnapshot list \<Rightarrow> remote_call list \<Rightarrow> (int \<times> bool) list \<times> remote_call list" where
  "probe_workers w [] h = ([], h)"
| "probe_workers w (x # xs) h =
    (case remote w (CheckHealth (snapshot_rank x)) h of (rep, h') \<Rightarrow>
      (case probe_workers w xs h' of (results, h'') \<Rightarrow> ((snapshot_rank x, rep = Reply True) # results, h'')))"

definition check_workers_health ::
  "world \<Rightarrow> 'a WorkerSnapshot list \<Rightarrow> remote_call list \<Rightarrow> (int \<times> bool) list \<times> remote_call list" where
  "check_workers_health w xs h =
    (case probe_workers w (filter (\<lambda>x. actor x \<noteq> None) xs) h of (results, h') \<Rightarrow>
      (fold (\<lambda>(r, b). AList.update r b)
         (map (\<lambda>x. (snapshot_rank x, False)) (filter (\<lambda>x. actor x = None) xs) @ results) [], h'))"

section \<open>Restarting a group\<close>

datatype restart_result = Restarted | Unhealthy | Interrupted

definition worker_ranks :: "'a WorkerGroup \<Rightarrow> int list" where
  "worker_ranks grp = map snapshot_rank (group_workers grp)"

text \<open>The body of the \<open>with self._skip_load_weights_during_restart(group)\<close> block.\<close>

definition restart_body :: "world \<Rightarrow> 'a WorkerGroup \<Rightarrow> remote_call list \<Rightarrow> restart_result \<times> remote_call list" where
  "restart_body w grp h =
    (let ranks = worker_ranks grp in
     case stopping w h of (stop1, h1) \<Rightarrow> if stop1 then (Interrupted, h1) else
     case remote_all w (map Reinit ranks) h1 of (ok2, h2) \<Rightarrow> if \<not> ok2 then (Interrupted, h2) else
     case stopping w h2 of (stop3, h3) \<Rightarrow> if stop3 then (Interrupted, h3) else
     case check_workers_health w (group_workers grp) h3 of (health, h4) \<Rightarrow>
       if list_ex (\<lambda>r. map_of health r \<noteq> Some True) ranks
       then (Unhealthy, snd (shutdown_worker_group w False grp h4)) else
     case stopping w h4 of (stop5, h5) \<Rightarrow> if stop5 then (Interrupted, h5) else
     case remote_all w (map Offload ranks) h5 of (ok6, h6) \<Rightarrow>
       (if ok6 then Restarted else Interrupted, h6))"

text \<open>The context manager: entering may raise, leaving restores and only logs a failure.\<close>

definition restart_with_skip :: "world \<Rightarrow> 'a WorkerGroup \<Rightarrow> remote_call list \<Rightarrow> restart_result \<times> remote_call list" where
  "restart_with_skip w grp h =
    (let ranks = worker_ranks grp in
     case remote_all w (map SetSkipLoadWeights ranks) h of (ok, h1) \<Rightarrow>
     case (if ok then restart_body w grp h1 else (Interrupted, h1)) of (result, h2) \<Rightarrow>
     case remote_all w (map RestoreSkipLoadWeights ranks) h2 of (_, h3) \<Rightarrow> (result, h3))"

definition restart_worker_group :: "world \<Rightarrow> 'a WorkerGroup \<Rightarrow> remote_call list \<Rightarrow> bool \<times> remote_call list" where
  "restart_worker_group w grp h =
    (if group_workers grp = [] \<or> length (group_workers grp) \<noteq> length (group_ranks grp) then (False, h) else
     case stopping w h of (stop1, h1) \<Rightarrow> if stop1 then (False, h1) else
     case shutdown_worker_group w True grp h1 of (down, h2) \<Rightarrow> if \<not> down then (False, h2) else
     case stopping w h2 of (stop3, h3) \<Rightarrow>
       if stop3 then (False, snd (shutdown_worker_group w False grp h3)) else
     case restart_with_skip w grp h3 of (result, h4) \<Rightarrow>
       (case result of
          Restarted \<Rightarrow> (True, h4)
        | Unhealthy \<Rightarrow> (False, h4)
        | Interrupted \<Rightarrow> (False, snd (shutdown_worker_group w False grp h4))))"

section \<open>The tracker counts consecutive failures\<close>

datatype tracker_event = Checked "(int \<times> bool) list" | Cleared "int list"

fun tracker_step :: "tracker_event \<Rightarrow> failure_tracker \<Rightarrow> failure_tracker" where
  "tracker_step (Checked results) tr = snd (update_failed_ranks results tr)"
| "tracker_step (Cleared ranks) tr = tracker_clear ranks tr"

fun concerns :: "int \<Rightarrow> tracker_event \<Rightarrow> bool" where
  "concerns r (Checked results) = (map_of results r \<noteq> None)"
| "concerns r (Cleared ranks) = (r \<in> set ranks)"

fun is_failure :: "int \<Rightarrow> tracker_event \<Rightarrow> bool" where
  "is_failure r (Checked results) = (map_of results r = Some False)"
| "is_failure r (Cleared ranks) = False"

text \<open>
  The number of failed checks of a rank since its last successful check or the last time it
  was cleared.
\<close>

definition streak :: "int \<Rightarrow> tracker_event list \<Rightarrow> nat" where
  "streak r evs = length (takeWhile (is_failure r) (rev (filter (concerns r) evs)))"

lemma streak_Nil [simp]: "streak r [] = 0"
  by (simp add: streak_def)

lemma streak_snoc: "streak r (evs @ [e]) =
    (if concerns r e then (if is_failure r e then Suc (streak r evs) else 0) else streak r evs)"
  by (simp add: streak_def)

lemma map_of_delete: "map_of (AList.delete k d) r = (if r = k then None else map_of d r)"
  by (simp add: AList.delete_conv')

lemma map_of_fold_delete: "map_of (fold AList.delete ks d) r = (if r \<in> set ks then None else map_of d r)"
  by (induction ks arbitrary: d) (auto simp: map_of_delete)

lemma failure_count_simps [simp]:
  "failure_count (tracker_clear ranks tr) r = (if r \<in> set ranks then 0 else failure_count tr r)"
  "failure_count (snd (record_failure k tr)) r = (if r = k then failure_count tr r + 1 else failure_count tr r)"
  "fst (record_failure k tr) = failure_count tr k + 1"
  "threshold (snd (record_failure k tr)) = threshold tr"
  by (auto simp: failure_count_def tracker_clear_def record_failure_def Let_def map_of_fold_delete AList.update_conv')

lemma failure_count_pop [simp]:
  "failure_count (tr\<lparr>failure_counts := AList.delete k (failure_counts tr)\<rparr>) r = (if r = k then 0 else failure_count tr r)"
  by (simp add: failure_count_def map_of_delete)

lemma update_failed_count:
  "distinct (map fst results) \<Longrightarrow>
    failure_count (snd (update_failed_ranks results tr)) r =
      (case map_of results r of None \<Rightarrow> failure_count tr r | Some True \<Rightarrow> 0 | Some False \<Rightarrow> failure_count tr r + 1) \<and>
    threshold (snd (update_failed_ranks results tr)) = threshold tr"
proof (induction results tr rule: update_failed_ranks.induct)
  case (2 k healthy results tr)
  have None: "map_of results k = None" using 2(3) by (simp add: map_of_eq_None_iff)
  show ?case
  proof (cases healthy)
    case True
    with 2 show ?thesis using None by (auto split: option.split bool.split)
  next
    case False
    obtain n tr' where rf: "record_failure k tr = (n, tr')" by (cases "record_failure k tr")
    have "failure_count tr' r = (if r = k then failure_count tr r + 1 else failure_count tr r)" "threshold tr' = threshold tr"
      using failure_count_simps(2) [of k tr r] failure_count_simps(4) [of k tr] by (simp_all add: rf)
    with 2(2) [OF False rf [symmetric]] 2(3) False rf None show ?thesis
      by (auto split: prod.split option.split bool.split)
  qed
qed simp

lemma update_failed_members:
  "distinct (map fst results) \<Longrightarrow>
    set (fst (update_failed_ranks results tr)) =
      {r. map_of results r = Some False \<and> failure_count tr r + 1 \<ge> threshold tr}"
proof (induction results tr rule: update_failed_ranks.induct)
  case (2 k healthy results tr)
  have None: "map_of results k = None" using 2(3) by (simp add: map_of_eq_None_iff)
  show ?case
  proof (cases healthy)
    case True
    with 2 show ?thesis using None by auto
  next
    case False
    obtain n tr' where rf: "record_failure k tr = (n, tr')" by (cases "record_failure k tr")
    obtain failed tr'' where rest: "update_failed_ranks results tr' = (failed, tr'')" by (cases "update_failed_ranks results tr'")
    have tr': "failure_count tr' r = (if r = k then failure_count tr r + 1 else failure_count tr r)" "threshold tr' = threshold tr"
      "n = failure_count tr k + 1" for r
      using failure_count_simps(2) [of k tr r] failure_count_simps(3,4) [of k tr] by (simp_all add: rf)
    have "set failed = {r. map_of results r = Some False \<and> failure_count tr' r + 1 \<ge> threshold tr}"
      using 2(2) [OF False rf [symmetric]] 2(3) by (simp add: rest tr')
    also have "\<dots> = {r. map_of results r = Some False \<and> failure_count tr r + 1 \<ge> threshold tr}"
      using None by (auto simp: tr')
    finally show ?thesis using False None by (auto simp: rf rest tr' split: if_splits)
  qed
qed simp

lemma tracker_streak:
  assumes "\<forall>results. Checked results \<in> set evs \<longrightarrow> distinct (map fst results)"
  shows "failure_count (fold tracker_step evs \<lparr>threshold = n, failure_counts = []\<rparr>) r = int (streak r evs) \<and>
    threshold (fold tracker_step evs \<lparr>threshold = n, failure_counts = []\<rparr>) = n"
  using assms
proof (induction evs rule: rev_induct)
  case Nil
  show ?case by (simp add: failure_count_def)
next
  case (snoc e evs)
  then have IH: "failure_count (fold tracker_step evs \<lparr>threshold = n, failure_counts = []\<rparr>) r = int (streak r evs)"
    "threshold (fold tracker_step evs \<lparr>threshold = n, failure_counts = []\<rparr>) = n" by auto
  show ?case
  proof (cases e)
    case (Checked results)
    then have d: "distinct (map fst results)" using snoc.prems by simp
    show ?thesis using update_failed_count [OF d, of "fold tracker_step evs \<lparr>threshold = n, failure_counts = []\<rparr>" r] IH
      by (auto simp: Checked streak_snoc split: option.splits bool.splits)
  next
    case (Cleared ranks)
    then show ?thesis using IH by (simp add: streak_snoc) (simp add: tracker_clear_def)
  qed
qed

text \<open>
  A round of health checks reports exactly the ranks that failed it and whose consecutive
  failures, this one included, have reached the threshold; a successful check or a recovery
  starts the count again, and rounds that do not check a rank leave its count alone.
\<close>

theorem failed_ranks_exact:
  assumes "\<forall>res. Checked res \<in> set (evs @ [Checked results]) \<longrightarrow> distinct (map fst res)"
  shows "set (fst (update_failed_ranks results (fold tracker_step evs \<lparr>threshold = n, failure_counts = []\<rparr>))) =
    {r. is_failure r (Checked results) \<and> int (streak r (evs @ [Checked results])) \<ge> n}"
proof -
  have d: "distinct (map fst results)" and evs: "\<forall>res. Checked res \<in> set evs \<longrightarrow> distinct (map fst res)"
    using assms by auto
  show ?thesis unfolding update_failed_members [OF d]
    using tracker_streak [OF evs, of n] by (auto simp: streak_snoc)
qed

theorem failed_ranks_exact_witness:
  "set (fst (update_failed_ranks [(3, False), (4, False)]
     (fold tracker_step [Checked [(3, False), (4, True)], Checked [(4, False)], Cleared [5]] \<lparr>threshold = 2, failure_counts = []\<rparr>))) = {3, 4}"
proof -
  have "set (fst (update_failed_ranks [(3, False), (4, False)]
     (fold tracker_step [Checked [(3, False), (4, True)], Checked [(4, False)], Cleared [5]] \<lparr>threshold = 2, failure_counts = []\<rparr>))) =
    {r. is_failure r (Checked [(3, False), (4, False)]) \<and>
      int (streak r ([Checked [(3, False), (4, True)], Checked [(4, False)], Cleared [5]] @ [Checked [(3, False), (4, False)]])) \<ge> 2}"
    by (rule failed_ranks_exact) auto
  also have "\<dots> = {3, 4}" by (auto simp: streak_def)
  finally show ?thesis .
qed

section \<open>What a restart of a group guarantees\<close>

text \<open>
  \<open>answered w h tr c rep\<close>: in the calls \<open>tr\<close> issued after the history \<open>h\<close>, the call \<open>c\<close> occurs
  and was answered \<open>rep\<close>, after the calls \<open>before\<close>.
\<close>

definition answered :: "world \<Rightarrow> remote_call list \<Rightarrow> remote_call list \<Rightarrow> remote_call list \<Rightarrow> remote_call \<Rightarrow> (reply \<Rightarrow> bool) \<Rightarrow> bool" where
  "answered w h tr before c P = (\<exists>q. tr = before @ c # q \<and> P (w (h @ before @ [c])))"

lemma answered_append: "answered w h tr b c P \<Longrightarrow> answered w h (tr @ tr') b c P"
  by (auto simp: answered_def)

lemma answered_prefix: "answered w (h @ p) tr b c P \<Longrightarrow> answered w h (p @ tr) (p @ b) c P"
  by (auto simp: answered_def)

lemma remote_all_history: "snd (remote_all w cs h) = h @ cs"
  by (induction cs arbitrary: h) (auto simp: remote_def split: prod.split, metis prod.collapse snd_conv append_Cons append_assoc append_Nil)

lemma remote_all_ok:
  "fst (remote_all w cs h) \<Longrightarrow> c \<in> set cs \<Longrightarrow> \<exists>b. answered w h cs b c (\<lambda>rep. rep \<noteq> Raised)"
proof (induction cs arbitrary: h)
  case (Cons x cs)
  then have ok: "w (h @ [x]) \<noteq> Raised" "fst (remote_all w cs (h @ [x]))"
    by (auto simp: remote_def split: prod.splits)
  show ?case
  proof (cases "c = x")
    case True
    then show ?thesis using ok(1) by (intro exI [of _ "[]"]) (simp add: answered_def)
  next
    case False
    with Cons ok obtain b where "answered w (h @ [x]) cs b c (\<lambda>rep. rep \<noteq> Raised)" by auto
    from answered_prefix [OF this] show ?thesis by auto
  qed
qed simp

lemma wait_down_history: "\<exists>k \<le> n. snd (wait_worker_server_down w r n h) = h @ replicate k (CheckHealth r)"
proof (induction n arbitrary: h)
  case (Suc n)
  show ?case
  proof (cases "w (h @ [CheckHealth r]) = Reply True")
    case True
    obtain k where "k \<le> n" "snd (wait_worker_server_down w r n (h @ [CheckHealth r])) = (h @ [CheckHealth r]) @ replicate k (CheckHealth r)"
      using Suc.IH by blast
    with True show ?thesis by (intro exI [of _ "Suc k"]) (simp add: remote_def)
  next
    case False
    then show ?thesis by (intro exI [of _ 1]) (simp add: remote_def)
  qed
qed simp

lemma wait_down_true:
  "fst (wait_worker_server_down w r n h) \<Longrightarrow>
    \<exists>tr b. snd (wait_worker_server_down w r n h) = h @ tr \<and> answered w h tr b (CheckHealth r) (\<lambda>rep. rep \<noteq> Reply True)"
proof (induction n arbitrary: h)
  case (Suc n)
  show ?case
  proof (cases "w (h @ [CheckHealth r]) = Reply True")
    case True
    with Suc.prems have "fst (wait_worker_server_down w r n (h @ [CheckHealth r]))" by (simp add: remote_def)
    from Suc.IH [OF this] obtain tr b where
      "snd (wait_worker_server_down w r n (h @ [CheckHealth r])) = (h @ [CheckHealth r]) @ tr"
      "answered w (h @ [CheckHealth r]) tr b (CheckHealth r) (\<lambda>rep. rep \<noteq> Reply True)" by auto
    with True answered_prefix [OF this(2)] show ?thesis
      by (intro exI [of _ "CheckHealth r # tr"] exI [of _ "CheckHealth r # b"]) (simp add: remote_def)
  next
    case False
    then show ?thesis by (intro exI [of _ "[CheckHealth r]"] exI [of _ "[]"]) (simp add: remote_def answered_def)
  qed
qed simp

fun shutdown_call :: "remote_call \<Rightarrow> bool" where
  "shutdown_call (Shutdown r) = True"
| "shutdown_call (CheckHealth r) = True"
| "shutdown_call _ = False"

lemma shutdown_history:
  "\<exists>tr. snd (shutdown_workers w wd xs ok h) = h @ tr \<and> list_all shutdown_call tr \<and>
    Shutdown ` snapshot_rank ` set xs \<subseteq> set tr"
proof (induction w wd xs ok h rule: shutdown_workers.induct)
  case (2 w wd x xs ok h)
  let ?h = "h @ [Shutdown (snapshot_rank x)]"
  have step: "\<exists>tr. snd (shutdown_workers w wd xs ok' (?h @ us)) = h @ tr \<and> list_all shutdown_call tr \<and>
      Shutdown ` snapshot_rank ` set (x # xs) \<subseteq> set tr"
    if "\<exists>tr. snd (shutdown_workers w wd xs ok' (?h @ us)) = (?h @ us) @ tr \<and> list_all shutdown_call tr \<and>
      Shutdown ` snapshot_rank ` set xs \<subseteq> set tr" "list_all shutdown_call us" for ok' us
  proof -
    from that obtain tr where tr: "snd (shutdown_workers w wd xs ok' (?h @ us)) = (?h @ us) @ tr"
      "list_all shutdown_call tr" "Shutdown ` snapshot_rank ` set xs \<subseteq> set tr" by blast
    then show ?thesis using that(2) by (intro exI [of _ "Shutdown (snapshot_rank x) # us @ tr"]) auto
  qed
  obtain k where k: "snd (wait_worker_server_down w (snapshot_rank x) SHUTDOWN_SERVER_DOWN_MAX_ATTEMPTS ?h) =
      ?h @ replicate k (CheckHealth (snapshot_rank x))" using wait_down_history by blast
  have rep: "list_all shutdown_call (replicate k (CheckHealth (snapshot_rank x)))" by (simp add: list_all_iff)
  consider "w ?h = Raised" | "w ?h \<noteq> Raised" "\<not> wd" | "w ?h \<noteq> Raised" "wd" by blast
  then show ?case
  proof cases
    case 1
    with 2(1) step [of False "[]"] show ?thesis by (simp add: remote_def)
  next
    case 2
    with "2.IH"(2) step [of ok "[]"] show ?thesis by (simp add: remote_def)
  next
    case 3
    obtain down h'' where d: "wait_worker_server_down w (snapshot_rank x) SHUTDOWN_SERVER_DOWN_MAX_ATTEMPTS ?h = (down, h'')"
      by fastforce
    with k have h'': "h'' = ?h @ replicate k (CheckHealth (snapshot_rank x))" by simp
    have IH: "\<exists>tr. snd (shutdown_workers w wd xs (if down then ok else False) h'') = h'' @ tr \<and> list_all shutdown_call tr \<and>
        Shutdown ` snapshot_rank ` set xs \<subseteq> set tr"
      using "2.IH"(3) 3 d by (simp add: remote_def)
    from step [OF IH [unfolded h''] rep] show ?thesis using 3 d by (simp add: remote_def h'')
  qed
qed simp

lemma shutdown_not_ok: "\<not> fst (shutdown_workers w wd xs False h)"
  by (induction w wd xs "False" h rule: shutdown_workers.induct) (auto split: prod.split)

text \<open>A successful shutdown has seen every server stop answering its health check.\<close>

lemma shutdown_down:
  "fst (shutdown_workers w True xs True h) \<Longrightarrow>
    \<exists>tr. snd (shutdown_workers w True xs True h) = h @ tr \<and>
      (\<forall>x \<in> set xs. \<exists>b. answered w h tr b (CheckHealth (snapshot_rank x)) (\<lambda>rep. rep \<noteq> Reply True))"
proof (induction xs arbitrary: h)
  case (Cons x xs)
  let ?r = "snapshot_rank x" and ?h = "h @ [Shutdown (snapshot_rank x)]"
  obtain down h'' where d: "wait_worker_server_down w ?r SHUTDOWN_SERVER_DOWN_MAX_ATTEMPTS ?h = (down, h'')" by fastforce
  have ok: "w ?h \<noteq> Raised" "down" "fst (shutdown_workers w True xs True h'')"
    using Cons.prems shutdown_not_ok [of w True xs] d by (auto simp: remote_def split: if_splits)
  obtain tr b where tr: "h'' = ?h @ tr" "answered w ?h tr b (CheckHealth ?r) (\<lambda>rep. rep \<noteq> Reply True)"
    using wait_down_true [of w ?r SHUTDOWN_SERVER_DOWN_MAX_ATTEMPTS ?h] d ok(2) by auto
  obtain tr' where tr': "snd (shutdown_workers w True xs True h'') = h'' @ tr'"
    "\<forall>x \<in> set xs. \<exists>b. answered w h'' tr' b (CheckHealth (snapshot_rank x)) (\<lambda>rep. rep \<noteq> Reply True)"
    using Cons.IH [OF ok(3)] by blast
  let ?tr = "Shutdown ?r # tr @ tr'"
  have "\<exists>b. answered w h ?tr b (CheckHealth ?r) (\<lambda>rep. rep \<noteq> Reply True)"
    using answered_prefix [OF answered_append [OF tr(2)], of tr'] by auto
  moreover have "\<exists>b. answered w h ?tr b (CheckHealth (snapshot_rank y)) (\<lambda>rep. rep \<noteq> Reply True)" if "y \<in> set xs" for y
  proof -
    have "\<exists>b'. answered w (h @ (Shutdown ?r # tr)) tr' b' (CheckHealth (snapshot_rank y)) (\<lambda>rep. rep \<noteq> Reply True)"
      using bspec [OF tr'(2) that] by (simp add: tr(1))
    then obtain b' where "answered w (h @ (Shutdown ?r # tr)) tr' b' (CheckHealth (snapshot_rank y)) (\<lambda>rep. rep \<noteq> Reply True)" ..
    from answered_prefix [OF this] show ?thesis by auto
  qed
  ultimately have "\<forall>y \<in> set (x # xs). \<exists>b. answered w h ?tr b (CheckHealth (snapshot_rank y)) (\<lambda>rep. rep \<noteq> Reply True)" by auto
  moreover have "snd (shutdown_workers w True (x # xs) True h) = h @ ?tr"
    using ok d tr(1) tr'(1) by (simp add: remote_def)
  ultimately show ?case by blast
qed simp

lemma probe_history: "snd (probe_workers w xs h) = h @ map (\<lambda>x. CheckHealth (snapshot_rank x)) xs"
proof (induction xs arbitrary: h)
  case (Cons x xs)
  from Cons [of "h @ [CheckHealth (snapshot_rank x)]"] show ?case
    by (auto simp: remote_def split: prod.split)
qed simp

lemma probe_true:
  "(r, True) \<in> set (fst (probe_workers w xs h)) \<Longrightarrow>
    \<exists>b. answered w h (map (\<lambda>x. CheckHealth (snapshot_rank x)) xs) b (CheckHealth r) (\<lambda>rep. rep = Reply True)"
proof (induction xs arbitrary: h)
  case (Cons x xs)
  let ?c = "CheckHealth (snapshot_rank x)"
  from Cons.prems consider "r = snapshot_rank x" "w (h @ [?c]) = Reply True" | "(r, True) \<in> set (fst (probe_workers w xs (h @ [?c])))"
    by (auto simp: remote_def split: prod.splits)
  then show ?case
  proof cases
    case 1
    then show ?thesis by (intro exI [of _ "[]"]) (simp add: answered_def)
  next
    case 2
    from Cons.IH [OF this] obtain b where
      "answered w (h @ [?c]) (map (\<lambda>x. CheckHealth (snapshot_rank x)) xs) b (CheckHealth r) (\<lambda>rep. rep = Reply True)" ..
    from answered_prefix [OF this] show ?thesis by auto
  qed
qed simp

lemma fold_update_pairs:
  "map_of (fold (\<lambda>(r, b). AList.update r b) kvs d) r = Some v \<Longrightarrow> (r, v) \<in> set kvs \<or> map_of d r = Some v"
proof (induction kvs arbitrary: d)
  case (Cons kv kvs)
  obtain k b where kv: "kv = (k, b)" by (cases kv)
  have "(r, v) \<in> set kvs \<or> map_of (AList.update k b d) r = Some v"
    by (rule Cons.IH) (use Cons.prems in \<open>simp add: kv\<close>)
  then show ?case by (auto simp: kv AList.update_conv' split: if_splits)
qed simp

lemma check_health_history:
  "snd (check_workers_health w xs h) = h @ map (\<lambda>x. CheckHealth (snapshot_rank x)) (filter (\<lambda>x. actor x \<noteq> None) xs)"
  unfolding check_workers_health_def using probe_history [of w "filter (\<lambda>x. actor x \<noteq> None) xs" h]
  by (simp add: case_prod_beta)

lemma check_health_true:
  assumes "map_of (fst (check_workers_health w xs h)) r = Some True"
  shows "\<exists>b. answered w h (map (\<lambda>x. CheckHealth (snapshot_rank x)) (filter (\<lambda>x. actor x \<noteq> None) xs)) b
    (CheckHealth r) (\<lambda>rep. rep = Reply True)"
proof -
  obtain results h' where p: "probe_workers w (filter (\<lambda>x. actor x \<noteq> None) xs) h = (results, h')" by fastforce
  have "(r, True) \<in> set (map (\<lambda>x. (snapshot_rank x, False)) (filter (\<lambda>x. actor x = None) xs) @ results)"
    using fold_update_pairs [OF assms [unfolded check_workers_health_def p prod.case fst_conv]] by simp
  then have "(r, True) \<in> set results" by auto
  then show ?thesis using probe_true [of r w "filter (\<lambda>x. actor x \<noteq> None) xs" h, unfolded p fst_conv] by blast
qed

text \<open>The phase of a successful restart after the servers are down and started again.\<close>

definition came_up :: "world \<Rightarrow> remote_call list \<Rightarrow> remote_call list \<Rightarrow> int \<Rightarrow> bool" where
  "came_up w h up r =
    ((\<exists>b. answered w h up b (CheckHealth r) (\<lambda>rep. rep = Reply True)) \<and>
     (\<exists>b. answered w h up b (Offload r) (\<lambda>rep. rep \<noteq> Raised)))"

fun is_skip_call :: "remote_call \<Rightarrow> bool" where
  "is_skip_call (SetSkipLoadWeights r) = True"
| "is_skip_call (RestoreSkipLoadWeights r) = True"
| "is_skip_call _ = False"

abbreviation no_skip :: "remote_call list \<Rightarrow> bool" where
  "no_skip tr \<equiv> list_all (\<lambda>c. \<not> is_skip_call c) tr"

abbreviation no_reinit :: "remote_call list \<Rightarrow> bool" where
  "no_reinit tr \<equiv> list_all (\<lambda>c. \<forall>r. c \<noteq> Reinit r) tr"

abbreviation no_shutdown :: "remote_call list \<Rightarrow> bool" where
  "no_shutdown tr \<equiv> list_all (\<lambda>c. \<forall>r. c \<noteq> Shutdown r) tr"

lemma stopping_eq: "stopping w h = (w (h @ [ReadStopEvent]) = Reply True, h @ [ReadStopEvent])"
  by (simp add: stopping_def remote_def)

lemma shutdown_call_no: "list_all shutdown_call tr \<Longrightarrow> no_skip tr \<and> no_reinit tr"
proof (induction tr)
  case (Cons c tr)
  then show ?case by (cases c) auto
qed simp

lemma shutdown_group_history:
  "\<exists>tr. snd (shutdown_worker_group w wd grp h) = h @ tr \<and> no_skip tr \<and> no_reinit tr \<and>
    (\<forall>r \<in> set (worker_ranks grp). Shutdown r \<in> set tr)"
  unfolding shutdown_worker_group_def
  using shutdown_history [of w wd "group_workers grp" True h] shutdown_call_no unfolding worker_ranks_def set_map by fast

definition body_trace :: "'a WorkerGroup \<Rightarrow> restart_result \<Rightarrow> world \<Rightarrow> remote_call list \<Rightarrow> remote_call list \<Rightarrow> bool" where
  "body_trace grp result w h tr =
    (no_skip tr \<and>
     (result = Restarted \<longrightarrow>
       (\<exists>up. tr = ReadStopEvent # map Reinit (worker_ranks grp) @ up \<and> no_shutdown up \<and>
         (\<forall>r \<in> set (worker_ranks grp).
            (\<exists>b. answered w (h @ [ReadStopEvent]) (map Reinit (worker_ranks grp)) b (Reinit r) (\<lambda>rep. rep \<noteq> Raised)) \<and>
            came_up w (h @ ReadStopEvent # map Reinit (worker_ranks grp)) up r))) \<and>
     (result = Unhealthy \<longrightarrow>
       (\<exists>p q. tr = p @ q \<and> no_reinit q \<and> (\<forall>r \<in> set (worker_ranks grp). Shutdown r \<in> set q))))"

lemma no_skip_simps [simp]: "no_skip (map Reinit rs)" "no_skip (map Offload rs)" "no_skip (map (\<lambda>x. CheckHealth (f x)) xs)"
  "no_shutdown (map Offload rs)" "no_shutdown (map (\<lambda>x. CheckHealth (f x)) xs)"
  by (simp_all add: list_all_iff)

lemma restart_body_trace:
  "\<exists>result tr. restart_body w grp h = (result, h @ tr) \<and> body_trace grp result w h tr"
proof -
  let ?ws = "group_workers grp" and ?rs = "worker_ranks grp"
  define h1 where "h1 = h @ [ReadStopEvent]"
  define h2 where "h2 = h1 @ map Reinit ?rs"
  define h3 where "h3 = h2 @ [ReadStopEvent]"
  define probes where "probes = map (\<lambda>x. CheckHealth (snapshot_rank x)) (filter (\<lambda>x. actor x \<noteq> None) ?ws)"
  define h4 where "h4 = h3 @ probes"
  define h5 where "h5 = h4 @ [ReadStopEvent]"
  obtain ok2 where r2: "remote_all w (map Reinit ?rs) h1 = (ok2, h2)"
    using remote_all_history [of w "map Reinit ?rs" h1] by (metis h2_def prod.collapse)
  obtain health where hc: "check_workers_health w ?ws h3 = (health, h4)"
    using check_health_history [of w ?ws h3] by (metis h4_def probes_def prod.collapse)
  obtain ok6 where r6: "remote_all w (map Offload ?rs) h5 = (ok6, h5 @ map Offload ?rs)"
    using remote_all_history [of w "map Offload ?rs" h5] by (metis prod.collapse)
  obtain dn where dn: "snd (shutdown_worker_group w False grp h4) = h4 @ dn" "no_skip dn" "no_reinit dn"
    "\<forall>r \<in> set ?rs. Shutdown r \<in> set dn"
    using shutdown_group_history by blast
  have probes: "no_skip probes" "no_shutdown probes" by (simp_all add: probes_def)
  have stops: "stopping w h = (w h1 = Reply True, h1)" "stopping w h2 = (w h3 = Reply True, h3)" "stopping w h4 = (w h5 = Reply True, h5)"
    by (simp_all add: stopping_eq h1_def h3_def h5_def)
  have eq: "restart_body w grp h =
    (if w h1 = Reply True then (Interrupted, h1) else if \<not> ok2 then (Interrupted, h2)
     else if w h3 = Reply True then (Interrupted, h3)
     else if list_ex (\<lambda>r. map_of health r \<noteq> Some True) ?rs then (Unhealthy, h4 @ dn)
     else if w h5 = Reply True then (Interrupted, h5)
     else (if ok6 then Restarted else Interrupted, h5 @ map Offload ?rs))"
    unfolding restart_body_def Let_def stops r2 prod.case hc r6 dn(1) ..
  have interrupted: "body_trace grp Interrupted w h tr" if "no_skip tr" for tr using that by (simp add: body_trace_def)
  have skips: "h1 = h @ [ReadStopEvent]" "h2 = h @ ReadStopEvent # map Reinit ?rs"
    "h3 = h @ ReadStopEvent # map Reinit ?rs @ [ReadStopEvent]"
    "h4 = h @ ReadStopEvent # map Reinit ?rs @ ReadStopEvent # probes"
    "h5 = h @ ReadStopEvent # map Reinit ?rs @ ReadStopEvent # probes @ [ReadStopEvent]"
    unfolding h1_def h2_def h3_def h4_def h5_def by simp_all
  have "body_trace grp Restarted w h (ReadStopEvent # map Reinit ?rs @ ReadStopEvent # probes @ ReadStopEvent # map Offload ?rs)"
    if "ok2" "\<not> list_ex (\<lambda>r. map_of health r \<noteq> Some True) ?rs" "ok6"
  proof -
    let ?up = "ReadStopEvent # probes @ ReadStopEvent # map Offload ?rs"
    have reinit: "\<exists>b. answered w h1 (map Reinit ?rs) b (Reinit r) (\<lambda>rep. rep \<noteq> Raised)" if "r \<in> set ?rs" for r
      by (rule remote_all_ok) (use r2 \<open>ok2\<close> that in auto)
    have up: "came_up w h2 ?up r" if r: "r \<in> set ?rs" for r
    proof -
      have "map_of (fst (check_workers_health w ?ws h3)) r = Some True"
        using \<open>\<not> list_ex _ _\<close> r by (auto simp: list_ex_iff hc)
      from check_health_true [OF this] obtain b where "answered w (h2 @ [ReadStopEvent]) probes b (CheckHealth r) (\<lambda>rep. rep = Reply True)"
        unfolding h3_def probes_def by blast
      from answered_append [OF answered_prefix [OF this], of "ReadStopEvent # map Offload ?rs"]
      have checked: "\<exists>b. answered w h2 ?up b (CheckHealth r) (\<lambda>rep. rep = Reply True)" by auto
      have "\<exists>b. answered w (h2 @ ReadStopEvent # probes @ [ReadStopEvent]) (map Offload ?rs) b (Offload r) (\<lambda>rep. rep \<noteq> Raised)"
        by (rule remote_all_ok) (use r6 \<open>ok6\<close> r in \<open>auto simp: skips\<close>)
      then obtain b where "answered w (h2 @ ReadStopEvent # probes @ [ReadStopEvent]) (map Offload ?rs) b (Offload r) (\<lambda>rep. rep \<noteq> Raised)" ..
      from answered_prefix [OF this] checked show ?thesis unfolding came_up_def by auto
    qed
    show ?thesis unfolding body_trace_def
      using probes reinit up by (auto simp: h1_def skips(2) intro!: exI [of _ ?up])
  qed
  moreover have "body_trace grp Unhealthy w h (ReadStopEvent # map Reinit ?rs @ ReadStopEvent # probes @ dn)"
  proof -
    have "\<exists>p q. (ReadStopEvent # map Reinit ?rs @ ReadStopEvent # probes) @ dn = p @ q \<and> no_reinit q \<and>
        (\<forall>r \<in> set ?rs. Shutdown r \<in> set q)" using dn by blast
    then show ?thesis unfolding body_trace_def using probes dn(2) by simp
  qed
  ultimately show ?thesis unfolding eq
    using probes by (auto simp: skips interrupted)
qed

lemma filter_no_skip [simp]: "no_skip tr \<Longrightarrow> filter is_skip_call tr = []"
  by (simp add: filter_empty_conv list_all_iff)

definition restart_contract :: "world \<Rightarrow> 'a WorkerGroup \<Rightarrow> remote_call list \<Rightarrow> bool \<Rightarrow> remote_call list \<Rightarrow> bool" where
  "restart_contract w grp h ok tr =
    ((if ok then
        (\<exists>down up. tr = down @ map Reinit (worker_ranks grp) @ up \<and> no_reinit down \<and> no_shutdown up \<and>
           length (group_workers grp) = length (group_ranks grp) \<and>
           (\<forall>r \<in> set (worker_ranks grp).
              (\<exists>b. answered w h down b (CheckHealth r) (\<lambda>rep. rep \<noteq> Reply True)) \<and>
              (\<exists>b. answered w (h @ down) (map Reinit (worker_ranks grp)) b (Reinit r) (\<lambda>rep. rep \<noteq> Raised)) \<and>
              came_up w (h @ down @ map Reinit (worker_ranks grp)) up r))
      else
        no_reinit tr \<or>
        (\<exists>p q. tr = p @ q \<and> no_reinit q \<and> (\<forall>r \<in> set (worker_ranks grp). Shutdown r \<in> set q))) \<and>
     filter is_skip_call tr \<in>
       {[], map SetSkipLoadWeights (worker_ranks grp) @ map RestoreSkipLoadWeights (worker_ranks grp)})"

lemma came_up_append: "came_up w h up r \<Longrightarrow> came_up w h (up @ tr) r"
  unfolding came_up_def using answered_append by blast

lemma restart_with_skip_trace:
  "\<exists>result body. restart_with_skip w grp h =
      (result, h @ map SetSkipLoadWeights (worker_ranks grp) @ body @ map RestoreSkipLoadWeights (worker_ranks grp)) \<and>
    body_trace grp result w (h @ map SetSkipLoadWeights (worker_ranks grp)) body"
proof -
  let ?rs = "worker_ranks grp"
  obtain ok where set: "remote_all w (map SetSkipLoadWeights ?rs) h = (ok, h @ map SetSkipLoadWeights ?rs)"
    using remote_all_history [of w "map SetSkipLoadWeights ?rs" h] by (metis prod.collapse)
  obtain result body where b:
    "(if ok then restart_body w grp (h @ map SetSkipLoadWeights ?rs) else (Interrupted, h @ map SetSkipLoadWeights ?rs)) =
      (result, (h @ map SetSkipLoadWeights ?rs) @ body)"
    "body_trace grp result w (h @ map SetSkipLoadWeights ?rs) body"
  proof (cases ok)
    case True
    then show thesis using restart_body_trace [of w grp "h @ map SetSkipLoadWeights ?rs"] that by auto
  next
    case False
    then show thesis using that [of Interrupted "[]"] by (simp add: body_trace_def)
  qed
  obtain u where "remote_all w (map RestoreSkipLoadWeights ?rs) ((h @ map SetSkipLoadWeights ?rs) @ body) =
      (u, ((h @ map SetSkipLoadWeights ?rs) @ body) @ map RestoreSkipLoadWeights ?rs)"
    using remote_all_history [of w "map RestoreSkipLoadWeights ?rs" "(h @ map SetSkipLoadWeights ?rs) @ body"] by (metis prod.collapse)
  then have "restart_with_skip w grp h = (result, h @ map SetSkipLoadWeights ?rs @ body @ map RestoreSkipLoadWeights ?rs)"
    unfolding restart_with_skip_def Let_def set prod.case b(1) by simp
  with b(2) show ?thesis by blast
qed

lemma skip_maps [simp]: "filter is_skip_call (map SetSkipLoadWeights rs) = map SetSkipLoadWeights rs"
  "filter is_skip_call (map RestoreSkipLoadWeights rs) = map RestoreSkipLoadWeights rs"
  "no_reinit (map SetSkipLoadWeights rs)" "no_shutdown (map RestoreSkipLoadWeights rs)" "no_reinit (map RestoreSkipLoadWeights rs)"
  by (induction rs) auto

lemma restart_success_contract:
  assumes body: "body_trace grp Restarted w (h @ d @ map SetSkipLoadWeights (worker_ranks grp)) body"
    and d: "no_skip d" "no_reinit d" and complete: "length (group_workers grp) = length (group_ranks grp)"
    and down: "\<forall>r \<in> set (worker_ranks grp). \<exists>b. answered w h d b (CheckHealth r) (\<lambda>rep. rep \<noteq> Reply True)"
  shows "restart_contract w grp h True
    (d @ map SetSkipLoadWeights (worker_ranks grp) @ body @ map RestoreSkipLoadWeights (worker_ranks grp))"
proof -
  let ?rs = "worker_ranks grp"
  let ?down = "d @ map SetSkipLoadWeights ?rs @ [ReadStopEvent]"
  obtain up where up: "body = ReadStopEvent # map Reinit ?rs @ up" "no_shutdown up" "no_skip body"
    "\<And>r. r \<in> set ?rs \<Longrightarrow> (\<exists>b. answered w (h @ ?down) (map Reinit ?rs) b (Reinit r) (\<lambda>rep. rep \<noteq> Raised)) \<and>
        came_up w (h @ ?down @ map Reinit ?rs) up r"
    using body unfolding body_trace_def by auto
  have "\<exists>b. answered w h ?down b (CheckHealth r) (\<lambda>rep. rep \<noteq> Reply True)" if "r \<in> set ?rs" for r
    using bspec [OF down that] answered_append by blast
  then have "\<forall>r \<in> set ?rs. (\<exists>b. answered w h ?down b (CheckHealth r) (\<lambda>rep. rep \<noteq> Reply True)) \<and>
      (\<exists>b. answered w (h @ ?down) (map Reinit ?rs) b (Reinit r) (\<lambda>rep. rep \<noteq> Raised)) \<and>
      came_up w (h @ ?down @ map Reinit ?rs) (up @ map RestoreSkipLoadWeights ?rs) r"
    using up(4) came_up_append by blast
  moreover have "d @ map SetSkipLoadWeights ?rs @ body @ map RestoreSkipLoadWeights ?rs =
      ?down @ map Reinit ?rs @ up @ map RestoreSkipLoadWeights ?rs" by (simp add: up(1))
  ultimately have "\<exists>down u. d @ map SetSkipLoadWeights ?rs @ body @ map RestoreSkipLoadWeights ?rs = down @ map Reinit ?rs @ u \<and>
      no_reinit down \<and> no_shutdown u \<and> length (group_workers grp) = length (group_ranks grp) \<and>
      (\<forall>r \<in> set ?rs. (\<exists>b. answered w h down b (CheckHealth r) (\<lambda>rep. rep \<noteq> Reply True)) \<and>
        (\<exists>b. answered w (h @ down) (map Reinit ?rs) b (Reinit r) (\<lambda>rep. rep \<noteq> Raised)) \<and>
        came_up w (h @ down @ map Reinit ?rs) u r)"
    using d(2) up(2) complete by (intro exI [of _ ?down] exI [of _ "up @ map RestoreSkipLoadWeights ?rs"]) simp
  then show ?thesis unfolding restart_contract_def using d(1) up(3) by (simp only: if_True filter_append) simp
qed

text \<open>
  A failed restart is clean when no server was started or when every worker was shut down
  after the last start.
\<close>

lemma restart_failure_contract:
  assumes "no_reinit p \<or> (no_reinit q \<and> (\<forall>r \<in> set (worker_ranks grp). Shutdown r \<in> set q))" "no_reinit q"
    and "filter is_skip_call p \<in> {[], map SetSkipLoadWeights (worker_ranks grp) @ map RestoreSkipLoadWeights (worker_ranks grp)}"
    and "no_skip q"
  shows "restart_contract w grp h False (p @ q)"
  using assms unfolding restart_contract_def by auto

lemma restart_unhealthy_contract:
  assumes body: "body_trace grp Unhealthy w h' body" and d: "no_skip d"
  shows "restart_contract w grp h False
    (d @ map SetSkipLoadWeights (worker_ranks grp) @ body @ map RestoreSkipLoadWeights (worker_ranks grp))"
proof -
  let ?rs = "worker_ranks grp"
  obtain p q where pq: "body = p @ q" "no_reinit q" "\<forall>r \<in> set ?rs. Shutdown r \<in> set q" "no_skip p" "no_skip q"
    using body by (auto simp: body_trace_def)
  then have "\<exists>u v. d @ map SetSkipLoadWeights ?rs @ body @ map RestoreSkipLoadWeights ?rs = u @ v \<and> no_reinit v \<and>
      (\<forall>r \<in> set ?rs. Shutdown r \<in> set v)"
    by (intro exI [of _ "d @ map SetSkipLoadWeights ?rs @ p"] exI [of _ "q @ map RestoreSkipLoadWeights ?rs"]) simp
  then show ?thesis unfolding restart_contract_def using d pq(1,4,5) by simp
qed

lemma group_seen_down:
  assumes "fst (shutdown_worker_group w True grp (h @ [c]))" "snd (shutdown_worker_group w True grp (h @ [c])) = (h @ [c]) @ d"
  shows "\<forall>r \<in> set (worker_ranks grp). \<exists>b. answered w h (c # d @ tr) b (CheckHealth r) (\<lambda>rep. rep \<noteq> Reply True)"
proof
  fix r assume r: "r \<in> set (worker_ranks grp)"
  from shutdown_down [of w "group_workers grp" "h @ [c]"] assms
  have "\<forall>x \<in> set (group_workers grp). \<exists>b. answered w (h @ [c]) d b (CheckHealth (snapshot_rank x)) (\<lambda>rep. rep \<noteq> Reply True)"
    by (simp add: shutdown_worker_group_def)
  with r obtain b where "answered w (h @ [c]) d b (CheckHealth r) (\<lambda>rep. rep \<noteq> Reply True)" by (auto simp: worker_ranks_def)
  from answered_prefix [OF answered_append [OF this, of tr]]
  show "\<exists>b. answered w h (c # d @ tr) b (CheckHealth r) (\<lambda>rep. rep \<noteq> Reply True)" by auto
qed


end
