(* ===== verification/Recovery.thy ===== *)
theory Recovery
  imports Health
begin

text \<open>
  The lifecycle workflows over the registry: periodic checks and recovery
  (\<open>RolloutHealthManager\<close> in \<open>rl/rollout/health_manager.py\<close>), the lifecycle operations of
  \<open>RolloutController\<close> (\<open>rl/rollout/controller.py\<close>), the weight update of recovered workers
  (\<open>RLHealthManager\<close> in \<open>rl/health_manager.py\<close>) and the proxy registrations that follow the
  lifecycle (\<open>rl/rollout/proxy_manager.py\<close>).

  Groups are restarted in parallel by a thread pool; the pool joins before a result is read,
  the groups are disjoint and no restart raises, so each group runs in a world of its own.
\<close>

section \<open>Marking failed workers\<close>

record 'a health_state =
  hs_registry :: "'a registry"
  hs_tracker :: failure_tracker

definition check_active_workers_health ::
  "world \<Rightarrow> 'a registry \<Rightarrow> remote_call list \<Rightarrow> (int \<times> bool) list \<times> remote_call list" where
  "check_active_workers_health w reg h = check_workers_health w (active_workers reg) h"

text \<open>
  The part of \<open>run_once\<close> that runs under the lifecycle lock once the manager is not paused:
  \<open>stop\<close> is the stop event read after the checks. The result is the new state with the failed
  groups, or \<open>None\<close> when the method returns early.
\<close>

definition mark_failed_workers ::
  "world \<Rightarrow> bool \<Rightarrow> 'a health_state \<Rightarrow> ('a health_state \<times> 'a WorkerGroup list option) res" where
  "mark_failed_workers w stop s =
    (case check_active_workers_health w (hs_registry s) [] of (results, h) \<Rightarrow>
     case update_failed_ranks results (hs_tracker s) of (failed, tr) \<Rightarrow>
       if failed = [] \<or> stop then Inr (s\<lparr>hs_tracker := tr\<rparr>, None)
       else rbind (mark_unhealthy_ranks failed (hs_registry s)) (\<lambda>(reg, groups).
         Inr (s\<lparr>hs_registry := reg, hs_tracker := tr\<rparr>, Some groups)))"

section \<open>Recovery\<close>

type_synonym group_worlds = "int list \<Rightarrow> world"

definition restart_worker_groups ::
  "group_worlds \<Rightarrow> 'a WorkerGroup list \<Rightarrow> (int list \<times> (bool \<times> remote_call list)) list" where
  "restart_worker_groups ws groups =
    map (\<lambda>g. (group_ranks g, restart_worker_group (ws (group_ranks g)) g [])) groups"

definition ranks_recovered :: "(int list \<times> (bool \<times> remote_call list)) list \<Rightarrow> int list \<Rightarrow> bool" where
  "ranks_recovered results ranks = (case map_of results ranks of None \<Rightarrow> False | Some (ok, _) \<Rightarrow> ok)"

definition group_recovered :: "(int list \<times> (bool \<times> remote_call list)) list \<Rightarrow> 'a WorkerGroup \<Rightarrow> bool" where
  "group_recovered results g = ranks_recovered results (group_ranks g)"

text \<open>
  The loop of \<open>_restart_claimed_recovery_groups\<close>. The third component holds the groups still in
  \<open>groups_needing_cleanup\<close>, the fourth the collected groups or the exception that ended the loop.
\<close>

fun finalize_groups ::
  "(int list \<times> (bool \<times> remote_call list)) list \<Rightarrow> 'a WorkerGroup list \<Rightarrow> 'a health_state \<Rightarrow>
    'a health_state \<times> 'a WorkerGroup list \<times> 'a WorkerGroup list res" where
  "finalize_groups results [] s = (s, [], Inr [])"
| "finalize_groups results (g # gs) s =
    (if group_recovered results g then
       (case set_groups_state [g] PENDING_WEIGHTS None (hs_registry s) of (reg, recorded) \<Rightarrow>
         (case recorded of
            Inl e \<Rightarrow> (s\<lparr>hs_registry := reg\<rparr>, g # gs, Inl e)
          | Inr [] \<Rightarrow> (s\<lparr>hs_registry := reg\<rparr>, g # gs, Inl IndexError)
          | Inr (r # _) \<Rightarrow>
              (case finalize_groups results gs
                  (s\<lparr>hs_registry := reg, hs_tracker := tracker_clear (group_ranks g) (hs_tracker s)\<rparr>) of
                 (s', rest, pending) \<Rightarrow> (s', rest, rbind pending (\<lambda>ps. Inr (r # ps))))))
     else
       (case set_group_recovery_result g False (hs_registry s) of (reg, recorded) \<Rightarrow>
         (case recorded of
            Inl e \<Rightarrow> (s\<lparr>hs_registry := reg\<rparr>, g # gs, Inl e)
          | Inr _ \<Rightarrow> finalize_groups results gs (s\<lparr>hs_registry := reg\<rparr>))))"

text \<open>
  \<open>_cleanup_unfinalized_recovery_groups\<close>: every group is shut down, without waiting and whatever
  the outcome, and recorded as inactive. The calls made are returned with the state.
\<close>

definition cleanup_groups ::
  "group_worlds \<Rightarrow> (int list \<times> (bool \<times> remote_call list)) list \<Rightarrow> 'a WorkerGroup list \<Rightarrow> 'a health_state \<Rightarrow>
    'a health_state \<times> (int list \<times> remote_call list) list" where
  "cleanup_groups ws results groups s =
    (s\<lparr>hs_registry := fold (\<lambda>g reg. fst (set_group_recovery_result g False reg)) groups (hs_registry s)\<rparr>,
     map (\<lambda>g. (group_ranks g, snd (shutdown_worker_group (ws (group_ranks g)) False g
       (case map_of results (group_ranks g) of None \<Rightarrow> [] | Some (_, h) \<Rightarrow> h)))) groups)"

datatype recovery_outcome = Recovered | ManagerStopping | RecoveryError py_error

definition restart_claimed_recovery_groups ::
  "group_worlds \<Rightarrow> bool \<Rightarrow> 'a WorkerGroup list \<Rightarrow> 'a health_state \<Rightarrow>
    'a health_state \<times> (int list \<times> remote_call list) list \<times> 'a WorkerGroup list \<times> recovery_outcome" where
  "restart_claimed_recovery_groups ws stop groups s =
    (let results = restart_worker_groups ws groups in
     if stop then
       (case cleanup_groups ws results groups s of (s', calls) \<Rightarrow> (s', calls, [], ManagerStopping))
     else
       (case finalize_groups results groups s of (s', rest, pending) \<Rightarrow>
         (case pending of
            Inr ps \<Rightarrow> (s', [], ps, Recovered)
          | Inl e \<Rightarrow>
              (case cleanup_groups ws results rest s' of (s'', calls) \<Rightarrow> (s'', calls, [], RecoveryError e)))))"

text \<open>
  \<open>_restart_inactive_workers\<close> once it holds the lifecycle lock: \<open>stop1\<close> is the stop event on
  entering, \<open>stop2\<close> after the restarts. \<open>Inl\<close> is an exception that leaves the method.
\<close>

definition restart_inactive_workers ::
  "group_worlds \<Rightarrow> bool \<Rightarrow> bool \<Rightarrow> 'a health_state \<Rightarrow> 'a health_state \<times> 'a WorkerGroup list res" where
  "restart_inactive_workers ws stop1 stop2 s =
    (if stop1 then (s, Inr [])
     else (case get_inactive_groups_for_recovery (hs_registry s) of
         Inl e \<Rightarrow> (s, Inl e)
       | Inr groups \<Rightarrow>
           if groups = [] then (s, Inr [])
           else (case restart_claimed_recovery_groups ws stop2 groups s of (s', calls, pending, outcome) \<Rightarrow>
             (case outcome of
                Recovered \<Rightarrow> (s', Inr pending)
              | ManagerStopping \<Rightarrow> (s', Inr [])
              | RecoveryError e \<Rightarrow> (s', Inl e)))))"

text \<open>\<open>shutdown_inactive_workers\<close> under the lock: the groups whose listeners are notified.\<close>

definition shutdown_inactive_workers ::
  "group_worlds \<Rightarrow> bool \<Rightarrow> 'a registry \<Rightarrow> ('a WorkerGroup list \<times> (int list \<times> remote_call list) list) res" where
  "shutdown_inactive_workers ws stop reg =
    (if stop then Inr ([], [])
     else rbind (inactive_worker_groups reg) (\<lambda>groups.
       Inr (groups, map (\<lambda>g. (group_ranks g, snd (shutdown_worker_group (ws (group_ranks g)) True g []))) groups)))"

section \<open>Recovery moves groups to pending weights, never to active\<close>

definition recovered_state ::
  "(int list \<times> (bool \<times> remote_call list)) list \<Rightarrow> int list set \<Rightarrow> group_machine \<Rightarrow> group_machine" where
  "recovered_state results gs m =
    (\<lambda>g. if g \<in> gs then Some (if ranks_recovered results g then PENDING_WEIGHTS else INACTIVE) else m g)"

lemma finalize_groups_ok:
  "registry_ok (hs_registry s) \<Longrightarrow> group_ranks ` set groups \<subseteq> reg_groups (hs_registry s) \<Longrightarrow>
    \<exists>s' pending. finalize_groups results groups s = (s', [], Inr pending) \<and> registry_ok (hs_registry s') \<and>
      rollout_topology (hs_registry s') = rollout_topology (hs_registry s) \<and>
      group_state (hs_registry s') = recovered_state results (group_ranks ` set groups) (group_state (hs_registry s)) \<and>
      map group_ranks pending = map group_ranks (filter (group_recovered results) groups) \<and>
      hs_tracker s' = fold (\<lambda>g. tracker_clear (group_ranks g)) (filter (group_recovered results) groups) (hs_tracker s)"
proof (induction groups arbitrary: s)
  case Nil
  then show ?case by (simp add: recovered_state_def)
next
  case (Cons g gs)
  from Cons.prems(2) have g: "group_ranks ` set [g] \<subseteq> reg_groups (hs_registry s)" "group_ranks g \<in> reg_groups (hs_registry s)"
    and gs: "group_ranks ` set gs \<subseteq> reg_groups (hs_registry s)" by auto
  show ?case
  proof (cases "group_recovered results g")
    case True
    obtain reg where reg: "set_groups_state [g] PENDING_WEIGHTS None (hs_registry s) = (reg, Inr [registry_group reg (group_ranks g)])"
      "registry_ok reg" "rollout_topology reg = rollout_topology (hs_registry s)"
      "group_state reg = abs_move {group_ranks g} PENDING_WEIGHTS None (group_state (hs_registry s))"
      using abs_move_ok [OF Cons.prems(1) g(1), of PENDING_WEIGHTS None] by auto
    let ?s = "s\<lparr>hs_registry := reg, hs_tracker := tracker_clear (group_ranks g) (hs_tracker s)\<rparr>"
    obtain s' pending where IH: "finalize_groups results gs ?s = (s', [], Inr pending)" "registry_ok (hs_registry s')"
      "rollout_topology (hs_registry s') = rollout_topology reg"
      "group_state (hs_registry s') = recovered_state results (group_ranks ` set gs) (group_state reg)"
      "map group_ranks pending = map group_ranks (filter (group_recovered results) gs)"
      "hs_tracker s' = fold (\<lambda>g. tracker_clear (group_ranks g)) (filter (group_recovered results) gs) (tracker_clear (group_ranks g) (hs_tracker s))"
      using Cons.IH [of ?s] reg gs by auto
    have "group_state (hs_registry s) (group_ranks g) \<noteq> None" using group_state_Some_iff [OF Cons.prems(1)] g(2) by simp
    then have "group_state (hs_registry s') = recovered_state results (group_ranks ` set (g # gs)) (group_state (hs_registry s))"
      using True unfolding IH(4) reg(4)
      by (auto simp: fun_eq_iff recovered_state_def abs_move_def group_recovered_def)
    then show ?thesis using True reg IH by simp
  next
    case False
    obtain reg where reg: "set_group_recovery_result g False (hs_registry s) = (reg, Inr (registry_group reg (group_ranks g)))"
      "registry_ok reg" "rollout_topology reg = rollout_topology (hs_registry s)"
      "group_state reg = abs_move {group_ranks g} INACTIVE None (group_state (hs_registry s))"
      using abs_recovery_ok [OF Cons.prems(1) g(2), of False] by auto
    let ?s = "s\<lparr>hs_registry := reg\<rparr>"
    obtain s' pending where IH: "finalize_groups results gs ?s = (s', [], Inr pending)" "registry_ok (hs_registry s')"
      "rollout_topology (hs_registry s') = rollout_topology reg"
      "group_state (hs_registry s') = recovered_state results (group_ranks ` set gs) (group_state reg)"
      "map group_ranks pending = map group_ranks (filter (group_recovered results) gs)"
      "hs_tracker s' = fold (\<lambda>g. tracker_clear (group_ranks g)) (filter (group_recovered results) gs) (hs_tracker s)"
      using Cons.IH [of ?s] reg gs by auto
    have "group_state (hs_registry s) (group_ranks g) \<noteq> None" using group_state_Some_iff [OF Cons.prems(1)] g(2) by simp
    then have "group_state (hs_registry s') = recovered_state results (group_ranks ` set (g # gs)) (group_state (hs_registry s))"
      using False unfolding IH(4) reg(4)
      by (auto simp: fun_eq_iff recovered_state_def abs_move_def group_recovered_def)
    then show ?thesis using False reg IH by simp
  qed
qed

lemma cleanup_groups_ok:
  "registry_ok (hs_registry s) \<Longrightarrow> group_ranks ` set groups \<subseteq> reg_groups (hs_registry s) \<Longrightarrow>
    registry_ok (hs_registry (fst (cleanup_groups ws results groups s))) \<and>
    rollout_topology (hs_registry (fst (cleanup_groups ws results groups s))) = rollout_topology (hs_registry s) \<and>
    group_state (hs_registry (fst (cleanup_groups ws results groups s))) =
      abs_move (group_ranks ` set groups) INACTIVE None (group_state (hs_registry s)) \<and>
    hs_tracker (fst (cleanup_groups ws results groups s)) = hs_tracker s"
proof -
  have "registry_ok reg \<Longrightarrow> group_ranks ` set groups \<subseteq> reg_groups reg \<Longrightarrow>
    registry_ok (fold (\<lambda>g reg. fst (set_group_recovery_result g False reg)) groups reg) \<and>
    rollout_topology (fold (\<lambda>g reg. fst (set_group_recovery_result g False reg)) groups reg) = rollout_topology reg \<and>
    group_state (fold (\<lambda>g reg. fst (set_group_recovery_result g False reg)) groups reg) =
      abs_move (group_ranks ` set groups) INACTIVE None (group_state reg)" for reg
  proof (induction groups arbitrary: reg)
    case (Cons g gs)
    obtain reg' where r: "set_group_recovery_result g False reg = (reg', Inr (registry_group reg' (group_ranks g)))"
      "registry_ok reg'" "rollout_topology reg' = rollout_topology reg"
      "group_state reg' = abs_move {group_ranks g} INACTIVE None (group_state reg)"
      using abs_recovery_ok [OF Cons.prems(1), of g False] Cons.prems(2) by auto
    with Cons.IH [of reg'] Cons.prems(2) show ?case by (auto simp: fun_eq_iff abs_move_def)
  qed (simp add: abs_move_def)
  then show "registry_ok (hs_registry s) \<Longrightarrow> group_ranks ` set groups \<subseteq> reg_groups (hs_registry s) \<Longrightarrow> ?thesis"
    by (simp add: cleanup_groups_def)
qed

lemma failure_count_clear_groups:
  "failure_count (fold (\<lambda>g. tracker_clear (group_ranks g)) xs tr) r =
    (if \<exists>g \<in> set xs. r \<in> set (group_ranks g) then 0 else failure_count tr r)"
  by (induction xs arbitrary: tr) auto

lemma claimed_recovery_ok:
  fixes s :: "'a health_state" and ws :: group_worlds
  assumes ok: "registry_ok (hs_registry s)" and sub: "set gs \<subseteq> reg_groups (hs_registry s)"
  defines "groups \<equiv> map (registry_group (hs_registry s)) gs"
    and "restarted \<equiv> (\<lambda>g. g \<in> set gs \<and> fst (restart_worker_group (ws g) (registry_group (hs_registry s) g) []))"
  shows "\<exists>s' pending. restart_claimed_recovery_groups ws False groups s = (s', [], pending, Recovered) \<and>
    registry_ok (hs_registry s') \<and> map group_ranks pending = filter restarted gs \<and>
    group_state (hs_registry s') = (\<lambda>g. if restarted g then Some PENDING_WEIGHTS
      else if g \<in> set gs then Some INACTIVE else group_state (hs_registry s) g) \<and>
    (\<forall>r. failure_count (hs_tracker s') r = (if \<exists>g. restarted g \<and> r \<in> set g then 0 else failure_count (hs_tracker s) r))"
proof -
  let ?reg = "hs_registry s" and ?res = "restart_worker_groups ws groups"
  have rec: "g \<in> set gs \<Longrightarrow> ranks_recovered ?res g = restarted g" for g
    by (simp add: ranks_recovered_def restart_worker_groups_def groups_def restarted_def comp_def map_of_group_list split: prod.split)
  have img: "group_ranks ` set groups = set gs" by (simp add: groups_def image_image)
  then have "group_ranks ` set groups \<subseteq> reg_groups ?reg" using sub by simp
  from finalize_groups_ok [OF ok this, of ?res] obtain s' pending where
    f: "finalize_groups ?res groups s = (s', [], Inr pending)" "registry_ok (hs_registry s')"
    "group_state (hs_registry s') = recovered_state ?res (set gs) (group_state ?reg)"
    "map group_ranks pending = map group_ranks (filter (group_recovered ?res) groups)"
    "hs_tracker s' = fold (\<lambda>g. tracker_clear (group_ranks g)) (filter (group_recovered ?res) groups) (hs_tracker s)"
    unfolding img by blast
  have filt: "filter (group_recovered ?res) groups = map (registry_group ?reg) (filter restarted gs)"
    using rec unfolding groups_def by (simp add: filter_map comp_def group_recovered_def cong: filter_cong)
  have "restart_claimed_recovery_groups ws False groups s = (s', [], pending, Recovered)"
    by (simp add: restart_claimed_recovery_groups_def Let_def f(1))
  moreover have "restarted g \<Longrightarrow> g \<in> set gs" for g by (simp add: restarted_def)
  ultimately show ?thesis using f(2-5) rec
    by (auto simp: filt comp_def failure_count_clear_groups recovered_state_def fun_eq_iff)
qed

text \<open>C32. 
  A recovery returns without an exception on a well-formed registry. It moves exactly the
  inactive groups whose restart succeeded to \<open>PENDING_WEIGHTS\<close>, leaves every other group in the
  state it had, in particular activates none, clears the failure counts of exactly the
  recovered ranks and returns the recovered groups in rank order. A stop, before or during the
  restarts, changes no group's state and returns nothing.
\<close>

theorem recovery_exact:
  assumes ok: "registry_ok (hs_registry s)"
  shows "\<exists>s' pending. restart_inactive_workers ws stop1 stop2 s = (s', Inr pending) \<and> registry_ok (hs_registry s') \<and>
    (let restarted = (\<lambda>g. group_state (hs_registry s) g = Some INACTIVE \<and> \<not> stop1 \<and> \<not> stop2 \<and>
           fst (restart_worker_group (ws g) (registry_group (hs_registry s) g) [])) in
     group_state (hs_registry s') = (\<lambda>g. if restarted g then Some PENDING_WEIGHTS else group_state (hs_registry s) g) \<and>
     sorted (map group_ranks pending) \<and> distinct (map group_ranks pending) \<and>
     group_ranks ` set pending = {g. restarted g} \<and>
     (\<forall>r. failure_count (hs_tracker s') r =
       (if \<exists>g. restarted g \<and> r \<in> set g then 0 else failure_count (hs_tracker s) r)))"
proof -
  let ?reg = "hs_registry s"
  obtain gs where gs: "get_inactive_groups_for_recovery ?reg = Inr (map (registry_group ?reg) gs)" "sorted gs" "distinct gs"
    "set gs = {g. group_state ?reg g = Some INACTIVE}"
    using target_state_groups_ok [OF ok, of INACTIVE]
    by (auto simp: get_target_state_worker_groups_def get_inactive_groups_for_recovery_def)
  let ?groups = "map (registry_group ?reg) gs"
  have sub: "set gs \<subseteq> reg_groups ?reg" using gs(4) group_state_Some_iff [OF ok] by force
  consider "stop1 \<or> gs = []" | "\<not> stop1" "gs \<noteq> []" "stop2" | "\<not> stop1" "gs \<noteq> []" "\<not> stop2" by blast
  then show ?thesis
  proof cases
    case 1
    then have "restart_inactive_workers ws stop1 stop2 s = (s, Inr [])" using gs(1) by (auto simp: restart_inactive_workers_def)
    moreover have "{g. group_state ?reg g = Some INACTIVE \<and> \<not> stop1} = {}" using 1 gs(4) by auto
    ultimately show ?thesis using ok by (auto simp: Let_def fun_eq_iff)
  next
    case 2
    let ?res = "restart_worker_groups ws ?groups"
    obtain s' calls where c: "cleanup_groups ws ?res ?groups s = (s', calls)" by fastforce
    have "group_ranks ` set ?groups \<subseteq> reg_groups ?reg" using sub by (simp add: image_image)
    note cleanup = cleanup_groups_ok [OF ok this, of ws ?res]
    have "restart_inactive_workers ws stop1 stop2 s = (s', Inr [])"
      using 2 gs(1) by (simp add: restart_inactive_workers_def restart_claimed_recovery_groups_def Let_def c)
    moreover have "group_state (hs_registry s') = group_state ?reg" "registry_ok (hs_registry s')" "hs_tracker s' = hs_tracker s"
      using cleanup gs(4) by (auto simp: c abs_move_def fun_eq_iff image_iff)
    ultimately show ?thesis using 2 by (auto simp: Let_def)
  next
    case 3
    obtain s' pending where r: "restart_claimed_recovery_groups ws False ?groups s = (s', [], pending, Recovered)"
      "registry_ok (hs_registry s')"
      "map group_ranks pending = filter (\<lambda>g. g \<in> set gs \<and> fst (restart_worker_group (ws g) (registry_group ?reg g) [])) gs"
      "group_state (hs_registry s') = (\<lambda>g. if g \<in> set gs \<and> fst (restart_worker_group (ws g) (registry_group ?reg g) [])
         then Some PENDING_WEIGHTS else if g \<in> set gs then Some INACTIVE else group_state ?reg g)"
      "\<forall>r. failure_count (hs_tracker s') r = (if \<exists>g. (g \<in> set gs \<and> fst (restart_worker_group (ws g) (registry_group ?reg g) [])) \<and> r \<in> set g
         then 0 else failure_count (hs_tracker s) r)"
      using claimed_recovery_ok [OF ok sub, of ws] by blast
    have "restart_inactive_workers ws stop1 stop2 s = (s', Inr pending)"
      using 3 gs(1) by (simp add: restart_inactive_workers_def r(1))
    then show ?thesis using 3 r(2-5) gs(2-4)
      by (intro exI [of _ s'] exI [of _ pending]) (auto simp: Let_def sorted_wrt_filter fun_eq_iff simp flip: set_map)
  qed
qed

subsection \<open>A recovery in a concrete world\<close>

text \<open>The servers stop when asked to, start again and answer.\<close>

definition restarted_before :: "remote_call list \<Rightarrow> int \<Rightarrow> bool" where
  "restarted_before h r = (Reinit r \<in> set h)"

definition healthy_world :: world where
  "healthy_world h =
    (case last h of CheckHealth r \<Rightarrow> Reply (restarted_before h r) | ReadStopEvent \<Rightarrow> Reply False | _ \<Rightarrow> Reply True)"

definition example_health :: "nat health_state" where
  "example_health =
    \<lparr>hs_registry = fst (set_groups_state [registry_group example_registry [0, 2]] INACTIVE None example_registry),
     hs_tracker = \<lparr>threshold = 3, failure_counts = [(0, 3)]\<rparr>\<rparr>"

lemma example_health_ok: "registry_ok (hs_registry example_health)"
    "group_state (hs_registry example_health) [0, 2] = Some INACTIVE"
proof -
  have g: "group_ranks ` set [registry_group example_registry [0, 2]] \<subseteq> reg_groups example_registry"
    by (simp add: example_registry_ok(2))
  have "group_state example_registry [0, 2] \<noteq> None"
    using group_state_Some_iff [OF example_registry_ok(1)] by (simp add: example_registry_ok(2))
  then show "registry_ok (hs_registry example_health)" "group_state (hs_registry example_health) [0, 2] = Some INACTIVE"
    using abs_move_ok [OF example_registry_ok(1) g, of INACTIVE None]
    by (auto simp: example_health_def abs_move_def)
qed

theorem recovery_exact_witness:
  "case restart_inactive_workers (\<lambda>_. healthy_world) False False example_health of
     (s', pending) \<Rightarrow> group_state (hs_registry s') [0, 2] = Some PENDING_WEIGHTS \<and> failure_count (hs_tracker s') 0 = 0"
proof -
  have "fst (restart_worker_group healthy_world (registry_group (hs_registry example_health) [0, 2]) [])"
    by code_simp
  moreover from this have "\<exists>g. group_state (hs_registry example_health) g = Some INACTIVE \<and>
      fst (restart_worker_group healthy_world (registry_group (hs_registry example_health) g) []) \<and> 0 \<in> set g"
    using example_health_ok(2) by (intro exI [of _ "[0, 2]"]) simp
  ultimately show ?thesis
    using recovery_exact [OF example_health_ok(1), of "\<lambda>_. healthy_world" False False] example_health_ok(2)
    by (auto simp: Let_def)
qed

section \<open>Lifecycle operations of the controller\<close>

text \<open>
  \<open>get_weight_update_targets\<close>: no state asks for all three, which keeps every target.
\<close>

definition get_weight_update_targets ::
  "WorkerLifecycleState option \<Rightarrow> 'a registry \<Rightarrow> (weight_update_target list \<times> int list list) res" where
  "get_weight_update_targets target_state reg =
    (let target_states = (case target_state of None \<Rightarrow> [PENDING_WEIGHTS, ACTIVE, INACTIVE] | Some st \<Rightarrow> [st]) in
     rbind (weight_update_targets reg) (\<lambda>(targets, gs).
       let filtered_targets = filter (\<lambda>x. target_lifecycle_state x \<in> set target_states) targets;
           endpoint_ranks = set (map endpoint_rank filtered_targets)
       in Inr (filtered_targets, filter (\<lambda>ranks. endpoint_ranks \<inter> set ranks \<noteq> {}) gs)))"

datatype 'a lifecycle_event = GroupActive "'a WorkerGroup" | GroupInactive "'a WorkerGroup"

definition mark_worker_groups_lifecycle_state ::
  "int list list option \<Rightarrow> WorkerLifecycleState \<Rightarrow> WorkerLifecycleState \<Rightarrow> 'a registry \<Rightarrow>
    ('a registry \<times> 'a lifecycle_event list) res" where
  "mark_worker_groups_lifecycle_state ranks_opt source target reg =
    rbind (get_target_state_worker_groups source reg) (\<lambda>source_groups.
      let groups = (case ranks_opt of
            None \<Rightarrow> source_groups
          | Some group_ranks_list \<Rightarrow>
              List.map_filter (map_of (rev (map (\<lambda>g. (group_ranks g, g)) source_groups))) group_ranks_list)
      in (case set_groups_state groups target (Some source) reg of (reg', recorded) \<Rightarrow>
        rbind recorded (\<lambda>updated.
          Inr (reg', case target of
             ACTIVE \<Rightarrow> map GroupActive updated
           | INACTIVE \<Rightarrow> map GroupInactive updated
           | PENDING_WEIGHTS \<Rightarrow> []))))"

lemma mark_groups_exact:
  assumes ok: "registry_ok reg"
  shows "\<exists>reg' events. mark_worker_groups_lifecycle_state ranks_opt source target reg = Inr (reg', events) \<and>
    registry_ok reg' \<and> rollout_topology reg' = rollout_topology reg \<and>
    group_state reg' = (\<lambda>g. if group_state reg g = Some source \<and> (case ranks_opt of None \<Rightarrow> True | Some rs \<Rightarrow> g \<in> set rs)
       then Some target else group_state reg g) \<and>
    set events = (case target of
        ACTIVE \<Rightarrow> GroupActive ` registry_group reg' ` {g. group_state reg g = Some source \<and> (case ranks_opt of None \<Rightarrow> True | Some rs \<Rightarrow> g \<in> set rs)}
      | INACTIVE \<Rightarrow> GroupInactive ` registry_group reg' ` {g. group_state reg g = Some source \<and> (case ranks_opt of None \<Rightarrow> True | Some rs \<Rightarrow> g \<in> set rs)}
      | PENDING_WEIGHTS \<Rightarrow> {})"
proof -
  obtain gs where gs: "get_target_state_worker_groups source reg = Inr (map (registry_group reg) gs)" "distinct gs"
    "set gs = {g. group_state reg g = Some source}"
    using target_state_groups_ok [OF ok, of source] by blast
  define chosen where "chosen = (case ranks_opt of None \<Rightarrow> gs | Some rs \<Rightarrow> filter (\<lambda>g. g \<in> set gs) rs)"
  have lookup: "map_of (rev (map (\<lambda>g. (group_ranks g, g)) (map (registry_group reg) gs))) =
      (\<lambda>g. if g \<in> set gs then Some (registry_group reg g) else None)"
    using map_of_group_list [of "registry_group reg" "rev gs"] by (simp add: rev_map comp_def fun_eq_iff)
  have filter_groups: "List.map_filter (\<lambda>g. if g \<in> set gs then Some (registry_group reg g) else None) rs =
      map (registry_group reg) (filter (\<lambda>g. g \<in> set gs) rs)" for rs
    by (induction rs) (auto simp: List.map_filter_simps)
  have groups: "(case ranks_opt of None \<Rightarrow> map (registry_group reg) gs
      | Some rs \<Rightarrow> List.map_filter (map_of (rev (map (\<lambda>g. (group_ranks g, g)) (map (registry_group reg) gs)))) rs) =
      map (registry_group reg) chosen"
    unfolding lookup filter_groups chosen_def by (simp split: option.split)
  have chosen: "set chosen = {g. group_state reg g = Some source \<and> (case ranks_opt of None \<Rightarrow> True | Some rs \<Rightarrow> g \<in> set rs)}"
    using gs(3) by (auto simp: chosen_def split: option.split)
  have "group_ranks ` set (map (registry_group reg) chosen) \<subseteq> reg_groups reg"
    using chosen group_state_Some_iff [OF ok] by (auto simp: image_image)
  from abs_move_ok [OF ok this, of target "Some source"] obtain reg' where r:
    "set_groups_state (map (registry_group reg) chosen) target (Some source) reg =
      (reg', Inr (map (\<lambda>g. registry_group reg' (group_ranks g)) (map (registry_group reg) chosen)))"
    "registry_ok reg'" "rollout_topology reg' = rollout_topology reg"
    "group_state reg' = abs_move (set chosen) target (Some source) (group_state reg)"
    by (auto simp: image_image)
  have "mark_worker_groups_lifecycle_state ranks_opt source target reg =
      Inr (reg', case target of ACTIVE \<Rightarrow> map GroupActive (map (registry_group reg') chosen)
         | INACTIVE \<Rightarrow> map GroupInactive (map (registry_group reg') chosen) | PENDING_WEIGHTS \<Rightarrow> [])"
    unfolding mark_worker_groups_lifecycle_state_def gs(1) rbind_simps Let_def groups r(1) prod.case
    by (simp add: comp_def split: WorkerLifecycleState.split)
  moreover have "group_state reg' = (\<lambda>g. if g \<in> set chosen then Some target else group_state reg g)"
  proof
    fix g
    have "g \<in> set chosen \<Longrightarrow> group_state reg g = Some source" unfolding chosen by simp
    then show "group_state reg' g = (if g \<in> set chosen then Some target else group_state reg g)"
      unfolding r(4) abs_move_def by auto
  qed
  ultimately show ?thesis unfolding chosen [symmetric] using r(2,3)
    by (cases target) (simp_all add: chosen image_image)
qed

section \<open>Weight update of recovered workers\<close>

datatype train_call =
    HasRegisteredWeightCheckpoint
  | BindRolloutWeightUpdate "weight_update_target list"
  | OnloadWeights "int list"
  | WeightUpdate
  | OnloadKvcache "int list"

type_synonym train_world = "train_call list \<Rightarrow> reply"

definition pending_ranks :: "'a registry \<Rightarrow> int list" where
  "pending_ranks reg = map snapshot_rank (get_target_state_workers PENDING_WEIGHTS reg)"

text \<open>
  The calls inside the \<open>try\<close> block run one after the other while other threads use the
  registry: \<open>other i\<close> is what they do to it before the \<open>i\<close>-th call.
\<close>

fun run_update_calls ::
  "train_world \<Rightarrow> (nat \<Rightarrow> 'a registry \<Rightarrow> 'a registry) \<Rightarrow> nat \<Rightarrow> ('a registry \<Rightarrow> train_call) list \<Rightarrow> 'a registry \<Rightarrow>
    train_call list \<Rightarrow> bool \<times> 'a registry \<times> train_call list" where
  "run_update_calls w other i [] reg h = (True, other i reg, h)"
| "run_update_calls w other i (c # cs) reg h =
    (let reg' = other i reg; h' = h @ [c reg'] in
     if w h' = Raised then (False, reg', h') else run_update_calls w other (Suc i) cs reg' h')"

definition update_calls :: "weight_update_target list \<Rightarrow> ('a registry \<Rightarrow> train_call) list" where
  "update_calls targets =
    [\<lambda>reg. BindRolloutWeightUpdate targets, \<lambda>reg. OnloadWeights (pending_ranks reg), \<lambda>reg. WeightUpdate,
     \<lambda>reg. OnloadKvcache (pending_ranks reg)]"

text \<open>
  \<open>_update_pending_rollout_weights_from_checkpoint_engine\<close>: the registry afterwards, the
  returned groups, the lifecycle notifications and the calls made, or an exception raised
  outside the \<open>try\<close> block.
\<close>

definition update_pending_rollout_weights ::
  "train_world \<Rightarrow> (nat \<Rightarrow> 'a registry \<Rightarrow> 'a registry) \<Rightarrow> 'a registry \<Rightarrow>
    ('a registry \<times> int list list \<times> 'a lifecycle_event list \<times> train_call list) res" where
  "update_pending_rollout_weights w other reg =
    (case w [HasRegisteredWeightCheckpoint] of
       Raised \<Rightarrow> Inl RuntimeError
     | Reply False \<Rightarrow> Inr (reg, [], [], [HasRegisteredWeightCheckpoint])
     | Reply True \<Rightarrow>
         rbind (get_weight_update_targets (Some PENDING_WEIGHTS) reg) (\<lambda>(targets, gs).
           if targets = [] then Inr (reg, [], [], [HasRegisteredWeightCheckpoint])
           else (case run_update_calls w other 0 (update_calls targets) reg [HasRegisteredWeightCheckpoint] of
             (ok, reg', h) \<Rightarrow>
               rbind (mark_worker_groups_lifecycle_state (Some gs) PENDING_WEIGHTS (if ok then ACTIVE else INACTIVE) reg')
                 (\<lambda>(reg'', events). Inr (reg'', if ok then gs else [], events, h)))))"

text \<open>
  What the other threads may do to the registry meanwhile: no thread but the one that holds
  the weight-update lock takes a group out of \<open>PENDING_WEIGHTS\<close>.
\<close>

definition keeps_pending :: "('a registry \<Rightarrow> 'a registry) \<Rightarrow> bool" where
  "keeps_pending f =
    (\<forall>reg. registry_ok reg \<longrightarrow> registry_ok (f reg) \<and> rollout_topology (f reg) = rollout_topology reg \<and>
       (\<forall>g. group_state reg g = Some PENDING_WEIGHTS \<longrightarrow> group_state (f reg) g = Some PENDING_WEIGHTS))"

lemma run_update_calls_ok:
  "registry_ok reg \<Longrightarrow> (\<And>i. keeps_pending (other i)) \<Longrightarrow>
    run_update_calls w other i cs reg h = (ok, reg', h') \<Longrightarrow>
    registry_ok reg' \<and> rollout_topology reg' = rollout_topology reg \<and>
    (\<forall>g. group_state reg g = Some PENDING_WEIGHTS \<longrightarrow> group_state reg' g = Some PENDING_WEIGHTS) \<and>
    (ok \<longrightarrow> length h' = length h + length cs \<and> (\<forall>k. length h < k \<and> k \<le> length h' \<longrightarrow> w (take k h') \<noteq> Raised)) \<and>
    (\<exists>tr. h' = h @ tr)"
proof (induction cs arbitrary: i reg h)
  case Nil
  then show ?case by (auto simp: keeps_pending_def)
next
  case (Cons c cs)
  let ?reg = "other i reg" and ?h = "h @ [c (other i reg)]"
  have other: "registry_ok ?reg" "rollout_topology ?reg = rollout_topology reg"
    "\<And>g. group_state reg g = Some PENDING_WEIGHTS \<Longrightarrow> group_state ?reg g = Some PENDING_WEIGHTS"
    using Cons.prems(1,2) by (auto simp: keeps_pending_def)
  show ?case
  proof (cases "w ?h = Raised")
    case True
    with Cons.prems(3) other show ?thesis by (auto simp: Let_def)
  next
    case False
    with Cons.prems(3) have "run_update_calls w other (Suc i) cs ?reg ?h = (ok, reg', h')" by (simp add: Let_def)
    note IH = Cons.IH [OF other(1) Cons.prems(2) this]
    then obtain tr where tr: "h' = ?h @ tr" by blast
    have "w (take k h') \<noteq> Raised" if "ok" "length h < k" "k \<le> length h'" for k
    proof (cases "k = Suc (length h)")
      case True
      then show ?thesis using False tr by simp
    next
      case False
      then show ?thesis using IH that by simp
    qed
    then show ?thesis using IH other(2,3) tr by auto
  qed
qed

lemma run_update_calls_fold:
  "run_update_calls w other i cs reg h = (ok, reg', h') \<Longrightarrow> \<exists>j. i \<le> j \<and> reg' = fold other [i..<j] reg"
proof (induction cs arbitrary: i reg h)
  case Nil
  then show ?case by (intro exI [of _ "Suc i"]) simp
next
  case (Cons c cs)
  show ?case
  proof (cases "w (h @ [c (other i reg)]) = Raised")
    case True
    with Cons.prems show ?thesis by (intro exI [of _ "Suc i"]) (simp add: Let_def)
  next
    case False
    with Cons.prems have "run_update_calls w other (Suc i) cs (other i reg) (h @ [c (other i reg)]) = (ok, reg', h')"
      by (simp add: Let_def)
    from Cons.IH [OF this] obtain j where "Suc i \<le> j" "reg' = fold other [Suc i..<j] (other i reg)" by blast
    then show ?thesis by (intro exI [of _ j]) (simp add: upt_conv_Cons)
  qed
qed

lemma pending_targets_ok:
  assumes ok: "registry_ok reg"
  shows "\<exists>targets gs. get_weight_update_targets (Some st) reg = Inr (targets, gs) \<and>
    set gs = {g. group_state reg g = Some st} \<and> (targets = [] \<longleftrightarrow> gs = []) \<and>
    (\<forall>x \<in> set targets. target_lifecycle_state x = st)"
proof -
  obtain targets gs where t: "weight_update_targets reg = Inr (targets, gs)" "set gs = reg_groups reg"
    "\<And>x. x \<in> set targets \<Longrightarrow> \<exists>g \<in> set gs. endpoint_rank x \<in> set g \<and> group_state reg g = Some (target_lifecycle_state x)"
    "\<And>g. g \<in> set gs \<Longrightarrow> \<exists>x \<in> set targets. endpoint_rank x \<in> set g"
    using weight_update_targets_ok [OF ok] by blast
  have b: "built (rollout_topology reg)" using ok by (simp add: registry_ok_def registry_wf_def)
  let ?ts = "filter (\<lambda>x. target_lifecycle_state x = st) targets"
  let ?gs = "filter (\<lambda>ranks. set (map endpoint_rank ?ts) \<inter> set ranks \<noteq> {}) gs"
  have hit: "(set (map endpoint_rank ?ts) \<inter> set g \<noteq> {}) = (group_state reg g = Some st)" if g: "g \<in> set gs" for g
  proof
    assume "set (map endpoint_rank ?ts) \<inter> set g \<noteq> {}"
    then obtain x where x: "x \<in> set targets" "target_lifecycle_state x = st" "endpoint_rank x \<in> set g" by auto
    then obtain g' where g': "g' \<in> set gs" "endpoint_rank x \<in> set g'" "group_state reg g' = Some st" using t(3) by blast
    then have "g' = g" using topo.same_group [OF b, of g' g] g x(3) t(2) by auto
    then show "group_state reg g = Some st" using g' by simp
  next
    assume st: "group_state reg g = Some st"
    obtain x where x: "x \<in> set targets" "endpoint_rank x \<in> set g" using t(4) g by blast
    then obtain g' where g': "g' \<in> set gs" "endpoint_rank x \<in> set g'" "group_state reg g' = Some (target_lifecycle_state x)"
      using t(3) by blast
    then have "g' = g" using topo.same_group [OF b, of g' g] g x(2) t(2) by auto
    then have "target_lifecycle_state x = st" using g' st by simp
    then show "set (map endpoint_rank ?ts) \<inter> set g \<noteq> {}" using x by auto
  qed
  have gs: "set ?gs = {g. group_state reg g = Some st}"
  proof -
    have "group_state reg g = Some st \<Longrightarrow> g \<in> set gs" for g using group_state_Some_iff [OF ok, of g] t(2) by auto
    then show ?thesis using hit by auto
  qed
  have "get_weight_update_targets (Some st) reg = Inr (?ts, ?gs)"
    by (simp add: get_weight_update_targets_def t(1) Let_def)
  moreover have "?ts = [] \<longleftrightarrow> ?gs = []"
  proof
    assume "?gs = []"
    then have "set (map endpoint_rank ?ts) \<inter> set g = {}" if "g \<in> set gs" for g
      using that by (auto simp: filter_empty_conv)
    then show "?ts = []" using t(3) by (fastforce simp: filter_empty_conv)
  qed simp
  ultimately show ?thesis using gs by auto
qed

lemma has_checkpoint_cases:
  "w [HasRegisteredWeightCheckpoint] = Reply True \<Longrightarrow> get_weight_update_targets (Some PENDING_WEIGHTS) reg = Inr (targets, gs) \<Longrightarrow>
    targets \<noteq> [] \<Longrightarrow> run_update_calls w other 0 (update_calls targets) reg [HasRegisteredWeightCheckpoint] = (ok, reg1, h) \<Longrightarrow>
    update_pending_rollout_weights w other reg =
      rbind (mark_worker_groups_lifecycle_state (Some gs) PENDING_WEIGHTS (if ok then ACTIVE else INACTIVE) reg1)
        (\<lambda>(reg'', events). Inr (reg'', if ok then gs else [], events, h))"
  by (simp add: update_pending_rollout_weights_def)


lemma keeps_pending_id: "keeps_pending (\<lambda>reg. reg)"
  by (simp add: keeps_pending_def)

definition pending_registry :: "nat registry" where
  "pending_registry = fst (set_groups_state [registry_group example_registry [0, 2]] PENDING_WEIGHTS None example_registry)"

lemma pending_registry_ok: "registry_ok pending_registry" "group_state pending_registry [0, 2] = Some PENDING_WEIGHTS"
proof -
  have g: "group_ranks ` set [registry_group example_registry [0, 2]] \<subseteq> reg_groups example_registry"
    by (simp add: example_registry_ok(2))
  have "group_state example_registry [0, 2] \<noteq> None"
    using group_state_Some_iff [OF example_registry_ok(1)] by (simp add: example_registry_ok(2))
  then show "registry_ok pending_registry" "group_state pending_registry [0, 2] = Some PENDING_WEIGHTS"
    using abs_move_ok [OF example_registry_ok(1) g, of PENDING_WEIGHTS None] by (auto simp: pending_registry_def abs_move_def)
qed


section \<open>Marking failed workers keeps the registry in order\<close>

text \<open>
  The checks of \<open>run_once\<close> never fail on a well-formed registry; a group is taken out of service
  exactly when one of its active workers has just reached the failure threshold, and then with
  all its workers.
\<close>

lemma mark_failed_workers_ok:
  assumes ok: "registry_ok (hs_registry s)"
  shows "\<exists>s' groups. mark_failed_workers w stop s = Inr (s', groups) \<and> registry_ok (hs_registry s') \<and>
    (let failed = fst (update_failed_ranks (fst (check_active_workers_health w (hs_registry s) [])) (hs_tracker s)) in
     group_state (hs_registry s') = (if stop then group_state (hs_registry s) else abs_mark failed (group_state (hs_registry s))) \<and>
     (case groups of None \<Rightarrow> stop \<or> failed = []
      | Some gs \<Rightarrow> group_ranks ` set gs = {g \<in> reg_groups (hs_registry s). set g \<inter> set failed \<noteq> {}}))"
proof -
  obtain results h where c: "check_active_workers_health w (hs_registry s) [] = (results, h)" by fastforce
  obtain failed tr where u: "update_failed_ranks results (hs_tracker s) = (failed, tr)" by fastforce
  show ?thesis
  proof (cases "failed = [] \<or> stop")
    case True
    then have "mark_failed_workers w stop s = Inr (s\<lparr>hs_tracker := tr\<rparr>, None)" by (simp add: mark_failed_workers_def c u)
    moreover have "abs_mark [] m = m" for m :: group_machine by (simp add: abs_mark_def)
    ultimately show ?thesis using True ok by (auto simp: Let_def c u)
  next
    case False
    obtain reg gs where m: "mark_unhealthy_ranks failed (hs_registry s) = Inr (reg, map (registry_group reg) gs)" "registry_ok reg"
      "group_state reg = abs_mark failed (group_state (hs_registry s))"
      "set gs = {g \<in> reg_groups (hs_registry s). set g \<inter> set failed \<noteq> {}}"
      using abs_mark_ok [OF ok, of failed] by blast
    then have "mark_failed_workers w stop s = Inr (s\<lparr>hs_registry := reg, hs_tracker := tr\<rparr>, Some (map (registry_group reg) gs))"
      using False by (simp add: mark_failed_workers_def c u)
    then show ?thesis using False m(2-4) by (auto simp: Let_def c u image_image)
  qed
qed

end
