(* ===== verification/HealthThreads.thy ===== *)
theory HealthThreads
  imports Recovery
begin

text \<open>
  The threads of \<open>RolloutHealthManager\<close> (\<open>rl/rollout/health_manager.py\<close>) as a step relation: the
  background health thread (\<open>run_once\<close>), the lifecycle calls that \<open>RolloutController\<close> hands to
  worker threads (\<open>restart_inactive_workers\<close>, \<open>shutdown_inactive_workers\<close>), the controller's
  \<open>pause_generation\<close> and \<open>continue_generation\<close>, \<open>stop\<close>, and the promotion of recovered groups by the
  trainer. Every step is one access to the lifecycle lock, the pause, stop and recovery-done
  events or the registry; a thread's program counter holds its local variables.

  The registry is its abstract machine on lifecycle groups, which \<open>Registry\<close> proves the code
  implements. What a health check or a restart decides is nondeterministic here; \<open>Health\<close> and
  \<open>Recovery\<close> say how it is decided.
\<close>

section \<open>States and steps\<close>

datatype tid = HealthThread | Caller nat

datatype lifecycle_call = RestartCall | ShutdownCall

text \<open>
  The boolean in a program counter is the local \<open>was_paused\<close> of
  \<open>_background_health_checks_paused\<close>; the list of \<open>Finalizing\<close> holds the claimed groups not yet
  recorded, the list of \<open>Checking\<close> the groups of the workers being checked.
\<close>

datatype pc =
    Idle
  | Locked
  | Checking "int list list"
  | Marked
  | Unlocking
  | Entering lifecycle_call
  | Pausing lifecycle_call
  | Acquiring lifecycle_call bool
  | Holding lifecycle_call bool
  | Finalizing bool "int list list"
  | Releasing lifecycle_call bool
  | Resuming lifecycle_call bool
  | Signalling

datatype driver_pc = Serving | PauseRequested | LockSeenFree | GenerationPaused

record hm_state =
  pc_of :: "tid \<Rightarrow> pc"
  lifecycle_lock :: "tid option"
  pause_event :: bool
  stop_event :: bool
  recovery_done :: bool
  hm_groups :: group_machine
  driver :: driver_pc

definition hm_init :: "group_machine \<Rightarrow> hm_state" where
  "hm_init m = \<lparr>pc_of = (\<lambda>_. Idle), lifecycle_lock = None, pause_event = True, stop_event = False,
     recovery_done = True, hm_groups = m, driver = Serving\<rparr>"

abbreviation goto :: "tid \<Rightarrow> pc \<Rightarrow> hm_state \<Rightarrow> hm_state" where
  "goto t p s \<equiv> s\<lparr>pc_of := (pc_of s)(t := p)\<rparr>"

definition groups_in :: "WorkerLifecycleState \<Rightarrow> group_machine \<Rightarrow> int list set" where
  "groups_in st m = {g. m g = Some st}"

text \<open>\<open>ks\<close>: the lifecycle calls that the controller's clients make.\<close>

inductive hm_step :: "lifecycle_call set \<Rightarrow> hm_state \<Rightarrow> hm_state \<Rightarrow> bool" for ks where
  run_lock: "pc_of s HealthThread = Idle \<Longrightarrow> lifecycle_lock s = None \<Longrightarrow>
    hm_step ks s (goto HealthThread Locked s\<lparr>lifecycle_lock := Some HealthThread\<rparr>)"
| run_paused: "pc_of s HealthThread = Locked \<Longrightarrow> pause_event s \<Longrightarrow>
    hm_step ks s (goto HealthThread Idle s\<lparr>lifecycle_lock := None\<rparr>)"
| run_check: "pc_of s HealthThread = Locked \<Longrightarrow> \<not> pause_event s \<Longrightarrow> set gs = groups_in ACTIVE (hm_groups s) \<Longrightarrow>
    hm_step ks s (goto HealthThread (Checking gs) s)"
| run_nothing: "pc_of s HealthThread = Checking gs \<Longrightarrow>
    hm_step ks s (goto HealthThread Idle s\<lparr>lifecycle_lock := None\<rparr>)"
| run_mark: "pc_of s HealthThread = Checking gs \<Longrightarrow> failed \<noteq> {} \<Longrightarrow> failed \<subseteq> set gs \<Longrightarrow>
    hm_step ks s (goto HealthThread Marked s\<lparr>hm_groups := abs_move failed INACTIVE None (hm_groups s)\<rparr>)"
| run_clear: "pc_of s HealthThread = Marked \<Longrightarrow>
    hm_step ks s (goto HealthThread Unlocking s\<lparr>recovery_done := False\<rparr>)"
| run_unlock: "pc_of s HealthThread = Unlocking \<Longrightarrow>
    hm_step ks s (goto HealthThread (Entering RestartCall) s\<lparr>lifecycle_lock := None\<rparr>)"
| call_restart: "pc_of s (Caller n) = Idle \<Longrightarrow> RestartCall \<in> ks \<Longrightarrow>
    hm_step ks s (goto (Caller n) (Entering RestartCall) s\<lparr>recovery_done := False\<rparr>)"
| call_shutdown: "pc_of s (Caller n) = Idle \<Longrightarrow> ShutdownCall \<in> ks \<Longrightarrow>
    hm_step ks s (goto (Caller n) (Entering ShutdownCall) s)"
| enter_paused: "pc_of s t = Entering k \<Longrightarrow> pause_event s \<Longrightarrow> hm_step ks s (goto t (Acquiring k True) s)"
| enter_running: "pc_of s t = Entering k \<Longrightarrow> \<not> pause_event s \<Longrightarrow> hm_step ks s (goto t (Pausing k) s)"
| set_pause: "pc_of s t = Pausing k \<Longrightarrow> hm_step ks s (goto t (Acquiring k False) s\<lparr>pause_event := True\<rparr>)"
| acquire: "pc_of s t = Acquiring k wp \<Longrightarrow> lifecycle_lock s = None \<Longrightarrow>
    hm_step ks s (goto t (Holding k wp) s\<lparr>lifecycle_lock := Some t\<rparr>)"
| hold_stop: "pc_of s t = Holding k wp \<Longrightarrow> stop_event s \<Longrightarrow> hm_step ks s (goto t (Releasing k wp) s)"
| hold_claim: "pc_of s t = Holding RestartCall wp \<Longrightarrow> \<not> stop_event s \<Longrightarrow>
    set gs = groups_in INACTIVE (hm_groups s) \<Longrightarrow> distinct gs \<Longrightarrow> hm_step ks s (goto t (Finalizing wp gs) s)"
| hold_shutdown: "pc_of s t = Holding ShutdownCall wp \<Longrightarrow> \<not> stop_event s \<Longrightarrow>
    hm_step ks s (goto t (Releasing ShutdownCall wp) s)"
| finalize: "pc_of s t = Finalizing wp (g # gs) \<Longrightarrow>
    hm_step ks s (goto t (Finalizing wp gs) s\<lparr>hm_groups :=
      abs_move {g} (if recovered then PENDING_WEIGHTS else INACTIVE) None (hm_groups s)\<rparr>)"
| finalize_stop: "pc_of s t = Finalizing wp gs \<Longrightarrow> stop_event s \<Longrightarrow>
    hm_step ks s (goto t (Releasing RestartCall wp) s\<lparr>hm_groups := abs_move (set gs) INACTIVE None (hm_groups s)\<rparr>)"
| finalize_done: "pc_of s t = Finalizing wp [] \<Longrightarrow> hm_step ks s (goto t (Releasing RestartCall wp) s)"
| release: "pc_of s t = Releasing k wp \<Longrightarrow> hm_step ks s (goto t (Resuming k wp) s\<lparr>lifecycle_lock := None\<rparr>)"
| resume: "pc_of s t = Resuming k wp \<Longrightarrow>
    hm_step ks s (goto t (if k = RestartCall then Signalling else Idle) s\<lparr>pause_event := pause_event s \<and> wp\<rparr>)"
| signal: "pc_of s t = Signalling \<Longrightarrow> hm_step ks s (goto t Idle s\<lparr>recovery_done := True\<rparr>)"
| pause_request: "driver s = Serving \<Longrightarrow> hm_step ks s (s\<lparr>driver := PauseRequested, pause_event := True\<rparr>)"
| pause_lock: "driver s = PauseRequested \<Longrightarrow> lifecycle_lock s = None \<Longrightarrow> hm_step ks s (s\<lparr>driver := LockSeenFree\<rparr>)"
| pause_done: "driver s = LockSeenFree \<Longrightarrow> recovery_done s \<Longrightarrow> hm_step ks s (s\<lparr>driver := GenerationPaused\<rparr>)"
| pause_timeout: "driver s = PauseRequested \<or> driver s = LockSeenFree \<Longrightarrow> hm_step ks s (s\<lparr>driver := Serving\<rparr>)"
| continue_generation: "driver s = GenerationPaused \<or> driver s = Serving \<Longrightarrow>
    hm_step ks s (s\<lparr>driver := Serving, pause_event := False\<rparr>)"
| promote: "target \<noteq> PENDING_WEIGHTS \<Longrightarrow>
    hm_step ks s (s\<lparr>hm_groups := abs_move gset target (Some PENDING_WEIGHTS) (hm_groups s)\<rparr>)"
| stop_request: "hm_step ks s (s\<lparr>stop_event := True, pause_event := False\<rparr>)"
| stop_joined: "stop_event s \<Longrightarrow> pc_of s HealthThread = Idle \<Longrightarrow> hm_step ks s (s\<lparr>pause_event := True\<rparr>)"

inductive hm_reach :: "lifecycle_call set \<Rightarrow> hm_state \<Rightarrow> hm_state \<Rightarrow> bool" for ks s where
  start: "hm_reach ks s s"
| step: "hm_reach ks s s' \<Longrightarrow> hm_step ks s' s'' \<Longrightarrow> hm_reach ks s s''"

section \<open>Mutual exclusion and the legal moves of a group\<close>

fun holds_lock :: "pc \<Rightarrow> bool" where
  "holds_lock Locked = True"
| "holds_lock (Checking gs) = True"
| "holds_lock Marked = True"
| "holds_lock Unlocking = True"
| "holds_lock (Holding k wp) = True"
| "holds_lock (Finalizing wp gs) = True"
| "holds_lock (Releasing k wp) = True"
| "holds_lock _ = False"

text \<open>What a thread knows about the groups it is working on.\<close>

fun knows :: "group_machine \<Rightarrow> pc \<Rightarrow> bool" where
  "knows m (Checking gs) = (\<forall>g \<in> set gs. m g = Some ACTIVE)"
| "knows m (Finalizing wp gs) = (distinct gs \<and> (\<forall>g \<in> set gs. m g = Some INACTIVE))"
| "knows m _ = True"

fun health_only :: "pc \<Rightarrow> bool" where
  "health_only Locked = True"
| "health_only (Checking gs) = True"
| "health_only Marked = True"
| "health_only Unlocking = True"
| "health_only _ = False"

definition hm_inv :: "hm_state \<Rightarrow> bool" where
  "hm_inv s =
    ((\<forall>t. lifecycle_lock s = Some t \<longleftrightarrow> holds_lock (pc_of s t)) \<and>
     (\<forall>t. knows (hm_groups s) (pc_of s t)) \<and>
     (\<forall>n. \<not> health_only (pc_of s (Caller n))))"

lemma knows_no_lock: "\<not> holds_lock p \<Longrightarrow> knows m p"
  by (cases p) auto

lemma knows_promote: "knows m p \<Longrightarrow> knows (abs_move gset target (Some PENDING_WEIGHTS) m) p"
  by (cases p) (auto simp: abs_move_def)

lemma hm_inv_init: "hm_inv (hm_init m)"
  by (simp add: hm_inv_def hm_init_def)

text \<open>
  A step of a thread that changes only its own program counter, the lock it owns and the groups
  it works on keeps the invariant.
\<close>

lemma hm_inv_goto:
  assumes inv: "hm_inv s" and "pc_of s' = (pc_of s)(t := p)"
    and owner: "lifecycle_lock s' = (if holds_lock p then Some t else if lifecycle_lock s = Some t then None else lifecycle_lock s)"
    and free: "lifecycle_lock s = None \<or> lifecycle_lock s = Some t \<or> \<not> holds_lock p \<and> hm_groups s' = hm_groups s"
    and knows: "knows (hm_groups s') p" and health: "health_only p \<Longrightarrow> t = HealthThread"
  shows "hm_inv s'"
proof -
  have lock: "lifecycle_lock s = Some u \<longleftrightarrow> holds_lock (pc_of s u)" for u using inv by (simp add: hm_inv_def)
  have "lifecycle_lock s' = Some u \<longleftrightarrow> holds_lock (pc_of s u)" if "u \<noteq> t" for u
    using lock [of u] free that unfolding owner by auto
  moreover have "lifecycle_lock s' = Some t \<longleftrightarrow> holds_lock p" unfolding owner by simp
  moreover have "knows (hm_groups s') (pc_of s u)" if "u \<noteq> t" for u
  proof (cases "holds_lock (pc_of s u)")
    case True
    then have "hm_groups s' = hm_groups s" using lock [of u] free that by auto
    then show ?thesis using inv by (simp add: hm_inv_def)
  qed (rule knows_no_lock)
  ultimately show ?thesis unfolding hm_inv_def assms(2)
    using knows health inv by (auto simp: hm_inv_def)
qed

lemma hm_inv_lock: "hm_inv s \<Longrightarrow> pc_of s t = p \<Longrightarrow> lifecycle_lock s = Some t \<longleftrightarrow> holds_lock p"
  by (auto simp: hm_inv_def)

lemma hm_inv_knows: "hm_inv s \<Longrightarrow> pc_of s t = p \<Longrightarrow> knows (hm_groups s) p"
  by (auto simp: hm_inv_def)

lemma hm_inv_events [simp]:
  "hm_inv (s\<lparr>recovery_done := b\<rparr>) = hm_inv s" "hm_inv (s\<lparr>pause_event := b\<rparr>) = hm_inv s"
  "hm_inv (s\<lparr>stop_event := b\<rparr>) = hm_inv s" "hm_inv (s\<lparr>driver := d\<rparr>) = hm_inv s"
  by (simp_all add: hm_inv_def)

lemma hm_inv_move:
  assumes "pc_of s t = q" "hm_inv s" "holds_lock q = holds_lock p" "knows (hm_groups s) p" "health_only p \<Longrightarrow> t = HealthThread"
  shows "hm_inv (goto t p s)"
  by (rule hm_inv_goto [OF assms(2), of _ t p]) (use assms hm_inv_lock [OF assms(2,1)] in simp_all)

lemma hm_inv_take:
  assumes "lifecycle_lock s = None" "hm_inv s" "holds_lock p" "knows (hm_groups s) p" "health_only p \<Longrightarrow> t = HealthThread"
  shows "hm_inv (goto t p s\<lparr>lifecycle_lock := Some t\<rparr>)"
  by (rule hm_inv_goto [OF assms(2), of _ t p]) (use assms in simp_all)

lemma hm_inv_drop:
  assumes "pc_of s t = q" "hm_inv s" "holds_lock q" "\<not> holds_lock p" "health_only p \<Longrightarrow> t = HealthThread"
  shows "hm_inv (goto t p s\<lparr>lifecycle_lock := None\<rparr>)"
  by (rule hm_inv_goto [OF assms(2), of _ t p])
    (use assms hm_inv_lock [OF assms(2,1)] knows_no_lock in simp_all)

lemma hm_inv_record:
  assumes "pc_of s t = q" "hm_inv s" "holds_lock q" "holds_lock p" "knows m p" "health_only p \<Longrightarrow> t = HealthThread"
  shows "hm_inv (goto t p s\<lparr>hm_groups := m\<rparr>)"
  by (rule hm_inv_goto [OF assms(2), of _ t p]) (use assms hm_inv_lock [OF assms(2,1)] in simp_all)

lemma hm_step_inv: "hm_step ks s s' \<Longrightarrow> hm_inv s \<Longrightarrow> hm_inv s'"
proof (induction rule: hm_step.induct)
  case (finalize s t wp g gs recovered)
  from hm_inv_knows [OF finalize(2,1)] show ?case
    by (intro hm_inv_record [OF finalize]) (auto simp: abs_move_def)
next
  case (promote target s gset)
  then show ?case by (simp add: hm_inv_def knows_promote)
next
  case (resume s t k wp)
  then show ?case by (auto elim!: hm_inv_move)
next
  case (signal s t)
  then show ?case by (auto elim!: hm_inv_move)
qed (simp_all, (erule hm_inv_move hm_inv_take hm_inv_drop hm_inv_record; simp add: groups_in_def)+)

lemma hm_reach_inv: "hm_reach ks s s' \<Longrightarrow> hm_inv s \<Longrightarrow> hm_inv s'"
  by (induction rule: hm_reach.induct) (auto intro: hm_step_inv)

definition legal_move :: "WorkerLifecycleState option \<Rightarrow> WorkerLifecycleState option \<Rightarrow> bool" where
  "legal_move a b =
    (a = b \<or> (a, b) \<in> {(Some ACTIVE, Some INACTIVE), (Some INACTIVE, Some PENDING_WEIGHTS),
      (Some PENDING_WEIGHTS, Some ACTIVE), (Some PENDING_WEIGHTS, Some INACTIVE)})"

lemma legal_same [simp]: "legal_move a a"
  by (simp add: legal_move_def)

lemma hm_step_legal: "hm_step ks s s' \<Longrightarrow> hm_inv s \<Longrightarrow> legal_move (hm_groups s g) (hm_groups s' g)"
proof (induction rule: hm_step.induct)
  case (run_mark s gs failed)
  with hm_inv_knows [OF run_mark.prems run_mark(1)] show ?case by (auto simp: abs_move_def legal_move_def)
next
  case (finalize s t wp g' gs recovered)
  with hm_inv_knows [OF finalize(2,1)] show ?case by (auto simp: abs_move_def legal_move_def)
next
  case (finalize_stop s t wp gs)
  with hm_inv_knows [OF finalize_stop.prems finalize_stop(1)] show ?case by (auto simp: abs_move_def legal_move_def)
next
  case (promote target s gset)
  then show ?case by (cases target) (auto simp: abs_move_def legal_move_def)
qed simp_all

text \<open>C33. 
  In every interleaving of the health thread, the controller's lifecycle calls and the trainer's
  promotions, at most one thread is inside a section protected by the lifecycle lock, and a step
  moves a lifecycle group only from active to inactive, from inactive to pending weights, and
  from pending weights to active or back to inactive: no group returns to service without
  having waited for its weights.
\<close>

theorem lifecycle_moves_legal:
  assumes "hm_reach ks (hm_init m) s" and "hm_step ks s s'"
  shows "legal_move (hm_groups s g) (hm_groups s' g) \<and>
    (if holds_lock (pc_of s t) \<and> holds_lock (pc_of s u) then t = u else True)"
proof -
  have inv: "hm_inv s" using hm_reach_inv [OF assms(1) hm_inv_init] .
  then show ?thesis using hm_step_legal [OF assms(2) inv, of g]
    using hm_inv_lock [OF inv, of t] hm_inv_lock [OF inv, of u] by auto
qed

section \<open>What a pause guarantees\<close>

fun recovering :: "pc \<Rightarrow> bool" where
  "recovering Unlocking = True"
| "recovering (Entering k) = (k = RestartCall)"
| "recovering (Pausing k) = (k = RestartCall)"
| "recovering (Acquiring k wp) = (k = RestartCall)"
| "recovering (Holding k wp) = (k = RestartCall)"
| "recovering (Finalizing wp gs) = True"
| "recovering (Releasing k wp) = (k = RestartCall)"
| "recovering (Resuming k wp) = (k = RestartCall)"
| "recovering Signalling = True"
| "recovering _ = False"

text \<open>Without restart calls from clients only the health thread recovers, and it says so.\<close>

definition recovery_signalled :: "hm_state \<Rightarrow> bool" where
  "recovery_signalled s =
    ((recovery_done s \<longleftrightarrow> \<not> recovering (pc_of s HealthThread)) \<and> (\<forall>n. \<not> recovering (pc_of s (Caller n))))"

lemma recovery_signalled_goto:
  assumes "recovery_signalled s" "pc_of s t = q" "recovering p = recovering q" "recovery_done s' = recovery_done s"
    and "pc_of s' = (pc_of s)(t := p)"
  shows "recovery_signalled s'"
  using assms by (cases t) (auto simp: recovery_signalled_def)

lemma recovery_signalled_events [simp]:
  "recovery_signalled (s\<lparr>lifecycle_lock := l\<rparr>) = recovery_signalled s" "recovery_signalled (s\<lparr>pause_event := b\<rparr>) = recovery_signalled s"
  "recovery_signalled (s\<lparr>stop_event := b\<rparr>) = recovery_signalled s" "recovery_signalled (s\<lparr>driver := d\<rparr>) = recovery_signalled s"
  "recovery_signalled (s\<lparr>hm_groups := m\<rparr>) = recovery_signalled s"
  by (simp_all add: recovery_signalled_def)

lemma recovery_signalled_move:
  "pc_of s t = q \<Longrightarrow> recovery_signalled s \<Longrightarrow> recovering p = recovering q \<Longrightarrow> recovery_signalled (goto t p s)"
  by (rule recovery_signalled_goto) auto

lemma recovery_signalled_step:
  "hm_step {ShutdownCall} s s' \<Longrightarrow> recovery_signalled s \<Longrightarrow> recovery_signalled s'"
proof (induction rule: hm_step.induct)
  case (run_clear s)
  then show ?case by (simp add: recovery_signalled_def)
next
  case (signal s t)
  then have "recovering (pc_of s t)" by simp
  with signal.prems have "t = HealthThread" by (cases t) (auto simp: recovery_signalled_def)
  then show ?case using signal.prems by (simp add: recovery_signalled_def)
next
  case (resume s t k wp)
  then show ?case by (auto elim!: recovery_signalled_move)
qed (simp_all, (erule recovery_signalled_move; simp)+)

lemma recovery_signalled_init: "recovery_signalled (hm_init m)"
  by (simp add: recovery_signalled_def hm_init_def)

lemma recovery_signalled_reach: "hm_reach {ShutdownCall} (hm_init m) s \<Longrightarrow> recovery_signalled s"
  by (induction rule: hm_reach.induct)
    (simp_all add: recovery_signalled_init recovery_signalled_step)

text \<open>The threads that will clear the pause event when they leave their lifecycle operation.\<close>

fun will_resume :: "pc \<Rightarrow> bool" where
  "will_resume (Pausing k) = True"
| "will_resume (Acquiring k wp) = (\<not> wp)"
| "will_resume (Holding k wp) = (\<not> wp)"
| "will_resume (Finalizing wp gs) = (\<not> wp)"
| "will_resume (Releasing k wp) = (\<not> wp)"
| "will_resume (Resuming k wp) = (\<not> wp)"
| "will_resume _ = False"

definition no_resumers :: "hm_state \<Rightarrow> bool" where
  "no_resumers s = (\<forall>t. \<not> will_resume (pc_of s t))"

definition paused_for_good :: "hm_state \<Rightarrow> bool" where
  "paused_for_good s = (pause_event s \<and> no_resumers s)"

lemma no_resumers_events [simp]:
  "no_resumers (s\<lparr>lifecycle_lock := l\<rparr>) = no_resumers s" "no_resumers (s\<lparr>pause_event := b\<rparr>) = no_resumers s"
  "no_resumers (s\<lparr>stop_event := b\<rparr>) = no_resumers s" "no_resumers (s\<lparr>driver := d\<rparr>) = no_resumers s"
  "no_resumers (s\<lparr>hm_groups := m\<rparr>) = no_resumers s" "no_resumers (s\<lparr>recovery_done := b\<rparr>) = no_resumers s"
  by (simp_all add: no_resumers_def)

lemma no_resumers_move:
  "pc_of s t = q \<Longrightarrow> no_resumers s \<Longrightarrow> \<not> will_resume q \<longrightarrow> \<not> will_resume p \<Longrightarrow> no_resumers (goto t p s)"
  by (auto simp: no_resumers_def)

lemma no_resumers_not: "pc_of s t = q \<Longrightarrow> no_resumers s \<Longrightarrow> \<not> will_resume q"
  by (auto simp: no_resumers_def)

lemma no_resumers_step: "hm_step ks s s' \<Longrightarrow> no_resumers s \<Longrightarrow> pause_event s \<Longrightarrow> no_resumers s'"
proof (induction rule: hm_step.induct)
  case (set_pause s t k)
  then show ?case using no_resumers_not [OF set_pause(1,2)] by simp
next
  case (resume s t k wp)
  then show ?case by (auto elim!: no_resumers_move)
next
  case (signal s t)
  then show ?case by (auto elim!: no_resumers_move)
qed (simp_all, (erule no_resumers_move; simp)+)

lemma pause_event_step:
  "hm_step ks s s' \<Longrightarrow> paused_for_good s \<Longrightarrow> pause_event s' \<or> stop_event s' \<or> driver s' = Serving"
proof (induction rule: hm_step.induct)
  case (resume s t k wp)
  with no_resumers_not [OF resume(1)] show ?case by (simp add: paused_for_good_def)
qed (simp_all add: paused_for_good_def)

text \<open>Steps during which the controller neither continues generation nor stops the manager.\<close>

inductive stays_paused :: "lifecycle_call set \<Rightarrow> hm_state \<Rightarrow> hm_state \<Rightarrow> bool" for ks s where
  pause_start: "stays_paused ks s s"
| pause_step: "stays_paused ks s s' \<Longrightarrow> hm_step ks s' s'' \<Longrightarrow> driver s'' = GenerationPaused \<Longrightarrow> \<not> stop_event s'' \<Longrightarrow>
    stays_paused ks s s''"

fun is_checking :: "pc \<Rightarrow> bool" where
  "is_checking (Checking gs) = True"
| "is_checking _ = False"

lemma checking_needs_unpaused:
  "hm_step ks s s' \<Longrightarrow> is_checking (pc_of s' t) \<Longrightarrow> is_checking (pc_of s t) \<or> \<not> pause_event s"
  by (induction rule: hm_step.induct) (auto split: if_splits)

text \<open>
  When generation is paused and no thread is inside a lifecycle operation that began before the
  pause, then, whatever threads run and whichever lifecycle operations are called, the pause
  lasts until the controller continues generation or stops the manager, and no health check
  starts meanwhile.
\<close>

theorem pause_holds:
  assumes "paused_for_good s" and "driver s = GenerationPaused" and "stays_paused ks s s'"
    and "\<not> is_checking (pc_of s HealthThread)"
  shows "pause_event s' \<and> \<not> is_checking (pc_of s' HealthThread)"
proof -
  from assms(3,1,4) have "paused_for_good s' \<and> \<not> is_checking (pc_of s' HealthThread)"
  proof (induction rule: stays_paused.induct)
    case (pause_step s' s'')
    then have s': "paused_for_good s'" "\<not> is_checking (pc_of s' HealthThread)" by auto
    then have "pause_event s''" using pause_event_step [OF pause_step.hyps(2)] pause_step.hyps(3,4) by auto
    then have "paused_for_good s''" using no_resumers_step [OF pause_step.hyps(2)] s'(1) by (simp add: paused_for_good_def)
    moreover have "\<not> is_checking (pc_of s'' HealthThread)"
      using checking_needs_unpaused [OF pause_step.hyps(2), of HealthThread] s' by (auto simp: paused_for_good_def)
    ultimately show ?case ..
  qed simp
  then show ?thesis by (simp add: paused_for_good_def)
qed

text \<open>A call of \<open>pause_generation\<close> returns only when the health thread is not recovering.\<close>

lemma pause_done_no_recovery:
  assumes "hm_reach {ShutdownCall} (hm_init m) s" "driver s = LockSeenFree" "hm_step {ShutdownCall} s s'" "driver s' = GenerationPaused"
  shows "\<not> recovering (pc_of s HealthThread)"
proof -
  have "recovery_done s" using assms(3,2,4) by (induction rule: hm_step.induct) auto
  then show ?thesis using recovery_signalled_reach [OF assms(1)] by (simp add: recovery_signalled_def)
qed

section \<open>A pause requested during a recovery is lost\<close>

text \<open>A run of the health thread and the controller, other threads idle.\<close>

definition two_groups :: group_machine where
  "two_groups = (\<lambda>g. if g = [0] then Some ACTIVE else if g = [1] then Some ACTIVE else None)"

definition run_at :: "pc \<Rightarrow> tid option \<Rightarrow> bool \<Rightarrow> bool \<Rightarrow> WorkerLifecycleState \<Rightarrow> driver_pc \<Rightarrow> hm_state" where
  "run_at p l paused finished st d =
    \<lparr>pc_of = (\<lambda>_. Idle)(HealthThread := p), lifecycle_lock = l, pause_event = paused, stop_event = False,
     recovery_done = finished, hm_groups = (\<lambda>g. if g = [0] then Some st else if g = [1] then Some ACTIVE else None), driver = d\<rparr>"

abbreviation hlock :: "tid option" where "hlock \<equiv> Some HealthThread"

lemma run_at_init: "hm_init two_groups = run_at Idle None True True ACTIVE Serving"
  by (auto simp: run_at_def hm_init_def two_groups_def)

lemma run_at_upd:
  "goto HealthThread p (run_at q l pa f st d) = run_at p l pa f st d"
  "(run_at q l pa f st d)\<lparr>lifecycle_lock := l'\<rparr> = run_at q l' pa f st d"
  "(run_at q l pa f st d)\<lparr>pause_event := pa'\<rparr> = run_at q l pa' f st d"
  "(run_at q l pa f st d)\<lparr>recovery_done := f'\<rparr> = run_at q l pa f' st d"
  "(run_at q l pa f st d)\<lparr>driver := d'\<rparr> = run_at q l pa f st d'"
  "(run_at q l pa f st d)\<lparr>hm_groups := abs_move {[0]} st' None (hm_groups (run_at q' l' pa' f' st d'))\<rparr> = run_at q l pa f st' d"
  by (auto simp: run_at_def abs_move_def)

lemma run_at_sel [simp]:
  "pc_of (run_at q l pa f st d) HealthThread = q" "lifecycle_lock (run_at q l pa f st d) = l" "pause_event (run_at q l pa f st d) = pa"
  "recovery_done (run_at q l pa f st d) = f" "driver (run_at q l pa f st d) = d" "\<not> stop_event (run_at q l pa f st d)"
  "groups_in st' (hm_groups (run_at q l pa f st d)) = (if st' = st then {[0]} else {}) \<union> (if st' = ACTIVE then {[1]} else {})"
  by (auto simp: run_at_def groups_in_def)

lemma run_at_groups: "hm_groups (run_at q l pa f st d) [1] = Some ACTIVE"
  by (simp add: run_at_def)

lemma run_step: "hm_reach ks s0 s \<Longrightarrow> hm_step ks s s' \<Longrightarrow> s' = s'' \<Longrightarrow> hm_reach ks s0 s''"
  by (auto intro: hm_reach.step)

lemma recovery_begins:
  "hm_reach ks (run_at Idle None True True ACTIVE Serving)
    (run_at (Acquiring RestartCall False) None True False INACTIVE Serving)" (is "hm_reach ks ?init _")
proof -
  have "hm_reach ks ?init (run_at Idle None False True ACTIVE Serving)"
    by (rule run_step [OF hm_reach.start hm_step.continue_generation]) (simp_all add: run_at_upd)
  then have "hm_reach ks ?init (run_at Locked hlock False True ACTIVE Serving)"
    by (rule run_step [OF _ hm_step.run_lock]) (simp_all add: run_at_upd)
  then have "hm_reach ks ?init (run_at (Checking [[0], [1]]) hlock False True ACTIVE Serving)"
    by (rule run_step [OF _ hm_step.run_check [where gs = "[[0], [1]]"]]) (simp_all add: run_at_upd insert_commute)
  then have "hm_reach ks ?init (run_at Marked hlock False True INACTIVE Serving)"
    by (rule run_step [OF _ hm_step.run_mark [where gs = "[[0], [1]]" and failed = "{[0]}"]]) (simp_all add: run_at_upd)
  then have "hm_reach ks ?init (run_at Unlocking hlock False False INACTIVE Serving)"
    by (rule run_step [OF _ hm_step.run_clear]) (simp_all add: run_at_upd)
  then have "hm_reach ks ?init (run_at (Entering RestartCall) None False False INACTIVE Serving)"
    by (rule run_step [OF _ hm_step.run_unlock]) (simp_all add: run_at_upd)
  then have "hm_reach ks ?init (run_at (Pausing RestartCall) None False False INACTIVE Serving)"
    by (rule run_step [OF _ hm_step.enter_running [where t = HealthThread and k = RestartCall]]) (simp_all add: run_at_upd)
  then show ?thesis
    by (rule run_step [OF _ hm_step.set_pause [where t = HealthThread and k = RestartCall]]) (simp_all add: run_at_upd)
qed

lemma recovery_ends:
  assumes "hm_reach ks s0 (run_at (Acquiring RestartCall False) None True False INACTIVE d)"
  shows "hm_reach ks s0 (run_at Idle None False True PENDING_WEIGHTS d)"
proof -
  from assms have "hm_reach ks s0 (run_at (Holding RestartCall False) hlock True False INACTIVE d)"
    by (rule run_step [OF _ hm_step.acquire [where t = HealthThread and k = RestartCall and wp = False]]) (simp_all add: run_at_upd)
  then have "hm_reach ks s0 (run_at (Finalizing False [[0]]) hlock True False INACTIVE d)"
    by (rule run_step [OF _ hm_step.hold_claim [where t = HealthThread and wp = False and gs = "[[0]]"]]) (simp_all add: run_at_upd)
  then have "hm_reach ks s0 (run_at (Finalizing False []) hlock True False PENDING_WEIGHTS d)"
    by (rule run_step [OF _ hm_step.finalize [where t = HealthThread and wp = False and g = "[0]" and gs = "[]" and recovered = True]])
      (simp_all add: run_at_upd)
  then have "hm_reach ks s0 (run_at (Releasing RestartCall False) hlock True False PENDING_WEIGHTS d)"
    by (rule run_step [OF _ hm_step.finalize_done [where t = HealthThread and wp = False]]) (simp_all add: run_at_upd)
  then have "hm_reach ks s0 (run_at (Resuming RestartCall False) None True False PENDING_WEIGHTS d)"
    by (rule run_step [OF _ hm_step.release [where t = HealthThread and k = RestartCall and wp = False]]) (simp_all add: run_at_upd)
  then have "hm_reach ks s0 (run_at Signalling None False False PENDING_WEIGHTS d)"
    by (rule run_step [OF _ hm_step.resume [where t = HealthThread and k = RestartCall and wp = False]]) (simp_all add: run_at_upd)
  then show ?thesis
    by (rule run_step [OF _ hm_step.signal [where t = HealthThread]]) (simp_all add: run_at_upd)
qed

lemma run_at_upd_upd: "(run_at q l pa f st d)\<lparr>driver := d', pause_event := pa'\<rparr> = run_at q l pa' f st d'"
  by (simp add: run_at_def)


theorem lifecycle_moves_legal_witness:
  "\<exists>s s'. hm_step {ShutdownCall} s s' \<and> hm_groups s [0] = Some INACTIVE \<and> hm_groups s' [0] = Some INACTIVE \<and>
    legal_move (hm_groups s [0]) (hm_groups s' [0])"
proof -
  let ?s = "run_at (Acquiring RestartCall False) None True False INACTIVE Serving"
  have step: "hm_step {ShutdownCall} ?s (run_at (Holding RestartCall False) hlock True False INACTIVE Serving)"
    using hm_step.acquire [of ?s HealthThread RestartCall False] by (simp add: run_at_upd)
  have "hm_groups (run_at p l pa f INACTIVE d) [0] = Some INACTIVE" for p l pa f d by (simp add: run_at_def)
  then show ?thesis
    using lifecycle_moves_legal [OF recovery_begins [folded run_at_init] step, of "[0]"] step by blast
qed

theorem pause_holds_witness:
  "pause_event (run_at Locked hlock True True ACTIVE GenerationPaused)"
proof -
  let ?s = "run_at Idle None True True ACTIVE GenerationPaused"
  have "paused_for_good ?s" "driver ?s = GenerationPaused" "\<not> is_checking (pc_of ?s HealthThread)"
    by (simp_all add: paused_for_good_def no_resumers_def run_at_def)
  moreover have "stays_paused {} ?s (run_at Locked hlock True True ACTIVE GenerationPaused)"
    by (rule pause_step [OF pause_start]) (use hm_step.run_lock [of ?s "{}"] in \<open>simp_all add: run_at_upd\<close>)
  ultimately show ?thesis using pause_holds [of ?s "{}"] by blast
qed

end
