(* ===== verification/Controller.thy ===== *)
theory Controller
  imports Recovery "HOL-Library.Char_ord"
begin

text \<open>
  The rollout controller (\<open>rl/rollout/controller.py\<close>): start-up of the worker registry, the
  session router (\<open>SessionRouter\<close> in \<open>rl/rollout/utils.py\<close>), the dispatch of a generate request
  and the registrations of the routed API proxy (\<open>rl/rollout/proxy_manager.py\<close>).

  The wall clock is a parameter: every reading of \<open>time.time()\<close> is an argument. A worker's answer
  and the proxy's admin API are parameters too.
\<close>

section \<open>Start-up\<close>

text \<open>
  \<open>_init_workers\<close>: \<open>started spec\<close> is the pair of URLs that the worker reports after launching;
  a worker reports its own rank, which is the position of its actor.
\<close>

definition init_workers ::
  "rollout_config \<Rightarrow> 'a list \<Rightarrow> (int \<times> int) list \<Rightarrow> (int \<Rightarrow> string option) \<Rightarrow>
    (ServerLaunchSpec \<Rightarrow> string \<times> string option) \<Rightarrow> 'a registry res" where
  "init_workers cfg actors rank_bundle_indices addrs started =
    rbind (build_rollout_topology cfg rank_bundle_indices addrs) (\<lambda>t.
    rbind (server_launch_specs t) (\<lambda>specs.
    rbind (rmap (\<lambda>sp. rbind (py_get actors (spec_worker_rank sp)) (\<lambda>_.
        Inr \<lparr>init_rank = spec_worker_rank sp, server_url = fst (started sp), init_session_url = snd (started sp)\<rparr>)) specs) (\<lambda>results.
    register_started_servers results actors ACTIVE (new_registry t))))"

section \<open>Session routing\<close>

record session_router =
  max_sessions :: nat
  max_idle :: "pyfloat option"
  session_map :: "(int \<times> (int \<times> pyfloat)) list"
  round_robin_cursor :: nat

definition new_router :: session_router where
  "new_router = \<lparr>max_sessions = 10000, max_idle = Some 3600, session_map = [], round_robin_cursor = 0\<rparr>"

text \<open>The map is an \<open>OrderedDict\<close>: its entries in insertion order, the oldest first.\<close>

definition session_expired :: "pyfloat \<Rightarrow> pyfloat \<Rightarrow> int \<times> (int \<times> pyfloat) \<Rightarrow> bool" where
  "session_expired now idle entry = (now - snd (snd entry) > idle)"

definition evict_expired :: "pyfloat \<Rightarrow> session_router \<Rightarrow> session_router" where
  "evict_expired now rt =
    (case max_idle rt of
       None \<Rightarrow> rt
     | Some idle \<Rightarrow>
         rt\<lparr>session_map := fold AList.delete
           (map fst (takeWhile (session_expired now idle) (session_map rt))) (session_map rt)\<rparr>)"

definition evict_lru_to_capacity :: "session_router \<Rightarrow> session_router" where
  "evict_lru_to_capacity rt =
    rt\<lparr>session_map := drop (length (session_map rt) - max_sessions rt) (session_map rt)\<rparr>"

definition choose_next_active_worker :: "'a registry \<Rightarrow> session_router \<Rightarrow> 'a WorkerSnapshot option \<times> session_router" where
  "choose_next_active_worker reg rt =
    (let candidates = active_entrypoints reg in
     if candidates = [] then (None, rt)
     else (Some (candidates ! (round_robin_cursor rt mod length candidates)),
           rt\<lparr>round_robin_cursor := round_robin_cursor rt + 1\<rparr>))"

text \<open>
  \<open>OrderedDict.__setitem__\<close> of a key that is not in the map appends. \<open>now1\<close> is the clock when
  expired sessions are evicted, \<open>now2\<close> when the session is stored.
\<close>

definition store_session :: "int \<Rightarrow> int \<Rightarrow> pyfloat \<Rightarrow> session_router \<Rightarrow> session_router" where
  "store_session sid rank now rt = rt\<lparr>session_map := AList.update sid (rank, now) (session_map rt)\<rparr>"

definition choose_and_store ::
  "'a registry \<Rightarrow> int \<Rightarrow> pyfloat \<Rightarrow> session_router \<Rightarrow> 'a WorkerSnapshot option \<times> session_router" where
  "choose_and_store reg sid now rt =
    (case choose_next_active_worker reg rt of
       (None, rt') \<Rightarrow> (None, rt')
     | (Some w, rt') \<Rightarrow> (Some w, evict_lru_to_capacity (store_session sid (snapshot_rank w) now rt')))"

definition get_worker ::
  "'a registry \<Rightarrow> int \<Rightarrow> pyfloat \<Rightarrow> pyfloat \<Rightarrow> session_router \<Rightarrow> 'a WorkerSnapshot option \<times> session_router" where
  "get_worker reg sid now1 now2 rt =
    (let rt1 = evict_expired now1 rt in
     case map_of (session_map rt1) sid of
       None \<Rightarrow> choose_and_store reg sid now2 rt1
     | Some (rank, _) \<Rightarrow>
         (let rt2 = rt1\<lparr>session_map := AList.delete sid (session_map rt1)\<rparr> in
          case active_entrypoint_by_rank reg rank of
            None \<Rightarrow> choose_and_store reg sid now2 rt2
          | Some w \<Rightarrow> (Some w, store_session sid rank now2 rt2)))"

section \<open>Generate\<close>

datatype worker_answer = Answered RolloutState | TimedOut

definition deterministic_seed :: "bool \<Rightarrow> int \<Rightarrow> RolloutState \<Rightarrow> RolloutState" where
  "deterministic_seed deterministic random_seed s =
    (if deterministic then
       s\<lparr>sample_params := (sample_params s)\<lparr>sp_sampling_seed := Some (random_seed +
          ((case rollout_id s of None \<Rightarrow> 0 | Some i \<Rightarrow> i) - (case group_id s of None \<Rightarrow> 0 | Some i \<Rightarrow> i)))\<rparr>\<rparr>
     else s)"

text \<open>
  \<open>fresh_id\<close> is the random session id of a request without one; \<open>answer\<close> is what the chosen worker
  does with the request within the timeout; the two messages are those of the code.
\<close>

definition generate ::
  "bool \<Rightarrow> int \<Rightarrow> string \<Rightarrow> int \<Rightarrow> ('a WorkerSnapshot \<Rightarrow> RolloutState \<Rightarrow> worker_answer) \<Rightarrow> 'a registry \<Rightarrow> pyfloat \<Rightarrow> pyfloat \<Rightarrow>
    session_router \<Rightarrow> RolloutState \<Rightarrow> RolloutState \<times> session_router" where
  "generate deterministic random_seed timeout_message fresh_id answer reg now1 now2 rt s =
    (let s' = deterministic_seed deterministic random_seed s;
         sid = (case session_id s' of Some i \<Rightarrow> i | None \<Rightarrow> fresh_id)
     in case get_worker reg sid now1 now2 rt of
          (None, rt') \<Rightarrow> (s'\<lparr>status := FAILED, error_msg := Some ''No active rollout worker available.''\<rparr>, rt')
        | (Some w, rt') \<Rightarrow>
            (case answer w s' of
               Answered s'' \<Rightarrow> (s'', rt')
             | TimedOut \<Rightarrow> (s'\<lparr>status := FAILED, error_msg := Some timeout_message\<rparr>, rt')))"

section \<open>Proxy registrations\<close>

text \<open>
  \<open>api\<close>: whether the admin API call for a URL succeeds. The registered URLs are a set, kept as a
  list; the lifecycle callbacks log a failed call and go on.
\<close>

definition register_session_url :: "(string \<Rightarrow> bool) \<Rightarrow> string option \<Rightarrow> string list \<Rightarrow> string list" where
  "register_session_url api u registered =
    (case u of
       None \<Rightarrow> registered
     | Some x \<Rightarrow> if x \<in> set registered then registered
                 else if api x then x # registered else registered)"

definition delete_session_url :: "(string \<Rightarrow> bool) \<Rightarrow> string option \<Rightarrow> string list \<Rightarrow> string list" where
  "delete_session_url api u registered =
    (case u of
       None \<Rightarrow> registered
     | Some x \<Rightarrow> if x \<notin> set registered then registered
                 else if api x then removeAll x registered else registered)"

definition on_worker_group_inactive :: "(string \<Rightarrow> bool) \<Rightarrow> 'a WorkerGroup \<Rightarrow> string list \<Rightarrow> string list" where
  "on_worker_group_inactive api grp =
    fold (\<lambda>w. if is_request_entrypoint w then delete_session_url api (session_url w) else id) (group_workers grp)"

definition on_worker_group_active :: "(string \<Rightarrow> bool) \<Rightarrow> 'a WorkerGroup \<Rightarrow> string list \<Rightarrow> string list" where
  "on_worker_group_active api grp =
    fold (\<lambda>w. if is_request_entrypoint w then register_session_url api (session_url w) else id) (group_workers grp)"

definition notify_listener :: "(string \<Rightarrow> bool) \<Rightarrow> 'a lifecycle_event \<Rightarrow> string list \<Rightarrow> string list" where
  "notify_listener api e =
    (case e of GroupActive g \<Rightarrow> on_worker_group_active api g | GroupInactive g \<Rightarrow> on_worker_group_inactive api g)"

text \<open>
  \<open>replace_registered_session_urls\<close>: \<open>clear_ok\<close> is whether the call that deletes every registration
  of the model succeeds. The registrations made before a failure stay, and the failure is raised.
\<close>

fun register_all :: "(string \<Rightarrow> bool) \<Rightarrow> string list \<Rightarrow> string list \<Rightarrow> string list \<times> bool" where
  "register_all api [] registered = (registered, True)"
| "register_all api (x # xs) registered =
    (if x \<in> set registered then register_all api xs registered
     else if api x then register_all api xs (x # registered) else (registered, False))"

definition replace_registered_session_urls ::
  "bool \<Rightarrow> (string \<Rightarrow> bool) \<Rightarrow> string list \<Rightarrow> string list \<Rightarrow> string list \<times> bool" where
  "replace_registered_session_urls clear_ok api urls registered =
    (if clear_ok then register_all api (sort (remdups urls)) [] else (registered, False))"

definition register_active_workers_to_proxy ::
  "bool \<Rightarrow> (string \<Rightarrow> bool) \<Rightarrow> 'a registry \<Rightarrow> string list \<Rightarrow> string list \<times> bool" where
  "register_active_workers_to_proxy clear_ok api reg registered =
    replace_registered_session_urls clear_ok api
      (sort (List.map_filter session_url (active_entrypoints reg))) registered"

section \<open>Start-up yields a registry in order\<close>

lemma launch_ranks:
  assumes "built t" "server_launch_specs t = Inr specs" "map spec_worker_rank specs = map worker_rank (all_servers (engines t))"
  shows "set (map spec_worker_rank specs) = server_ranks_of t"
  unfolding assms(3) server_ranks_of_def set_lifecycle_groups [OF assms(1)]
  by (auto simp: all_servers_def lifecycle_group_def)

lemma server_rank_in_engine:
  assumes "built t" "s \<in> set (all_servers (engines t))"
  shows "worker_rank s \<in> set (concat (map engine_ranks (engines t)))"
proof -
  obtain e where "e \<in> set (engines t)" "s \<in> set (server_processes e)" using assms(2) by (auto simp: all_servers_def)
  moreover from this have "worker_rank s \<in> set (engine_ranks e)"
    using built_ok [OF assms(1)] by (simp add: topology_ok_def engine_ok_def)
  ultimately show ?thesis by auto
qed

lemma init_workers_ok:
  assumes b: "build_rollout_topology cfg bundles addrs = Inr t" "built t"
    and ranks: "set (concat (map engine_ranks (engines t))) \<subseteq> {0..<int (length actors)}"
  shows "\<exists>reg. init_workers cfg actors bundles addrs started = Inr reg \<and> rollout_topology reg = t \<and> registry_ok reg \<and>
    group_state reg = (\<lambda>g. if g \<in> set (lifecycle_groups t) then Some ACTIVE else None)"
proof -
  obtain specs where specs: "server_launch_specs t = Inr specs"
    "map spec_worker_rank specs = map worker_rank (all_servers (engines t))"
    using launch_specs_ok [OF b(2)] by blast
  define mk where "mk sp = \<lparr>init_rank = spec_worker_rank sp, server_url = fst (started sp), init_session_url = snd (started sp)\<rparr>" for sp
  have rank: "0 \<le> spec_worker_rank sp \<and> spec_worker_rank sp < int (length actors)" if "sp \<in> set specs" for sp
  proof -
    have "spec_worker_rank sp \<in> set (map worker_rank (all_servers (engines t)))" unfolding specs(2) [symmetric] using that by simp
    then show ?thesis using server_rank_in_engine [OF b(2)] ranks by fastforce
  qed
  have results: "rmap (\<lambda>sp. rbind (py_get actors (spec_worker_rank sp)) (\<lambda>_.
        Inr \<lparr>init_rank = spec_worker_rank sp, server_url = fst (started sp), init_session_url = snd (started sp)\<rparr>)) specs = Inr (map mk specs)"
    by (rule rmap_total) (use rank in \<open>auto simp: py_get_def mk_def\<close>)
  have "init_rank ` set (map mk specs) = server_ranks_of t"
    using launch_ranks [OF b(2) specs] by (simp add: mk_def image_image)
  then have "\<exists>reg. register_started_servers (map mk specs) actors ACTIVE (new_registry t) = Inr reg \<and> rollout_topology reg = t \<and>
      registry_ok reg \<and> group_state reg = (\<lambda>g. if g \<in> set (lifecycle_groups t) then Some ACTIVE else None)"
    by (rule register_ok [OF b(2)]) (use rank in \<open>auto simp: mk_def\<close>)
  then show ?thesis by (simp add: init_workers_def b(1) specs(1) results)
qed

section \<open>The router hands out active entrypoints\<close>

definition clock_ordered :: "(int \<times> (int \<times> pyfloat)) list \<Rightarrow> bool" where
  "clock_ordered m = sorted (map (snd \<circ> snd) m)"

definition router_inv :: "pyfloat \<Rightarrow> session_router \<Rightarrow> bool" where
  "router_inv now rt =
    (distinct (map fst (session_map rt)) \<and> clock_ordered (session_map rt) \<and>
     (\<forall>(sid, rank, last_used) \<in> set (session_map rt). last_used \<le> now) \<and>
     length (session_map rt) \<le> max_sessions rt)"

lemma fold_delete_prefix:
  "distinct (map fst (xs @ ys)) \<Longrightarrow> fold AList.delete (map fst xs) (xs @ ys) = ys"
proof (induction xs)
  case (Cons x xs)
  have "AList.delete (fst x) ((x # xs) @ ys) = xs @ ys"
    using Cons.prems by (simp add: delete_absent image_Un)
  then show ?case using Cons by simp
qed simp

text \<open>
  In a map ordered by last use, evicting the expired prefix is evicting every expired session.
\<close>

lemma dropWhile_sorted_filter:
  "sorted (map f xs) \<Longrightarrow> dropWhile (\<lambda>x. now - f x > idle) xs = filter (\<lambda>x. now - f x \<le> (idle :: pyfloat)) xs"
proof (induction xs)
  case (Cons x xs)
  show ?case
  proof (cases "now - f x > idle")
    case True
    with Cons show ?thesis by simp
  next
    case False
    then have "\<forall>y \<in> set xs. now - f y \<le> idle" using Cons.prems by fastforce
    then have "filter (\<lambda>x. now - f x \<le> idle) xs = xs" by (simp add: filter_id_conv)
    with False show ?thesis by simp
  qed
qed simp

lemma evict_expired_filter:
  assumes "router_inv t rt"
  shows "session_map (evict_expired now rt) =
    (case max_idle rt of None \<Rightarrow> session_map rt
     | Some idle \<Rightarrow> filter (\<lambda>e. now - snd (snd e) \<le> idle) (session_map rt))"
proof (cases "max_idle rt")
  case (Some idle)
  let ?P = "session_expired now idle" and ?m = "session_map rt"
  have "fold AList.delete (map fst (takeWhile ?P ?m)) ?m = dropWhile ?P ?m"
    using fold_delete_prefix [of "takeWhile ?P ?m" "dropWhile ?P ?m"] assms unfolding takeWhile_dropWhile_id
    by (simp add: router_inv_def)
  moreover have "dropWhile (\<lambda>e. now - snd (snd e) > idle) ?m = filter (\<lambda>e. now - snd (snd e) \<le> idle) ?m"
    by (rule dropWhile_sorted_filter) (use assms in \<open>simp add: router_inv_def clock_ordered_def comp_def\<close>)
  ultimately show ?thesis using Some by (simp add: evict_expired_def session_expired_def [abs_def])
qed (simp add: evict_expired_def)

lemma router_inv_filter:
  assumes "router_inv t rt" "t \<le> now"
  shows "router_inv now (rt\<lparr>session_map := filter P (session_map rt)\<rparr>)"
proof -
  have "sorted (map f (filter P xs))" if "sorted (map f xs)" for f :: "'b \<Rightarrow> pyfloat" and P xs
    using that by (rule sorted_filter)
  moreover have "length (filter P (session_map rt)) \<le> max_sessions rt"
    using assms(1) by (auto simp: router_inv_def intro: le_trans [OF length_filter_le])
  ultimately show ?thesis using assms
    by (fastforce simp: router_inv_def clock_ordered_def intro: distinct_map_filter)
qed

lemma router_inv_evict:
  assumes "router_inv t rt" "t \<le> now"
  shows "router_inv now (evict_expired now rt)"
proof -
  have "\<exists>P. session_map (evict_expired now rt) = filter P (session_map rt)"
    unfolding evict_expired_filter [OF assms(1)] by (cases "max_idle rt") (auto intro: exI [of _ "\<lambda>_. True"])
  then obtain P where P: "session_map (evict_expired now rt) = filter P (session_map rt)" ..
  have "evict_expired now rt = rt\<lparr>session_map := session_map (evict_expired now rt)\<rparr>"
    by (simp add: evict_expired_def split: option.split)
  then show ?thesis using router_inv_filter [OF assms, of P] P by simp
qed

text \<open>Storing a session that is not in the map, at the current time, and evicting keeps the order.\<close>

lemma router_inv_store:
  assumes inv: "router_inv t rt" and "t \<le> now" and new: "sid \<notin> fst ` set (session_map rt)"
  shows "session_map (store_session sid rank now rt) = session_map rt @ [(sid, rank, now)]"
    and "router_inv now (evict_lru_to_capacity (store_session sid rank now rt))"
    and "length (session_map rt) < max_sessions rt \<Longrightarrow> router_inv now (store_session sid rank now rt)"
proof -
  show m: "session_map (store_session sid rank now rt) = session_map rt @ [(sid, rank, now)]"
    using new by (simp add: store_session_def update_new)
  let ?m = "session_map rt @ [(sid, rank, now)]"
  have d: "distinct (map fst ?m)" using inv new by (simp add: router_inv_def)
  have s: "clock_ordered ?m" using inv assms(2) by (fastforce simp: router_inv_def clock_ordered_def sorted_append)
  have b: "\<forall>(sid, rank, last_used) \<in> set ?m. last_used \<le> now" using inv assms(2) by (fastforce simp: router_inv_def)
  have "distinct (map fst (drop n ?m)) \<and> clock_ordered (drop n ?m) \<and> (\<forall>(sid, rank, last_used) \<in> set (drop n ?m). last_used \<le> now)" for n
    using d s b by (simp only: drop_map [symmetric] clock_ordered_def distinct_drop sorted_wrt_drop) (auto dest: in_set_dropD)
  note any = this
  define kept_map where "kept_map = drop (length ?m - max_sessions rt) ?m"
  note kept = any [of "length ?m - max_sessions rt", folded kept_map_def]
  have "evict_lru_to_capacity (store_session sid rank now rt) = rt\<lparr>session_map := kept_map\<rparr>"
    using m by (simp add: evict_lru_to_capacity_def store_session_def kept_map_def)
  moreover have "length kept_map \<le> max_sessions rt" unfolding kept_map_def length_drop by arith
  ultimately show "router_inv now (evict_lru_to_capacity (store_session sid rank now rt))"
    using kept by (simp add: router_inv_def)
  show "length (session_map rt) < max_sessions rt \<Longrightarrow> router_inv now (store_session sid rank now rt)"
    using d s b by (simp add: router_inv_def m) (simp add: store_session_def)
qed

text \<open>The worker a session is bound to, when its entry has not expired and the worker can still serve.\<close>

definition sticky_worker :: "'a registry \<Rightarrow> int \<Rightarrow> pyfloat \<Rightarrow> session_router \<Rightarrow> 'a WorkerSnapshot option" where
  "sticky_worker reg sid now rt =
    (case map_of (session_map rt) sid of
       None \<Rightarrow> None
     | Some (rank, last_used) \<Rightarrow>
         (if (case max_idle rt of None \<Rightarrow> False | Some idle \<Rightarrow> now - last_used > idle) then None
          else active_entrypoint_by_rank reg rank))"

lemma evict_expired_simps [simp]:
  "max_sessions (evict_expired now rt) = max_sessions rt" "max_idle (evict_expired now rt) = max_idle rt"
  "round_robin_cursor (evict_expired now rt) = round_robin_cursor rt"
  by (simp_all add: evict_expired_def split: option.split)

lemma map_of_filter_value: "distinct (map fst m) \<Longrightarrow>
    map_of (filter (\<lambda>e. P (snd e)) m) k = (case map_of m k of None \<Rightarrow> None | Some v \<Rightarrow> if P v then Some v else None)"
proof (induction m)
  case (Cons kv m)
  obtain k' v where kv: "kv = (k', v)" by (cases kv)
  have "map_of m k' = None" using Cons.prems by (simp add: kv map_of_eq_None_iff)
  with Cons show ?case by (auto simp: kv split: option.splits)
qed simp

lemma map_of_evict_expired:
  assumes "router_inv t rt"
  shows "map_of (session_map (evict_expired now rt)) sid =
    (case map_of (session_map rt) sid of None \<Rightarrow> None
     | Some (rank, last_used) \<Rightarrow>
         if (case max_idle rt of None \<Rightarrow> False | Some idle \<Rightarrow> now - last_used > idle) then None else Some (rank, last_used))"
proof (cases "max_idle rt")
  case None
  then show ?thesis by (simp add: evict_expired_filter [OF assms] split: option.split)
next
  case (Some idle)
  have "distinct (map fst (session_map rt))" using assms by (simp add: router_inv_def)
  from map_of_filter_value [OF this, of "\<lambda>v. now - snd v \<le> idle" sid] show ?thesis
    by (auto simp: evict_expired_filter [OF assms] Some split: option.splits)
qed

lemma delete_router_inv:
  assumes "router_inv now rt"
  shows "router_inv now (rt\<lparr>session_map := AList.delete sid (session_map rt)\<rparr>)"
    and "sid \<notin> fst ` set (session_map (rt\<lparr>session_map := AList.delete sid (session_map rt)\<rparr>))"
    and "sid \<in> fst ` set (session_map rt) \<Longrightarrow> length (AList.delete sid (session_map rt)) < length (session_map rt)"
proof -
  show "router_inv now (rt\<lparr>session_map := AList.delete sid (session_map rt)\<rparr>)"
    unfolding AList.delete_eq by (rule router_inv_filter [OF assms order_refl])
  show "sid \<notin> fst ` set (session_map (rt\<lparr>session_map := AList.delete sid (session_map rt)\<rparr>))"
    by (auto simp: AList.delete_eq)
  show "length (AList.delete sid (session_map rt)) < length (session_map rt)" if "sid \<in> fst ` set (session_map rt)"
    unfolding AList.delete_eq using that by (auto intro!: length_filter_less)
qed

lemma choose_and_store_ok:
  assumes inv: "router_inv t rt" and "t \<le> now" and new: "sid \<notin> fst ` set (session_map rt)"
    and bound: "fst ` set (session_map rt) \<subseteq> S"
  shows "\<exists>rt'. choose_and_store reg sid now rt =
      (if active_entrypoints reg = [] then None
       else Some (active_entrypoints reg ! (round_robin_cursor rt mod length (active_entrypoints reg))), rt') \<and>
    router_inv now rt' \<and> round_robin_cursor rt' = round_robin_cursor rt + (if active_entrypoints reg = [] then 0 else 1) \<and>
    fst ` set (session_map rt') \<subseteq> insert sid S"
proof (cases "active_entrypoints reg = []")
  case True
  have "router_inv now rt" using inv assms(2) by (fastforce simp: router_inv_def)
  moreover have "fst ` set (session_map rt) \<subseteq> insert sid S" using bound by blast
  ultimately show ?thesis using True by (simp add: choose_and_store_def choose_next_active_worker_def)
next
  case False
  let ?w = "active_entrypoints reg ! (round_robin_cursor rt mod length (active_entrypoints reg))"
  let ?rt = "rt\<lparr>round_robin_cursor := round_robin_cursor rt + 1\<rparr>"
  let ?rt' = "evict_lru_to_capacity (store_session sid (snapshot_rank ?w) now ?rt)"
  have "choose_and_store reg sid now rt = (Some ?w, ?rt')"
    using False by (simp add: choose_and_store_def choose_next_active_worker_def Let_def)
  moreover have inv': "router_inv t ?rt" using inv by (simp add: router_inv_def)
  have "router_inv now ?rt'" by (rule router_inv_store(2) [OF inv' assms(2)]) (use new in simp)
  moreover have "round_robin_cursor ?rt' = round_robin_cursor rt + 1"
    by (simp add: evict_lru_to_capacity_def store_session_def)
  moreover have "fst ` set (session_map ?rt') \<subseteq> insert sid S"
    using new bound by (auto simp: evict_lru_to_capacity_def store_session_def update_new dest: in_set_dropD)
  ultimately show ?thesis using False by simp
qed

definition routed :: "'a registry \<Rightarrow> int \<Rightarrow> pyfloat \<Rightarrow> session_router \<Rightarrow> 'a WorkerSnapshot option" where
  "routed reg sid now rt =
    (case sticky_worker reg sid now rt of
       Some w \<Rightarrow> Some w
     | None \<Rightarrow> if active_entrypoints reg = [] then None
               else Some (active_entrypoints reg ! (round_robin_cursor rt mod length (active_entrypoints reg))))"

lemma get_worker_ok:
  assumes inv: "router_inv t rt" and clock: "t \<le> now1" "now1 \<le> now2"
  shows "\<exists>rt'. get_worker reg sid now1 now2 rt = (routed reg sid now1 rt, rt') \<and> router_inv now2 rt' \<and>
    round_robin_cursor rt' = round_robin_cursor rt +
      (if sticky_worker reg sid now1 rt = None \<and> active_entrypoints reg \<noteq> [] then 1 else 0) \<and>
    fst ` set (session_map rt') \<subseteq> insert sid (fst ` set (session_map rt))"
proof -
  let ?rt1 = "evict_expired now1 rt"
  note inv1 = router_inv_evict [OF inv clock(1)]
  have sub: "fst ` set (session_map ?rt1) \<subseteq> fst ` set (session_map rt)"
    by (auto simp: evict_expired_filter [OF inv] split: option.split)
  show ?thesis
  proof (cases "map_of (session_map ?rt1) sid")
    case None
    then have new: "sid \<notin> fst ` set (session_map ?rt1)" by (simp add: map_of_eq_None_iff)
    have "sticky_worker reg sid now1 rt = None"
      using None map_of_evict_expired [OF inv, of now1 sid] by (auto simp: sticky_worker_def split: option.splits if_splits)
    then show ?thesis using choose_and_store_ok [OF inv1 clock(2) new sub, of reg] None
      by (auto simp: get_worker_def Let_def routed_def)
  next
    case (Some v)
    obtain rank last where v: "v = (rank, last)" by (cases v)
    have sticky: "sticky_worker reg sid now1 rt = active_entrypoint_by_rank reg rank"
      using Some v map_of_evict_expired [OF inv, of now1 sid] by (auto simp: sticky_worker_def split: option.splits if_splits)
    let ?rt2 = "?rt1\<lparr>session_map := AList.delete sid (session_map ?rt1)\<rparr>"
    note inv2 = delete_router_inv(1,2) [OF inv1, of sid]
    have sub2: "fst ` set (session_map ?rt2) \<subseteq> fst ` set (session_map rt)" using sub by (auto simp: AList.delete_eq)
    show ?thesis
    proof (cases "active_entrypoint_by_rank reg rank")
      case None
      then show ?thesis using choose_and_store_ok [OF inv2(1) clock(2) inv2(2) sub2, of reg] Some v sticky
        by (auto simp: get_worker_def Let_def routed_def)
    next
      case w: (Some w)
      have "sid \<in> fst ` set (session_map ?rt1)" using Some by (force dest: map_of_SomeD)
      then have "length (session_map ?rt2) < max_sessions ?rt2"
        using delete_router_inv(3) [OF inv1] inv1 by (fastforce simp: router_inv_def)
      then have "router_inv now2 (store_session sid rank now2 ?rt2)" by (rule router_inv_store(3) [OF inv2(1) clock(2) inv2(2)])
      moreover have "fst ` set (session_map (store_session sid rank now2 ?rt2)) \<subseteq> insert sid (fst ` set (session_map rt))"
        unfolding router_inv_store(1) [OF inv2(1) clock(2) inv2(2)] using sub2 by auto
      moreover have "round_robin_cursor (store_session sid rank now2 ?rt2) = round_robin_cursor rt" by (simp add: store_session_def)
      ultimately show ?thesis using Some v w sticky by (simp add: get_worker_def Let_def routed_def)
    qed
  qed
qed

lemma entrypoint_by_rank:
  assumes "registry_ok reg" "active_entrypoint_by_rank reg r = Some w"
  shows "w \<in> set (active_entrypoints reg) \<and> snapshot_rank w = r"
proof -
  have w: "worker_at reg r = Some w" "is_active w" "is_request_entrypoint w"
    using assms(2) by (auto simp: active_entrypoint_by_rank_def split: option.splits if_splits)
  then have "w \<in> set (map snd (workers reg))" by (force simp: worker_at_def dest: map_of_SomeD)
  then show ?thesis using w registry_wfD(4) assms(1) by (auto simp: active_entrypoints_def registry_ok_def)
qed



subsection \<open>Round robin\<close>

lemma mset_rotate_all: "mset (rotate n xs) = mset xs"
  by (metis append_take_drop_id mset_append rotate_drop_take union_commute)


fun route_all ::
  "'a registry \<Rightarrow> (int \<times> pyfloat \<times> pyfloat) list \<Rightarrow> session_router \<Rightarrow> 'a WorkerSnapshot option list \<times> session_router" where
  "route_all reg [] rt = ([], rt)"
| "route_all reg ((sid, now1, now2) # requests) rt =
    (case get_worker reg sid now1 now2 rt of (w, rt') \<Rightarrow>
      (case route_all reg requests rt' of (ws, rt'') \<Rightarrow> (w # ws, rt'')))"

fun clock_runs :: "pyfloat \<Rightarrow> (int \<times> pyfloat \<times> pyfloat) list \<Rightarrow> bool" where
  "clock_runs t [] = True"
| "clock_runs t ((sid, now1, now2) # requests) = (t \<le> now1 \<and> now1 \<le> now2 \<and> clock_runs now2 requests)"

lemma route_all_new:
  "router_inv t rt \<Longrightarrow> clock_runs t requests \<Longrightarrow> distinct (map fst requests) \<Longrightarrow>
    fst ` set requests \<inter> fst ` set (session_map rt) = {} \<Longrightarrow> active_entrypoints reg \<noteq> [] \<Longrightarrow>
    fst (route_all reg requests rt) =
      map (\<lambda>i. Some (active_entrypoints reg ! ((round_robin_cursor rt + i) mod length (active_entrypoints reg)))) [0..<length requests]"
proof (induction reg requests rt arbitrary: t rule: route_all.induct)
  case (2 reg sid now1 now2 requests rt)
  let ?eps = "active_entrypoints reg"
  obtain rt' where r: "get_worker reg sid now1 now2 rt = (routed reg sid now1 rt, rt')" "router_inv now2 rt'"
    "round_robin_cursor rt' = round_robin_cursor rt + (if sticky_worker reg sid now1 rt = None \<and> ?eps \<noteq> [] then 1 else 0)"
    "fst ` set (session_map rt') \<subseteq> insert sid (fst ` set (session_map rt))"
    using get_worker_ok [OF "2.prems"(1), of now1 now2 reg sid] "2.prems"(2) by auto
  have "map_of (session_map rt) sid = None" using "2.prems"(4) by (auto simp: map_of_eq_None_iff)
  then have none: "sticky_worker reg sid now1 rt = None" by (simp add: sticky_worker_def)
  have cursor: "round_robin_cursor rt' = Suc (round_robin_cursor rt)" using r(3) none "2.prems"(5) by simp
  have disjoint: "fst ` set requests \<inter> fst ` set (session_map rt') = {}"
    using r(4) "2.prems"(3,4) unfolding list.map list.set distinct.simps set_map fst_conv image_insert by blast
  have "fst (route_all reg requests rt') =
      map (\<lambda>i. Some (?eps ! ((round_robin_cursor rt' + i) mod length ?eps))) [0..<length requests]"
    by (rule "2.IH" [OF r(1) [symmetric] r(2) _ _ disjoint]) (use "2.prems" in auto)
  moreover have "map (\<lambda>i. Some (?eps ! ((round_robin_cursor rt + i) mod length ?eps))) [0..<Suc (length requests)] =
      Some (?eps ! (round_robin_cursor rt mod length ?eps)) #
      map (\<lambda>i. Some (?eps ! ((Suc (round_robin_cursor rt) + i) mod length ?eps))) [0..<length requests]"
    by (simp add: map_upt_Suc del: upt_Suc)
  ultimately show ?case using r(1) none "2.prems"(5)
    by (simp add: routed_def cursor case_prod_beta del: upt_Suc)
qed simp

text \<open>
  As many new sessions as there are active entrypoints are spread over them, one each, wherever
  the cursor stands.
\<close>

theorem round_robin_fair:
  assumes "router_inv t rt" and "clock_runs t requests" and "distinct (map fst requests)"
    and "fst ` set requests \<inter> fst ` set (session_map rt) = {}" and "length requests = length (active_entrypoints reg)"
  shows "mset (fst (route_all reg requests rt)) = mset (map Some (active_entrypoints reg))"
proof (cases "active_entrypoints reg = []")
  case True
  with assms(5) show ?thesis by simp
next
  case False
  let ?eps = "active_entrypoints reg"
  have "map (\<lambda>i. ?eps ! ((round_robin_cursor rt + i) mod length ?eps)) [0..<length ?eps] = rotate (round_robin_cursor rt) ?eps"
    by (rule nth_equalityI) (simp_all add: nth_rotate)
  then have "fst (route_all reg requests rt) = map Some (rotate (round_robin_cursor rt) ?eps)"
    unfolding route_all_new [OF assms(1-4) False] assms(5) by (metis (no_types, lifting) map_map comp_def map_eq_conv)
  then show ?thesis by (simp add: mset_rotate_all)
qed

theorem round_robin_fair_witness:
  "mset (fst (route_all example_registry [(7, 10, 11)] new_router)) = mset (map Some (active_entrypoints example_registry))"
proof -
  have "router_inv 10 new_router" by (simp add: router_inv_def new_router_def clock_ordered_def)
  moreover have "length (active_entrypoints example_registry) = 1" by code_simp
  ultimately show ?thesis by (intro round_robin_fair [where t = 10]) (simp_all add: new_router_def)
qed

end
