(* ===== verification/Spec2Isabelle.thy ===== *)
theory Spec2Isabelle
  imports RLPlan PackDatasets Schedule PendingTasks DisaggManager HealthThreads Controller
begin

text \<open>
  Verification of the core of XTuner V1, the training engine under \<^verbatim>\<open>src/xtuner/v1\<close>.

  \<^bold>\<open>The program.\<close> XTuner trains language models by supervised fine-tuning and by reinforcement
  learning. Around the tensor computation, which runs on accelerators, there is a layer of ordinary
  Python that decides what is computed: which samples are read by which rank and in which order,
  how samples of different lengths are packed into sequences of bounded length, how prompts become
  groups of rollouts, how finished rollouts wait in a replay buffer while the weights move on, when a
  token is too old to be trained on, and how a batch of rollouts is cut into optimizer steps for the
  ranks. This development models that layer.

  \<^bold>\<open>How the parts interact.\<close> Supervised training reads a packed dataset (\<open>PackDatasets\<close>) built by a
  soft or hard packer (\<open>SoftPack\<close>, \<open>HardPack\<close>) through a distributed sampler and a resumable
  dataloader (\<open>DataSampler\<close>). Reinforcement learning starts at the prompt sampler (\<open>RLSampler\<close>), which
  reads prompts through the same distributed samplers or takes interrupted groups back from the replay
  buffer. A production strategy (\<open>Producer\<close>) hands groups to agent loops, keeps them in a shared set
  of pending tasks (\<open>PendingTasks\<close>), puts the results into the replay buffer (\<open>ProduceUtils\<close>,
  \<open>ReplayBuffer\<close>, \<open>ReplayStorage\<close>, \<open>ReplayQuery\<close>) and counts them (\<open>Progress\<close>). The record that
  travels is the rollout state (\<open>RolloutData\<close>); conversations of several turns are assembled from a
  prefix tree of tokenized text (\<open>TraceStore\<close>). The agent loops send their requests to the rollout
  controller (\<open>Controller\<close>), which routes sessions to the active workers of its registry (\<open>Registry\<close>), laid
  out by a topology (\<open>Topology\<close>); a health manager takes failing groups of workers out of service, restarts
  them and hands them to the trainer for new weights (\<open>Health\<close>, \<open>Recovery\<close>, \<open>HealthThreads\<close>). The manager
  (\<open>Manager\<close>, \<open>ManagerState\<close>, \<open>DisaggManager\<close>) then takes a training batch (\<open>TrainBatch\<close>)
  and the trainer cuts it with the data packer (\<open>RLPack\<close>, \<open>RLPlan\<close>) and repeats it under the update
  schedule (\<open>Schedule\<close>).

  \<^bold>\<open>Theories and the code they model\<close> (paths under \<^verbatim>\<open>src/xtuner/v1\<close>; a definition has the name of its
  function or method, with the class as prefix where two classes share it).

  \<^item> \<open>Prelude\<close>: Python exceptions as values of a sum type, slices, chunking, dictionaries in insertion
    order; lemmas and the simplification collections shared below.
  \<^item> \<open>SoftPack\<close>, \<open>HardPack\<close>, \<open>PackDatasets\<close>: \<^verbatim>\<open>datasets/packing.py\<close>. Soft packing keeps samples whole: each
    index once, no pack above the budget unless it is one sample, within a factor two of the optimum. Hard packing
    cuts the shuffled token stream: reading all packs returns its consecutive full blocks. The locale
    \<open>index_packer\<close> is the contract of a packing routine, \<open>dataset_packer\<close> that of a dataset class.
  \<^item> \<open>DataSampler\<close>: \<^verbatim>\<open>datasets/sampler.py\<close>, \<^verbatim>\<open>datasets/preset_sampler.py\<close>, \<^verbatim>\<open>datasets/dataloader.py\<close>. The locale
    \<open>distributed_sampler\<close> says that the slices of the ranks interleave to the order of the epoch; it is
    interpreted on the three samplers. Saving and resuming reads exactly the rest of the epoch.
  \<^item> \<open>RLPack\<close>, \<open>RLPlan\<close>: \<^verbatim>\<open>rl/trainer/pack.py\<close>. The locale \<open>rl_strategy\<close> is interpreted on all five
    strategies and on the configured one; the checks inside the code never raise; the unbounded search of the
    longest-processing-time strategy ends; rows distributed over the ranks come back in order.
  \<^item> \<open>Schedule\<close>: \<^verbatim>\<open>rl/trainer/schedule.py\<close> and the warmup of \<^verbatim>\<open>config/optim.py\<close>.
  \<^item> \<open>RolloutData\<close>: \<^verbatim>\<open>data_proto/rl_data.py\<close>, \<^verbatim>\<open>data_proto/utils.py\<close> and the reference helpers of
    \<^verbatim>\<open>rl/utils/ray_utils.py\<close>: the record, its training fields and their validation, release of the
    references it owns, token versions and staleness.
  \<^item> \<open>TraceStore\<close>: \<^verbatim>\<open>rl/rollout/trace_store.py\<close>. The locale \<open>prefix_store\<close> is the abstract map which the
    prefix tree refines; sessions export the recorded turns and free each reference once.
  \<^item> \<open>ReplayQuery\<close>, \<open>ReplayStorage\<close>, \<open>ReplayBuffer\<close>: \<^verbatim>\<open>rl/replay_buffer.py\<close> and the query parser of
    \<^verbatim>\<open>rl/utils/misc.py\<close>. The locale \<open>storage_backend\<close> is the contract between the policies and the storage.
  \<^item> \<open>RLSampler\<close>: \<^verbatim>\<open>rl/agent_loop_manager/sampler.py\<close>; the locale \<open>epoch_reader\<close> extends
    \<open>distributed_sampler\<close> by the laws that resuming needs.
  \<^item> \<open>Progress\<close>, \<open>ProduceUtils\<close>, \<open>PendingTasks\<close>, \<open>TrainBatch\<close>, \<open>Producer\<close>: \<^verbatim>\<open>rl/agent_loop_manager/producer.py\<close>,
    \<^verbatim>\<open>disagg_producer.py\<close> and \<^verbatim>\<open>produce_utils.py\<close>.
  \<^item> \<open>Manager\<close>, \<open>ManagerState\<close>: \<^verbatim>\<open>rl/agent_loop_manager/agent_loop_manager.py\<close>. A production strategy is a coroutine
    that is advanced one turn of its waiting loop at a time; the manager gathers several of them, so a run
    is any interleaving of their turns. Checkpoints and building from configurations are in \<open>ManagerState\<close>.
  \<^item> \<open>DisaggManager\<close>: \<^verbatim>\<open>rl/agent_loop_manager/disagg_agent_loop_manager.py\<close> and the loop of the disaggregated
    trainer in \<^verbatim>\<open>train/rl_trainer.py\<close>, as a step relation between the background producer and the trainer.
  \<^item> \<open>Topology\<close>: \<^verbatim>\<open>rl/rollout/rollout_topology.py\<close> and \<open>build_rollout_topology\<close> of \<^verbatim>\<open>lmdeploy.py\<close>, \<^verbatim>\<open>vllm.py\<close>
    and \<^verbatim>\<open>sglang.py\<close>. The validation accepts exactly the partitions of ranks and bundles it describes (two
    server processes of one engine with the same worker rank are not refused), and every backend builds one.
  \<^item> \<open>Registry\<close>: \<^verbatim>\<open>rl/rollout/worker_registry.py\<close>, which refines a machine with one lifecycle state per group.
  \<^item> \<open>Health\<close>, \<open>Recovery\<close>, \<open>HealthThreads\<close>: \<^verbatim>\<open>rl/rollout/health_manager.py\<close>, the lifecycle operations of
    \<^verbatim>\<open>rl/rollout/controller.py\<close> and the weight update of recovered groups in \<^verbatim>\<open>rl/health_manager.py\<close>. The remote
    workers are a function from the calls made so far to the reply, so a theorem covers everything they may
    answer; the threads are a step relation over program points, the lifecycle lock and the events.
  \<^item> \<open>Controller\<close>: start-up, session routing and dispatch of \<^verbatim>\<open>rl/rollout/controller.py\<close> and \<^verbatim>\<open>rl/rollout/utils.py\<close>,
    and the registrations of \<^verbatim>\<open>rl/rollout/proxy_manager.py\<close>.

  \<^bold>\<open>Parameters.\<close> What the sources only call is an argument: random permutations, the hash of the pack
  cache, the numeric key sort of numpy (any argsort), the agent loops (the states they return and the exceptions they
  raise), the clock, the Ray object store (a heap of values from which references are
  resolved and freed). Hypotheses on them are documented behaviour of those libraries and are listed
  in each theorem; every theorem with a hypothesis is applied once to a concrete input.

  \<^bold>\<open>Bounds and fuel.\<close> Floating-point quantities are exact rationals or reals where the code uses them in comparisons
  (weights, learning rates). The event loop is a list of rounds, one per turn of the code's waiting loop, each
  with the tasks that finished in it; a theorem about production quantifies over all
  such lists, and not returning within a list is the value \<open>None\<close>. The depth that nested snapshots follow is bounded by the
  length of the heap, which an acyclic heap never exceeds. The search for the number of bins in
  \<open>get_lpt_pack_infos\<close> is a partial function that is proved to return.

  \<^bold>\<open>Not modelled.\<close> Models, kernels, losses, optimizers and weight transport are tensor computation. The
  rollout servers adapt external inference engines over HTTP. Agent loops, judgers and sandboxes call
  models, tools and graders outside of the program. Trainers are mostly file-system and process-group
  code around the parts above. \<open>PandasStorage\<close> consists of calls into pandas and no configuration builds it. The older
  command-line package under \<^verbatim>\<open>src/xtuner\<close> outside \<^verbatim>\<open>v1\<close> is a separate program.
\<close>

end
